(* ===== verification/Prelude.thy ===== *)
theory Prelude
  imports Main "HOL-Library.Word" "HOL-Library.Multiset"
begin

text \<open>
  What the component theories share: the results of system calls, the ways a program of the
  repository ends early, the random generator, C's array idioms (swap, the search loop with a
  \<^verbatim>\<open>break\<close>), and the notions of transition system used for the concurrent programs.

  Conventions.  A system call returns \<open>Ok v\<close> or \<open>Fail e\<close> (the call returned -1 and set
  \<^verbatim>\<open>errno\<close> to \<open>e\<close>).  A function that may leave through the macro \<^verbatim>\<open>ERR\<close>
  or through \<^verbatim>\<open>exit\<close> returns a sum: \<open>Inl\<close> the way it ended, \<open>Inr\<close> its result.
\<close>

named_theorems eval_simps \<open>equations that evaluate the model on concrete inputs\<close>

section \<open>System calls and early exits\<close>

datatype errno =
    EINTR | EAGAIN | EPIPE | EBADF | ECONNRESET | ECHILD | EEXIST | ENOENT | EOWNERDEAD | EOTHER

datatype 'a sysret = Ok 'a | Fail errno

text \<open>
  \<open>ERR s\<close> is the macro \<^verbatim>\<open>ERR(s)\<close> of the sources (message on standard error, then
  \<^verbatim>\<open>exit(EXIT_FAILURE)\<close>, in some programs after \<^verbatim>\<open>kill(0, SIGKILL)\<close>);
  \<open>Usage\<close> is the call of \<^verbatim>\<open>usage\<close>; \<open>Undefined s\<close> marks undefined behaviour of C
  (an access outside an array, a signed overflow), which a model must not give a value.
\<close>

datatype fatal = ERR string | Usage | Undefined string

type_synonym 'a run = "fatal + 'a"

definition bindr :: "'a run \<Rightarrow> ('a \<Rightarrow> 'b run) \<Rightarrow> 'b run" where
  "bindr m f = (case m of Inl e \<Rightarrow> Inl e | Inr x \<Rightarrow> f x)"

lemma bindr_simps [simp]:
  "bindr (Inl e) f = Inl e"
  "bindr (Inr x) f = f x"
  by (simp_all add: bindr_def)

lemma bindr_eq_Inr_iff: "bindr m f = Inr y \<longleftrightarrow> (\<exists>x. m = Inr x \<and> f x = Inr y)"
  by (cases m) auto

lemma bindr_eq_Inl_iff:
  "bindr m f = Inl e \<longleftrightarrow> m = Inl e \<or> (\<exists>x. m = Inr x \<and> f x = Inl e)"
  by (cases m) auto

text \<open>\<open>errored\<close>: the run left through one of the early exits.\<close>

definition errored :: "'a run \<Rightarrow> bool" where
  "errored m = (case m of Inl _ \<Rightarrow> True | Inr _ \<Rightarrow> False)"

lemma errored_simps [simp]: "errored (Inl e)" "\<not> errored (Inr x)"
  by (simp_all add: errored_def)

text \<open>
  A piece of a program with visible effects: the list of effects it caused, in order, and how it
  ended.  \<open>seq m f\<close> runs \<open>f\<close> on the result of \<open>m\<close> and puts its effects behind those of
  \<open>m\<close>; after an early exit nothing more happens.
\<close>

type_synonym ('e, 'a) io = "'e list \<times> 'a run"

definition ret :: "'a \<Rightarrow> ('e, 'a) io" where
  "ret x = ([], Inr x)"

definition die :: "fatal \<Rightarrow> ('e, 'a) io" where
  "die e = ([], Inl e)"

definition emit :: "'e list \<Rightarrow> ('e, unit) io" where
  "emit es = (es, Inr ())"

definition seq :: "('e, 'a) io \<Rightarrow> ('a \<Rightarrow> ('e, 'b) io) \<Rightarrow> ('e, 'b) io" where
  "seq m f = (case m of (es, Inl e) \<Rightarrow> (es, Inl e)
                       | (es, Inr x) \<Rightarrow> (case f x of (es', r) \<Rightarrow> (es @ es', r)))"

text \<open>The same piece of program with its effects seen as effects of a larger program.\<close>

definition lift_eff :: "('e \<Rightarrow> 'f) \<Rightarrow> ('e, 'a) io \<Rightarrow> ('f, 'a) io" where
  "lift_eff g m = (map g (fst m), snd m)"

lemma lift_eff_pair [simp]: "lift_eff g (es, r) = (map g es, r)"
  by (simp add: lift_eff_def)

lemma seq_pair [simp]:
  "seq (es, Inl e) f = (es, Inl e)"
  "seq (es, Inr x) f = (es @ fst (f x), snd (f x))"
  by (auto simp: seq_def split: prod.splits)

lemma seq_ret [simp]: "seq (ret x) f = f x"
  by (simp add: ret_def)

lemma seq_die [simp]: "seq (die e) f = die e"
  by (simp add: die_def)

lemma seq_emit [simp]: "seq (emit es) f = (es @ fst (f ()), snd (f ()))"
  by (simp add: emit_def)

lemma ret_sel [simp]: "fst (ret x) = []" "snd (ret x) = Inr x"
  by (simp_all add: ret_def)

lemma die_sel [simp]: "fst (die e) = []" "snd (die e) = Inl e"
  by (simp_all add: die_def)

lemma emit_sel [simp]: "fst (emit es) = es" "snd (emit es) = Inr ()"
  by (simp_all add: emit_def)

section \<open>The random generator\<close>

text \<open>
  \<^verbatim>\<open>rand()\<close> returns a value between 0 and \<^verbatim>\<open>RAND_MAX\<close>, which is \<open>2\<^sup>31 - 1\<close>
  in the C library the programs are built with: a 31-bit word.  A generator is the stream of
  the values it will return, so a statement about every generator holds for every seed.
\<close>

type_synonym rng = "nat \<Rightarrow> 31 word"

definition RAND_MAX :: nat where
  "RAND_MAX = 2147483647"

definition rand :: "rng \<Rightarrow> nat \<times> rng" where
  "rand r = (unat (r 0), \<lambda>k. r (Suc k))"

lemma rand_le_max: "fst (rand r) \<le> RAND_MAX"
proof -
  have "unat (r 0) < 2 ^ 31"
    using unsigned_less [of "r 0"] by simp
  then show ?thesis
    by (simp add: rand_def RAND_MAX_def)
qed

lemma fst_rand [simp]: "fst (rand r) = unat (r 0)"
  by (simp add: rand_def)

lemma snd_rand [simp]: "snd (rand r) = (\<lambda>k. r (Suc k))"
  by (simp add: rand_def)

section \<open>Arrays\<close>

text \<open>
  \<open>swap_at i j xs\<close> is the macro \<^verbatim>\<open>SWAP(xs[i], xs[j])\<close>.
\<close>

definition swap_at :: "nat \<Rightarrow> nat \<Rightarrow> 'a list \<Rightarrow> 'a list" where
  "swap_at i j xs = xs[i := xs ! j, j := xs ! i]"

lemma length_swap_at [simp]: "length (swap_at i j xs) = length xs"
  by (simp add: swap_at_def)

lemma mset_swap_at [simp]:
  "i < length xs \<Longrightarrow> j < length xs \<Longrightarrow> mset (swap_at i j xs) = mset xs"
  unfolding swap_at_def by (cases "i = j") (simp_all add: mset_swap list_update_swap)

lemma set_swap_at [simp]:
  "i < length xs \<Longrightarrow> j < length xs \<Longrightarrow> set (swap_at i j xs) = set xs"
  by (metis mset_swap_at set_mset_mset)

lemma distinct_swap_at [simp]:
  "i < length xs \<Longrightarrow> j < length xs \<Longrightarrow> distinct (swap_at i j xs) = distinct xs"
  by (metis mset_swap_at mset_eq_imp_distinct_iff)

lemma nth_swap_at:
  "i < length xs \<Longrightarrow> j < length xs \<Longrightarrow> k < length xs \<Longrightarrow>
   swap_at i j xs ! k = (if k = j then xs ! i else if k = i then xs ! j else xs ! k)"
  by (simp add: swap_at_def nth_list_update)

text \<open>Taking an element out of an array: the last element moves into its place.\<close>

lemma mset_take_out:
  assumes "i < length xs"
  shows "mset (butlast (xs[i := last xs])) = mset xs - {#xs ! i#}"
proof -
  obtain ys l where xs: "xs = ys @ [l]" using assms by (cases xs rule: rev_cases) auto
  show ?thesis
  proof (cases "i = length ys")
    case True
    then show ?thesis by (simp add: xs)
  next
    case False
    then have "i < length ys" using assms xs by simp
    then show ?thesis by (simp add: xs list_update_append nth_append mset_update)
  qed
qed

lemma set_take_out:
  assumes "i < length xs" and "distinct xs"
  shows "set (butlast (xs[i := last xs])) = set xs - {xs ! i}" and "distinct (butlast (xs[i := last xs]))"
proof -
  let ?m = "mset xs - {#xs ! i#}"
  have c: "mset (butlast (xs[i := last xs])) = ?m" by (rule mset_take_out [OF assms(1)])
  have "mset xs = {#xs ! i#} + ?m" using assms(1) by simp
  moreover have d: "mset xs = mset_set (set xs)" using assms(2) by (simp add: mset_set_set)
  ultimately have e: "?m = mset_set (set xs - {xs ! i})"
    using assms(1) by (simp add: mset_set_Diff)
  with c have "mset (butlast (xs[i := last xs])) = mset_set (set xs - {xs ! i})" by simp
  then show "set (butlast (xs[i := last xs])) = set xs - {xs ! i}"
    by (metis List.finite_set finite_Diff finite_set_mset_mset_set set_mset_mset)
  have "length (butlast (xs[i := last xs])) = card (set xs - {xs ! i})"
    using assms by (simp add: card_Diff_singleton distinct_card)
  with \<open>set (butlast (xs[i := last xs])) = set xs - {xs ! i}\<close>
  show "distinct (butlast (xs[i := last xs]))" by (simp add: card_distinct)
qed

text \<open>
  The search loop \<^verbatim>\<open>for (i = 0; i < n; i++) if (P(a[i])) { ...; break; }\<close>: the first
  index whose element satisfies the test.
\<close>

fun find_idx :: "('a \<Rightarrow> bool) \<Rightarrow> 'a list \<Rightarrow> nat option" where
  "find_idx P [] = None"
| "find_idx P (x # xs) = (if P x then Some 0 else map_option Suc (find_idx P xs))"

lemma find_idx_None_iff: "find_idx P xs = None \<longleftrightarrow> (\<forall>x \<in> set xs. \<not> P x)"
  by (induction xs) auto

lemma find_idx_SomeD:
  "find_idx P xs = Some i \<Longrightarrow> i < length xs \<and> P (xs ! i) \<and> (\<forall>j < i. \<not> P (xs ! j))"
proof (induction xs arbitrary: i)
  case Nil
  then show ?case by simp
next
  case (Cons x xs)
  show ?case
  proof (cases "P x")
    case True
    with Cons.prems show ?thesis by auto
  next
    case False
    with Cons.prems obtain k where k: "find_idx P xs = Some k" "i = Suc k" by auto
    from Cons.IH [OF k(1)] have
      IH: "k < length xs" "P (xs ! k)" "\<forall>j < k. \<not> P (xs ! j)" by auto
    have "\<not> P ((x # xs) ! j)" if "j < i" for j
      using that False IH(3) k(2) by (cases j) auto
    with IH k(2) show ?thesis by auto
  qed
qed

section \<open>Lists with one element replaced\<close>

lemma all_replace: "\<forall>x \<in> set xs. P x \<Longrightarrow> P y \<Longrightarrow> \<forall>x \<in> set (xs[i := y]). P x"
  using set_update_subset_insert [of xs i y] by auto

lemma sum_list_replace:
  fixes f :: "'a \<Rightarrow> nat"
  shows "i < length xs \<Longrightarrow> sum_list (map f (xs[i := y])) + f (xs ! i) = sum_list (map f xs) + f y"
  by (induction xs arbitrary: i) (auto split: nat.splits)

lemma sum_list_replace_int:
  fixes f :: "'a \<Rightarrow> int"
  shows "i < length xs \<Longrightarrow> sum_list (map f (xs[i := y])) = sum_list (map f xs) + f y - f (xs ! i)"
  by (induction xs arbitrary: i) (auto split: nat.splits)

section \<open>Transition systems\<close>

text \<open>
  The states reachable from the initial ones.  Every concurrent program of the development is
  a step relation, and its safety properties are invariants of the reachable states.
\<close>

inductive reach :: "('s \<Rightarrow> bool) \<Rightarrow> ('s \<Rightarrow> 's \<Rightarrow> bool) \<Rightarrow> 's \<Rightarrow> bool"
  for init :: "'s \<Rightarrow> bool" and step :: "'s \<Rightarrow> 's \<Rightarrow> bool" where
  reach_init: "init s \<Longrightarrow> reach init step s"
| reach_step: "reach init step s \<Longrightarrow> step s t \<Longrightarrow> reach init step t"

text \<open>Runs along a schedule: \<open>f x\<close> is the step with the choices \<open>x\<close>.\<close>

primrec run_steps :: "('x \<Rightarrow> 's \<Rightarrow> 's option) \<Rightarrow> 'x list \<Rightarrow> 's \<Rightarrow> 's option" where
  "run_steps f [] s = Some s"
| "run_steps f (x # xs) s = Option.bind (f x s) (run_steps f xs)"

lemma run_steps_reach:
  assumes "\<And>x s t. f x s = Some t \<Longrightarrow> step s t"
  shows "reach init step s \<Longrightarrow> run_steps f xs s = Some t \<Longrightarrow> reach init step t"
proof (induction xs arbitrary: s)
  case (Cons x xs)
  then obtain u where "f x s = Some u" "run_steps f xs u = Some t" by (auto simp: bind_eq_Some_conv)
  with Cons assms show ?case by (meson reach_step)
qed simp

lemma replicate_numeral_Cons: "replicate (numeral k) x = x # replicate (pred_numeral k) x"
  by (simp add: numeral_eq_Suc)


text \<open>The contract of an inductive invariant; its client lemma is proved once here.\<close>

locale inv_system =
  fixes init :: "'s \<Rightarrow> bool"
    and step :: "'s \<Rightarrow> 's \<Rightarrow> bool"
    and inv :: "'s \<Rightarrow> bool"
  assumes inv_init: "init s \<Longrightarrow> inv s"
    and inv_step: "inv s \<Longrightarrow> step s t \<Longrightarrow> inv t"
begin

lemma reach_inv: "reach init step s \<Longrightarrow> inv s"
  by (induction rule: reach.induct) (auto intro: inv_init inv_step)

end

text \<open>
  A system that stops: every step brings a measure down, and where the invariant holds a state that is not
  final has a step.  Then no run is infinite, every reachable state that is stuck is final, and from every
  reachable state a final one can be reached.
\<close>

locale stopping_system = inv_system init step inv
  for init :: "'s \<Rightarrow> bool" and step :: "'s \<Rightarrow> 's \<Rightarrow> bool" and inv :: "'s \<Rightarrow> bool" +
  fixes final :: "'s \<Rightarrow> bool"
    and measure_of :: "'s \<Rightarrow> nat"
  assumes step_less: "step s t \<Longrightarrow> measure_of t < measure_of s"
    and not_stuck: "inv s \<Longrightarrow> \<not> final s \<Longrightarrow> \<exists>t. step s t"
    and final_stuck: "final s \<Longrightarrow> \<not> step s t"
begin

lemma no_infinite_run: "wfp (\<lambda>t s. step s t)"
  by (rule wfp_if_convertible_to_nat [of _ measure_of]) (rule step_less)

lemma no_endless_run: "\<not> (\<forall>k. step (f k) (f (Suc k)))"
proof
  assume f: "\<forall>k. step (f k) (f (Suc k))"
  have "measure_of (f k) + k \<le> measure_of (f 0)" for k
  proof (induction k)
    case (Suc k)
    then show ?case using step_less [of "f k" "f (Suc k)"] f by simp
  qed simp
  from this [of "Suc (measure_of (f 0))"] show False by simp
qed

lemma stuck_iff_final: "reach init step s \<Longrightarrow> (\<nexists>t. step s t) \<longleftrightarrow> final s"
  using not_stuck final_stuck reach_inv by blast

lemma final_reachable: "reach init step s \<Longrightarrow> \<exists>t. step\<^sup>*\<^sup>* s t \<and> final t"
proof (induction "measure_of s" arbitrary: s rule: less_induct)
  case less
  show ?case
  proof (cases "final s")
    case False
    with less.prems obtain u where u: "step s u" using not_stuck reach_inv by blast
    with less step_less reach_step [of init step s u] obtain t where "step\<^sup>*\<^sup>* u t" "final t" by blast
    with u show ?thesis by (blast intro: converse_rtranclp_into_rtranclp)
  qed blast
qed

end

text \<open>
  Processes that wait for the end of one another: every member of \<open>S\<close> has a predecessor in \<open>S\<close>, as those
  on the cycles through an element have.
\<close>

definition fed :: "('a \<times> 'a) set \<Rightarrow> 'a set \<Rightarrow> bool" where
  "fed r S \<longleftrightarrow> (\<forall>k \<in> S. \<exists>j \<in> S. (j, k) \<in> r)"

lemma cycle_fed: "fed r {j. (k, j) \<in> r\<^sup>+ \<and> (j, k) \<in> r\<^sup>*}"
proof -
  have "\<exists>i. (k, i) \<in> r\<^sup>+ \<and> (i, k) \<in> r\<^sup>* \<and> (i, j) \<in> r" if j: "(k, j) \<in> r\<^sup>+" "(j, k) \<in> r\<^sup>*" for j
  proof -
    obtain i where i: "(k, i) \<in> r\<^sup>*" "(i, j) \<in> r" using tranclD2 [OF j(1)] by blast
    have b: "(i, k) \<in> r\<^sup>+" using i(2) j(2) by (rule rtrancl_into_trancl2)
    then have "(k, i) \<in> r\<^sup>+" using i j by (cases "i = k") (auto dest: rtranclD)
    with i b show ?thesis by (auto dest: trancl_into_rtrancl)
  qed
  then show ?thesis by (auto simp: fed_def)
qed

text \<open>
  A deterministic handler that may leave early, run over a list of events; the run stops at
  the first early exit.
\<close>

fun run_events :: "('s \<Rightarrow> 'e \<Rightarrow> 's run) \<Rightarrow> 's \<Rightarrow> 'e list \<Rightarrow> 's run" where
  "run_events h s [] = Inr s"
| "run_events h s (e # es) = bindr (h s e) (\<lambda>s'. run_events h s' es)"

lemma run_events_append: "run_events h s (es @ es') = bindr (run_events h s es) (\<lambda>t. run_events h t es')"
  by (induction es arbitrary: s) (auto simp: bindr_def split: sum.splits)

text \<open>\<open>ok\<close> is what the environment guarantees of each event, in the state that meets it.\<close>

fun ok_run :: "('s \<Rightarrow> 'e \<Rightarrow> 's run) \<Rightarrow> ('s \<Rightarrow> 'e \<Rightarrow> bool) \<Rightarrow> 's \<Rightarrow> 'e list \<Rightarrow> bool" where
  "ok_run h ok s [] = True"
| "ok_run h ok s (e # es) =
     (ok s e \<and> (case h s e of Inl _ \<Rightarrow> True | Inr s' \<Rightarrow> ok_run h ok s' es))"

locale inv_handler =
  fixes handle :: "'s \<Rightarrow> 'e \<Rightarrow> 's run"
    and inv :: "'s \<Rightarrow> bool"
    and ok :: "'s \<Rightarrow> 'e \<Rightarrow> bool"
  assumes handle_inv: "inv s \<Longrightarrow> ok s e \<Longrightarrow> handle s e = Inr s' \<Longrightarrow> inv s'"
begin

lemma run_inv: "inv s \<Longrightarrow> ok_run handle ok s es \<Longrightarrow> run_events handle s es = Inr s' \<Longrightarrow> inv s'"
proof (induction es arbitrary: s)
  case Nil
  then show ?case by simp
next
  case (Cons e es)
  then obtain t where "handle s e = Inr t" "run_events handle t es = Inr s'"
    by (auto simp: bindr_eq_Inr_iff)
  with Cons show ?case
    by (auto intro: handle_inv)
qed

end

end
