(* ===== verification/Io.thy ===== *)
theory Io
  imports Prelude
begin

text \<open>
  The helpers of \<^verbatim>\<open>lab07/l7/l7_common.h\<close> that every socket program of labs 07 and 08
  includes (the other copies of the header hold the same text): the retry macro, the set-up of
  listening and connecting sockets, \<^verbatim>\<open>add_new_client\<close>, and the loops
  \<^verbatim>\<open>bulk_read\<close> and \<^verbatim>\<open>bulk_write\<close>.

  The kernel is a script: what a descriptor will answer to the calls that are still to come.
  A receiving script is a list of segments and errors; a segment longer than the buffer is
  delivered in parts, as a stream socket does, and the end of the script is the end of file.
  A sending script says how many bytes the next writes accept; past its end a write accepts
  everything.  Statements about every script cover every behaviour of the other side.
\<close>

type_synonym byte = "8 word"

section \<open>TEMP_FAILURE_RETRY\<close>

text \<open>
  The macro repeats a call while it fails with \<open>EINTR\<close>.  The list holds the answers the
  kernel gives to the successive attempts; an exhausted list answers \<open>EAGAIN\<close>.
\<close>

fun temp_failure_retry :: "'a sysret list \<Rightarrow> 'a sysret" where
  "temp_failure_retry [] = Fail EAGAIN"
| "temp_failure_retry (a # as) = (if a = Fail EINTR then temp_failure_retry as else a)"

lemma temp_failure_retry_not_EINTR: "temp_failure_retry as \<noteq> Fail EINTR"
  by (induction as) auto

lemma temp_failure_retry_EINTRs [simp]:
  "temp_failure_retry (replicate n (Fail EINTR) @ as) = temp_failure_retry as"
  by (induction n) auto

section \<open>add_new_client\<close>

text \<open>
  \<^verbatim>\<open>accept\<close> through the retry macro: -1 when no connection is waiting, \<open>ERR\<close> on every
  other failure.
\<close>

definition add_new_client :: "int sysret list \<Rightarrow> int run" where
  "add_new_client answers =
     (case temp_failure_retry answers of
        Ok nfd \<Rightarrow> Inr nfd
      | Fail e \<Rightarrow> if e = EAGAIN then Inr (-1) else Inl (ERR ''accept''))"

section \<open>Opening sockets\<close>

datatype sock_domain = PF_UNIX | PF_INET
datatype sock_type = SOCK_STREAM | SOCK_DGRAM

record sockaddr_in =
  sin_port :: "16 word"
  sin_addr :: "32 word"

text \<open>
  The calls that set a socket up, with their arguments; the kernel answers each of them.
  \<open>SysBindLocal\<close> and \<open>SysConnectLocal\<close> carry the path stored in \<^verbatim>\<open>sun_path\<close>.
\<close>

datatype netcall =
    SysSocket sock_domain sock_type
  | SysUnlink string
  | SysBindLocal int string
  | SysBindInet int sockaddr_in
  | SysListen int int
  | SysConnectLocal int string
  | SysConnectInet int sockaddr_in
  | SysReuseAddr int
  | SysSigaction string string
  | SysSetNonblock int
  | SysClose int

type_synonym kernel = "netcall \<Rightarrow> int sysret"

text \<open>One call whose failure ends in \<open>ERR\<close>; the call is recorded.\<close>

definition syscall :: "kernel \<Rightarrow> netcall \<Rightarrow> string \<Rightarrow> (netcall, int) io" where
  "syscall k c msg =
     ([c], case k c of Ok v \<Rightarrow> Inr v | Fail _ \<Rightarrow> Inl (ERR msg))"

text \<open>
  Byte order: the programs run on a little-endian machine, where \<^verbatim>\<open>htonl\<close>,
  \<^verbatim>\<open>ntohl\<close>, \<^verbatim>\<open>htons\<close> and \<^verbatim>\<open>ntohs\<close> reverse the bytes of a word.
\<close>

definition swap16 :: "nat \<Rightarrow> nat" where
  "swap16 n = 256 * (n mod 256) + n div 256 mod 256"

definition swap32 :: "nat \<Rightarrow> nat" where
  "swap32 n = 65536 * swap16 (n mod 65536) + swap16 (n div 65536 mod 65536)"

definition htons :: "16 word \<Rightarrow> 16 word" where
  "htons w = word_of_nat (swap16 (unat w))"

definition ntohs :: "16 word \<Rightarrow> 16 word" where
  "ntohs = htons"

definition htonl :: "32 word \<Rightarrow> 32 word" where
  "htonl w = word_of_nat (swap32 (unat w))"

definition ntohl :: "32 word \<Rightarrow> 32 word" where
  "ntohl = htonl"

lemma swap16_digits: "a < 256 \<Longrightarrow> b < 256 \<Longrightarrow> swap16 (256 * b + a) = 256 * a + b"
  by (simp add: swap16_def)

lemma swap16_less: "swap16 n < 65536"
proof -
  have "n mod 256 < 256" "n div 256 mod 256 < 256" by simp_all
  then show ?thesis unfolding swap16_def by linarith
qed

lemma swap16_swap16: "n < 65536 \<Longrightarrow> swap16 (swap16 n) = n"
proof -
  assume n: "n < 65536"
  define a b where "a = n mod 256" and "b = n div 256"
  have "a < 256" "b < 256" using n by (auto simp: a_def b_def)
  moreover have "n = 256 * b + a" by (simp add: a_def b_def)
  ultimately show ?thesis by (simp add: swap16_digits)
qed

lemma swap32_halves:
  "a < 65536 \<Longrightarrow> b < 65536 \<Longrightarrow> swap32 (65536 * b + a) = 65536 * swap16 a + swap16 b"
  by (simp add: swap32_def)

lemma swap32_less: "swap32 n < 4294967296"
  using swap16_less [of "n mod 65536"] swap16_less [of "n div 65536 mod 65536"]
  unfolding swap32_def by linarith

lemma swap32_swap32: "n < 4294967296 \<Longrightarrow> swap32 (swap32 n) = n"
proof -
  assume n: "n < 4294967296"
  define a b where "a = n mod 65536" and "b = n div 65536"
  have ab: "a < 65536" "b < 65536" using n by (auto simp: a_def b_def)
  have "n = 65536 * b + a" by (simp add: a_def b_def)
  with ab show ?thesis
    by (simp add: swap32_halves swap16_less swap16_swap16)
qed

lemma unat_htons: "unat (htons w) = swap16 (unat w)"
  using swap16_less [of "unat w"]
  by (simp add: htons_def unsigned_of_nat take_bit_nat_eq_self)

lemma unat_htonl: "unat (htonl w) = swap32 (unat w)"
  using swap32_less [of "unat w"]
  by (simp add: htonl_def unsigned_of_nat take_bit_nat_eq_self)

lemma ntohs_htons [simp]: "ntohs (htons w) = w"
proof -
  have "unat w < 65536" using unsigned_less [of w] by simp
  then have "unat (htons (htons w)) = unat w"
    by (simp add: unat_htons swap16_swap16)
  then show ?thesis by (simp add: ntohs_def word_unat_eq_iff)
qed

lemma ntohl_htonl [simp]: "ntohl (htonl w) = w"
proof -
  have "unat w < 4294967296" using unsigned_less [of w] by simp
  then have "unat (htonl (htonl w)) = unat w"
    by (simp add: unat_htonl swap32_swap32)
  then show ?thesis by (simp add: ntohl_def word_unat_eq_iff)
qed

lemma htonl_inj: "htonl v = htonl w \<longleftrightarrow> v = w"
  by (metis ntohl_htonl)

text \<open>
  \<^verbatim>\<open>sethandler(f, sigNo)\<close>: 0, or -1 when \<^verbatim>\<open>sigaction\<close> fails.  The handler
  and the signal are named by strings.
\<close>

definition sethandler :: "kernel \<Rightarrow> string \<Rightarrow> string \<Rightarrow> (netcall, int) io" where
  "sethandler k f sigNo =
     ([SysSigaction sigNo f], Inr (case k (SysSigaction sigNo f) of Ok _ \<Rightarrow> 0 | Fail _ \<Rightarrow> -1))"

text \<open>
  \<^verbatim>\<open>strncpy(addr->sun_path, name, sizeof(addr->sun_path) - 1)\<close> into a zeroed field of 108
  bytes: at most 107 characters, always terminated.
\<close>

definition sun_path :: "string \<Rightarrow> string" where
  "sun_path name = take 107 name"

definition make_local_socket :: "kernel \<Rightarrow> string \<Rightarrow> (netcall, int \<times> string) io" where
  "make_local_socket k name =
     seq (syscall k (SysSocket PF_UNIX SOCK_STREAM) ''socket'')
       (\<lambda>socketfd. ret (socketfd, sun_path name))"

definition connect_local_socket :: "kernel \<Rightarrow> string \<Rightarrow> (netcall, int) io" where
  "connect_local_socket k name =
     seq (make_local_socket k name) (\<lambda>(socketfd, addr).
     seq (syscall k (SysConnectLocal socketfd addr) ''connect'') (\<lambda>_.
     ret socketfd))"

definition bind_local_socket :: "kernel \<Rightarrow> string \<Rightarrow> int \<Rightarrow> (netcall, int) io" where
  "bind_local_socket k name backlog_size =
     seq ([SysUnlink name],
          case k (SysUnlink name) of
            Ok _ \<Rightarrow> Inr ()
          | Fail e \<Rightarrow> if e \<noteq> ENOENT then Inl (ERR ''unlink'') else Inr ()) (\<lambda>_.
     seq (make_local_socket k name) (\<lambda>(socketfd, addr).
     seq (syscall k (SysBindLocal socketfd addr) ''bind'') (\<lambda>_.
     seq (syscall k (SysListen socketfd backlog_size) ''listen'') (\<lambda>_.
     ret socketfd))))"

definition make_tcp_socket :: "kernel \<Rightarrow> (netcall, int) io" where
  "make_tcp_socket k = syscall k (SysSocket PF_INET SOCK_STREAM) ''socket''"

text \<open>
  \<^verbatim>\<open>make_address\<close> takes the first result of \<^verbatim>\<open>getaddrinfo\<close>; a resolver
  failure is a message and \<^verbatim>\<open>exit(EXIT_FAILURE)\<close>.  The resolver is the argument.
\<close>

definition make_address ::
  "(string \<Rightarrow> string \<Rightarrow> sockaddr_in option) \<Rightarrow> string \<Rightarrow> string \<Rightarrow> sockaddr_in run" where
  "make_address getaddrinfo address port =
     (case getaddrinfo address port of
        None \<Rightarrow> Inl (ERR ''getaddrinfo'') | Some addr \<Rightarrow> Inr addr)"

definition connect_tcp_socket ::
  "kernel \<Rightarrow> (string \<Rightarrow> string \<Rightarrow> sockaddr_in option) \<Rightarrow> string \<Rightarrow> string \<Rightarrow> (netcall, int) io" where
  "connect_tcp_socket k getaddrinfo name port =
     seq (make_tcp_socket k) (\<lambda>socketfd.
     seq ([], make_address getaddrinfo name port) (\<lambda>addr.
     seq (syscall k (SysConnectInet socketfd addr) ''connect'') (\<lambda>_.
     ret socketfd)))"

definition INADDR_ANY :: "32 word" where
  "INADDR_ANY = 0"

definition bind_tcp_socket :: "kernel \<Rightarrow> 16 word \<Rightarrow> int \<Rightarrow> (netcall, int) io" where
  "bind_tcp_socket k port backlog_size =
     seq (make_tcp_socket k) (\<lambda>socketfd.
     seq (syscall k (SysReuseAddr socketfd) ''setsockopt'') (\<lambda>_.
     seq (syscall k (SysBindInet socketfd
           \<lparr>sin_port = htons port, sin_addr = htonl INADDR_ANY\<rparr>) ''bind'') (\<lambda>_.
     seq (syscall k (SysListen socketfd backlog_size) ''listen'') (\<lambda>_.
     ret socketfd))))"

lemma syscall_sel:
  "fst (syscall k c msg) = [c]"
  "snd (syscall k c msg) = Inr v \<longleftrightarrow> k c = Ok v"
  by (auto simp: syscall_def split: sysret.splits)

lemma seq_eq_Inr:
  "seq m f = (es, Inr y) \<longleftrightarrow>
     (\<exists>es1 x es2. m = (es1, Inr x) \<and> f x = (es2, Inr y) \<and> es = es1 @ es2)"
  by (cases m; cases "snd m"; auto simp: seq_def split: prod.splits sum.splits)

lemma snd_seq_Inr: "snd (seq m f) = Inr t \<longleftrightarrow> (\<exists>x. snd m = Inr x \<and> snd (f x) = Inr t)"
  by (cases m; cases "snd m"; auto simp: seq_def split: prod.splits sum.splits)

lemma syscall_eq_Inr: "syscall k c msg = (es, Inr v) \<longleftrightarrow> es = [c] \<and> k c = Ok v"
  by (auto simp: syscall_def split: sysret.splits)

lemma ret_eq_Inr: "ret x = (es, Inr y) \<longleftrightarrow> es = [] \<and> y = x"
  by (auto simp: ret_def)

text \<open>A listening socket that is returned was bound before it listens.\<close>

lemma bind_tcp_socket_trace:
  "bind_tcp_socket k port b = (es, Inr fd) \<Longrightarrow>
   es = [SysSocket PF_INET SOCK_STREAM, SysReuseAddr fd,
         SysBindInet fd \<lparr>sin_port = htons port, sin_addr = htonl INADDR_ANY\<rparr>, SysListen fd b]"
  by (auto simp: bind_tcp_socket_def make_tcp_socket_def seq_eq_Inr syscall_eq_Inr ret_eq_Inr)

lemma bind_local_socket_trace:
  "bind_local_socket k name b = (es, Inr fd) \<Longrightarrow>
   es = [SysUnlink name, SysSocket PF_UNIX SOCK_STREAM, SysBindLocal fd (sun_path name), SysListen fd b]"
  by (auto simp: bind_local_socket_def make_local_socket_def seq_eq_Inr syscall_eq_Inr ret_eq_Inr)

end
