(* ===== verification/Bulk.thy ===== *)
theory Bulk
  imports Io
begin

text \<open>
  \<^verbatim>\<open>bulk_read\<close> and \<^verbatim>\<open>bulk_write\<close> of \<^verbatim>\<open>lab07/l7/l7_common.h\<close>: the loops
  that hide short reads, short writes and interrupted calls.  The contract their callers rely
  on (a read of \<open>n\<close> bytes takes the next \<open>n\<close> bytes of the stream, however the kernel cut it)
  is the locale \<open>bulk_reader\<close>, interpreted below on the model of \<^verbatim>\<open>bulk_read\<close>.
\<close>

section \<open>The receiving side\<close>

datatype seg = Data "byte list" | RErr errno

text \<open>One \<^verbatim>\<open>read(fd, buf, count)\<close>: \<open>Ok []\<close> is the return value 0 (end of file).\<close>

fun sys_read :: "seg list \<Rightarrow> nat \<Rightarrow> byte list sysret \<times> seg list" where
  "sys_read [] cnt = (Ok [], [])"
| "sys_read (Data bs # s) cnt =
     (Ok (take cnt bs), if cnt < length bs then Data (drop cnt bs) # s else s)"
| "sys_read (RErr e # s) cnt = (Fail e, s)"

text \<open>\<^verbatim>\<open>TEMP_FAILURE_RETRY(read(fd, buf, count))\<close>\<close>

fun retry_read :: "seg list \<Rightarrow> nat \<Rightarrow> byte list sysret \<times> seg list" where
  "retry_read [] cnt = sys_read [] cnt"
| "retry_read (x # s) cnt =
     (if fst (sys_read (x # s) cnt) = Fail EINTR then retry_read s cnt
      else sys_read (x # s) cnt)"

text \<open>
  The loop of \<^verbatim>\<open>bulk_read\<close>.  \<open>acc\<close> holds what is already in the buffer
  (its length is \<^verbatim>\<open>len\<close>); the result is the return value, the bytes stored in the
  buffer, and what the descriptor will answer next.
\<close>

function bulk_read_loop ::
  "seg list \<Rightarrow> nat \<Rightarrow> byte list \<Rightarrow> nat sysret \<times> byte list \<times> seg list" where
  "bulk_read_loop s cnt acc =
     (case retry_read s cnt of
        (Fail e, s') \<Rightarrow> (Fail e, acc, s')
      | (Ok c, s') \<Rightarrow>
          if c = [] then (Ok (length acc), acc, s')
          else if length c < cnt then bulk_read_loop s' (cnt - length c) (acc @ c)
          else (Ok (length acc + length c), acc @ c, s'))"
  by pat_completeness auto
termination
  by (relation "measure (\<lambda>(s, cnt, acc). cnt)") auto

declare bulk_read_loop.simps [simp del]

definition bulk_read :: "seg list \<Rightarrow> nat \<Rightarrow> nat sysret \<times> byte list \<times> seg list" where
  "bulk_read s cnt = bulk_read_loop s cnt []"

text \<open>
  What a script still delivers, and the scripts without an error other than an interruption
  (a segment the kernel reports is never empty: a read of 0 bytes is the end of file).
\<close>

fun pending :: "seg list \<Rightarrow> byte list" where
  "pending [] = []"
| "pending (Data bs # s) = bs @ pending s"
| "pending (RErr e # s) = pending s"

fun clean :: "seg list \<Rightarrow> bool" where
  "clean [] = True"
| "clean (Data bs # s) = (bs \<noteq> [] \<and> clean s)"
| "clean (RErr e # s) = (e = EINTR \<and> clean s)"

lemma retry_read_clean:
  assumes "clean s" and "0 < cnt"
  shows "\<exists>c s'. retry_read s cnt = (Ok c, s') \<and> c @ pending s' = pending s \<and> clean s' \<and>
           length c \<le> cnt \<and> (c = [] \<longleftrightarrow> pending s = [])"
  using assms
proof (induction s)
  case Nil
  then show ?case by simp
next
  case (Cons x s)
  then show ?case
    by (cases x) (auto simp: append_take_drop_id simp flip: append_assoc split: if_splits)
qed

text \<open>
  The loop, from any point of its progress: the number of bytes missing and the bytes of the
  stream determine the result, not the way the stream is cut.
\<close>

lemma bulk_read_loop_clean:
  assumes "clean s" and "0 < cnt"
  shows "\<exists>s'. bulk_read_loop s cnt acc =
                (Ok (length acc + min cnt (length (pending s))), acc @ take cnt (pending s), s')
           \<and> pending s' = drop cnt (pending s) \<and> clean s'"
  using assms
proof (induction s cnt acc rule: bulk_read_loop.induct)
  case (1 s cnt acc)
  from retry_read_clean [OF "1.prems"] obtain c s' where
    r: "retry_read s cnt = (Ok c, s')" and p: "c @ pending s' = pending s" and cl: "clean s'"
    and len: "length c \<le> cnt" and nil: "c = [] \<longleftrightarrow> pending s = []"
    by blast
  consider "c = []" | "c \<noteq> []" "length c < cnt" | "c \<noteq> []" "length c = cnt"
    using len by linarith
  then show ?case
  proof cases
    case 1
    with r nil p cl show ?thesis
      by (auto simp: bulk_read_loop.simps [of s])
  next
    case 2
    with "1.IH" [OF r [symmetric] refl] cl obtain s'' where
      "bulk_read_loop s' (cnt - length c) (acc @ c) =
         (Ok (length (acc @ c) + min (cnt - length c) (length (pending s'))),
          (acc @ c) @ take (cnt - length c) (pending s'), s'')"
      "pending s'' = drop (cnt - length c) (pending s')" "clean s''"
      by auto
    with 2 r p show ?thesis
      by (auto simp: bulk_read_loop.simps [of s] p [symmetric])
  next
    case 3
    with r p cl show ?thesis
      by (auto simp: bulk_read_loop.simps [of s] p [symmetric])
  qed
qed

text \<open>
  Whatever the script, \<^verbatim>\<open>bulk_read\<close> never stores more than \<open>cnt\<close> bytes, and a
  non-negative return value is the number of bytes stored.
\<close>

lemma retry_read_length: "retry_read s cnt = (Ok c, s') \<Longrightarrow> length c \<le> cnt"
proof (induction s)
  case Nil
  then show ?case by simp
next
  case (Cons x s)
  then show ?case by (cases x) (auto split: if_splits)
qed

lemma bulk_read_loop_bounds:
  "bulk_read_loop s cnt acc = (r, buf, s') \<Longrightarrow>
   length buf \<le> length acc + cnt \<and> (\<forall>n. r = Ok n \<longrightarrow> n = length buf) \<and> r \<noteq> Fail EINTR"
proof (induction s cnt acc rule: bulk_read_loop.induct)
  case (1 s cnt acc)
  obtain a t where at: "retry_read s cnt = (a, t)" by fastforce
  have not_eintr: "fst (retry_read s cnt) \<noteq> Fail EINTR" for s
    by (induction s) auto
  show ?case
  proof (cases a)
    case (Fail e)
    with at "1.prems" not_eintr [of s] show ?thesis
      by (auto simp: bulk_read_loop.simps [of s])
  next
    case (Ok c)
    with at have le: "length c \<le> cnt" by (auto dest: retry_read_length)
    show ?thesis
    proof (cases "c \<noteq> [] \<and> length c < cnt")
      case True
      with "1.prems" at Ok have "bulk_read_loop t (cnt - length c) (acc @ c) = (r, buf, s')"
        by (simp add: bulk_read_loop.simps [of s])
      from "1.IH" [OF at [symmetric] Ok _ _ this] True le show ?thesis by auto
    next
      case False
      with "1.prems" at Ok le show ?thesis
        by (auto simp: bulk_read_loop.simps [of s] split: if_splits)
    qed
  qed
qed

subsection \<open>The reader's contract\<close>

locale bulk_reader =
  fixes rd :: "'s \<Rightarrow> nat \<Rightarrow> nat sysret \<times> byte list \<times> 's"
    and pend :: "'s \<Rightarrow> byte list"
    and fine :: "'s \<Rightarrow> bool"
  assumes rd_fine: "fine s \<Longrightarrow> 0 < n \<Longrightarrow>
     \<exists>s'. rd s n = (Ok (min n (length (pend s))), take n (pend s), s')
        \<and> pend s' = drop n (pend s) \<and> fine s'"
begin

text \<open>A peer that sent a whole message is read in one call, whatever follows it.\<close>

lemma rd_message:
  assumes "fine s" and "pend s = msg @ rest" and "0 < length msg"
  shows "\<exists>s'. rd s (length msg) = (Ok (length msg), msg, s') \<and> pend s' = rest \<and> fine s'"
  using rd_fine [OF assms(1,3)] assms(2) by simp

text \<open>A peer that closed early is seen by a return value below the size asked for.\<close>

lemma rd_short:
  assumes "fine s" and "length (pend s) < n"
  shows "\<exists>s'. rd s n = (Ok (length (pend s)), pend s, s') \<and> pend s' = [] \<and> fine s'"
  using rd_fine [OF assms(1), of n] assms(2) by auto

end

interpretation br: bulk_reader bulk_read pending clean
  by unfold_locales (use bulk_read_loop_clean [where acc = "[]"] in \<open>simp add: bulk_read_def\<close>)

section \<open>The sending side\<close>

datatype wans = Accept nat | WErr errno

fun sys_write :: "wans list \<Rightarrow> nat \<Rightarrow> nat sysret \<times> wans list" where
  "sys_write [] cnt = (Ok cnt, [])"
| "sys_write (Accept k # w) cnt = (Ok (min k cnt), w)"
| "sys_write (WErr e # w) cnt = (Fail e, w)"

fun retry_write :: "wans list \<Rightarrow> nat \<Rightarrow> nat sysret \<times> wans list" where
  "retry_write [] cnt = sys_write [] cnt"
| "retry_write (x # w) cnt =
     (if fst (sys_write (x # w) cnt) = Fail EINTR then retry_write w cnt
      else sys_write (x # w) cnt)"

lemma retry_write_shrinks:
  "retry_write w cnt = (r, w') \<Longrightarrow> r = Ok cnt \<or> length w' < length w"
proof (induction w)
  case Nil
  then show ?case by auto
next
  case (Cons x w)
  then show ?case by (cases x) (auto split: if_splits)
qed

lemma retry_write_le: "retry_write w cnt = (Ok c, w') \<Longrightarrow> c \<le> cnt"
proof (induction w)
  case Nil
  then show ?case by simp
next
  case (Cons x w)
  then show ?case by (cases x) (auto split: if_splits)
qed

text \<open>
  The loop of \<^verbatim>\<open>bulk_write\<close>: \<open>buf\<close> is what is left of the buffer (its length is
  \<^verbatim>\<open>count\<close>), \<open>sent\<close> what the kernel has accepted.  A write that accepts nothing is
  tried again, as in the code.
\<close>

function bulk_write_loop ::
  "wans list \<Rightarrow> byte list \<Rightarrow> byte list \<Rightarrow> nat sysret \<times> byte list \<times> wans list" where
  "bulk_write_loop w buf sent =
     (case retry_write w (length buf) of
        (Fail e, w') \<Rightarrow> (Fail e, sent, w')
      | (Ok c, w') \<Rightarrow>
          if c < length buf then bulk_write_loop w' (drop c buf) (sent @ take c buf)
          else (Ok (length sent + c), sent @ take c buf, w'))"
  by pat_completeness auto
termination
  by (relation "measure (\<lambda>(w, buf, sent). length w + length buf)")
    (auto dest!: retry_write_shrinks [OF sym])

declare bulk_write_loop.simps [simp del]

definition bulk_write :: "wans list \<Rightarrow> byte list \<Rightarrow> nat sysret \<times> byte list \<times> wans list" where
  "bulk_write w buf = bulk_write_loop w buf []"

lemma bulk_write_loop_prefix:
  "bulk_write_loop w buf sent = (r, out, w') \<Longrightarrow>
   (\<exists>k \<le> length buf. out = sent @ take k buf) \<and>
   (\<forall>n. r = Ok n \<longrightarrow> out = sent @ buf \<and> n = length sent + length buf)"
proof (induction w buf sent rule: bulk_write_loop.induct)
  case (1 w buf sent)
  obtain a t where at: "retry_write w (length buf) = (a, t)" by fastforce
  show ?case
  proof (cases a)
    case (Fail e)
    with "1.prems" at show ?thesis
      by (auto simp: bulk_write_loop.simps [of w] intro: exI [of _ 0])
  next
    case (Ok c)
    with at have le: "c \<le> length buf" by (auto dest: retry_write_le)
    show ?thesis
    proof (cases "c < length buf")
      case True
      with "1.prems" at Ok have
        "bulk_write_loop t (drop c buf) (sent @ take c buf) = (r, out, w')"
        by (simp add: bulk_write_loop.simps [of w])
      note IH = "1.IH" [OF at [symmetric] Ok True this]
      from IH obtain k where k: "k \<le> length buf - c" "out = sent @ take c buf @ take k (drop c buf)"
        by auto
      then have "out = sent @ take (c + k) buf" "c + k \<le> length buf"
        using le by (simp_all add: take_add)
      moreover have "\<forall>n. r = Ok n \<longrightarrow> out = sent @ buf \<and> n = length sent + length buf"
        using IH le by simp
      ultimately show ?thesis by blast
    next
      case False
      with le have "c = length buf" by simp
      with "1.prems" at Ok have "r = Ok (length sent + length buf)" "out = sent @ buf"
        by (simp_all add: bulk_write_loop.simps [of w])
      then show ?thesis by (intro conjI exI [of _ "length buf"]) simp_all
    qed
  qed
qed

text \<open>A descriptor without errors other than interruptions.\<close>

fun willing :: "wans list \<Rightarrow> bool" where
  "willing [] = True"
| "willing (Accept k # w) = willing w"
| "willing (WErr e # w) = (e = EINTR \<and> willing w)"

lemma retry_write_willing:
  "willing w \<Longrightarrow> \<exists>c w'. retry_write w cnt = (Ok c, w') \<and> willing w'"
proof (induction w)
  case Nil
  then show ?case by simp
next
  case (Cons x w)
  then show ?case by (cases x) auto
qed

lemma bulk_write_loop_willing:
  "willing w \<Longrightarrow> \<exists>n w'. bulk_write_loop w buf sent = (Ok n, sent @ buf, w') \<and> willing w'"
proof (induction w buf sent rule: bulk_write_loop.induct)
  case (1 w buf sent)
  from retry_write_willing [OF "1.prems"] obtain c t where
    ct: "retry_write w (length buf) = (Ok c, t)" "willing t" by blast
  show ?case
  proof (cases "c < length buf")
    case True
    from "1.IH" [OF ct(1) [symmetric] refl True ct(2)] ct True show ?thesis
      by (auto simp: bulk_write_loop.simps [of w])
  next
    case False
    with retry_write_le [OF ct(1)] have "c = length buf" by simp
    with ct show ?thesis by (simp add: bulk_write_loop.simps [of w])
  qed
qed

subsection \<open>The writer's contract\<close>

locale bulk_writer =
  fixes wr :: "'w \<Rightarrow> byte list \<Rightarrow> nat sysret \<times> byte list \<times> 'w"
    and fine :: "'w \<Rightarrow> bool"
  assumes wr_all: "wr w buf = (Ok n, out, w') \<Longrightarrow> out = buf \<and> n = length buf"
    and wr_fine: "fine w \<Longrightarrow> \<exists>n out w'. wr w buf = (Ok n, out, w') \<and> fine w'"
begin

lemma wr_message: "fine w \<Longrightarrow> \<exists>w'. wr w buf = (Ok (length buf), buf, w') \<and> fine w'"
  using wr_fine [of w buf] wr_all by blast

end

interpretation bw: bulk_writer bulk_write willing
proof unfold_locales
  show "bulk_write w buf = (Ok n, out, w') \<Longrightarrow> out = buf \<and> n = length buf" for w buf n out w'
    unfolding bulk_write_def by (drule bulk_write_loop_prefix) auto
  show "willing w \<Longrightarrow> \<exists>n out w'. bulk_write w buf = (Ok n, out, w') \<and> willing w'" for w buf
    unfolding bulk_write_def using bulk_write_loop_willing [of w buf "[]"] by auto
qed

section \<open>Properties\<close>

text \<open>
  C26: \<^verbatim>\<open>bulk_read\<close> depends on the bytes of the stream only.  However the kernel cuts
  the stream into segments and however often the calls are interrupted, asking for \<open>n\<close> bytes
  returns the next \<open>n\<close> bytes, or all that is left when the stream ends first, and leaves the
  rest of the stream unread.
\<close>

theorem bulk_read_exact:
  assumes "clean s" and "0 < n"
  shows "\<exists>s'. bulk_read s n = (Ok (min n (length (pending s))), take n (pending s), s')
           \<and> pending s' = drop n (pending s) \<and> clean s'"
  using br.rd_fine [OF assms] .

theorem bulk_read_exact_witness:
  "\<exists>s'. bulk_read [Data [1, 2], RErr EINTR, Data [3, 4, 5]] 4 = (Ok 4, [1, 2, 3, 4], s') \<and> pending s' = [5]"
  using bulk_read_exact [of "[Data [1, 2], RErr EINTR, Data [3, 4, 5]]" 4] by auto

text \<open>
  Whatever the kernel answers, \<^verbatim>\<open>bulk_write\<close> sends a prefix of the buffer, in
  order and without gaps or repetitions, and reports success only when all of it was sent.
\<close>

theorem bulk_write_prefix:
  "case bulk_write w buf of
     (Ok n, sent, _) \<Rightarrow> n = length buf \<and> sent = buf
   | (Fail e, sent, _) \<Rightarrow> \<exists>k \<le> length buf. sent = take k buf"
proof -
  obtain r out w' where b: "bulk_write w buf = (r, out, w')" by (metis prod.exhaust)
  from bulk_write_loop_prefix [OF b [unfolded bulk_write_def]]
  have "\<exists>k \<le> length buf. out = take k buf" "\<forall>n. r = Ok n \<longrightarrow> out = buf \<and> n = length buf"
    by auto
  with b show ?thesis by (cases r) auto
qed

text \<open>
  A message written with \<^verbatim>\<open>bulk_write\<close> and read with \<^verbatim>\<open>bulk_read\<close> of its
  length arrives unchanged, for any short writes on one side and any short reads on the other.
\<close>

theorem bulk_transfer:
  assumes "willing w" and "clean s" and "pending s = fst (snd (bulk_write w buf))" and "buf \<noteq> []"
  shows "\<exists>s'. bulk_read s (length buf) = (Ok (length buf), buf, s')"
  using bw.wr_message [OF assms(1), of buf] br.rd_message [OF assms(2), of buf "[]"] assms(3,4)
  by auto

theorem bulk_transfer_witness:
  "\<exists>s'. bulk_read [Data [7], Data [8, 9]] 3 = (Ok 3, [7, 8, 9], s')"
proof -
  have "bulk_write [Accept 0, WErr EINTR, Accept 2] [7, 8, 9] = (Ok 3, [7, 8, 9], [])"
    by (simp add: bulk_write_def bulk_write_loop.simps)
  with bulk_transfer [of "[Accept 0, WErr EINTR, Accept 2]" "[Data [7], Data [8, 9]]" "[7, 8, 9]"]
  show ?thesis by (simp add: numeral_3_eq_3)
qed

end
