(* ===== verification/Ctext.thy ===== *)
theory Ctext
  imports Prelude
begin

text \<open>
  Decimal text as the programs read and write it: \<^verbatim>\<open>printf("%d")\<close>,
  \<^verbatim>\<open>atoi\<close> and the character classes of \<^verbatim>\<open>ctype.h\<close> they use.  A string is
  the sequence of characters before the terminating NUL.
\<close>

definition isdigit :: "char \<Rightarrow> bool" where
  "isdigit c \<longleftrightarrow> 48 \<le> (of_char c :: nat) \<and> (of_char c :: nat) \<le> 57"

definition isspace :: "char \<Rightarrow> bool" where
  "isspace c \<longleftrightarrow> (of_char c :: nat) = 32 \<or> 9 \<le> (of_char c :: nat) \<and> (of_char c :: nat) \<le> 13"

definition isalnum :: "char \<Rightarrow> bool" where
  "isalnum c \<longleftrightarrow> isdigit c \<or> 65 \<le> (of_char c :: nat) \<and> (of_char c :: nat) \<le> 90
     \<or> 97 \<le> (of_char c :: nat) \<and> (of_char c :: nat) \<le> 122"

definition digit_char :: "nat \<Rightarrow> char" where
  "digit_char d = char_of (48 + d)"

definition digit_val :: "char \<Rightarrow> nat" where
  "digit_val c = of_char c - 48"

fun show_nat :: "nat \<Rightarrow> string" where
  "show_nat n = (if n < 10 then [digit_char n] else show_nat (n div 10) @ [digit_char (n mod 10)])"

declare show_nat.simps [simp del]

text \<open>\<^verbatim>\<open>%d\<close>\<close>

definition show_int :: "int \<Rightarrow> string" where
  "show_int i = (if i < 0 then CHR ''-'' # show_nat (nat (- i)) else show_nat (nat i))"

text \<open>The digits \<^verbatim>\<open>atoi\<close> consumes, from the left.\<close>

fun read_digits :: "nat \<Rightarrow> string \<Rightarrow> nat" where
  "read_digits acc [] = acc"
| "read_digits acc (c # cs) = (if isdigit c then read_digits (10 * acc + digit_val c) cs else acc)"

definition atoi :: "string \<Rightarrow> int" where
  "atoi s =
     (let t = dropWhile isspace s in
      if t \<noteq> [] \<and> hd t = CHR ''-'' then - int (read_digits 0 (tl t))
      else if t \<noteq> [] \<and> hd t = CHR ''+'' then int (read_digits 0 (tl t))
      else int (read_digits 0 t))"

lemma of_digit_char: "d < 10 \<Longrightarrow> (of_char (digit_char d) :: nat) = 48 + d"
  by (simp add: digit_char_def)

lemma isdigit_digit_char: "d < 10 \<Longrightarrow> isdigit (digit_char d)"
  by (simp add: isdigit_def of_digit_char)

lemma digit_val_digit_char: "d < 10 \<Longrightarrow> digit_val (digit_char d) = d"
  by (simp add: digit_val_def of_digit_char)

lemma read_digits_append:
  "\<forall>c \<in> set s. isdigit c \<Longrightarrow> read_digits acc (s @ t) = read_digits (read_digits acc s) t"
  by (induction s arbitrary: acc) auto

lemma show_nat_digits: "c \<in> set (show_nat n) \<Longrightarrow> isdigit c"
proof (induction n rule: show_nat.induct)
  case (1 n)
  then show ?case
    by (subst (asm) show_nat.simps) (auto simp: isdigit_digit_char split: if_splits)
qed

lemma show_nat_nonempty [simp]: "show_nat n \<noteq> []"
  by (subst show_nat.simps) simp

lemma read_show_nat: "read_digits 0 (show_nat n) = n"
proof (induction n rule: show_nat.induct)
  case (1 n)
  show ?case
  proof (cases "n < 10")
    case True
    then show ?thesis
      by (subst show_nat.simps) (simp add: isdigit_digit_char digit_val_digit_char)
  next
    case False
    have "read_digits 0 (show_nat (n div 10) @ [digit_char (n mod 10)])
        = read_digits (read_digits 0 (show_nat (n div 10))) [digit_char (n mod 10)]"
      by (rule read_digits_append) (auto dest: show_nat_digits)
    also have "\<dots> = n"
      using "1.IH" [OF False] by (simp add: isdigit_digit_char digit_val_digit_char)
    finally show ?thesis
      using False by (subst show_nat.simps) simp
  qed
qed

lemma isdigit_not_other: "isdigit c \<Longrightarrow> \<not> isspace c \<and> c \<noteq> CHR ''-'' \<and> c \<noteq> CHR ''+''"
  by (auto simp: isdigit_def isspace_def)

lemma show_nat_hd: "isdigit (hd (show_nat n))"
  using hd_in_set [OF show_nat_nonempty [of n]] by (rule show_nat_digits)

lemma dropWhile_hd: "xs \<noteq> [] \<Longrightarrow> \<not> P (hd xs) \<Longrightarrow> dropWhile P xs = xs"
  by (cases xs) auto

text \<open>What \<^verbatim>\<open>%d\<close> prints, \<^verbatim>\<open>atoi\<close> reads back.\<close>

lemma atoi_show_int [simp]: "atoi (show_int i) = i"
proof (cases "i < 0")
  case True
  have "dropWhile isspace (CHR ''-'' # show_nat (nat (- i))) = CHR ''-'' # show_nat (nat (- i))"
    by (simp add: isspace_def)
  with True show ?thesis
    by (simp add: atoi_def show_int_def read_show_nat Let_def)
next
  case False
  have "dropWhile isspace (show_nat (nat i)) = show_nat (nat i)"
    by (rule dropWhile_hd) (use show_nat_hd isdigit_not_other in auto)
  with False isdigit_not_other [OF show_nat_hd] show ?thesis
    by (simp add: atoi_def show_int_def read_show_nat Let_def)
qed

lemma length_show_nat: "n < 10 ^ k \<Longrightarrow> 0 < k \<Longrightarrow> length (show_nat n) \<le> k"
proof (induction n arbitrary: k rule: show_nat.induct)
  case (1 n)
  show ?case
  proof (cases "n < 10")
    case True
    with "1.prems" show ?thesis by (subst show_nat.simps) simp
  next
    case False
    then obtain k' where k: "k = Suc k'" "0 < k'"
      using "1.prems" by (cases k; cases "k - 1") auto
    with "1.prems" have "n div 10 < 10 ^ k'" by auto
    with "1.IH" [OF False] k False show ?thesis
      by (subst show_nat.simps) auto
  qed
qed

section \<open>Scanning numbers\<close>

text \<open>
  The conversion \<^verbatim>\<open>%d\<close> of \<^verbatim>\<open>sscanf\<close>: the number and the text after it, \<open>None\<close> when
  no number starts there.
\<close>

definition scan_digits :: "string \<Rightarrow> (nat \<times> string) option" where
  "scan_digits s =
     (if takeWhile isdigit s = [] then None
      else Some (read_digits 0 (takeWhile isdigit s), dropWhile isdigit s))"

definition scan_int :: "string \<Rightarrow> (int \<times> string) option" where
  "scan_int s =
     (let t = dropWhile isspace s in
      if t \<noteq> [] \<and> hd t = CHR ''-'' then map_option (\<lambda>(n, u). (- int n, u)) (scan_digits (tl t))
      else if t \<noteq> [] \<and> hd t = CHR ''+'' then map_option (\<lambda>(n, u). (int n, u)) (scan_digits (tl t))
      else map_option (\<lambda>(n, u). (int n, u)) (scan_digits t))"

lemma scan_digits_shorter: "scan_digits s = Some (n, t) \<Longrightarrow> length t < length s"
  using length_dropWhile_le [of isdigit "tl s"]
  by (cases s) (auto simp: scan_digits_def split: if_splits)

lemma scan_int_shorter: "scan_int s = Some (x, t) \<Longrightarrow> length t < length s"
proof -
  assume "scan_int s = Some (x, t)"
  then obtain n u where u: "scan_digits u = Some (n, t)" "u = dropWhile isspace s \<or> u = tl (dropWhile isspace s)"
    by (auto simp: scan_int_def Let_def split: if_splits)
  have "length u \<le> length s" using u(2) length_dropWhile_le [of isspace s] by (auto simp: le_diff_conv)
  with scan_digits_shorter [OF u(1)] show ?thesis by simp
qed

end
