(* ===== verification/Calc.thy ===== *)
theory Calc
  imports Bulk Ctext "HOL-Library.Signed_Division"
begin

text \<open>
  The remote calculator of \<^verbatim>\<open>lab07/l7\<close>: a request of five 32-bit words in network
  byte order (two operands, a place for the result, the operator, a status), answered by
  \<^verbatim>\<open>calculate\<close> in the server \<^verbatim>\<open>l7-1_server.c\<close> and printed by the clients
  \<^verbatim>\<open>l7-1_client_local.c\<close> and \<^verbatim>\<open>l7-1_client_tcp.c\<close>.
\<close>

section \<open>The message\<close>

text \<open>The bytes of an \<^verbatim>\<open>int32_t\<close> array in memory, little-endian.\<close>

definition word_bytes :: "32 word \<Rightarrow> byte list" where
  "word_bytes w = map (\<lambda>i. word_of_nat (unat w div 256 ^ i)) [0, 1, 2, 3]"

definition bytes_word :: "byte list \<Rightarrow> 32 word" where
  "bytes_word bs = word_of_nat (unat (bs ! 0) + 256 * unat (bs ! 1) + 65536 * unat (bs ! 2)
                                + 16777216 * unat (bs ! 3))"

definition mem_of :: "32 word list \<Rightarrow> byte list" where
  "mem_of ws = concat (map word_bytes ws)"

fun words_of :: "nat \<Rightarrow> byte list \<Rightarrow> 32 word list" where
  "words_of 0 bs = []"
| "words_of (Suc k) bs = bytes_word (take 4 bs) # words_of k (drop 4 bs)"

lemma length_word_bytes [simp]: "length (word_bytes w) = 4"
  by (simp add: word_bytes_def)

lemma length_mem_of [simp]: "length (mem_of ws) = 4 * length ws"
  by (induction ws) (simp_all add: mem_of_def)

lemma bytes_word_bytes [simp]: "bytes_word (word_bytes w) = w"
proof -
  define n where "n = unat w"
  have n: "n < 4294967296" using unsigned_less [of w] by (simp add: n_def)
  have b: "unat (word_of_nat (n div 256 ^ i) :: byte) = n div 256 ^ i mod 256" for i
    by (simp add: unsigned_of_nat take_bit_eq_mod)
  have "n div 16777216 < 256" using n by simp
  moreover have "n mod 256 + 256 * (n div 256 mod 256) + 65536 * (n div 65536 mod 256)
      + 16777216 * (n div 16777216) = n"
  proof -
    have "n = 256 * (n div 256) + n mod 256" by simp
    moreover have "n div 256 = 256 * (n div 65536) + n div 256 mod 256"
      using mult_div_mod_eq [of 256 "n div 256"] by (simp add: div_mult2_eq [symmetric])
    moreover have "n div 65536 = 256 * (n div 16777216) + n div 65536 mod 256"
      using mult_div_mod_eq [of 256 "n div 65536"] by (simp add: div_mult2_eq [symmetric])
    ultimately show ?thesis by linarith
  qed
  ultimately have "bytes_word (word_bytes w) = word_of_nat n"
    using b [of 0] b [of 1] b [of 2] b [of 3]
    by (simp add: bytes_word_def word_bytes_def n_def [symmetric])
  then show ?thesis by (simp add: n_def)
qed

lemma words_of_mem_of [simp]: "words_of (length ws) (mem_of ws) = ws"
  by (induction ws) (simp_all add: mem_of_def)

section \<open>The server's calculation\<close>

definition fits_int32 :: "int \<Rightarrow> bool" where
  "fits_int32 x \<longleftrightarrow> - 2147483648 \<le> x \<and> x < 2147483648"

text \<open>
  \<^verbatim>\<open>(char)ntohl(data[3])\<close> keeps the low byte.  A signed result that does not fit an
  \<^verbatim>\<open>int32_t\<close> is undefined in C, as is \<^verbatim>\<open>INT32_MIN / -1\<close>; the code has no guard
  against either.
\<close>

definition op_char :: "32 word \<Rightarrow> char" where
  "op_char w = char_of (unat w mod 256)"

definition int_result :: "int \<Rightarrow> 32 word run" where
  "int_result x = (if fits_int32 x then Inr (word_of_int x) else Inl (Undefined ''signed overflow''))"

definition calculate :: "32 word list \<Rightarrow> 32 word list run" where
  "calculate data =
     (let op1 = sint (ntohl (data ! 0)); op2 = sint (ntohl (data ! 1));
          c = op_char (ntohl (data ! 3));
          finish = (\<lambda>result status. data[4 := htonl status, 2 := htonl result])
      in if c = CHR ''+'' then bindr (int_result (op1 + op2)) (\<lambda>r. Inr (finish r 1))
         else if c = CHR ''-'' then bindr (int_result (op1 - op2)) (\<lambda>r. Inr (finish r 1))
         else if c = CHR ''*'' then bindr (int_result (op1 * op2)) (\<lambda>r. Inr (finish r 1))
         else if c = CHR ''/'' then
           (if op2 = 0 then Inr (finish (-1) 0)
            else bindr (int_result (op1 sdiv op2)) (\<lambda>r. Inr (finish r 1)))
         else Inr (finish (-1) 0))"

section \<open>The server's loop\<close>

text \<open>
  One descriptor reported by \<^verbatim>\<open>epoll_pwait\<close>: what \<^verbatim>\<open>accept\<close> answers, what the
  new connection delivers and accepts, and what \<^verbatim>\<open>close\<close> answers.
\<close>

record conn =
  accepts :: "int sysret list"
  incoming :: "seg list"
  outgoing :: "wans list"
  closes :: "int sysret list"

datatype epoll_ans = Ready "conn list" | PollErr errno bool
  \<comment> \<open>\<open>PollErr e b\<close>: the call failed with \<open>e\<close>; \<open>b\<close> tells that SIGINT was delivered during it\<close>

datatype calc_eff = Sent int "byte list" | Closed int | Stopped

text \<open>The body of the \<^verbatim>\<open>for\<close> loop over the reported descriptors.\<close>

definition serve_conn :: "conn \<Rightarrow> (calc_eff, unit) io" where
  "serve_conn cn =
     seq ([], add_new_client (accepts cn)) (\<lambda>client_socket.
     case bulk_read (if client_socket < 0 then [RErr EBADF] else incoming cn) 20 of
       (Fail _, _, _) \<Rightarrow> die (ERR ''read:'')
     | (Ok sz, buf, _) \<Rightarrow>
         seq (if sz = 20 then
                seq ([], calculate (words_of 5 buf)) (\<lambda>data.
                case bulk_write (outgoing cn) (mem_of data) of
                  (Ok _, sent, _) \<Rightarrow> emit [Sent client_socket sent]
                | (Fail e, sent, _) \<Rightarrow>
                    ([Sent client_socket sent],
                     if e \<noteq> EPIPE then Inl (ERR ''write:'') else Inr ()))
              else ret ()) (\<lambda>_.
         case temp_failure_retry (closes cn) of
           Ok _ \<Rightarrow> emit [Closed client_socket]
         | Fail _ \<Rightarrow> die (ERR ''close'')))"

fun serve_ready :: "conn list \<Rightarrow> (calc_eff, unit) io" where
  "serve_ready [] = ret ()"
| "serve_ready (cn # cns) = seq (serve_conn cn) (\<lambda>_. serve_ready cns)"

text \<open>
  The loop \<^verbatim>\<open>while (do_work)\<close> over the answers of \<^verbatim>\<open>epoll_pwait\<close>.  SIGINT is
  blocked outside that call, so \<^verbatim>\<open>do_work\<close> changes only there.  \<open>Stopped\<close> marks the
  regular end (descriptor closed, signal mask restored).
\<close>

fun do_server :: "bool \<Rightarrow> epoll_ans list \<Rightarrow> (calc_eff, unit) io" where
  "do_server do_work [] = (if do_work then ret () else emit [Stopped])"
| "do_server do_work (a # as) =
     (if \<not> do_work then emit [Stopped]
      else case a of
        Ready cns \<Rightarrow>
          (if cns = [] then die (ERR ''epoll_pwait'')
           else seq (serve_ready cns) (\<lambda>_. do_server True as))
      | PollErr e sigint \<Rightarrow>
          (if e = EINTR then do_server (\<not> sigint) as else die (ERR ''epoll_pwait'')))"

section \<open>The clients\<close>

text \<open>
  \<open>argv\<close> holds the arguments from \<^verbatim>\<open>argv[0]\<close> on; the local client reads the operands
  from positions 2, 3 and 4, the TCP client from 3, 4 and 5.  An empty operator argument is the
  NUL character.
\<close>

definition arg_char :: "string \<Rightarrow> char" where
  "arg_char s = (if s = [] then CHR 0x00 else hd s)"

definition char_word :: "char \<Rightarrow> 32 word" where
  "char_word c = (let n = (of_char c :: nat) in word_of_int (if n < 128 then int n else int n - 256))"

definition prepare_request :: "string list \<Rightarrow> 32 word list" where
  "prepare_request argv =
     [htonl (word_of_int (atoi (argv ! 2))), htonl (word_of_int (atoi (argv ! 3))), htonl 0,
      htonl (char_word (arg_char (argv ! 4))), htonl 1]"

definition tcp_prepare_request :: "string list \<Rightarrow> 32 word list" where
  "tcp_prepare_request argv =
     [htonl (word_of_int (atoi (argv ! 3))), htonl (word_of_int (atoi (argv ! 4))), htonl 0,
      htonl (char_word (arg_char (argv ! 5))), htonl 1]"

definition print_answer :: "32 word list \<Rightarrow> string" where
  "print_answer data =
     (if ntohl (data ! 4) \<noteq> 0 then
        show_int (sint (ntohl (data ! 0))) @ '' '' @ [op_char (ntohl (data ! 3))] @ '' ''
        @ show_int (sint (ntohl (data ! 1))) @ '' = '' @ show_int (sint (ntohl (data ! 2))) @ [CHR 0x0A]
      else ''Operation impossible'' @ [CHR 0x0A])"

datatype client_eff = CSent "byte list" | Printed string

text \<open>
  The client after its socket is connected: send the request, read the answer, print it, close.
\<close>

definition client_session ::
  "32 word list \<Rightarrow> wans list \<Rightarrow> seg list \<Rightarrow> int sysret list \<Rightarrow> (client_eff, unit) io" where
  "client_session data w s cl =
     (case bulk_write w (mem_of data) of
        (Fail _, sent, _) \<Rightarrow> ([CSent sent], Inl (ERR ''write:''))
      | (Ok _, sent, _) \<Rightarrow>
          seq (emit [CSent sent]) (\<lambda>_.
          case bulk_read s 20 of
            (Fail _, _, _) \<Rightarrow> die (ERR ''read:'')
          | (Ok n, buf, _) \<Rightarrow>
              if n < 20 then die (ERR ''read:'')
              else seq (emit [Printed (print_answer (words_of 5 buf))]) (\<lambda>_.
                case temp_failure_retry cl of Ok _ \<Rightarrow> ret () | Fail _ \<Rightarrow> die (ERR ''close''))))"


section \<open>The main programs\<close>

datatype main_eff = Net netcall | Client client_eff | Server calc_eff

text \<open>\<^verbatim>\<open>main\<close> of the local client: \<open>argv\<close> includes the program name.\<close>

definition client_local_main ::
  "kernel \<Rightarrow> string list \<Rightarrow> wans list \<Rightarrow> seg list \<Rightarrow> int sysret list \<Rightarrow> (main_eff, unit) io" where
  "client_local_main k argv w s cl =
     (if length argv \<noteq> 5 then die Usage
      else seq (lift_eff Net (connect_local_socket k (argv ! 1))) (\<lambda>fd.
           lift_eff Client (client_session (prepare_request argv) w s cl)))"

definition client_tcp_main ::
  "kernel \<Rightarrow> (string \<Rightarrow> string \<Rightarrow> sockaddr_in option) \<Rightarrow> string list \<Rightarrow> wans list \<Rightarrow> seg list
   \<Rightarrow> int sysret list \<Rightarrow> (main_eff, unit) io" where
  "client_tcp_main k getaddrinfo argv w s cl =
     (if length argv \<noteq> 6 then die Usage
      else seq (lift_eff Net (connect_tcp_socket k getaddrinfo (argv ! 1) (argv ! 2))) (\<lambda>fd.
           lift_eff Client (client_session (tcp_prepare_request argv) w s cl)))"

text \<open>
  \<^verbatim>\<open>main\<close> of the server: signal dispositions, the two listening sockets made non-blocking,
  the loop, and the clean-up when the loop ends.
\<close>

definition set_nonblock :: "int \<Rightarrow> (netcall, unit) io" where
  "set_nonblock fd = emit [SysSetNonblock fd]"

definition check_handler :: "(netcall, int) io \<Rightarrow> string \<Rightarrow> (netcall, unit) io" where
  "check_handler m msg = seq m (\<lambda>r. if r \<noteq> 0 then die (ERR msg) else ret ())"

definition server_setup :: "kernel \<Rightarrow> string list \<Rightarrow> (netcall, int \<times> int) io" where
  "server_setup k argv =
     (if length argv \<noteq> 3 then die Usage
      else seq (check_handler (sethandler k ''SIG_IGN'' ''SIGPIPE'') ''Seting SIGPIPE:'') (\<lambda>_.
           seq (check_handler (sethandler k ''sigint_handler'' ''SIGINT'') ''Seting SIGINT:'') (\<lambda>_.
           seq (bind_local_socket k (argv ! 1) 3) (\<lambda>local_sfd.
           seq (set_nonblock local_sfd) (\<lambda>_.
           seq (bind_tcp_socket k (word_of_int (atoi (argv ! 2))) 3) (\<lambda>tcp_sfd.
           seq (set_nonblock tcp_sfd) (\<lambda>_. ret (local_sfd, tcp_sfd))))))))"

definition server_cleanup :: "kernel \<Rightarrow> string \<Rightarrow> int \<Rightarrow> int \<Rightarrow> (netcall, unit) io" where
  "server_cleanup k path local_sfd tcp_sfd =
     seq (syscall k (SysClose local_sfd) ''close'') (\<lambda>_.
     seq (syscall k (SysUnlink path) ''unlink'') (\<lambda>_.
     seq (syscall k (SysClose tcp_sfd) ''close'') (\<lambda>_. ret ())))"

definition server_main :: "kernel \<Rightarrow> string list \<Rightarrow> epoll_ans list \<Rightarrow> (main_eff, unit) io" where
  "server_main k argv polls =
     seq (lift_eff Net (server_setup k argv)) (\<lambda>(local_sfd, tcp_sfd).
     seq (lift_eff Server (do_server True polls)) (\<lambda>_.
     lift_eff Net (server_cleanup k (argv ! 1) local_sfd tcp_sfd)))"

section \<open>Correctness\<close>

lemma sint_word_of_int: "fits_int32 x \<Longrightarrow> sint (word_of_int x :: 32 word) = x"
  by (simp add: fits_int32_def signed_of_int signed_take_bit_int_eq_self)

lemma op_char_char_word [simp]: "op_char (char_word c) = c"
proof -
  define n where "n = (of_char c :: nat)"
  have n: "n < 256" by (simp add: n_def)
  have "unat (char_word c) mod 256 = n"
  proof (cases "n < 128")
    case True
    then show ?thesis
      by (simp add: char_word_def n_def [symmetric] unsigned_of_nat take_bit_eq_mod mod_mod_cancel)
  next
    case False
    have "(int n - 256) mod 4294967296 = int n + 4294967040"
    proof -
      have "(int n - 256) mod 4294967296 = (int n - 256 + 1 * 4294967296) mod 4294967296"
        by (simp only: mod_mult_self1)
      also have "\<dots> = int n + 4294967040" using n False by (simp add: mod_pos_pos_trivial)
      finally show ?thesis .
    qed
    then have "unat (word_of_int (int n - 256) :: 32 word) = n + 4294967040"
      by (simp only: unsigned_of_int take_bit_eq_mod) simp
    moreover have "(n + 4294967040) mod 256 = n"
      using n mod_mult_self1 [of n 16777215 256] by simp
    ultimately show ?thesis
      using False by (simp add: char_word_def n_def [symmetric])
  qed
  then show ?thesis by (simp add: op_char_def n_def)
qed

lemma sint_minus_1: "sint (- 1 :: 32 word) = - 1"
  by simp

text \<open>What the service promises: the exact result, or no result.\<close>

definition calc_spec :: "int \<Rightarrow> int \<Rightarrow> char \<Rightarrow> int option" where
  "calc_spec a b c =
     (if c = CHR ''+'' then Some (a + b) else if c = CHR ''-'' then Some (a - b)
      else if c = CHR ''*'' then Some (a * b)
      else if c = CHR ''/'' \<and> b \<noteq> 0 then Some (a sdiv b) else None)"

definition calc_text :: "int \<Rightarrow> int \<Rightarrow> char \<Rightarrow> string" where
  "calc_text a b c =
     (case calc_spec a b c of
        Some r \<Rightarrow> show_int a @ '' '' @ [c] @ '' '' @ show_int b @ '' = '' @ show_int r @ [CHR 0x0A]
      | None \<Rightarrow> ''Operation impossible'' @ [CHR 0x0A])"

definition in_range_result :: "int \<Rightarrow> int \<Rightarrow> char \<Rightarrow> bool" where
  "in_range_result a b c = (case calc_spec a b c of Some r \<Rightarrow> fits_int32 r | None \<Rightarrow> True)"

definition request :: "int \<Rightarrow> int \<Rightarrow> char \<Rightarrow> 32 word list" where
  "request a b c =
     [htonl (word_of_int a), htonl (word_of_int b), htonl 0, htonl (char_word c), htonl 1]"

definition reply :: "int \<Rightarrow> int \<Rightarrow> char \<Rightarrow> 32 word list" where
  "reply a b c =
     (let (r, st) = (case calc_spec a b c of Some r \<Rightarrow> (r, 1) | None \<Rightarrow> (- 1, 0))
      in [htonl (word_of_int a), htonl (word_of_int b), htonl (word_of_int r),
          htonl (char_word c), htonl st])"

lemma calculate_request:
  assumes "fits_int32 a" and "fits_int32 b" and "in_range_result a b c"
  shows "calculate (request a b c) = Inr (reply a b c)"
  using assms
  by (auto simp: calculate_def request_def reply_def calc_spec_def in_range_result_def
      int_result_def sint_word_of_int Let_def split: if_splits)

lemma length_request [simp]: "length (request a b c) = 5"
  by (simp add: request_def)

lemma length_reply [simp]: "length (reply a b c) = 5"
  by (simp add: reply_def split: prod.splits option.splits)

lemma print_answer_reply:
  assumes "fits_int32 a" and "fits_int32 b" and "in_range_result a b c"
  shows "print_answer (reply a b c) = calc_text a b c"
  using assms
  by (auto simp: print_answer_def reply_def calc_text_def in_range_result_def sint_word_of_int
      split: option.splits)

lemma words_of_mem_of_5: "length ws = 5 \<Longrightarrow> words_of 5 (mem_of ws) = ws"
  by (metis words_of_mem_of)

lemma serve_conn_request:
  assumes "temp_failure_retry (accepts cn) = Ok fd" and "0 \<le> fd"
    and "clean (incoming cn)" and "pending (incoming cn) = mem_of (request a b c) @ rest"
    and "willing (outgoing cn)" and "temp_failure_retry (closes cn) = Ok z"
    and "fits_int32 a" and "fits_int32 b" and "in_range_result a b c"
  shows "serve_conn cn = ([Sent fd (mem_of (reply a b c)), Closed fd], Inr ())"
proof -
  obtain s' where rd: "bulk_read (incoming cn) 20 = (Ok 20, mem_of (request a b c), s')"
    using br.rd_message [OF assms(3,4)] by auto
  obtain w' where wr: "bulk_write (outgoing cn) (mem_of (reply a b c))
      = (Ok 20, mem_of (reply a b c), w')"
    using bw.wr_message [OF assms(5), of "mem_of (reply a b c)"] by auto
  from assms(1,2,6) rd wr calculate_request [OF assms(7-9)] show ?thesis
    by (simp add: serve_conn_def add_new_client_def words_of_mem_of_5 emit_def)
qed

lemma client_session_reply:
  assumes "willing w" and "clean s" and "pending s = mem_of (reply a b c)"
    and "temp_failure_retry cl = Ok z"
    and "fits_int32 a" and "fits_int32 b" and "in_range_result a b c"
  shows "client_session data w s cl
       = ([CSent (mem_of data), Printed (calc_text a b c)], Inr ())"
proof -
  obtain w' where wr: "bulk_write w (mem_of data) = (Ok (length (mem_of data)), mem_of data, w')"
    using bw.wr_message [OF assms(1)] by blast
  obtain s' where rd: "bulk_read s 20 = (Ok 20, mem_of (reply a b c), s')"
    using br.rd_message [OF assms(2), of "mem_of (reply a b c)" "[]"] assms(3) by auto
  from wr rd assms(4) print_answer_reply [OF assms(5-7)] show ?thesis
    by (simp add: client_session_def words_of_mem_of_5)
qed

section \<open>Properties\<close>

text \<open>
  C14: one session with the calculator computes the function it promises.  The client sends the
  request made from its arguments, the server (whatever pieces the request arrives in, whatever
  pieces its answer leaves in, however often its calls are interrupted) sends exactly one answer, the
  request with its result and status filled in, closes the connection and does not fail,
  and the client prints the exact result, or that the operation is impossible for a division by
  zero or an unknown operator.  The operands are 32-bit values and so is the exact result (otherwise the server's
  arithmetic is undefined).
\<close>

theorem calc_session:
  assumes "length argv = 5"
    and "a = atoi (argv ! 2)" and "b = atoi (argv ! 3)" and "c = arg_char (argv ! 4)"
    and "fits_int32 a" and "fits_int32 b" and "in_range_result a b c"
    and "temp_failure_retry (accepts cn) = Ok fd" and "0 \<le> fd"
    and "clean (incoming cn)" and "pending (incoming cn) = mem_of (prepare_request argv)"
    and "willing (outgoing cn)" and "temp_failure_retry (closes cn) = Ok z"
    and "willing w" and "clean s" and "temp_failure_retry cl = Ok z'"
    and "pending s = concat [bs. Sent _ bs \<leftarrow> fst (serve_conn cn)]"
  shows "serve_conn cn = ([Sent fd (mem_of (reply a b c)), Closed fd], Inr ()) \<and>
    client_session (prepare_request argv) w s cl =
      ([CSent (mem_of (prepare_request argv)), Printed (calc_text a b c)], Inr ())"
proof -
  have req: "prepare_request argv = request a b c"
    using assms(2-4) by (simp add: prepare_request_def request_def)
  have srv: "serve_conn cn = ([Sent fd (mem_of (reply a b c)), Closed fd], Inr ())"
    by (rule serve_conn_request [where rest = "[]"]) (use assms req in simp_all)
  then have "pending s = mem_of (reply a b c)"
    using assms(17) by simp
  from client_session_reply [OF assms(14,15) this assms(16,5,6,7)] srv req show ?thesis
    by simp
qed

definition demo_argv :: "string list" where
  "demo_argv = [''client'', ''sock'', ''7'', ''-3'', ''*'']"

definition demo_conn :: conn where
  "demo_conn = \<lparr>accepts = [Fail EINTR, Ok 5],
     incoming = [Data (take 3 (mem_of (prepare_request demo_argv))), RErr EINTR,
                 Data (drop 3 (mem_of (prepare_request demo_argv)))],
     outgoing = [Accept 7, WErr EINTR], closes = [Ok 0]\<rparr>"

lemma demo_argv_values:
  "atoi (demo_argv ! 2) = 7" "atoi (demo_argv ! 3) = - 3" "arg_char (demo_argv ! 4) = CHR ''*''"
  by (code_simp, code_simp, code_simp)

theorem calc_session_witness:
  "\<exists>w s cl. client_session (prepare_request demo_argv) w s cl =
      ([CSent (mem_of (prepare_request demo_argv)), Printed (calc_text 7 (- 3) CHR ''*'')], Inr ())
    \<and> serve_conn demo_conn = ([Sent 5 (mem_of (reply 7 (- 3) CHR ''*'')), Closed 5], Inr ())"
proof -
  let ?out = "concat [bs. Sent _ bs \<leftarrow> fst (serve_conn demo_conn)]"
  have "length (mem_of (prepare_request demo_argv)) = 20" by (simp add: prepare_request_def)
  then have ne: "drop 3 (mem_of (prepare_request demo_argv)) \<noteq> []"
    "take 3 (mem_of (prepare_request demo_argv)) \<noteq> []"
    by (auto simp: take_eq_Nil simp flip: length_greater_0_conv simp del: length_mem_of)
  have srv: "serve_conn demo_conn = ([Sent 5 (mem_of (reply 7 (- 3) CHR ''*'')), Closed 5], Inr ())"
    by (rule serve_conn_request [where rest = "[]" and z = 0])
      (use ne in \<open>simp_all add: demo_conn_def prepare_request_def request_def demo_argv_values
         fits_int32_def in_range_result_def calc_spec_def\<close>)
  then have "length ?out = 20" by simp
  then have out: "?out \<noteq> []" by force
  have argc: "length demo_argv = 5" by (simp add: demo_argv_def)
  have "serve_conn demo_conn = ([Sent 5 (mem_of (reply 7 (- 3) CHR ''*'')), Closed 5], Inr ()) \<and>
    client_session (prepare_request demo_argv) [] [Data ?out] [Ok 0] =
      ([CSent (mem_of (prepare_request demo_argv)), Printed (calc_text 7 (- 3) CHR ''*'')], Inr ())"
    by (rule calc_session [OF argc, where cn = demo_conn and fd = 5 and z = 0 and z' = 0])
      (use out ne in \<open>simp_all add: demo_argv_values fits_int32_def in_range_result_def
         calc_spec_def demo_conn_def del: concat_eq_Nil_conv\<close>)
  then show ?thesis by blast
qed

text \<open>
  \<^verbatim>\<open>calculate\<close> is undefined exactly when the exact result does not fit 32 bits
  (the code computes in \<^verbatim>\<open>int32_t\<close> without a guard): in particular for
  \<^verbatim>\<open>INT32_MIN / -1\<close>, which traps.
\<close>

theorem calculate_defined_iff:
  assumes "fits_int32 a" and "fits_int32 b"
  shows "errored (calculate (request a b c)) \<longleftrightarrow> \<not> in_range_result a b c"
  using assms
  by (auto simp: calculate_def request_def calc_spec_def in_range_result_def
      int_result_def sint_word_of_int Let_def split: if_splits)

theorem calculate_defined_iff_witness:
  "errored (calculate (request (- 2147483648) (- 1) CHR ''/''))"
  using calculate_defined_iff [of "- 2147483648" "- 1" "CHR ''/''"]
  by (simp add: fits_int32_def in_range_result_def calc_spec_def)

text \<open>
  A descriptor reported ready whose connection is gone by the time of \<^verbatim>\<open>accept\<close>
  stops the whole server: \<^verbatim>\<open>add_new_client\<close> returns -1, which \<^verbatim>\<open>doServer\<close>
  hands to \<^verbatim>\<open>bulk_read\<close> unchecked.
\<close>

theorem serve_ready_vanished_client:
  assumes "temp_failure_retry (accepts cn) = Fail EAGAIN"
  shows "serve_ready (cn # cns) = ([], Inl (ERR ''read:''))"
proof -
  have "bulk_read [RErr EBADF] 20 = (Fail EBADF, [], [])"
    by (simp add: bulk_read_def bulk_read_loop.simps)
  with assms show ?thesis
    by (simp add: serve_conn_def add_new_client_def die_def)
qed

theorem serve_ready_vanished_client_witness:
  "serve_ready [\<lparr>accepts = [Fail EAGAIN], incoming = [], outgoing = [], closes = []\<rparr>]
     = ([], Inl (ERR ''read:''))"
  by (rule serve_ready_vanished_client) simp

end
