(* ===== verification/Udp.thy ===== *)
theory Udp
  imports Calc
begin

text \<open>
  The file transfer of \<^verbatim>\<open>lab08/lab\<close>: the client \<^verbatim>\<open>l8-1_client.c\<close> cuts a file
  into numbered chunks and sends each one over UDP until the server echoes it (stop and wait, six
  attempts); the server \<^verbatim>\<open>l8-1_server.c\<close> keeps up to five connections, prints the
  chunks of each in order and echoes what it has already printed.
\<close>

section \<open>The datagram\<close>

abbreviation MAXBUF :: nat where "MAXBUF \<equiv> 576"
abbreviation MAXADDR :: nat where "MAXADDR \<equiv> 5"

text \<open>
  \<^verbatim>\<open>ntohl(*((int32_t *)buf))\<close> and the second word, as \<^verbatim>\<open>int32_t\<close> values.
\<close>

definition word_at :: "nat \<Rightarrow> byte list \<Rightarrow> 32 word" where
  "word_at i buf = bytes_word (take 4 (drop (4 * i) buf))"

definition chunk_no :: "byte list \<Rightarrow> int" where
  "chunk_no buf = sint (ntohl (word_at 0 buf))"

definition last_flag :: "byte list \<Rightarrow> bool" where
  "last_flag buf \<longleftrightarrow> ntohl (word_at 1 buf) \<noteq> 0"

text \<open>
  \<^verbatim>\<open>printf("%s", buf + 8)\<close> prints up to the first NUL; after a datagram of fewer than 8 bytes, whose
  NUL is before the text, the buffer need not have another one.
\<close>

definition text_of :: "byte list \<Rightarrow> byte list run" where
  "text_of buf = (if 0 \<in> set (drop 8 buf) then Inr (takeWhile (\<lambda>b. b \<noteq> 0) (drop 8 buf)) else Inl (Undefined ''buf''))"

section \<open>The server\<close>

text \<open>\<open>chunkNo\<close> is an \<^verbatim>\<open>int32_t\<close>; the sum of it and 1 is formed for every datagram.\<close>

record connection =
  free :: bool
  chunkNo :: int
  addr :: sockaddr_in

text \<open>
  The loop of \<^verbatim>\<open>findIndex\<close>: \<open>emp\<close> is the last free slot passed so far; the loop stops
  at the slot of the address.
\<close>

fun find_loop ::
  "sockaddr_in \<Rightarrow> connection list \<Rightarrow> nat \<Rightarrow> nat option \<Rightarrow> nat option \<times> nat option" where
  "find_loop a [] i emp = (emp, None)"
| "find_loop a (c # cs) i emp =
     (if free c then find_loop a cs (Suc i) (Some i)
      else if addr c = a then (emp, Some i)
      else find_loop a cs (Suc i) emp)"

text \<open>\<^verbatim>\<open>findIndex\<close> returns the index (\<open>None\<close> is -1) and the updated table.\<close>

definition findIndex ::
  "sockaddr_in \<Rightarrow> connection list \<Rightarrow> nat option \<times> connection list" where
  "findIndex a con =
     (case find_loop a con 0 None of
        (emp, pos) \<Rightarrow>
          (case pos of
             Some i \<Rightarrow> (Some i, con)
           | None \<Rightarrow>
               (case emp of
                  Some e \<Rightarrow> (Some e, con[e := \<lparr>free = False, chunkNo = 0, addr = a\<rparr>])
                | None \<Rightarrow> (None, con))))"

record server =
  con :: "connection list"
  sbuf :: "byte list"

datatype udp_eff = Part sockaddr_in bool int "byte list" | SendTo sockaddr_in "byte list"
  \<comment> \<open>\<open>Part a l k t\<close>: the line \<open>Part k\<close> (\<open>Last Part k\<close> when \<open>l\<close>) and the text \<open>t\<close>, for client \<open>a\<close>\<close>

text \<open>
  One round of the loop of \<^verbatim>\<open>doServer\<close>: a datagram \<open>d\<close> of at most 576 bytes from
  \<open>a\<close>, and the answer of \<^verbatim>\<open>sendto\<close>.  The buffer keeps its old bytes behind those
  received; the byte after them is set to 0.
\<close>

definition receive :: "byte list \<Rightarrow> byte list \<Rightarrow> byte list" where
  "receive buf d = (d @ drop (length d) buf)[length d := 0]"

definition print_part :: "server \<Rightarrow> sockaddr_in \<Rightarrow> nat \<Rightarrow> (server \<times> udp_eff list) run" where
  "print_part s a i =
     bindr (text_of (sbuf s)) (\<lambda>t.
     let k = chunk_no (sbuf s); l = last_flag (sbuf s); c = con s ! i
     in Inr (s\<lparr>con := (con s)[i := c\<lparr>free := (if l then True else free c), chunkNo := chunkNo c + 1\<rparr>]\<rparr>,
             [Part a l k t]))"

definition echo :: "server \<Rightarrow> sockaddr_in \<Rightarrow> nat \<Rightarrow> nat sysret \<Rightarrow> (udp_eff, server) io" where
  "echo s a i answer =
     (case answer of
        Ok _ \<Rightarrow> ([SendTo a (take MAXBUF (sbuf s))], Inr s)
      | Fail e \<Rightarrow>
          if e = EPIPE then ret (s\<lparr>con := (con s)[i := (con s ! i)\<lparr>free := True\<rparr>]\<rparr>)
          else die (ERR ''send:''))"

definition serve ::
  "server \<Rightarrow> sockaddr_in \<Rightarrow> byte list \<Rightarrow> nat sysret \<Rightarrow> (udp_eff, server) io" where
  "serve s a d answer =
     (let s1 = s\<lparr>sbuf := receive (sbuf s) d\<rparr>
      in case findIndex a (con s1) of
           (None, c) \<Rightarrow> ret (s1\<lparr>con := c\<rparr>)
         | (Some i, c) \<Rightarrow>
             (let s2 = s1\<lparr>con := c\<rparr>; k = chunk_no (sbuf s2)
              in if chunkNo (c ! i) = 2147483647 then die (Undefined ''signed overflow'')
                 else if k > chunkNo (c ! i) + 1 then ret s2
                 else if k = chunkNo (c ! i) + 1 then
                   seq ([], print_part s2 a i) (\<lambda>(s3, out). seq (emit out) (\<lambda>_. echo s3 a i answer))
                 else echo s2 a i answer))"

definition server_start :: "connection list \<Rightarrow> byte list \<Rightarrow> server" where
  "server_start con0 buf0 = \<lparr>con = map (\<lambda>c. c\<lparr>free := True\<rparr>) con0, sbuf = buf0\<rparr>"
  \<comment> \<open>the arrays are not initialised, apart from the flags \<open>free\<close>\<close>

section \<open>The client\<close>

datatype phase = Sending | Waiting | Done | GaveUp

record client =
  infile :: "seg list"
  cur :: int
  sz :: nat
  cnt :: nat
  sendbuf :: "byte list"
  recvbuf :: "byte list"
  phase :: phase

text \<open>
  The top of the loop of \<^verbatim>\<open>doClient\<close>: clear both buffers, read up to 568 bytes into
  the body of the datagram, number it, and mark it as the last one when the read was short.
\<close>

definition mk_chunk :: "int \<Rightarrow> byte list \<Rightarrow> byte list" where
  "mk_chunk k body =
     word_bytes (htonl (word_of_int k))
     @ word_bytes (if length body < MAXBUF - 8 then htonl 1 else 0)
     @ body @ replicate (MAXBUF - 8 - length body) 0"

definition start_chunk :: "client \<Rightarrow> client run" where
  "start_chunk c =
     (case bulk_read (infile c) (MAXBUF - 8) of
        (Fail _, _, _) \<Rightarrow> Inl (ERR ''read from file:'')
      | (Ok n, body, f) \<Rightarrow>
          Inr (c\<lparr>infile := f, cur := cur c + 1, sz := n, cnt := 0,
                 sendbuf := mk_chunk (cur c + 1) body, recvbuf := replicate MAXBUF 0,
                 phase := Sending\<rparr>))"

text \<open>
  What happens to the \<^verbatim>\<open>recv\<close> of \<^verbatim>\<open>sendAndConfirm\<close> until it returns: a
  datagram, a signal (\<open>True\<close> when it is the alarm of the half-second timer), or an error.  The
  timer ends every wait: an exhausted list is the alarm.
\<close>

datatype rcv = Got "byte list" | Interrupted bool | RcvErr

fun wait_confirm :: "rcv list \<Rightarrow> byte list \<Rightarrow> byte list run" where
  "wait_confirm [] buf = Inr buf"
| "wait_confirm (Got d # rs) buf = Inr (take MAXBUF d @ drop (length (take MAXBUF d)) buf)"
| "wait_confirm (Interrupted alarm # rs) buf = (if alarm then Inr buf else wait_confirm rs buf)"
| "wait_confirm (RcvErr # rs) buf = Inl (ERR ''recv:'')"

definition acked :: "client \<Rightarrow> bool" where
  "acked c \<longleftrightarrow> word_at 0 (recvbuf c) = htonl (word_of_int (cur c))"

definition send_step :: "client \<Rightarrow> client" where
  "send_step c = c\<lparr>cnt := Suc (cnt c), phase := Waiting\<rparr>"

text \<open>
  The conditions of the two \<^verbatim>\<open>do\<close> loops after an attempt: try again up to six times, give
  up, or go on to the next chunk until a short one was confirmed.
\<close>

definition after_attempt :: "client \<Rightarrow> client run" where
  "after_attempt c =
     (if \<not> acked c \<and> cnt c \<le> 5 then Inr (c\<lparr>phase := Sending\<rparr>)
      else if \<not> acked c \<and> cnt c > 5 then Inr (c\<lparr>phase := GaveUp\<rparr>)
      else if sz c = MAXBUF - 8 then start_chunk c
      else Inr (c\<lparr>phase := Done\<rparr>))"

definition confirm_step :: "client \<Rightarrow> rcv list \<Rightarrow> client run" where
  "confirm_step c rs = bindr (wait_confirm rs (recvbuf c)) (\<lambda>b. after_attempt (c\<lparr>recvbuf := b\<rparr>))"

definition client_start :: "seg list \<Rightarrow> client run" where
  "client_start f =
     start_chunk \<lparr>infile = f, cur = 0, sz = 0, cnt = 0, sendbuf = [], recvbuf = [], phase = Sending\<rparr>"

text \<open>\<^verbatim>\<open>doClient\<close> over the waits of its attempts, with the datagrams it sends.\<close>

fun client_loop :: "client \<Rightarrow> rcv list list \<Rightarrow> (byte list, client) io" where
  "client_loop c [] = ret c"
| "client_loop c (rs # rss) =
     (if phase c = Sending then
        seq (emit [sendbuf c]) (\<lambda>_.
        seq ([], confirm_step (send_step c) rs) (\<lambda>c'. client_loop c' rss))
      else ret c)"

definition doClient :: "seg list \<Rightarrow> rcv list list \<Rightarrow> (byte list, client) io" where
  "doClient f rss = seq ([], client_start f) (\<lambda>c. client_loop c rss)"

section \<open>What the datagrams carry\<close>

lemma word_at_mk_chunk:
  "word_at 0 (mk_chunk k body) = htonl (word_of_int k)"
  "word_at (Suc 0) (mk_chunk k body) = (if length body < MAXBUF - 8 then htonl 1 else 0)"
  by (simp_all add: word_at_def mk_chunk_def)

lemma length_mk_chunk: "length body \<le> MAXBUF - 8 \<Longrightarrow> length (mk_chunk k body) = MAXBUF"
  by (simp add: mk_chunk_def)

lemma word_at_append: "length d = MAXBUF \<Longrightarrow> i \<le> 1 \<Longrightarrow> word_at i (d @ e) = word_at i d"
  by (simp add: word_at_def)

lemma htonl_0 [simp]: "htonl 0 = 0"
  by (simp add: htonl_def swap32_def swap16_def)

lemma ntohl_0 [simp]: "ntohl 0 = 0"
  by (simp add: ntohl_def)

lemma htonl_eq_0_iff: "htonl w = 0 \<longleftrightarrow> w = 0"
  using htonl_inj [of w 0] by simp

definition c_text :: "byte list \<Rightarrow> byte list" where
  "c_text body = takeWhile (\<lambda>b. b \<noteq> 0) body"

lemma takeWhile_zeros: "takeWhile (\<lambda>b. b \<noteq> 0) (xs @ replicate n 0) = takeWhile (\<lambda>b. b \<noteq> 0) xs"
  by (induction xs) (simp_all add: takeWhile_replicate)

text \<open>A whole datagram of the client, as the server's buffer holds and decodes it.\<close>

lemma receive_whole: "length d = MAXBUF \<Longrightarrow> length buf = MAXBUF + 1 \<Longrightarrow> receive buf d = d @ [0]"
proof -
  assume d: "length d = MAXBUF" and buf: "length buf = MAXBUF + 1"
  have "length (drop MAXBUF buf) = Suc 0" using buf by simp
  then obtain x where "drop MAXBUF buf = [x]"
    by (cases "drop MAXBUF buf") simp_all
  with d show ?thesis
    unfolding receive_def by (simp add: list_update_append)
qed

lemma decode_chunk:
  assumes "0 \<le> k" and "k < 2147483648" and "length body \<le> MAXBUF - 8"
  defines "buf \<equiv> mk_chunk k body @ [0]"
  shows "chunk_no buf = k" and "last_flag buf \<longleftrightarrow> length body < MAXBUF - 8"
    and "text_of buf = Inr (c_text body)" and "take MAXBUF buf = mk_chunk k body"
proof -
  note len = length_mk_chunk [OF assms(3), of k]
  have "sint (word_of_int k :: 32 word) = k"
    by (rule sint_word_of_int) (use assms in \<open>simp add: fits_int32_def\<close>)
  then show "chunk_no buf = k"
    using len by (simp add: chunk_no_def buf_def word_at_append word_at_mk_chunk)
  show "last_flag buf \<longleftrightarrow> length body < MAXBUF - 8"
    using len by (simp add: last_flag_def buf_def word_at_append word_at_mk_chunk)
  have "drop 8 (mk_chunk k body) = body @ replicate (MAXBUF - 8 - length body) 0"
    by (simp add: mk_chunk_def)
  moreover have "drop 8 buf = drop 8 (mk_chunk k body) @ [0]"
    using len by (simp add: buf_def)
  ultimately have "drop 8 buf = body @ replicate (MAXBUF - 8 - length body + 1) 0"
    by (simp add: replicate_append_same)
  then have t: "0 \<in> set (drop 8 buf)" "takeWhile (\<lambda>b. b \<noteq> 0) (drop 8 buf) = c_text body"
    by (simp_all only: takeWhile_zeros c_text_def) simp
  show "text_of buf = Inr (c_text body)" by (simp only: text_of_def t if_True)
  show "take MAXBUF buf = mk_chunk k body"
    using len by (simp add: buf_def)
qed

section \<open>The connection table\<close>

lemma find_loop_Some:
  "find_loop a cs i e = (e', Some q) \<Longrightarrow>
   i \<le> q \<and> q < i + length cs \<and> \<not> free (cs ! (q - i)) \<and> addr (cs ! (q - i)) = a"
proof (induction a cs i e rule: find_loop.induct)
  case (1 a i e)
  then show ?case by simp
next
  case (2 a c cs i e)
  then show ?case
    by (auto simp: nth_Cons' split: if_splits)
qed

lemma find_loop_None:
  assumes "find_loop a cs i e = (e', None)"
  shows "\<forall>c \<in> set cs. free c \<or> addr c \<noteq> a"
    and "e' = Some q \<Longrightarrow> e = Some q \<or> i \<le> q \<and> q < i + length cs \<and> free (cs ! (q - i))"
  using assms
proof (induction a cs i e rule: find_loop.induct)
  case (1 a i e)
  { case 1 then show ?case by simp }
  { case 2 then show ?case by simp }
next
  case (2 a c cs i e)
  note IH = "2.IH"
  { case 1 with IH(1,3) show ?case by (auto split: if_splits) }
  { case 2
    show ?case
    proof (cases "free c")
      case True
      with 2 IH(2) [OF True 2(1)] show ?thesis by (auto simp: nth_Cons')
    next
      case False
      with 2 have "addr c \<noteq> a" "find_loop a cs (Suc i) e = (e', None)"
        by (auto split: if_splits)
      with IH(4) [OF False _ 2(1)] show ?thesis by (auto simp: nth_Cons')
    qed }
qed

text \<open>The slots in use for one address.\<close>

definition slots :: "sockaddr_in \<Rightarrow> connection list \<Rightarrow> nat set" where
  "slots a cs = {i. i < length cs \<and> \<not> free (cs ! i) \<and> addr (cs ! i) = a}"

lemma findIndex_Some:
  assumes "findIndex a cs = (Some i, c)"
  shows "i \<in> slots a c \<and> length c = length cs \<and>
    (c = cs \<or> slots a cs = {} \<and> free (cs ! i) \<and> c = cs[i := \<lparr>free = False, chunkNo = 0, addr = a\<rparr>])"
proof -
  obtain e p where f: "find_loop a cs 0 None = (e, p)" by fastforce
  show ?thesis
  proof (cases p)
    case (Some q)
    with assms f find_loop_Some [of a cs 0 None e q] show ?thesis
      by (auto simp: findIndex_def slots_def)
  next
    case None
    with assms f obtain "e = Some i" by (auto simp: findIndex_def split: option.splits)
    with assms f None find_loop_None [of a cs 0 None e] show ?thesis
      by (auto simp: findIndex_def slots_def)
  qed
qed

lemma findIndex_None:
  "findIndex a cs = (None, c) \<Longrightarrow> c = cs"
  by (auto simp: findIndex_def split: prod.splits option.splits)

lemma slots_update:
  "i < length cs \<Longrightarrow>
   slots a (cs[i := c]) = (if \<not> free c \<and> addr c = a then insert i (slots a cs) else slots a cs - {i})"
  by (auto simp: slots_def nth_list_update split: if_splits)

section \<open>The transfer as a whole\<close>

text \<open>
  How the client cuts a file: blocks of 568 bytes, the last one shorter (possibly empty).
\<close>

function chunks :: "byte list \<Rightarrow> byte list list" where
  "chunks xs = (if length xs < MAXBUF - 8 then [xs]
                else take (MAXBUF - 8) xs # chunks (drop (MAXBUF - 8) xs))"
  by pat_completeness auto
termination by (relation "measure length") auto

declare chunks.simps [simp del]

lemma concat_chunks: "concat (chunks xs) = xs"
proof (induction xs rule: chunks.induct)
  case (1 xs)
  then show ?case by (subst chunks.simps) auto
qed

lemma chunks_nonempty [simp]: "chunks xs \<noteq> []"
  by (subst chunks.simps) simp

lemma length_chunks: "length (chunks xs) = Suc (length xs div (MAXBUF - 8))"
proof (induction xs rule: chunks.induct)
  case (1 xs)
  show ?case
  proof (cases "length xs < MAXBUF - 8")
    case True
    then show ?thesis by (subst chunks.simps) simp
  next
    case False
    with 1 have "length (chunks xs) = Suc (Suc ((length xs - (MAXBUF - 8)) div (MAXBUF - 8)))"
      by (subst chunks.simps) simp
    with False show ?thesis by (simp add: le_div_geq)
  qed
qed

lemma chunks_sizes:
  "j < length (chunks xs) \<Longrightarrow>
   length (chunks xs ! j) \<le> MAXBUF - 8 \<and>
   (length (chunks xs ! j) < MAXBUF - 8 \<longleftrightarrow> Suc j = length (chunks xs))"
proof (induction xs arbitrary: j rule: chunks.induct)
  case (1 xs)
  show ?case
  proof (cases "length xs < MAXBUF - 8")
    case True
    with "1.prems" show ?thesis by (simp add: chunks.simps [of xs])
  next
    case False
    then have c: "chunks xs = take (MAXBUF - 8) xs # chunks (drop (MAXBUF - 8) xs)"
      by (subst chunks.simps) simp
    show ?thesis
    proof (cases j)
      case 0
      with c False show ?thesis by simp
    next
      case (Suc k)
      with "1.IH" [OF False, of k] "1.prems" c show ?thesis by simp
    qed
  qed
qed

text \<open>
  The lines the server prints for one complete transfer, and the datagrams of the client.
\<close>

definition full :: "sockaddr_in \<Rightarrow> byte list list \<Rightarrow> udp_eff list" where
  "full a cs = map (\<lambda>i. Part a (Suc i = length cs) (int i + 1) (c_text (cs ! i))) [0..<length cs]"

definition dgram :: "byte list list \<Rightarrow> nat \<Rightarrow> byte list" where
  "dgram cs i = mk_chunk (int i + 1) (cs ! i)"

definition parts_of :: "sockaddr_in \<Rightarrow> udp_eff list \<Rightarrow> udp_eff list" where
  "parts_of a es = filter (\<lambda>e. case e of Part b _ _ _ \<Rightarrow> b = a | SendTo _ _ \<Rightarrow> False) es"

lemma parts_of_append [simp]: "parts_of a (xs @ ys) = parts_of a xs @ parts_of a ys"
  by (simp add: parts_of_def)

lemma length_full [simp]: "length (full a cs) = length cs"
  by (simp add: full_def)

lemma take_Suc_full:
  "j < length cs \<Longrightarrow>
   take (Suc j) (full a cs)
     = take j (full a cs) @ [Part a (Suc j = length cs) (int j + 1) (c_text (cs ! j))]"
  by (simp add: take_Suc_conv_app_nth full_def)

text \<open>
  The invariant of the server for one client: what it printed is a sequence of runs, each a
  prefix of the complete transfer, and a slot in use belongs to the last run and counts it.
\<close>

definition run_inv ::
  "sockaddr_in \<Rightarrow> byte list list \<Rightarrow> connection list \<Rightarrow> nat list \<Rightarrow> udp_eff list \<Rightarrow> bool" where
  "run_inv a cs table ms printed \<longleftrightarrow>
     printed = concat (map (\<lambda>m. take m (full a cs)) ms) \<and>
     (\<forall>m \<in> set ms. m \<le> length cs) \<and>
     (\<forall>i \<in> slots a table. slots a table = {i} \<and> ms \<noteq> [] \<and> last ms < length cs
        \<and> chunkNo (table ! i) = int (last ms))"

lemma run_inv_slot:
  assumes "run_inv a cs table ms P" and "i \<in> slots a table"
  obtains m ms0 where "ms = ms0 @ [m]" "slots a table = {i}" "m < length cs"
    "chunkNo (table ! i) = int m"
proof -
  from assms have "ms \<noteq> []" "slots a table = {i}" "last ms < length cs"
    "chunkNo (table ! i) = int (last ms)"
    by (auto simp: run_inv_def)
  then show ?thesis
    using that [of "butlast ms" "last ms"] by simp
qed

text \<open>\<^verbatim>\<open>findIndex\<close> for the client's own datagram opens a new run or finds the open one.\<close>

lemma run_inv_findIndex:
  assumes "run_inv a cs table ms P" and "findIndex a table = (Some i, c)" and "cs \<noteq> []"
  shows "\<exists>ms'. run_inv a cs c ms' P \<and> i \<in> slots a c \<and> (\<forall>m \<in> set ms. m \<in> set ms')"
proof (cases "c = table")
  case True
  with assms(1) findIndex_Some [OF assms(2)] show ?thesis
    by (intro exI [of _ ms]) simp
next
  case False
  with findIndex_Some [OF assms(2)] have c: "slots a table = {}" "i < length table"
    "c = table[i := \<lparr>free = False, chunkNo = 0, addr = a\<rparr>]" "i \<in> slots a c"
    by (auto simp: slots_def)
  then have "slots a c = {i}" by (simp add: slots_update)
  with c assms(1,3) have "run_inv a cs c (ms @ [0]) P"
    by (auto simp: run_inv_def)
  with c(4) show ?thesis by (intro exI [of _ "ms @ [0]"]) auto
qed

text \<open>Datagrams of other clients leave the client's slot alone.\<close>

lemma findIndex_other:
  assumes "findIndex b table = (r, c)" and "a \<noteq> b"
  shows "slots a c = slots a table \<and> (\<forall>i \<in> slots a table. c ! i = table ! i)
    \<and> (\<forall>i. r = Some i \<longrightarrow> i \<notin> slots a c \<and> i < length c)"
proof (cases r)
  case None
  with assms findIndex_None [of b table c] show ?thesis by auto
next
  case (Some i)
  note F = findIndex_Some [OF assms(1) [unfolded Some]]
  then have i: "i \<notin> slots a c" "i < length c" using assms(2) by (auto simp: slots_def)
  show ?thesis
  proof (cases "c = table")
    case True
    with i Some show ?thesis by auto
  next
    case False
    with F have c: "free (table ! i)" "c = table[i := \<lparr>free = False, chunkNo = 0, addr = b\<rparr>]"
      by auto
    then have "i \<notin> slots a table" by (simp add: slots_def)
    with c i Some assms(2) show ?thesis
      by (auto simp: slots_update slots_def nth_list_update)
  qed
qed

text \<open>One datagram of the client, handled by the server.\<close>

lemma echo_own:
  assumes "run_inv a cs (con s) ms P" and "i < length (con s)" and "slots a (con s) \<subseteq> {i}"
    and "echo s a i ans = (es, Inr v)"
  shows "run_inv a cs (con v) ms P" and "sbuf v = sbuf s" and "parts_of a es = []"
    and "SendTo b x \<in> set es \<Longrightarrow> x = take MAXBUF (sbuf s)"
proof -
  have "slots a ((con s)[i := (con s ! i)\<lparr>free := True\<rparr>]) = {}"
    using assms(2,3) by (auto simp: slots_update)
  then have "run_inv a cs ((con s)[i := (con s ! i)\<lparr>free := True\<rparr>]) ms P"
    using assms(1) by (auto simp: run_inv_def)
  with assms(1,4) show "run_inv a cs (con v) ms P"
    by (auto simp: echo_def ret_def die_def split: sysret.splits if_splits)
  from assms(4) show "sbuf v = sbuf s" "parts_of a es = []"
    "SendTo b x \<in> set es \<Longrightarrow> x = take MAXBUF (sbuf s)"
    by (auto simp: echo_def ret_def die_def parts_of_def split: sysret.splits if_splits)
qed

text \<open>The state of the server after it stored datagram \<open>j\<close>, and what it reads there.\<close>

lemma received_chunk:
  assumes "j < length (chunks fl)" and "length (chunks fl) < 2147483648"
    and "length (sbuf s) = MAXBUF + 1"
  defines "buf \<equiv> receive (sbuf s) (dgram (chunks fl) j)"
  shows "chunk_no buf = int j + 1" and "last_flag buf \<longleftrightarrow> Suc j = length (chunks fl)"
    and "text_of buf = Inr (c_text (chunks fl ! j))" and "take MAXBUF buf = dgram (chunks fl) j"
    and "length buf = MAXBUF + 1"
proof -
  note sz = chunks_sizes [OF assms(1)]
  then have len: "length (dgram (chunks fl) j) = MAXBUF"
    by (simp add: dgram_def length_mk_chunk)
  then have "buf = dgram (chunks fl) j @ [0]"
    unfolding buf_def by (rule receive_whole) (rule assms(3))
  then have buf: "buf = mk_chunk (int j + 1) (chunks fl ! j) @ [0]"
    by (simp add: dgram_def)
  have k: "0 \<le> int j + 1" "int j + 1 < 2147483648" using assms(1,2) by simp_all
  from decode_chunk [OF k conjunct1 [OF sz]] sz buf len
  show "chunk_no buf = int j + 1" "last_flag buf \<longleftrightarrow> Suc j = length (chunks fl)"
    "text_of buf = Inr (c_text (chunks fl ! j))" "take MAXBUF buf = dgram (chunks fl) j"
    "length buf = MAXBUF + 1"
    by (simp_all add: dgram_def)
qed

text \<open>Printing the next chunk extends the last run by one.\<close>

lemma run_inv_print:
  assumes inv: "run_inv a cs table (ms0 @ [j]) P" and sl: "slots a table = {i}" and j: "j < length cs"
    and ch: "chunkNo (table ! i) = int j"
    and c: "c = (table ! i)\<lparr>free := (if Suc j = length cs then True else free (table ! i)),
                           chunkNo := int j + 1\<rparr>"
  shows "run_inv a cs (table[i := c]) (ms0 @ [Suc j])
    (P @ [Part a (Suc j = length cs) (int j + 1) (c_text (cs ! j))])"
    and "slots a (table[i := c]) \<subseteq> {i}" and "i < length table"
proof -
  have i: "i \<in> slots a table" using sl by simp
  then have il: "i < length table" "\<not> free (table ! i)" "addr (table ! i) = a"
    by (auto simp: slots_def)
  then show "i < length table" by simp
  show "slots a (table[i := c]) \<subseteq> {i}"
    using sl il by (auto simp: slots_update)
  have "slots a (table[i := c]) = (if Suc j = length cs then {} else {i})"
    using sl il c by (auto simp: slots_update)
  with inv j il c show "run_inv a cs (table[i := c]) (ms0 @ [Suc j])
    (P @ [Part a (Suc j = length cs) (int j + 1) (c_text (cs ! j))])"
    by (auto simp: run_inv_def take_Suc_full split: if_splits)
qed

lemma serve_own:
  assumes inv: "run_inv a (chunks fl) (con s) ms P" and len: "length (sbuf s) = MAXBUF + 1"
    and j: "j < length (chunks fl)" and n: "length (chunks fl) < 2147483648"
    and run: "serve s a (dgram (chunks fl) j) ans = (es, Inr v)"
  shows "\<exists>ms'. run_inv a (chunks fl) (con v) ms' (P @ parts_of a es)
    \<and> (\<forall>m \<in> set ms. \<exists>m' \<in> set ms'. m \<le> m')
    \<and> (\<forall>x. SendTo a x \<in> set es \<longrightarrow> x = dgram (chunks fl) j \<and> (\<exists>m \<in> set ms'. j < m))
    \<and> length (sbuf v) = MAXBUF + 1"
proof -
  let ?cs = "chunks fl"
  define buf where "buf = receive (sbuf s) (dgram ?cs j)"
  note rc = received_chunk [OF j n len, folded buf_def]
  obtain r c where f: "findIndex a (con s) = (r, c)" by fastforce
  show ?thesis
  proof (cases r)
    case None
    with run f findIndex_None [of a "con s" c] inv rc(5) show ?thesis
      by (auto simp: serve_def ret_def parts_of_def buf_def)
  next
    case (Some i)
    from run_inv_findIndex [OF inv f [unfolded Some]] obtain ms1 where
      inv1: "run_inv a ?cs c ms1 P" and i: "i \<in> slots a c" and sub: "\<forall>m \<in> set ms. m \<in> set ms1"
      by auto
    from run_inv_slot [OF inv1 i] obtain m ms0 where
      ms1: "ms1 = ms0 @ [m]" and sl: "slots a c = {i}" and m: "m < length ?cs"
      and ch: "chunkNo (c ! i) = int m" by blast
    have il: "i < length c" using i by (simp add: slots_def)
    have mo: "chunkNo (c ! i) \<noteq> 2147483647" using m n ch by linarith
    define s2 where "s2 = s\<lparr>sbuf := buf, con := c\<rparr>"
    consider "int j + 1 > int m + 1" | "j = m" | "j < m" by linarith
    then show ?thesis
    proof cases
      case 1
      with run f Some ch rc mo have "es = []" "v = s2"
        by (auto simp: serve_def ret_def s2_def buf_def Let_def)
      with inv1 sub rc(5) show ?thesis
        by (intro exI [of _ ms1]) (auto simp: s2_def parts_of_def)
    next
      case 2
      define c' where "c' = (c ! i)\<lparr>free := (if Suc j = length ?cs then True else free (c ! i)),
                                   chunkNo := int j + 1\<rparr>"
      define s3 where "s3 = s2\<lparr>con := c[i := c']\<rparr>"
      let ?p = "Part a (Suc j = length ?cs) (int j + 1) (c_text (?cs ! j))"
      have "print_part s2 a i = Inr (s3, [?p])"
        using rc 2 ch by (simp add: print_part_def s2_def s3_def c'_def Let_def)
      with run f Some ch rc 2 mo obtain es' where
        e: "echo s3 a i ans = (es', Inr v)" and es: "es = ?p # es'"
        by (cases "echo s3 a i ans")
          (auto simp: serve_def s2_def buf_def Let_def)
      note P = run_inv_print [OF inv1 [unfolded ms1 2 [symmetric]] sl j ch [folded 2] c'_def]
      have s3: "con s3 = c[i := c']" "sbuf s3 = buf" by (simp_all add: s3_def s2_def)
      note E = echo_own [OF _ _ _ e, of ?cs "ms0 @ [Suc j]", unfolded s3]
      from E(1) [OF P(1)] E(2,3,4) [OF P(1)] P(2,3) rc es sub ms1 2 show ?thesis
        by (intro exI [of _ "ms0 @ [Suc j]"]) (auto simp: parts_of_def)
    next
      case 3
      with run f Some ch rc mo have e: "echo s2 a i ans = (es, Inr v)"
        by (simp add: serve_def s2_def buf_def Let_def)
      have s2: "con s2 = c" "sbuf s2 = buf" by (simp_all add: s2_def)
      note E = echo_own [OF _ _ _ e, of ?cs ms1 P, unfolded s2, OF inv1 il]
      from E sl rc sub ms1 3 show ?thesis
        by (intro exI [of _ ms1]) auto
    qed
  qed
qed

text \<open>A datagram of another client neither prints nor acknowledges anything of this one.\<close>

lemma run_inv_slots_cong:
  assumes "run_inv a cs table ms P" and "slots a c = slots a table"
    and "\<forall>i \<in> slots a table. c ! i = table ! i"
  shows "run_inv a cs c ms P"
  using assms by (auto simp: run_inv_def)

lemma slots_update_other:
  "i \<notin> slots a c \<Longrightarrow> addr x \<noteq> a \<or> free x \<Longrightarrow>
   slots a (c[i := x]) = slots a c \<and> (\<forall>j \<in> slots a c. c[i := x] ! j = c ! j)"
proof -
  assume i: "i \<notin> slots a c" and x: "addr x \<noteq> a \<or> free x"
  have "slots a (c[i := x]) = slots a c"
  proof (cases "i < length c")
    case True
    with i x show ?thesis by (auto simp: slots_update)
  qed (simp add: list_update_beyond)
  moreover have "c[i := x] ! j = c ! j" if "j \<in> slots a c" for j
    using that i by (cases "j = i") auto
  ultimately show ?thesis by blast
qed

lemma echo_other:
  assumes "i \<notin> slots a (con s)" and "a \<noteq> b" and "run_inv a cs (con s) ms P"
    and "echo s b i ans = (es, Inr v)"
  shows "run_inv a cs (con v) ms P \<and> parts_of a es = [] \<and> (\<forall>x. SendTo a x \<notin> set es)
    \<and> sbuf v = sbuf s"
proof -
  have "run_inv a cs ((con s)[i := (con s ! i)\<lparr>free := True\<rparr>]) ms P"
    using slots_update_other [OF assms(1), of "(con s ! i)\<lparr>free := True\<rparr>"]
    by (intro run_inv_slots_cong [OF assms(3)]) auto
  with assms show ?thesis
    by (auto simp: echo_def ret_def die_def parts_of_def split: sysret.splits if_splits)
qed

lemma serve_other:
  assumes inv: "run_inv a cs (con s) ms P" and ab: "a \<noteq> b"
    and run: "serve s b d ans = (es, Inr v)"
  shows "run_inv a cs (con v) ms P \<and> parts_of a es = [] \<and> (\<forall>x. SendTo a x \<notin> set es)
    \<and> sbuf v = receive (sbuf s) d"
proof -
  obtain r c where f: "findIndex b (con s) = (r, c)" by fastforce
  from findIndex_other [OF f ab] have sl: "slots a c = slots a (con s)"
    "\<forall>i \<in> slots a (con s). c ! i = con s ! i"
    "\<And>i. r = Some i \<Longrightarrow> i \<notin> slots a c \<and> i < length c" by auto
  note inv1 = run_inv_slots_cong [OF inv sl(1,2)]
  show ?thesis
  proof (cases r)
    case None
    with run f inv1 show ?thesis by (auto simp: serve_def ret_def parts_of_def)
  next
    case (Some i)
    note i = sl(3) [OF Some]
    let ?s2 = "s\<lparr>sbuf := receive (sbuf s) d, con := c\<rparr>"
    let ?k = "chunk_no (receive (sbuf s) d)"
    have mo: "chunkNo (c ! i) \<noteq> 2147483647" using run f Some by (auto simp: serve_def die_def Let_def)
    consider "?k > chunkNo (c ! i) + 1" | "?k = chunkNo (c ! i) + 1" | "?k < chunkNo (c ! i) + 1"
      by linarith
    then show ?thesis
    proof cases
      case 1
      with run f Some inv1 mo show ?thesis by (auto simp: serve_def ret_def parts_of_def Let_def)
    next
      case 2
      obtain s3 out where p: "print_part ?s2 b i = Inr (s3, out)"
        using run f Some 2 mo by (cases "print_part ?s2 b i") (auto simp: serve_def Let_def)
      with run f Some 2 mo obtain es' where e: "echo s3 b i ans = (es', Inr v)" and es: "es = out @ es'"
        by (cases "echo s3 b i ans") (auto simp: serve_def Let_def)
      from p obtain x where c3: "con s3 = c[i := x]" "addr x = addr (c ! i)"
          "free x = (if last_flag (sbuf ?s2) then True else free (c ! i))"
        and o: "parts_of a out = []" "\<forall>x. SendTo a x \<notin> set out" "sbuf s3 = receive (sbuf s) d"
        using ab by (auto simp: print_part_def bindr_eq_Inr_iff Let_def parts_of_def)
      have "addr x \<noteq> a \<or> free x" using i c3 by (auto simp: slots_def)
      from slots_update_other [OF conjunct1 [OF i] this] c3
      have "slots a (con s3) = slots a c" "\<forall>j \<in> slots a c. con s3 ! j = c ! j" by auto
      with echo_other [OF _ ab run_inv_slots_cong [OF inv1 this] e] i o es
      show ?thesis by auto
    next
      case 3
      with run f Some mo have e: "echo ?s2 b i ans = (es, Inr v)"
        by (simp add: serve_def Let_def)
      from echo_other [OF _ ab _ e, of cs ms P] i inv1 show ?thesis by simp
    qed
  qed
qed

lemma length_receive:
  "length d \<le> MAXBUF \<Longrightarrow> length buf = MAXBUF + 1 \<Longrightarrow> length (receive buf d) = MAXBUF + 1"
  by (simp add: receive_def)

section \<open>Client, network and server together\<close>

text \<open>
  The client of address \<open>a\<close>, the server, and a network that may lose, repeat, delay and reorder
  the datagrams of both directions: the sets \<open>to_srv\<close> and \<open>to_cli\<close> of what was ever sent, from
  which anything may arrive at any time.  Datagrams of other clients arrive in between.
\<close>

record net =
  srv :: server
  cli :: client
  to_srv :: "byte list set"
  to_cli :: "byte list set"
  printed :: "udp_eff list"

inductive net_step :: "sockaddr_in \<Rightarrow> net \<Rightarrow> net \<Rightarrow> bool" for a :: sockaddr_in where
  client_sends:
    "phase (cli s) = Sending \<Longrightarrow>
     net_step a s (s\<lparr>cli := send_step (cli s), to_srv := insert (sendbuf (cli s)) (to_srv s)\<rparr>)"
| client_waits:
    "phase (cli s) = Waiting \<Longrightarrow> \<forall>d. Got d \<in> set rs \<longrightarrow> d \<in> to_cli s \<Longrightarrow>
     confirm_step (cli s) rs = Inr c \<Longrightarrow> net_step a s (s\<lparr>cli := c\<rparr>)"
| server_serves:
    "d \<in> to_srv s \<Longrightarrow> serve (srv s) a d ans = (es, Inr v) \<Longrightarrow>
     net_step a s (s\<lparr>srv := v, to_cli := to_cli s \<union> {x. SendTo a x \<in> set es}, printed := printed s @ es\<rparr>)"
| server_serves_other:
    "b \<noteq> a \<Longrightarrow> length d \<le> MAXBUF \<Longrightarrow> serve (srv s) b d ans = (es, Inr v) \<Longrightarrow>
     net_step a s (s\<lparr>srv := v, printed := printed s @ es\<rparr>)"

definition net_init :: "seg list \<Rightarrow> net \<Rightarrow> bool" where
  "net_init f s \<longleftrightarrow>
     (\<exists>con0 buf0. length con0 = MAXADDR \<and> length buf0 = MAXBUF + 1 \<and> srv s = server_start con0 buf0)
     \<and> client_start f = Inr (cli s) \<and> to_srv s = {} \<and> to_cli s = {} \<and> printed s = []"

inductive_cases net_stepE: "net_step a s t"

text \<open>The client holds chunk \<open>j\<close> of the file, in whatever state of its confirmation.\<close>

definition client_at :: "byte list list \<Rightarrow> client \<Rightarrow> nat \<Rightarrow> bool" where
  "client_at cs c j \<longleftrightarrow>
     j < length cs \<and> cur c = int j + 1 \<and> sendbuf c = dgram cs j \<and> sz c = length (cs ! j) \<and>
     clean (infile c) \<and> pending (infile c) = concat (drop (Suc j) cs)"

text \<open>The client's steps.\<close>

lemma concat_drop_chunks:
  assumes "j < length (chunks fl)"
  shows "take (MAXBUF - 8) (concat (drop j (chunks fl))) = chunks fl ! j"
    and "drop (MAXBUF - 8) (concat (drop j (chunks fl))) = concat (drop (Suc j) (chunks fl))"
proof -
  have d: "concat (drop j (chunks fl)) = chunks fl ! j @ concat (drop (Suc j) (chunks fl))"
    using assms by (simp add: Cons_nth_drop_Suc [symmetric])
  have s: "length (chunks fl ! j) = MAXBUF - 8
      \<or> length (chunks fl ! j) \<le> MAXBUF - 8 \<and> drop (Suc j) (chunks fl) = []"
    using chunks_sizes [OF assms] by auto
  from s show "take (MAXBUF - 8) (concat (drop j (chunks fl))) = chunks fl ! j"
    unfolding d by auto
  from s show "drop (MAXBUF - 8) (concat (drop j (chunks fl))) = concat (drop (Suc j) (chunks fl))"
    unfolding d by auto
qed

lemma start_chunk_at:
  assumes "clean (infile c)" and "pending (infile c) = concat (drop j (chunks fl))"
    and "j < length (chunks fl)" and "cur c = int j"
  shows "\<exists>c'. start_chunk c = Inr c' \<and> client_at (chunks fl) c' j
    \<and> recvbuf c' = replicate MAXBUF 0 \<and> phase c' = Sending"
proof -
  from br.rd_fine [OF assms(1), of "MAXBUF - 8"] obtain f where
    "bulk_read (infile c) (MAXBUF - 8) =
       (Ok (min (MAXBUF - 8) (length (pending (infile c)))), take (MAXBUF - 8) (pending (infile c)), f)"
    and f: "pending f = drop (MAXBUF - 8) (pending (infile c))" "clean f" by auto
  moreover have "min (MAXBUF - 8) (length (pending (infile c)))
      = length (take (MAXBUF - 8) (pending (infile c)))" by simp
  ultimately have "bulk_read (infile c) (MAXBUF - 8) =
      (Ok (length (chunks fl ! j)), chunks fl ! j, f)"
    unfolding assms(2) concat_drop_chunks(1) [OF assms(3)] by metis
  moreover have "pending f = concat (drop (Suc j) (chunks fl))"
    using f(1) unfolding assms(2) concat_drop_chunks(2) [OF assms(3)] .
  ultimately show ?thesis
    using f(2) assms(3,4) by (simp add: start_chunk_def client_at_def dgram_def)
qed

lemma wait_confirm_result:
  "wait_confirm rs buf = Inr b \<Longrightarrow> length buf = MAXBUF \<Longrightarrow>
   (\<forall>d. Got d \<in> set rs \<longrightarrow> length d = MAXBUF) \<Longrightarrow> b = buf \<or> Got b \<in> set rs"
  by (induction rs buf rule: wait_confirm.induct) (auto split: if_splits)

lemma chunk_number_inj:
  assumes "i < 2147483647" and "j < 2147483647"
  shows "htonl (word_of_int (int i + 1)) = htonl (word_of_int (int j + 1)) \<longleftrightarrow> i = j"
    and "htonl (word_of_int (int j + 1)) \<noteq> 0"
proof -
  have "sint (word_of_int (int i + 1) :: 32 word) = int i + 1"
    "sint (word_of_int (int j + 1) :: 32 word) = int j + 1"
    by (rule sint_word_of_int; use assms in \<open>simp add: fits_int32_def\<close>)+
  then show "htonl (word_of_int (int i + 1)) = htonl (word_of_int (int j + 1)) \<longleftrightarrow> i = j"
    "htonl (word_of_int (int j + 1)) \<noteq> 0"
    by (metis htonl_inj add_right_cancel of_nat_eq_iff) (metis \<open>sint (word_of_int (int j + 1)) = int j + 1\<close> htonl_0 htonl_inj signed_0 add.commute of_nat_Suc of_nat_eq_0_iff nat.distinct(1))
qed

lemma acked_iff:
  assumes "client_at (chunks fl) c j" and "length (chunks fl) < 2147483648"
  shows "recvbuf c = replicate MAXBUF 0 \<Longrightarrow> \<not> acked c"
    and "i < length (chunks fl) \<Longrightarrow> recvbuf c = dgram (chunks fl) i \<Longrightarrow> acked c \<longleftrightarrow> i = j"
proof -
  have z: "word_at 0 (replicate MAXBUF 0) = 0"
    by (simp add: word_at_def bytes_word_def)
  have j: "j < 2147483647" if "j < length (chunks fl)" for j using that assms(2) by simp
  from assms(1) have cj: "cur c = int j + 1" "j < length (chunks fl)"
    by (simp_all add: client_at_def)
  show "recvbuf c = replicate MAXBUF 0 \<Longrightarrow> \<not> acked c"
    using chunk_number_inj(2) [OF j j, OF cj(2,2)] z by (simp add: acked_def cj)
  show "i < length (chunks fl) \<Longrightarrow> recvbuf c = dgram (chunks fl) i \<Longrightarrow> acked c \<longleftrightarrow> i = j"
    using chunk_number_inj(1) [OF j j, OF _ cj(2)] by (simp add: acked_def cj dgram_def word_at_mk_chunk)
qed

text \<open>The invariant with its witnesses as arguments, and each step of the system.\<close>

definition net_inv_at ::
  "sockaddr_in \<Rightarrow> byte list \<Rightarrow> nat list \<Rightarrow> nat \<Rightarrow> net \<Rightarrow> bool" where
  "net_inv_at a fl ms j s \<longleftrightarrow>
     run_inv a (chunks fl) (con (srv s)) ms (parts_of a (printed s)) \<and>
     length (sbuf (srv s)) = MAXBUF + 1 \<and>
     to_srv s \<subseteq> dgram (chunks fl) ` {..<length (chunks fl)} \<and>
     to_cli s \<subseteq> {dgram (chunks fl) i | i. i < length (chunks fl) \<and> (\<exists>m \<in> set ms. i < m)} \<and>
     client_at (chunks fl) (cli s) j \<and>
     (recvbuf (cli s) = replicate MAXBUF 0 \<or> recvbuf (cli s) \<in> to_cli s) \<and>
     (0 < j \<longrightarrow> (\<exists>m \<in> set ms. j \<le> m)) \<and>
     (phase (cli s) = Done \<longrightarrow> length (chunks fl) \<in> set ms)"

definition net_inv :: "sockaddr_in \<Rightarrow> byte list \<Rightarrow> net \<Rightarrow> bool" where
  "net_inv a fl s \<longleftrightarrow> (\<exists>ms j. net_inv_at a fl ms j s)"

lemma length_dgram: "i < length (chunks fl) \<Longrightarrow> length (dgram (chunks fl) i) = MAXBUF"
  using chunks_sizes [where j = i and xs = fl] by (simp add: dgram_def length_mk_chunk)

lemma net_inv_init:
  assumes "net_init f s" and "clean f" and "pending f = fl"
  shows "net_inv_at a fl [] 0 s"
proof -
  from assms(1) obtain con0 buf0 where i: "length buf0 = MAXBUF + 1" "srv s = server_start con0 buf0"
    "client_start f = Inr (cli s)" "to_srv s = {}" "to_cli s = {}" "printed s = []"
    by (auto simp: net_init_def)
  have "slots a (map (\<lambda>c. c\<lparr>free := True\<rparr>) con0) = {}" by (auto simp: slots_def)
  then have "run_inv a (chunks fl) (con (srv s)) [] (parts_of a (printed s))"
    using i by (simp add: server_start_def run_inv_def parts_of_def)
  moreover
  let ?c = "\<lparr>infile = f, cur = 0, sz = 0, cnt = 0, sendbuf = [], recvbuf = [], phase = Sending\<rparr>"
  from start_chunk_at [of ?c 0 fl] assms(2,3)
  have "client_at (chunks fl) (cli s) 0 \<and> recvbuf (cli s) = replicate MAXBUF 0
      \<and> phase (cli s) = Sending"
    using i(3) by (auto simp: concat_chunks client_start_def)
  ultimately show ?thesis
    using i by (simp add: net_inv_at_def server_start_def)
qed

lemma net_inv_send:
  "net_inv_at a fl ms j s \<Longrightarrow> phase (cli s) = Sending \<Longrightarrow>
   net_inv_at a fl ms j (s\<lparr>cli := send_step (cli s), to_srv := insert (sendbuf (cli s)) (to_srv s)\<rparr>)"
  by (auto simp: net_inv_at_def client_at_def send_step_def)

text \<open>After an attempt: the client repeats, gives up, or goes on, and then the chunk was printed.\<close>

lemma net_inv_wait:
  assumes inv: "net_inv_at a fl ms j s" and n: "length (chunks fl) < 2147483648"
    and got: "\<forall>d. Got d \<in> set rs \<longrightarrow> d \<in> to_cli s" and run: "confirm_step (cli s) rs = Inr c"
    and ph: "phase (cli s) = Waiting"
  shows "\<exists>j'. net_inv_at a fl ms j' (s\<lparr>cli := c\<rparr>)"
proof -
  let ?cs = "chunks fl"
  from inv have I: "to_cli s \<subseteq> {dgram ?cs i | i. i < length ?cs \<and> (\<exists>m \<in> set ms. i < m)}"
    "client_at ?cs (cli s) j" "recvbuf (cli s) = replicate MAXBUF 0 \<or> recvbuf (cli s) \<in> to_cli s"
    "\<forall>m \<in> set ms. m \<le> length ?cs"
    by (auto simp: net_inv_at_def run_inv_def)
  have len: "length d = MAXBUF" if "d \<in> to_cli s" for d
    using that I(1) length_dgram by auto
  from run obtain b where b: "wait_confirm rs (recvbuf (cli s)) = Inr b"
    and c: "after_attempt ((cli s)\<lparr>recvbuf := b\<rparr>) = Inr c"
    by (auto simp: confirm_step_def bindr_eq_Inr_iff)
  have "b = recvbuf (cli s) \<or> Got b \<in> set rs"
    by (rule wait_confirm_result [OF b]) (use I(3) len got in auto)
  then have b0: "b = replicate MAXBUF 0 \<or> b \<in> to_cli s" using I(3) got by auto
  define k where "k = (cli s)\<lparr>recvbuf := b\<rparr>"
  have kat: "client_at ?cs k j" using I(2) by (simp add: k_def client_at_def)
  have keep: "net_inv_at a fl ms j (s\<lparr>cli := k\<lparr>phase := p\<rparr>\<rparr>)" if "p \<noteq> Done" for p
    using inv kat that b0 by (simp add: net_inv_at_def client_at_def k_def)
  show ?thesis
  proof (cases "acked k")
    case False
    with c keep [of Sending] keep [of GaveUp] show ?thesis
      by (auto simp: after_attempt_def k_def split: if_splits)
  next
    case True
    from b0 have pr: "\<exists>m \<in> set ms. j < m"
    proof
      assume "b = replicate MAXBUF 0"
      then show ?thesis using acked_iff(1) [OF kat n] True by (simp add: k_def)
    next
      assume "b \<in> to_cli s"
      with I(1) obtain i m where i: "b = dgram ?cs i" "i < length ?cs" "m \<in> set ms" "i < m"
        by blast
      with acked_iff(2) [OF kat n i(2)] True show ?thesis by (auto simp: k_def)
    qed
    show ?thesis
    proof (cases "sz k = MAXBUF - 8")
      case True
      from kat have kat': "clean (infile k)" "pending (infile k) = concat (drop (Suc j) ?cs)"
        "j < length ?cs" "cur k = int (Suc j)" "sz k = length (?cs ! j)"
        by (auto simp: client_at_def)
      with True chunks_sizes [where j = j and xs = fl] have "Suc j < length ?cs" by auto
      from start_chunk_at [OF kat'(1,2) this kat'(4)] obtain c' where
        c': "start_chunk k = Inr c'" "client_at ?cs c' (Suc j)" "recvbuf c' = replicate MAXBUF 0"
          "phase c' = Sending" by blast
      from c \<open>acked k\<close> True c'(1) have "c = c'" by (simp add: after_attempt_def k_def)
      moreover have "\<exists>m \<in> set ms. Suc j \<le> m" using pr by (auto intro: Suc_leI)
      ultimately show ?thesis
        using inv c' by (intro exI [of _ "Suc j"]) (simp add: net_inv_at_def)
    next
      case False
      from kat False chunks_sizes [where j = j and xs = fl] have "Suc j = length ?cs"
        by (auto simp: client_at_def)
      with pr I(4) have d: "length ?cs \<in> set ms"
        by (metis Suc_leI le_antisym)
      from c \<open>acked k\<close> False have "c = k\<lparr>phase := Done\<rparr>"
        by (simp add: after_attempt_def k_def)
      with d inv kat b0 show ?thesis
        by (intro exI [of _ j]) (simp add: net_inv_at_def client_at_def k_def)
    qed
  qed
qed

lemma net_inv_serve:
  assumes inv: "net_inv_at a fl ms j s" and n: "length (chunks fl) < 2147483648"
    and d: "d \<in> to_srv s" and run: "serve (srv s) a d ans = (es, Inr v)"
  shows "\<exists>ms'. net_inv_at a fl ms' j
    (s\<lparr>srv := v, to_cli := to_cli s \<union> {x. SendTo a x \<in> set es}, printed := printed s @ es\<rparr>)"
proof -
  let ?cs = "chunks fl"
  from inv d obtain i where i: "d = dgram ?cs i" "i < length ?cs"
    by (auto simp: net_inv_at_def)
  from inv have I: "run_inv a ?cs (con (srv s)) ms (parts_of a (printed s))"
    "length (sbuf (srv s)) = MAXBUF + 1"
    by (auto simp: net_inv_at_def)
  from serve_own [OF I i(2) n run [unfolded i(1)]] obtain ms' where
    m: "run_inv a ?cs (con v) ms' (parts_of a (printed s) @ parts_of a es)"
      "\<forall>m \<in> set ms. \<exists>m' \<in> set ms'. m \<le> m'" "length (sbuf v) = MAXBUF + 1"
      "\<forall>x. SendTo a x \<in> set es \<longrightarrow> x = dgram ?cs i \<and> (\<exists>m \<in> set ms'. i < m)" by blast
  have up: "\<exists>m \<in> set ms'. k < m" if "\<exists>m \<in> set ms. k < m" for k
    using that m(2) less_le_trans by blast
  have up': "\<exists>m \<in> set ms'. k \<le> m" if "\<exists>m \<in> set ms. k \<le> m" for k
    using that m(2) le_trans by blast
  have top: "length ?cs \<in> set ms'" if "length ?cs \<in> set ms"
    using that m(1,2) unfolding run_inv_def by (metis le_antisym)
  have "to_cli s \<subseteq> {dgram ?cs k | k. k < length ?cs \<and> (\<exists>m \<in> set ms'. k < m)}"
    using inv up unfolding net_inv_at_def by blast
  moreover have "{x. SendTo a x \<in> set es} \<subseteq> {dgram ?cs k | k. k < length ?cs \<and> (\<exists>m \<in> set ms'. k < m)}"
    using m(4) i(2) by blast
  ultimately have "to_cli s \<union> {x. SendTo a x \<in> set es}
      \<subseteq> {dgram ?cs k | k. k < length ?cs \<and> (\<exists>m \<in> set ms'. k < m)}" by simp
  with inv m(1,3) up' top have "net_inv_at a fl ms' j
    (s\<lparr>srv := v, to_cli := to_cli s \<union> {x. SendTo a x \<in> set es}, printed := printed s @ es\<rparr>)"
    by (auto simp: net_inv_at_def)
  then show ?thesis ..
qed

lemma net_inv_serve_other:
  assumes inv: "net_inv_at a fl ms j s" and b: "b \<noteq> a" and d: "length d \<le> MAXBUF"
    and run: "serve (srv s) b d ans = (es, Inr v)"
  shows "net_inv_at a fl ms j (s\<lparr>srv := v, printed := printed s @ es\<rparr>)"
proof -
  from inv have "run_inv a (chunks fl) (con (srv s)) ms (parts_of a (printed s))"
    by (simp add: net_inv_at_def)
  from serve_other [OF this _ run] b inv length_receive [OF d] show ?thesis
    by (simp add: net_inv_at_def)
qed

text \<open>
  The contract of reachable states, with the initial states of a transfer of a given file.
\<close>

definition transfer_init :: "byte list \<Rightarrow> net \<Rightarrow> bool" where
  "transfer_init fl s \<longleftrightarrow>
     length (chunks fl) < 2147483648 \<and> (\<exists>f. clean f \<and> pending f = fl \<and> net_init f s)"

interpretation udp: inv_system "transfer_init fl" "net_step a"
  "\<lambda>s. net_inv a fl s \<and> length (chunks fl) < 2147483648" for fl a
proof unfold_locales
  fix s assume "transfer_init fl s"
  then show "net_inv a fl s \<and> length (chunks fl) < 2147483648"
    by (auto simp: transfer_init_def net_inv_def dest: net_inv_init)
next
  fix s t assume inv: "net_inv a fl s \<and> length (chunks fl) < 2147483648" and st: "net_step a s t"
  then obtain ms j where I: "net_inv_at a fl ms j s" and n: "length (chunks fl) < 2147483648"
    by (auto simp: net_inv_def)
  from st have "\<exists>ms j. net_inv_at a fl ms j t"
  proof cases
    case client_sends
    with net_inv_send [OF I] show ?thesis by blast
  next
    case (client_waits rs c)
    with net_inv_wait [OF I n, of rs c] show ?thesis by blast
  next
    case (server_serves d ans es v)
    with net_inv_serve [OF I n, of d ans es v] show ?thesis by blast
  next
    case (server_serves_other b d ans es v)
    with net_inv_serve_other [OF I, of b d ans es v] show ?thesis by blast
  qed
  with n show "net_inv a fl t \<and> length (chunks fl) < 2147483648"
    by (simp add: net_inv_def)
qed

text \<open>A run without losses: one round per chunk.\<close>

lemma findIndex_slot:
  assumes "slots a cs = {i}"
  shows "findIndex a cs = (Some i, cs)"
proof -
  obtain e p where f: "find_loop a cs 0 None = (e, p)" by fastforce
  show ?thesis
  proof (cases p)
    case None
    have "i \<in> slots a cs" using assms by simp
    then have "cs ! i \<in> set cs" "\<not> free (cs ! i)" "addr (cs ! i) = a" by (auto simp: slots_def)
    with f None find_loop_None(1) [of a cs 0 None e] show ?thesis by auto
  next
    case (Some q)
    with f have "findIndex a cs = (Some q, cs)" by (simp add: findIndex_def)
    with findIndex_Some [OF this] assms show ?thesis by auto
  qed
qed

lemma serve_next:
  assumes "findIndex a (con s) = (Some i, c)" and "chunkNo (c ! i) = int j"
    and "j < length (chunks fl)" and "length (chunks fl) < 2147483648"
    and "length (sbuf s) = MAXBUF + 1"
  shows "serve s a (dgram (chunks fl) j) (Ok z) =
    ([Part a (Suc j = length (chunks fl)) (int j + 1) (c_text (chunks fl ! j)), SendTo a (dgram (chunks fl) j)],
     Inr \<lparr>con = c[i := (c ! i)\<lparr>free := (if Suc j = length (chunks fl) then True else free (c ! i)),
                                 chunkNo := int j + 1\<rparr>],
          sbuf = receive (sbuf s) (dgram (chunks fl) j)\<rparr>)"
proof -
  have "chunkNo (c ! i) \<noteq> 2147483647" using assms(2-4) by linarith
  then show ?thesis
    using assms received_chunk [OF assms(3,4,5)]
    by (simp add: serve_def print_part_def echo_def Let_def)
qed

definition ready :: "sockaddr_in \<Rightarrow> byte list list \<Rightarrow> nat \<Rightarrow> net \<Rightarrow> bool" where
  "ready a cs j s \<longleftrightarrow>
     client_at cs (cli s) j \<and> phase (cli s) = Sending \<and> length (recvbuf (cli s)) = MAXBUF \<and>
     length (sbuf (srv s)) = MAXBUF + 1 \<and>
     parts_of a (printed s) = take j (full a cs) \<and>
     (\<exists>i c. findIndex a (con (srv s)) = (Some i, c) \<and> slots a c = {i} \<and> chunkNo (c ! i) = int j)"

lemma client_confirmed:
  assumes "client_at (chunks fl) c j" and "length (chunks fl) < 2147483648"
    and "phase c = Sending" and "length (recvbuf c) = MAXBUF"
  shows "\<exists>c'. confirm_step (send_step c) [Got (dgram (chunks fl) j)] = Inr c'
    \<and> (if Suc j = length (chunks fl) then phase c' = Done
       else client_at (chunks fl) c' (Suc j) \<and> phase c' = Sending \<and> length (recvbuf c') = MAXBUF)"
proof -
  let ?cs = "chunks fl"
  let ?k = "(send_step c)\<lparr>recvbuf := dgram ?cs j\<rparr>"
  have at: "client_at ?cs ?k j" using assms(1) by (simp add: client_at_def send_step_def)
  then have j: "j < length ?cs" "cur ?k = int j + 1" "sz ?k = length (?cs ! j)"
    "clean (infile ?k)" "pending (infile ?k) = concat (drop (Suc j) ?cs)"
    by (simp_all add: client_at_def)
  have "acked ?k" using acked_iff(2) [OF at assms(2) j(1)] by simp
  moreover have "confirm_step (send_step c) [Got (dgram ?cs j)] = after_attempt ?k"
    using length_dgram [OF j(1)] assms(4) by (simp add: confirm_step_def send_step_def)
  ultimately have step: "confirm_step (send_step c) [Got (dgram ?cs j)] =
      (if length (?cs ! j) = MAXBUF - 8 then start_chunk ?k else Inr (?k\<lparr>phase := Done\<rparr>))"
    using j(3) by (simp add: after_attempt_def)
  show ?thesis
  proof (cases "Suc j = length ?cs")
    case True
    with chunks_sizes [OF j(1)] step show ?thesis by auto
  next
    case False
    with j(1) have "Suc j < length ?cs" by simp
    from start_chunk_at [OF j(4,5) this] j(2) chunks_sizes [OF j(1)] False step
    show ?thesis by auto
  qed
qed

lemma ready_round:
  assumes r: "ready a (chunks fl) j s" and re: "reach init (net_step a) s"
    and n: "length (chunks fl) < 2147483648"
  shows "\<exists>t. reach init (net_step a) t \<and>
    (if Suc j = length (chunks fl)
     then phase (cli t) = Done \<and> parts_of a (printed t) = full a (chunks fl)
     else ready a (chunks fl) (Suc j) t)"
proof -
  let ?cs = "chunks fl" and ?d = "dgram (chunks fl) j"
  from r have at: "client_at ?cs (cli s) j" and ph: "phase (cli s) = Sending"
    and rb: "length (recvbuf (cli s)) = MAXBUF" and len: "length (sbuf (srv s)) = MAXBUF + 1"
    and pr: "parts_of a (printed s) = take j (full a ?cs)" by (simp_all add: ready_def)
  from at have j: "j < length ?cs" and sb: "sendbuf (cli s) = ?d" by (simp_all add: client_at_def)
  from r obtain i c where f: "findIndex a (con (srv s)) = (Some i, c)" and sl: "slots a c = {i}"
    and ch: "chunkNo (c ! i) = int j" by (auto simp: ready_def)
  let ?s1 = "s\<lparr>cli := send_step (cli s), to_srv := insert ?d (to_srv s)\<rparr>"
  have r1: "reach init (net_step a) ?s1"
    using reach_step [OF re client_sends [OF ph]] sb by simp
  define v where "v = \<lparr>con = c[i := (c ! i)\<lparr>free := (if Suc j = length ?cs then True else free (c ! i)),
      chunkNo := int j + 1\<rparr>], sbuf = receive (sbuf (srv s)) ?d\<rparr>"
  define es where "es = [Part a (Suc j = length ?cs) (int j + 1) (c_text (?cs ! j)), SendTo a ?d]"
  have "serve (srv ?s1) a ?d (Ok 0) = (es, Inr v)"
    using serve_next [OF f ch j n len, of 0] by (simp add: v_def es_def)
  then have "net_step a ?s1 (?s1\<lparr>srv := v, to_cli := to_cli ?s1 \<union> {x. SendTo a x \<in> set es}, printed := printed ?s1 @ es\<rparr>)"
    by (intro server_serves) auto
  moreover define s2 where "s2 = ?s1\<lparr>srv := v, to_cli := to_cli s \<union> {x. SendTo a x \<in> set es}, printed := printed s @ es\<rparr>"
  ultimately have r2: "reach init (net_step a) s2"
    using reach_step [OF r1] by simp
  from client_confirmed [OF at n ph rb] obtain c' where
    c': "confirm_step (cli s2) [Got ?d] = Inr c'"
      "if Suc j = length ?cs then phase c' = Done
       else client_at ?cs c' (Suc j) \<and> phase c' = Sending \<and> length (recvbuf c') = MAXBUF"
    by (auto simp: s2_def)
  have r3: "reach init (net_step a) (s2\<lparr>cli := c'\<rparr>)"
    by (rule reach_step [OF r2 client_waits [OF _ _ c'(1)]])
      (simp_all add: s2_def es_def send_step_def)
  have p: "parts_of a (printed s2) = take (Suc j) (full a ?cs)"
    using pr take_Suc_full [OF j, of a] by (simp add: s2_def es_def parts_of_def)
  show ?thesis
  proof (cases "Suc j = length ?cs")
    case True
    with r3 p c'(2) show ?thesis
      by (intro exI [of _ "s2\<lparr>cli := c'\<rparr>"]) simp
  next
    case False
    have i: "i < length c" "\<not> free (c ! i)" "addr (c ! i) = a" using sl by (auto simp: slots_def)
    then have "slots a (con v) = {i}" using False sl by (simp add: v_def slots_update)
    moreover have "length (sbuf v) = MAXBUF + 1"
      using received_chunk(5) [OF j n len] by (simp add: v_def)
    moreover have "chunkNo (con v ! i) = int (Suc j)" using i by (simp add: v_def)
    ultimately have "ready a ?cs (Suc j) (s2\<lparr>cli := c'\<rparr>)"
      using c'(2) False p findIndex_slot [of a "con v" i] by (simp add: ready_def s2_def)
    with r3 False show ?thesis by auto
  qed
qed

lemma ready_completes:
  "ready a (chunks fl) j s \<Longrightarrow> reach init (net_step a) s \<Longrightarrow> length (chunks fl) < 2147483648 \<Longrightarrow>
   \<exists>t. reach init (net_step a) t \<and> phase (cli t) = Done \<and> parts_of a (printed t) = full a (chunks fl)"
proof (induction "length (chunks fl) - j" arbitrary: j s)
  case 0
  then show ?case by (simp add: ready_def client_at_def)
next
  case (Suc k)
  from ready_round [OF Suc(3,4,5)] Suc(1) [of "Suc j"] Suc(2,5) show ?case
    by (auto split: if_splits)
qed

lemma findIndex_fresh:
  assumes "length con0 = MAXADDR"
  shows "findIndex a (con (server_start con0 buf0)) =
    (Some 4, (con (server_start con0 buf0))[4 := \<lparr>free = False, chunkNo = 0, addr = a\<rparr>])"
proof -
  from assms obtain c0 c1 c2 c3 c4 where "con0 = [c0, c1, c2, c3, c4]"
    by (auto simp: length_Suc_conv numeral_eq_Suc)
  then show ?thesis by (simp add: findIndex_def server_start_def numeral_eq_Suc)
qed

lemma ready_start:
  assumes "transfer_init fl s"
  shows "ready a (chunks fl) 0 s"
proof -
  from assms obtain f where f: "clean f" "pending f = fl" "net_init f s"
    and n: "length (chunks fl) < 2147483648" by (auto simp: transfer_init_def)
  from net_inv_init [OF f(3,1,2), of a] have
    I: "client_at (chunks fl) (cli s) 0" "length (sbuf (srv s)) = MAXBUF + 1"
      "recvbuf (cli s) = replicate MAXBUF 0 \<or> recvbuf (cli s) \<in> to_cli s"
    unfolding net_inv_at_def by blast+
  have "to_cli s = {}" using f(3) by (auto simp: net_init_def)
  with I(3) have "length (recvbuf (cli s)) = MAXBUF" by simp
  from f(3) obtain con0 buf0 where c0: "length con0 = MAXADDR" "srv s = server_start con0 buf0"
    "client_start f = Inr (cli s)" "printed s = []" by (auto simp: net_init_def)
  then have "phase (cli s) = Sending"
    by (auto simp: client_start_def start_chunk_def split: prod.splits sysret.splits)
      (metis client.select_convs(7))
  moreover note \<open>length (recvbuf (cli s)) = MAXBUF\<close>
  moreover have "slots a ((con (server_start con0 buf0))[4 := \<lparr>free = False, chunkNo = 0, addr = a\<rparr>]) = {4}"
    using c0(1) by (auto simp: slots_def server_start_def nth_list_update split: if_splits)
  ultimately show ?thesis
    using I c0 findIndex_fresh [OF c0(1), of a buf0]
    by (simp add: ready_def parts_of_def server_start_def)
qed

lemma reach_from: "reach (\<lambda>u. u = s) step t \<Longrightarrow> step\<^sup>*\<^sup>* s t"
  by (induction rule: reach.induct) (auto intro: rtranclp.rtrancl_into_rtrancl)

lemma reach_rtranclp: "step\<^sup>*\<^sup>* s t \<Longrightarrow> reach init step s \<Longrightarrow> reach init step t"
  by (induction rule: rtranclp_induct) (auto intro: reach_step)

lemma transfer_completes:
  assumes "transfer_init fl s"
  shows "\<exists>t. (net_step a)\<^sup>*\<^sup>* s t \<and> phase (cli t) = Done \<and> parts_of a (printed t) = full a (chunks fl)"
proof -
  have "reach (\<lambda>u. u = s) (net_step a) s" by (rule reach_init) simp
  from ready_completes [OF ready_start [OF assms] this] assms obtain t where
    "reach (\<lambda>u. u = s) (net_step a) t" "phase (cli t) = Done" "parts_of a (printed t) = full a (chunks fl)"
    by (auto simp: transfer_init_def)
  then show ?thesis by (intro exI [of _ t] conjI reach_from)
qed

text \<open>The text of printed parts, and what the invariant says of the parts printed so far.\<close>

definition printed_text :: "udp_eff list \<Rightarrow> byte list" where
  "printed_text es = concat (map (\<lambda>e. case e of Part _ _ _ t \<Rightarrow> t | SendTo _ _ \<Rightarrow> []) es)"

lemma c_text_no_nul: "0 \<notin> set body \<Longrightarrow> c_text body = body"
  by (auto simp: c_text_def takeWhile_eq_all_conv)

lemma printed_text_full: "0 \<notin> set fl \<Longrightarrow> printed_text (full a (chunks fl)) = fl"
proof -
  assume z: "0 \<notin> set fl"
  have "c_text (chunks fl ! i) = chunks fl ! i" if "i < length (chunks fl)" for i
  proof (rule c_text_no_nul)
    have "chunks fl ! i \<in> set (chunks fl)" using that by simp
    then have "set (chunks fl ! i) \<subseteq> set (concat (chunks fl))" by auto
    with z show "0 \<notin> set (chunks fl ! i)" by (auto simp: concat_chunks)
  qed
  then have "map (\<lambda>i. c_text (chunks fl ! i)) [0..<length (chunks fl)] = chunks fl"
    by (intro nth_equalityI) simp_all
  then show ?thesis
    by (simp add: printed_text_def full_def comp_def concat_chunks)
qed

lemma run_inv_prefix:
  assumes "run_inv a cs table ms P" and "m \<in> set ms"
  obtains pre suf where "P = pre @ take m (full a cs) @ suf"
proof -
  from assms(2) obtain us vs where "ms = us @ m # vs" by (meson split_list)
  with assms(1) show ?thesis
    using that [of "concat (map (\<lambda>m. take m (full a cs)) us)" "concat (map (\<lambda>m. take m (full a cs)) vs)"]
    by (simp add: run_inv_def)
qed

lemma done_printed:
  assumes "reach (transfer_init fl) (net_step a) s" and "phase (cli s) = Done"
  shows "\<exists>pre suf. parts_of a (printed s) = pre @ full a (chunks fl) @ suf"
proof -
  from udp.reach_inv [OF assms(1)] assms(2) obtain ms where
    "run_inv a (chunks fl) (con (srv s)) ms (parts_of a (printed s))" "length (chunks fl) \<in> set ms"
    by (auto simp: net_inv_def net_inv_at_def)
  then show ?thesis by (rule run_inv_prefix) auto
qed

lemma confirmed_printed:
  assumes "reach (transfer_init fl) (net_step a) s" and "int i + 1 < cur (cli s)"
  shows "Part a False (int i + 1) (c_text (chunks fl ! i)) \<in> set (printed s)"
proof -
  from udp.reach_inv [OF assms(1)] obtain ms j where
    I: "run_inv a (chunks fl) (con (srv s)) ms (parts_of a (printed s))" "client_at (chunks fl) (cli s) j"
      "0 < j \<longrightarrow> (\<exists>m \<in> set ms. j \<le> m)"
    unfolding net_inv_def net_inv_at_def by blast
  with assms(2) have ij: "i < j" "j < length (chunks fl)" by (auto simp: client_at_def)
  with I(3) obtain m where m: "m \<in> set ms" "j \<le> m" by auto
  from run_inv_prefix [OF I(1) m(1)] obtain pre suf where
    p: "parts_of a (printed s) = pre @ take m (full a (chunks fl)) @ suf" .
  have "take m (full a (chunks fl)) ! i = Part a False (int i + 1) (c_text (chunks fl ! i))"
    "i < length (take m (full a (chunks fl)))"
    using ij m(2) by (simp_all add: full_def)
  then have "Part a False (int i + 1) (c_text (chunks fl ! i)) \<in> set (take m (full a (chunks fl)))"
    by (metis nth_mem)
  with p have "Part a False (int i + 1) (c_text (chunks fl ! i)) \<in> set (parts_of a (printed s))"
    by simp
  then show ?thesis by (simp add: parts_of_def)
qed

section \<open>Properties of the transfer\<close>

definition demo_addr :: sockaddr_in where
  "demo_addr = \<lparr>sin_port = 7, sin_addr = 1\<rparr>"

definition demo_net :: net where
  "demo_net = \<lparr>srv = server_start (replicate MAXADDR \<lparr>free = False, chunkNo = 3, addr = demo_addr\<rparr>)
                       (replicate (MAXBUF + 1) 0),
     cli = projr (client_start [Data [104], RErr EINTR, Data [105]]), to_srv = {}, to_cli = {}, printed = []\<rparr>"

lemma transfer_initI:
  "length (chunks fl) < 2147483648 \<Longrightarrow> clean f \<Longrightarrow> pending f = fl \<Longrightarrow> net_init f s \<Longrightarrow>
   transfer_init fl s"
  by (auto simp: transfer_init_def)

lemma demo_server:
  "\<exists>con0. length con0 = MAXADDR \<and> (\<exists>buf0. length buf0 = MAXBUF + 1 \<and> srv demo_net = server_start con0 buf0)"
  unfolding demo_net_def by (intro exI conjI) simp_all

lemma demo_net_init: "transfer_init [104, 105] demo_net"
proof -
  let ?f = "[Data [104], RErr EINTR, Data [105]]"
  let ?c = "\<lparr>infile = ?f, cur = 0, sz = 0, cnt = 0, sendbuf = [], recvbuf = [], phase = Sending\<rparr>"
  have "pending ?f = concat (drop 0 (chunks [104, 105]))" by (simp add: concat_chunks)
  with start_chunk_at [of ?c 0 "[104, 105]"] obtain c' where "client_start ?f = Inr c'"
    by (auto simp: client_start_def)
  moreover have "length (chunks [104, 105]) = 1" by (simp add: length_chunks)
  ultimately show ?thesis
    using demo_server
    by (intro transfer_initI [of _ ?f]) (simp_all add: net_init_def, simp_all add: demo_net_def)
qed

text \<open>
  C1: whatever the network loses, repeats or reorders, and whatever other clients send, when the
  client ends normally the server has printed the file: the parts printed for this client contain
  an uninterrupted run of all chunks, numbered from 1, in order, the last one marked, whose texts
  are the file (a file without NUL bytes, since the server prints C strings).
\<close>

theorem udp_delivered:
  assumes "reach (transfer_init fl) (net_step a) s" and "phase (cli s) = Done" and "0 \<notin> set fl"
  shows "\<exists>pre run suf. parts_of a (printed s) = pre @ run @ suf \<and> run = full a (chunks fl)
    \<and> printed_text run = fl"
  using done_printed [OF assms(1,2)] printed_text_full [OF assms(3)] by blast

theorem udp_delivered_witness:
  "\<exists>(s :: net) pre run suf. phase (cli s) = Done \<and> parts_of demo_addr (printed s) = pre @ run @ suf
     \<and> printed_text run = [104, 105]"
proof -
  from transfer_completes [OF demo_net_init, of demo_addr] obtain s where
    r: "(net_step demo_addr)\<^sup>*\<^sup>* demo_net s" and "phase (cli s) = Done" by blast
  moreover have "reach (transfer_init [104, 105]) (net_step demo_addr) demo_net" using demo_net_init by (rule reach_init)
  ultimately obtain s where
    s: "reach (transfer_init [104, 105]) (net_step demo_addr) s" "phase (cli s) = Done" using reach_rtranclp [OF r] by blast
  with udp_delivered [OF s] show ?thesis by fastforce
qed

text \<open>
  The client never runs ahead of the server: while it works on chunk \<open>k\<close>, every chunk
  before it has been printed.
\<close>

theorem udp_confirmed_printed:
  assumes "reach (transfer_init fl) (net_step a) s" and "int i + 1 < cur (cli s)"
  shows "Part a False (int i + 1) (c_text (chunks fl ! i)) \<in> set (printed s)"
  using confirmed_printed [OF assms] .

lemma transfer_init_exists:
  assumes "fl \<noteq> []" and "length fl < 1000"
  shows "\<exists>s. transfer_init fl s"
proof -
  let ?c = "\<lparr>infile = [Data fl], cur = 0, sz = 0, cnt = 0, sendbuf = [], recvbuf = [], phase = Sending\<rparr>"
  from start_chunk_at [of ?c 0 fl] assms(1) obtain c' where c': "client_start [Data fl] = Inr c'"
    by (auto simp: client_start_def concat_chunks)
  have "length (chunks fl) < 2147483648" using assms(2) by (simp add: length_chunks)
  with c' assms(1) have "transfer_init fl (demo_net\<lparr>cli := c'\<rparr>)"
    using demo_server
    by (intro transfer_initI [of _ "[Data fl]"]) (simp_all add: net_init_def, simp_all add: demo_net_def)
  then show ?thesis ..
qed

lemma second_chunk_reached:
  assumes "fl \<noteq> []" and "length fl < 1000" and "length (chunks fl) \<noteq> 1"
  shows "\<exists>s. reach (transfer_init fl) (net_step a) s \<and> cur (cli s) = 2"
proof -
  from transfer_init_exists [OF assms(1,2)] obtain s where s: "transfer_init fl s" ..
  then have "reach (transfer_init fl) (net_step a) s" by (rule reach_init)
  from ready_round [OF ready_start [OF s] this] s assms(3) obtain t where
    "reach (transfer_init fl) (net_step a) t" "ready a (chunks fl) 1 t"
    by (auto simp: transfer_init_def)
  then show ?thesis by (auto simp: ready_def client_at_def)
qed

theorem udp_confirmed_printed_witness:
  "\<exists>s :: net. cur (cli s) = 2 \<and>
     Part demo_addr False 1 (c_text (chunks (replicate 600 65) ! 0)) \<in> set (printed s)"
proof -
  let ?fl = "replicate 600 (65 :: byte)"
  have "?fl \<noteq> []" by (simp add: numeral_eq_Suc)
  with second_chunk_reached [of ?fl demo_addr] obtain s where
    s: "reach (transfer_init ?fl) (net_step demo_addr) s" "cur (cli s) = 2"
    by (auto simp: length_chunks)
  have "int 0 + 1 < cur (cli s)" using s(2) by simp
  from udp_confirmed_printed [OF s(1) this] s(2) show ?thesis
    by (intro exI [of _ s]) simp
qed

text \<open>
  C32: from every start of client and server, whatever was in the server's uninitialised table and buffer, a run of the
  system leads to the end of the transfer, for every file of less than \<open>2\<^sup>31\<close> chunks, with each part printed exactly once.
\<close>

theorem udp_completes:
  assumes "transfer_init fl s"
  shows "\<exists>t. (net_step a)\<^sup>*\<^sup>* s t \<and> phase (cli t) = Done \<and> parts_of a (printed t) = full a (chunks fl)"
  using transfer_completes [OF assms] .

theorem udp_completes_witness:
  "\<exists>t. (net_step demo_addr)\<^sup>*\<^sup>* demo_net t \<and> phase (cli t) = Done \<and> parts_of demo_addr (printed t) = full demo_addr (chunks [104, 105])"
  using udp_completes [OF demo_net_init, of demo_addr] by blast

text \<open>
  What the protocol does not give.  The slot of a client is freed when its last part is printed, so
  a retransmission of that part (its echo was lost) is taken for a new connection.
\<close>

fun retransmit ::
  "nat \<Rightarrow> server \<Rightarrow> sockaddr_in \<Rightarrow> byte list \<Rightarrow> nat sysret \<Rightarrow> (udp_eff, server) io" where
  "retransmit 0 s a d z = ret s"
| "retransmit (Suc k) s a d z = seq (serve s a d z) (\<lambda>s'. retransmit k s' a d z)"

lemma all_free_server_start:
  "(\<forall>c \<in> set cs. free c) \<Longrightarrow> con (server_start cs b) = cs"
  unfolding server_start_def by (simp add: map_idI)

lemma serve_single_chunk:
  assumes "length (con s) = MAXADDR" and "\<forall>c \<in> set (con s). free c"
    and "length (sbuf s) = MAXBUF + 1" and "length fl < MAXBUF - 8"
  shows "\<exists>v. serve s a (dgram (chunks fl) 0) (Ok z)
      = ([Part a True 1 (c_text fl), SendTo a (dgram (chunks fl) 0)], Inr v)
    \<and> length (con v) = MAXADDR \<and> (\<forall>c \<in> set (con v). free c) \<and> length (sbuf v) = MAXBUF + 1"
proof -
  have ch: "chunks fl = [fl]" using assms(4) by (subst chunks.simps) simp
  let ?e = "\<lparr>free = False, chunkNo = 0, addr = a\<rparr>"
  have "findIndex a (con s) = (Some 4, (con s)[4 := ?e])"
    using findIndex_fresh [OF assms(1), of a "sbuf s"] all_free_server_start [OF assms(2), of "sbuf s"] by simp
  from serve_next [OF this, of 0 fl z] assms ch received_chunk(5) [of 0 fl s]
  show ?thesis
    by (auto dest!: subsetD [OF set_update_subset_insert])
qed

lemma retransmit_single_chunk:
  assumes "length (con s) = MAXADDR" and "\<forall>c \<in> set (con s). free c"
    and "length (sbuf s) = MAXBUF + 1" and "length fl < MAXBUF - 8"
  shows "fst (retransmit k s a (dgram (chunks fl) 0) (Ok z))
      = concat (replicate k [Part a True 1 (c_text fl), SendTo a (dgram (chunks fl) 0)])"
  using assms
proof (induction k arbitrary: s)
  case 0
  then show ?case by simp
next
  case (Suc k)
  from serve_single_chunk [OF Suc.prems, of a z] obtain v where
    v: "serve s a (dgram (chunks fl) 0) (Ok z)
      = ([Part a True 1 (c_text fl), SendTo a (dgram (chunks fl) 0)], Inr v)"
      "length (con v) = MAXADDR" "\<forall>c \<in> set (con v). free c" "length (sbuf v) = MAXBUF + 1" by blast
  with Suc.IH [OF v(2,3,4) Suc.prems(4)] show ?case by simp
qed

text \<open>A later chunk is dropped without an echo when the client has no slot, or a fresh one.\<close>

lemma serve_forgotten:
  assumes "\<forall>i \<in> slots a (con s). chunkNo (con s ! i) = 0" and "0 < j" and "j < length (chunks fl)"
    and "length (chunks fl) < 2147483648" and "length (sbuf s) = MAXBUF + 1"
  shows "\<exists>v. serve s a (dgram (chunks fl) j) z = ([], Inr v)
    \<and> (\<forall>i \<in> slots a (con v). chunkNo (con v ! i) = 0) \<and> length (sbuf v) = MAXBUF + 1"
proof -
  note rc = received_chunk [OF assms(3,4,5)]
  obtain r c where f: "findIndex a (con s) = (r, c)" by fastforce
  show ?thesis
  proof (cases r)
    case None
    with f findIndex_None [of a "con s" c] assms(1) rc(5) show ?thesis
      by (simp add: serve_def ret_def)
  next
    case (Some i)
    have "\<forall>k \<in> slots a c. chunkNo (c ! k) = 0"
    proof (cases "c = con s")
      case False
      with findIndex_Some [OF f [unfolded Some]] have
        c: "slots a (con s) = {}" "c = (con s)[i := \<lparr>free = False, chunkNo = 0, addr = a\<rparr>]"
          "i < length (con s)" by (auto simp: slots_def)
      then have "slots a c = {i}" by (simp add: slots_update)
      with c show ?thesis by simp
    qed (use assms(1) in simp)
    with findIndex_Some [OF f [unfolded Some]] f Some rc assms(2) show ?thesis
      by (simp add: serve_def ret_def Let_def)
  qed
qed

lemma retransmit_forgotten:
  assumes "\<forall>i \<in> slots a (con s). chunkNo (con s ! i) = 0" and "0 < j" and "j < length (chunks fl)"
    and "length (chunks fl) < 2147483648" and "length (sbuf s) = MAXBUF + 1"
  shows "fst (retransmit k s a (dgram (chunks fl) j) z) = []"
  using assms
proof (induction k arbitrary: s)
  case 0
  then show ?case by simp
next
  case (Suc k)
  from serve_forgotten [OF Suc.prems, of z] obtain v where
    v: "serve s a (dgram (chunks fl) j) z = ([], Inr v)"
      "\<forall>i \<in> slots a (con v). chunkNo (con v ! i) = 0" "length (sbuf v) = MAXBUF + 1" by blast
  with Suc.IH [OF v(2) Suc.prems(2,3,4) v(3)] show ?case by simp
qed

text \<open>
  A file of one chunk whose echo is lost is printed again for every retransmission: \<open>k\<close>
  copies of its datagram are all taken as new connections and printed \<open>k\<close> times.
\<close>

theorem udp_single_chunk_repeated:
  assumes "length con0 = MAXADDR" and "length buf0 = MAXBUF + 1" and "length fl < MAXBUF - 8"
  shows "fst (retransmit k (server_start con0 buf0) a (dgram (chunks fl) 0) (Ok z))
      = concat (replicate k [Part a True 1 (c_text fl), SendTo a (dgram (chunks fl) 0)])"
  by (rule retransmit_single_chunk) (use assms in \<open>auto simp: server_start_def\<close>)

theorem udp_single_chunk_repeated_witness:
  "parts_of demo_addr (fst (retransmit 2
       (server_start (replicate 5 \<lparr>free = True, chunkNo = 0, addr = demo_addr\<rparr>) (replicate 577 0))
       demo_addr (dgram (chunks [104, 105]) 0) (Ok 576)))
   = [Part demo_addr True 1 [104, 105], Part demo_addr True 1 [104, 105]]"
proof -
  have c: "c_text [104, 105] = [104, 105]" by (simp add: c_text_def)
  show ?thesis
    by (subst udp_single_chunk_repeated) (simp_all add: eval_nat_numeral(2,3) parts_of_def c)
qed

text \<open>
  A file of several chunks whose last echo is lost is never acknowledged: the server prints
  and echoes the last chunk once, and answers no retransmission of it, so the client gives up
  although everything was delivered.
\<close>

theorem udp_last_echo_lost:
  assumes "slots a (con s) = {i}" and "chunkNo (con s ! i) = int j" and "0 < j"
    and "Suc j = length (chunks fl)" and "length (chunks fl) < 2147483648"
    and "length (sbuf s) = MAXBUF + 1"
  shows "fst (retransmit (Suc k) s a (dgram (chunks fl) j) (Ok z))
      = [Part a True (int j + 1) (c_text (chunks fl ! j)), SendTo a (dgram (chunks fl) j)]"
proof -
  have j: "j < length (chunks fl)" using assms(4) by simp
  have "i \<in> slots a (con s)" using assms(1) by simp
  then have i: "i < length (con s)" by (simp add: slots_def)
  note sv = serve_next [OF findIndex_slot [OF assms(1)] assms(2) j assms(5,6), of z]
  let ?v = "\<lparr>con = (con s)[i := (con s ! i)\<lparr>free := True, chunkNo := int j + 1\<rparr>],
             sbuf = receive (sbuf s) (dgram (chunks fl) j)\<rparr>"
  have "slots a (con ?v) = {}" using i assms(1) by (simp add: slots_update)
  then have "fst (retransmit k ?v a (dgram (chunks fl) j) (Ok z)) = []"
    using received_chunk(5) [OF j assms(5,6)] assms(3,5) j
    by (intro retransmit_forgotten) simp_all
  with sv assms(4) show ?thesis by simp
qed

theorem udp_last_echo_lost_witness:
  "fst (retransmit 6 \<lparr>con = [\<lparr>free = False, chunkNo = 1, addr = demo_addr\<rparr>], sbuf = replicate 577 0\<rparr>
         demo_addr (dgram (chunks (replicate 600 65)) 1) (Ok 576))
   = [Part demo_addr True 2 (c_text (chunks (replicate 600 65) ! 1)),
      SendTo demo_addr (dgram (chunks (replicate 600 65)) 1)]"
proof -
  have "slots demo_addr [\<lparr>free = False, chunkNo = 1, addr = demo_addr\<rparr>] = {0}"
    by (auto simp: slots_def)
  then show ?thesis
    using udp_last_echo_lost [where k = 5 and i = 0 and j = 1 and fl = "replicate 600 65" and a = demo_addr
    and s = "\<lparr>con = [\<lparr>free = False, chunkNo = 1, addr = demo_addr\<rparr>], sbuf = replicate 577 0\<rparr>" and z = 576]
    by (simp add: length_chunks)
qed

end
