(* ===== verification/Slots.thy ===== *)
theory Slots
  imports Io
begin

text \<open>
  Tables of descriptors with -1 for a free place, as the epoll servers of lab 07 keep them: the
  loop that puts a descriptor into the first free place, the loop that frees the place of a
  descriptor, and the contract that a counter beside the table relies on.
\<close>

definition claim_slot :: "int \<Rightarrow> int list \<Rightarrow> int list" where
  "claim_slot fd t = (case find_idx (\<lambda>x. x = - 1) t of Some j \<Rightarrow> t[j := fd] | None \<Rightarrow> t)"

definition release_slot :: "int \<Rightarrow> int list \<Rightarrow> int list" where
  "release_slot fd t = (case find_idx (\<lambda>x. x = fd) t of Some i \<Rightarrow> t[i := - 1] | None \<Rightarrow> t)"

definition held :: "int list \<Rightarrow> int multiset" where
  "held t = mset (filter (\<lambda>x. x \<noteq> - 1) t)"

lemma length_claim_slot [simp]: "length (claim_slot fd t) = length t"
  by (simp add: claim_slot_def split: option.splits)

lemma length_release_slot [simp]: "length (release_slot fd t) = length t"
  by (simp add: release_slot_def split: option.splits)

lemma held_replicate [simp]: "held (replicate n (- 1)) = {#}"
  by (simp add: held_def)

lemma set_held: "set_mset (held t) = set t - {- 1}"
  by (auto simp: held_def)

lemma held_update:
  "i < length t \<Longrightarrow> held (t[i := x]) =
     (if t ! i = - 1 then held t else held t - {#t ! i#}) + (if x = - 1 then {#} else {#x#})"
proof (induction t arbitrary: i)
  case Nil
  then show ?case by simp
next
  case (Cons a t)
  show ?case
  proof (cases i)
    case 0
    then show ?thesis by (simp add: held_def)
  next
    case (Suc k)
    with Cons have IH: "held (t[k := x]) =
      (if t ! k = - 1 then held t else held t - {#t ! k#}) + (if x = - 1 then {#} else {#x#})"
      and k: "k < length t" by simp_all
    have "t ! k \<in># held t" if "t ! k \<noteq> - 1" using k that by (simp add: held_def)
    with IH Suc show ?thesis by (auto simp: held_def)
  qed
qed

lemma size_held: "size (held t) = length (filter (\<lambda>x. x \<noteq> - 1) t)"
  unfolding held_def by (rule size_mset)

lemma size_held_le: "size (held t) \<le> length t"
  by (simp add: size_held)

lemma held_full: "- 1 \<notin> set t \<Longrightarrow> size (held t) = length t"
  unfolding size_held by (induction t) auto

lemma held_claim:
  assumes "size (held t) < length t" and "fd \<noteq> - 1"
  shows "held (claim_slot fd t) = add_mset fd (held t)"
proof -
  from assms(1) held_full [of t] have "- 1 \<in> set t"
    by (metis less_irrefl_nat)
  then obtain j where j: "find_idx (\<lambda>x. x = - 1) t = Some j"
    by (cases "find_idx (\<lambda>x. x = - 1) t") (auto simp: find_idx_None_iff)
  from find_idx_SomeD [OF j] j assms(2) show ?thesis
    by (simp add: claim_slot_def held_update)
qed

lemma held_release:
  assumes "fd \<in># held t"
  shows "held (release_slot fd t) = held t - {#fd#}"
proof -
  from assms have fd: "fd \<in> set t" "fd \<noteq> - 1" by (auto simp: held_def)
  then obtain i where i: "find_idx (\<lambda>x. x = fd) t = Some i"
    by (cases "find_idx (\<lambda>x. x = fd) t") (auto simp: find_idx_None_iff)
  from find_idx_SomeD [OF i] i fd(2) show ?thesis
    by (simp add: release_slot_def held_update)
qed

lemma release_absent: "fd \<notin># held t \<Longrightarrow> fd \<noteq> - 1 \<Longrightarrow> release_slot fd t = t"
  using find_idx_None_iff [of "\<lambda>x. x = fd" t]
  by (auto simp: release_slot_def held_def split: option.splits dest!: find_idx_SomeD)

text \<open>
  What a server with a counter beside its table relies on.  \<open>room\<close> is the size of the table.
\<close>

locale slot_table =
  fixes claim :: "int \<Rightarrow> 't \<Rightarrow> 't"
    and release :: "int \<Rightarrow> 't \<Rightarrow> 't"
    and holds :: "'t \<Rightarrow> int multiset"
    and room :: "'t \<Rightarrow> nat"
  assumes holds_claim: "size (holds t) < room t \<Longrightarrow> fd \<noteq> - 1 \<Longrightarrow> holds (claim fd t) = add_mset fd (holds t)"
    and holds_release: "fd \<in># holds t \<Longrightarrow> holds (release fd t) = holds t - {#fd#}"
    and room_claim: "room (claim fd t) = room t"
    and room_release: "room (release fd t) = room t"
    and holds_room: "size (holds t) \<le> room t"
begin

text \<open>The counter is right: it counts the held descriptors, each held once.\<close>

definition counted :: "int \<Rightarrow> 't \<Rightarrow> bool" where
  "counted n t \<longleftrightarrow> n = int (size (holds t)) \<and> (\<forall>fd. count (holds t) fd \<le> 1)"

lemma counted_claim:
  "counted n t \<Longrightarrow> n < int (room t) \<Longrightarrow> fd \<noteq> - 1 \<Longrightarrow> fd \<notin># holds t \<Longrightarrow> counted (n + 1) (claim fd t)"
  by (auto simp: counted_def holds_claim not_in_iff)

lemma counted_release:
  "counted n t \<Longrightarrow> fd \<in># holds t \<Longrightarrow> counted (n - 1) (release fd t)"
proof -
  assume c: "counted n t" and fd: "fd \<in># holds t"
  then have "size (holds t) = Suc (size (holds t - {#fd#}))"
    by (metis size_Suc_Diff1)
  with c fd show ?thesis
    by (auto simp: counted_def holds_release)
qed

lemma counted_bounds: "counted n t \<Longrightarrow> 0 \<le> n \<and> n \<le> int (room t)"
  using holds_room [of t] by (auto simp: counted_def)

lemma released_gone:
  assumes "counted n t" and "fd \<in># holds t"
  shows "fd \<notin># holds (release fd t)"
proof -
  have "count (holds t) fd \<le> 1" using assms(1) by (simp add: counted_def)
  then have "count (holds t - {#fd#}) fd = 0" by simp
  then show ?thesis
    unfolding holds_release [OF assms(2)] by (simp only: not_in_iff)
qed

end

interpretation slots: slot_table claim_slot release_slot held length
  by unfold_locales (simp_all add: held_claim held_release size_held_le)

lemma counted_distinct: "slots.counted n t \<Longrightarrow> distinct (filter (\<lambda>x. x \<noteq> - 1) t)"
proof -
  assume c: "slots.counted n t"
  let ?u = "filter (\<lambda>x. x \<noteq> - 1) t"
  have "count (mset ?u) a = (if a \<in> set ?u then 1 else 0)" for a
  proof -
    have "count (mset ?u) a \<le> 1" using c unfolding slots.counted_def held_def by blast
    moreover have "a \<in> set ?u \<longleftrightarrow> 0 < count (mset ?u) a" by (metis count_greater_zero_iff set_mset_mset)
    ultimately show ?thesis by (simp only: split: if_splits) linarith
  qed
  then show ?thesis unfolding distinct_count_atmost_1 by blast
qed

end
