(* ===== verification/Poslancy.thy ===== *)
theory Poslancy
  imports Slots Calc
begin

text \<open>
  The server of \<^verbatim>\<open>lab07/poslancy/poslancy.c\<close>: twenty cities, each held by the Greeks
  or the Persians, and up to four messengers connected over TCP.  A message of four bytes changes
  the owner of a city and is relayed to the other messengers.
\<close>

section \<open>State\<close>

abbreviation MAX_CLIENTS :: nat where "MAX_CLIENTS \<equiv> 4"

record city =
  owner :: char
  num :: nat

record pstate =
  cities :: "city list"
  clients :: "int list"
  current_clients :: int

datatype pos_eff = Say string | CloseFd int | Relay int string | Watch int | Nonblock int

definition init_state :: pstate where
  "init_state =
     \<lparr>cities = map (\<lambda>i. \<lparr>owner = CHR ''g'', num = i + 1\<rparr>) [0..<20],
      clients = replicate MAX_CLIENTS (- 1), current_clients = 0\<rparr>"

definition remove_client :: "int \<Rightarrow> pstate \<Rightarrow> (pos_eff, pstate) io" where
  "remove_client fd s =
     ([Say (''Rozlaczam klienta (FD: '' @ show_int fd @ '')'' @ [CHR 0x0A]), CloseFd fd],
      Inr (s\<lparr>clients := release_slot fd (clients s), current_clients := current_clients s - 1\<rparr>))"

section \<open>Events\<close>

text \<open>
  One entry of the array filled by \<^verbatim>\<open>epoll_pwait\<close>, with the kernel's answers to the
  calls its handling may make: \<^verbatim>\<open>accept\<close>, \<^verbatim>\<open>epoll_ctl\<close>, the
  \<^verbatim>\<open>read\<close> of four bytes, and the \<^verbatim>\<open>write\<close> to the client in place
  \<open>k\<close>.
\<close>

record event =
  ev_fd :: int
  ev_accept :: "int sysret list"
  ev_ctl :: "unit sysret"
  ev_read :: "string sysret"
  ev_write :: "nat \<Rightarrow> nat sysret"

definition new_client :: "event \<Rightarrow> pstate \<Rightarrow> (pos_eff, pstate) io" where
  "new_client e s =
     (if current_clients s < int MAX_CLIENTS then
        seq ([], add_new_client (ev_accept e)) (\<lambda>client_fd.
        if client_fd \<ge> 0 then
          (let s' = s\<lparr>clients := claim_slot client_fd (clients s),
                      current_clients := current_clients s + 1\<rparr>
           in case ev_ctl e of
                Fail _ \<Rightarrow> die (ERR ''epoll_ctl'')
              | Ok _ \<Rightarrow> seq (emit [Watch client_fd, Nonblock client_fd]) (\<lambda>_. ret s'))
        else ret s)
      else
        seq (emit [Say (''Odrzucam nadmiarowego klienta'' @ [CHR 0x0A])]) (\<lambda>_.
        seq ([], add_new_client (ev_accept e)) (\<lambda>rejected_fd.
        if rejected_fd \<ge> 0 then seq (emit [CloseFd rejected_fd]) (\<lambda>_. ret s) else ret s)))"

definition is_valid :: "string \<Rightarrow> bool" where
  "is_valid buf \<longleftrightarrow>
     (buf ! 0 = CHR ''p'' \<or> buf ! 0 = CHR ''g'') \<and> isdigit (buf ! 1) \<and> isdigit (buf ! 2)
     \<and> buf ! 3 = CHR 0x0A"

definition city_index :: "string \<Rightarrow> nat" where
  "city_index buf = digit_val (buf ! 1) * 10 + digit_val (buf ! 2)"

fun broadcast ::
  "nat list \<Rightarrow> int \<Rightarrow> string \<Rightarrow> (nat \<Rightarrow> nat sysret) \<Rightarrow> pstate \<Rightarrow> (pos_eff, pstate) io" where
  "broadcast [] fd buf wr s = ret s"
| "broadcast (k # ks) fd buf wr s =
     (let target_fd = clients s ! k in
      if target_fd \<noteq> - 1 \<and> target_fd \<noteq> fd then
        (case wr k of
           Ok n \<Rightarrow> seq (emit [Relay target_fd (take n buf)]) (\<lambda>_. broadcast ks fd buf wr s)
         | Fail e \<Rightarrow>
             if e = EPIPE then seq (remove_client target_fd s) (broadcast ks fd buf wr)
             else die (ERR ''write''))
      else broadcast ks fd buf wr s)"

definition set_owner :: "nat \<Rightarrow> char \<Rightarrow> pstate \<Rightarrow> pstate" where
  "set_owner i p s = s\<lparr>cities := (cities s)[i := (cities s ! i)\<lparr>owner := p\<rparr>]\<rparr>"

definition full_message ::
  "int \<Rightarrow> string \<Rightarrow> (nat \<Rightarrow> nat sysret) \<Rightarrow> pstate \<Rightarrow> (pos_eff, pstate) io" where
  "full_message fd buf wr s =
     (if is_valid buf then
        (let i = city_index buf in
         if 1 \<le> i \<and> i \<le> 20 then
           (if owner (cities s ! (i - 1)) \<noteq> buf ! 0
            then broadcast [0..<MAX_CLIENTS] fd buf wr (set_owner (i - 1) (buf ! 0) s)
            else ret s)
         else seq (emit [Say (''Nieznane miasto: '' @ show_nat i @ ''. '')]) (\<lambda>_. remove_client fd s))
      else seq (emit [Say ''Bledny format wiadomosci. '']) (\<lambda>_. remove_client fd s))"

definition client_ready :: "event \<Rightarrow> pstate \<Rightarrow> (pos_eff, pstate) io" where
  "client_ready e s =
     (let fd = ev_fd e in
      case ev_read e of
        Fail _ \<Rightarrow> remove_client fd s
      | Ok buf \<Rightarrow>
          if length buf = 0 then remove_client fd s
          else if length buf = 4 then full_message fd buf (ev_write e) s
          else seq (emit [Say ''Niepelna wiadomosc. '']) (\<lambda>_. remove_client fd s))"

definition handle_event :: "int \<Rightarrow> pstate \<Rightarrow> event \<Rightarrow> (pos_eff, pstate) io" where
  "handle_event sfd s e = (if ev_fd e = sfd then new_client e s else client_ready e s)"

fun handle_events :: "int \<Rightarrow> pstate \<Rightarrow> event list \<Rightarrow> (pos_eff, pstate) io" where
  "handle_events sfd s [] = ret s"
| "handle_events sfd s (e # es) = seq (handle_event sfd s e) (\<lambda>s'. handle_events sfd s' es)"

text \<open>
  The loop \<^verbatim>\<open>while(do_work)\<close> over the answers of \<^verbatim>\<open>epoll_pwait\<close>, with
  SIGINT unblocked only inside that call.  The result tells whether the loop was left.
\<close>

datatype pos_poll = Events "event list" | Interrupt bool | PollError

fun event_loop :: "int \<Rightarrow> bool \<Rightarrow> pos_poll list \<Rightarrow> pstate \<Rightarrow> (pos_eff, bool \<times> pstate) io" where
  "event_loop sfd do_work [] s = ret (\<not> do_work, s)"
| "event_loop sfd do_work (p # ps) s =
     (if \<not> do_work then ret (True, s)
      else case p of
        PollError \<Rightarrow> die (ERR ''epoll_wait'')
      | Interrupt sigint \<Rightarrow> event_loop sfd (\<not> sigint) ps s
      | Events es \<Rightarrow> seq (handle_events sfd s es) (event_loop sfd True ps))"

definition report_line :: "city \<Rightarrow> string" where
  "report_line c =
     ''Miasto '' @ show_nat (num c) @ (if owner c = CHR ''p'' then '': Persowie'' else '': Grecy'')
     @ [CHR 0x0A]"

definition final_report :: "pstate \<Rightarrow> pos_eff list" where
  "final_report s =
     Say ([CHR 0x0A] @ ''--- STAN KONTROLI MIAST ---'' @ [CHR 0x0A])
     # map (Say \<circ> report_line) (cities s)
     @ map CloseFd (filter (\<lambda>fd. fd \<noteq> - 1) (clients s))"

datatype pos_main_eff = PNet netcall | PEff pos_eff

definition pos_main ::
  "kernel \<Rightarrow> int sysret \<Rightarrow> unit sysret \<Rightarrow> string list \<Rightarrow> pos_poll list \<Rightarrow> (pos_main_eff, unit) io" where
  "pos_main k epoll_create epoll_add argv polls =
     (if length argv \<noteq> 2 then die Usage
      else
        seq (lift_eff PNet (sethandler k ''sigint_handler'' ''SIGINT'')) (\<lambda>_.
        seq (lift_eff PNet (sethandler k ''SIG_IGN'' ''SIGPIPE'')) (\<lambda>_.
        seq (lift_eff PNet (bind_tcp_socket k (word_of_int (atoi (argv ! 1))) 10)) (\<lambda>sfd.
        if sfd < 0 then die (ERR ''bind_tcp_socket'')
        else case epoll_create of
          Fail _ \<Rightarrow> die (ERR ''epoll_create1'')
        | Ok epoll_fd \<Rightarrow>
            (case epoll_add of
               Fail _ \<Rightarrow> die (ERR ''epoll_ctl'')
             | Ok _ \<Rightarrow>
                 seq (emit [PEff (Watch sfd)]) (\<lambda>_.
                 seq (lift_eff PEff (event_loop sfd True polls init_state)) (\<lambda>(stopped, s).
                 if stopped
                 then emit (map PEff (final_report s @ [CloseFd epoll_fd, CloseFd sfd]))
                 else ret ())))))))"

section \<open>Invariant\<close>

text \<open>
  The array of cities keeps its numbering, and \<^verbatim>\<open>current_clients\<close> counts the places
  in use.
\<close>

definition pos_inv :: "int \<Rightarrow> pstate \<Rightarrow> bool" where
  "pos_inv sfd s \<longleftrightarrow>
     length (clients s) = MAX_CLIENTS \<and> slots.counted (current_clients s) (clients s) \<and>
     sfd \<notin># held (clients s) \<and> map num (cities s) = [1..<21] \<and>
     owner ` set (cities s) \<subseteq> {CHR ''p'', CHR ''g''}"

text \<open>
  What the kernel guarantees of an event: the listening socket, with a descriptor from
  \<^verbatim>\<open>accept\<close> that is not in use, or a client that is connected.
\<close>

definition genuine :: "int \<Rightarrow> pstate \<Rightarrow> event \<Rightarrow> bool" where
  "genuine sfd s e \<longleftrightarrow>
     (if ev_fd e = sfd
      then \<forall>fd. Ok fd \<in> set (ev_accept e) \<longrightarrow> fd \<noteq> sfd \<and> fd \<notin># held (clients s)
      else ev_fd e \<in># held (clients s))"

lemma pos_inv_init: "sfd \<noteq> - 1 \<Longrightarrow> pos_inv sfd init_state"
  by (auto simp: pos_inv_def init_state_def slots.counted_def comp_def upt_conv_Cons
      intro!: map_idI)

lemma remove_client_Inr:
  "snd (remove_client fd s) = Inr t \<Longrightarrow>
   t = s\<lparr>clients := release_slot fd (clients s), current_clients := current_clients s - 1\<rparr>"
  by (simp add: remove_client_def)

lemma remove_client_inv:
  assumes "pos_inv sfd s" and "fd \<in># held (clients s)" and "snd (remove_client fd s) = Inr t"
  shows "pos_inv sfd t"
  using assms(1) slots.counted_release [OF _ assms(2)] in_diffD [of sfd "held (clients s)" "{#fd#}"]
  unfolding remove_client_Inr [OF assms(3)] pos_inv_def
  by (simp add: held_release [OF assms(2)]) blast

lemma set_owner_inv:
  "pos_inv sfd s \<Longrightarrow> p = CHR ''p'' \<or> p = CHR ''g'' \<Longrightarrow> i < length (cities s) \<Longrightarrow>
   pos_inv sfd (set_owner i p s)"
proof -
  assume s: "pos_inv sfd s" and p: "p = CHR ''p'' \<or> p = CHR ''g''" and i: "i < length (cities s)"
  have "map num ((cities s)[i := (cities s ! i)\<lparr>owner := p\<rparr>]) = map num (cities s)"
    using i by (simp add: map_update list_update_same_conv)
  moreover have "owner ` set ((cities s)[i := (cities s ! i)\<lparr>owner := p\<rparr>]) \<subseteq> {CHR ''p'', CHR ''g''}"
    using s p set_update_subset_insert [of "cities s" i] unfolding pos_inv_def by fastforce
  ultimately show ?thesis using s by (simp add: pos_inv_def set_owner_def)
qed

lemma new_client_inv:
  assumes inv: "pos_inv sfd s" and acc: "\<forall>fd. Ok fd \<in> set (ev_accept e) \<longrightarrow> fd \<noteq> sfd \<and> fd \<notin># held (clients s)"
    and run: "snd (new_client e s) = Inr t"
  shows "pos_inv sfd t"
proof (cases "current_clients s < int MAX_CLIENTS")
  case False
  with run inv show ?thesis
    by (auto simp: new_client_def snd_seq_Inr split: if_splits)
next
  case True
  with run obtain fd where fd: "add_new_client (ev_accept e) = Inr fd"
    and t: "t = (if fd \<ge> 0 then s\<lparr>clients := claim_slot fd (clients s),
                                current_clients := current_clients s + 1\<rparr> else s)"
    by (auto simp: new_client_def snd_seq_Inr split: if_splits sysret.splits)
  show ?thesis
  proof (cases "fd \<ge> 0")
    case False
    with t inv show ?thesis by simp
  next
    case 0: True
    have "temp_failure_retry as = Ok fd \<Longrightarrow> Ok fd \<in> set as" for as
      by (induction as) (auto split: if_splits)
    with fd 0 have "Ok fd \<in> set (ev_accept e)"
      by (auto simp: add_new_client_def split: sysret.splits if_splits)
    with acc have nf: "fd \<noteq> sfd" "fd \<notin># held (clients s)" by auto
    from inv have c: "slots.counted (current_clients s) (clients s)" "length (clients s) = MAX_CLIENTS"
      by (simp_all add: pos_inv_def)
    then have "size (held (clients s)) < length (clients s)"
      using True by (simp add: slots.counted_def)
    moreover have "slots.counted (current_clients s + 1) (claim_slot fd (clients s))"
      by (rule slots.counted_claim [OF c(1)]) (use True c(2) 0 nf in auto)
    ultimately show ?thesis
      using inv t 0 nf by (simp add: pos_inv_def held_claim)
  qed
qed

lemma broadcast_inv:
  "pos_inv sfd s \<Longrightarrow> \<forall>k \<in> set ks. k < MAX_CLIENTS \<Longrightarrow> snd (broadcast ks fd buf wr s) = Inr t \<Longrightarrow>
   pos_inv sfd t"
proof (induction ks arbitrary: s)
  case Nil
  then show ?case by (simp add: ret_def)
next
  case (Cons k ks)
  let ?t = "clients s ! k"
  show ?case
  proof (cases "?t \<noteq> - 1 \<and> ?t \<noteq> fd \<and> (\<exists>e. wr k = Fail e)")
    case False
    with Cons.prems(3) have "snd (broadcast ks fd buf wr s) = Inr t"
      by (auto simp: Let_def split: if_splits sysret.splits)
    with Cons show ?thesis by simp
  next
    case True
    with Cons.prems(3) have "wr k = Fail EPIPE"
      by (auto simp: die_def split: if_splits)
    with True Cons.prems(3) obtain u where
      u: "snd (remove_client ?t s) = Inr u" "snd (broadcast ks fd buf wr u) = Inr t"
      by (auto simp: snd_seq_Inr)
    have "?t \<in> set (clients s)" using Cons.prems(1,2) by (simp add: pos_inv_def)
    then have "?t \<in># held (clients s)" using True by (simp add: set_held)
    from remove_client_inv [OF Cons.prems(1) this u(1)] u(2) Cons show ?thesis by simp
  qed
qed

lemma city_index_in_range:
  assumes "pos_inv sfd s" and "1 \<le> i" and "i \<le> 20"
  shows "i - 1 < length (cities s)"
proof -
  have "length (map num (cities s)) = 20" using assms(1) by (simp add: pos_inv_def)
  with assms show ?thesis by simp
qed

lemma client_ready_inv:
  assumes inv: "pos_inv sfd s" and fd: "ev_fd e \<in># held (clients s)"
    and run: "snd (client_ready e s) = Inr t"
  shows "pos_inv sfd t"
proof -
  note rm = remove_client_inv [OF inv fd]
  consider buf where "is_valid buf" "1 \<le> city_index buf" "city_index buf \<le> 20"
      "snd (full_message (ev_fd e) buf (ev_write e) s) = Inr t"
    | "snd (remove_client (ev_fd e) s) = Inr t"
    using run
    by (auto simp: client_ready_def Let_def full_message_def
        split: sysret.splits if_splits)
  then show ?thesis
  proof cases
    case (1 buf)
    note i = city_index_in_range [OF inv 1(2,3)]
    have p: "buf ! 0 = CHR ''p'' \<or> buf ! 0 = CHR ''g''" using 1(1) by (simp add: is_valid_def)
    from 1 inv broadcast_inv [OF set_owner_inv [OF inv p i], of "[0..<MAX_CLIENTS]"] show ?thesis
      by (auto simp: full_message_def Let_def split: if_splits)
  next
    case 2
    then show ?thesis by (rule rm)
  qed
qed

abbreviation pos_step :: "int \<Rightarrow> pstate \<Rightarrow> event \<Rightarrow> pstate run" where
  "pos_step sfd s e \<equiv> snd (handle_event sfd s e)"

interpretation pos: inv_handler "pos_step sfd" "pos_inv sfd" "genuine sfd" for sfd
proof unfold_locales
  fix s e t
  assume "pos_inv sfd s" and "genuine sfd s e" and "snd (handle_event sfd s e) = Inr t"
  then show "pos_inv sfd t"
    using new_client_inv [of sfd s e t] client_ready_inv [of sfd s e t]
    by (auto simp: handle_event_def genuine_def split: if_splits)
qed

section \<open>Messages\<close>

text \<open>The message that gives city \<open>i\<close> to \<open>p\<close>, as the protocol defines it.\<close>

definition city_message :: "char \<Rightarrow> nat \<Rightarrow> string" where
  "city_message p i = [p, digit_char (i div 10), digit_char (i mod 10), CHR 0x0A]"

definition proper :: "string \<Rightarrow> bool" where
  "proper buf \<longleftrightarrow>
     (\<exists>p \<in> {CHR ''p'', CHR ''g''}. \<exists>i \<in> {1..20}. buf = city_message p i)"

lemma digit_char_val: "isdigit c \<Longrightarrow> digit_char (digit_val c) = c"
  by (simp add: digit_char_def digit_val_def isdigit_def)

lemma digit_val_less: "isdigit c \<Longrightarrow> digit_val c < 10"
  unfolding digit_val_def isdigit_def by linarith

lemma city_message_valid:
  "i < 100 \<Longrightarrow> p = CHR ''p'' \<or> p = CHR ''g'' \<Longrightarrow>
   is_valid (city_message p i) \<and> city_index (city_message p i) = i"
  by (auto simp: is_valid_def city_index_def city_message_def isdigit_digit_char digit_val_digit_char)

lemma valid_city_message:
  assumes "length buf = 4" and "is_valid buf"
  shows "buf = city_message (buf ! 0) (city_index buf)"
proof -
  from assms(1) obtain a b c d where buf: "buf = [a, b, c, d]"
    by (auto simp: length_Suc_conv numeral_eq_Suc)
  with assms(2) digit_char_val digit_val_less show ?thesis
    by (simp add: is_valid_def city_index_def city_message_def)
qed

lemma proper_iff:
  "proper buf \<longleftrightarrow> length buf = 4 \<and> is_valid buf \<and> 1 \<le> city_index buf \<and> city_index buf \<le> 20"
proof
  assume "proper buf"
  then show "length buf = 4 \<and> is_valid buf \<and> 1 \<le> city_index buf \<and> city_index buf \<le> 20"
    using city_message_valid by (fastforce simp: proper_def city_message_def)
next
  assume b: "length buf = 4 \<and> is_valid buf \<and> 1 \<le> city_index buf \<and> city_index buf \<le> 20"
  then have "buf ! 0 = CHR ''p'' \<or> buf ! 0 = CHR ''g''" by (simp add: is_valid_def)
  with b valid_city_message [of buf] show "proper buf"
    unfolding proper_def by (metis atLeastAtMost_iff insertCI)
qed

lemma broadcast_all:
  "\<forall>k. wr k = Ok (n k) \<Longrightarrow>
   broadcast ks fd buf wr s =
    (map (\<lambda>k. Relay (clients s ! k) (take (n k) buf)) (filter (\<lambda>k. clients s ! k \<noteq> - 1 \<and> clients s ! k \<noteq> fd) ks), Inr s)"
  by (induction ks) (simp_all add: ret_def Let_def)

lemma clients_list:
  "pos_inv sfd s \<Longrightarrow> map ((!) (clients s)) [0..<MAX_CLIENTS] = clients s"
  by (metis map_nth pos_inv_def)

text \<open>What the other connected clients get when the write to place \<open>k\<close> takes \<open>n k\<close> bytes.\<close>

definition relays :: "(nat \<Rightarrow> nat) \<Rightarrow> int \<Rightarrow> string \<Rightarrow> int list \<Rightarrow> pos_eff list" where
  "relays n fd buf cs = map (\<lambda>k. Relay (cs ! k) (take (n k) buf)) (filter (\<lambda>k. cs ! k \<noteq> - 1 \<and> cs ! k \<noteq> fd) [0..<length cs])"

lemma relays_whole:
  assumes "\<forall>k. n k = l" and "length buf \<le> l"
  shows "relays n fd buf cs = map (\<lambda>fd. Relay fd buf) (filter (\<lambda>c. c \<noteq> - 1 \<and> c \<noteq> fd) cs)"
proof -
  have "filter (\<lambda>c. c \<noteq> - 1 \<and> c \<noteq> fd) cs = filter (\<lambda>c. c \<noteq> - 1 \<and> c \<noteq> fd) (map ((!) cs) [0..<length cs])"
    by (simp add: map_nth)
  then show ?thesis using assms by (simp add: relays_def filter_map o_def)
qed

text \<open>Everything but a proper message ends in the removal of its sender.\<close>

definition complaint :: "event \<Rightarrow> pos_eff list" where
  "complaint e =
     (case ev_read e of
        Fail _ \<Rightarrow> []
      | Ok buf \<Rightarrow>
          if length buf = 0 then []
          else if length buf = 4 then
            [Say (if is_valid buf then ''Nieznane miasto: '' @ show_nat (city_index buf) @ ''. ''
                  else ''Bledny format wiadomosci. '')]
          else [Say ''Niepelna wiadomosc. ''])"

lemma client_ready_improper:
  assumes "\<forall>buf. ev_read e = Ok buf \<longrightarrow> \<not> proper buf"
  shows "client_ready e s = (complaint e @ fst (remove_client (ev_fd e) s), snd (remove_client (ev_fd e) s))"
proof (cases "ev_read e")
  case (Fail x)
  then show ?thesis by (simp add: client_ready_def complaint_def)
next
  case (Ok buf)
  with assms have np: "\<not> proper buf" by blast
  show ?thesis
  proof (cases "length buf = 4")
    case False
    with Ok show ?thesis by (simp add: client_ready_def complaint_def Let_def)
  next
    case True
    with np have "\<not> (is_valid buf \<and> 1 \<le> city_index buf \<and> city_index buf \<le> 20)"
      by (simp add: proper_iff)
    with True Ok show ?thesis
      by (cases "is_valid buf") (auto simp: client_ready_def complaint_def full_message_def Let_def)
  qed
qed

section \<open>Properties\<close>

text \<open>
  C9: over any sequence of genuine events, whatever clients send and whatever
  \<^verbatim>\<open>accept\<close>, \<^verbatim>\<open>read\<close> and \<^verbatim>\<open>write\<close> answer,
  \<^verbatim>\<open>current_clients\<close> stays the number of places in use (so at most four messengers are
  connected, each in one place), and the array keeps the twenty cities in order, each with an
  owner among the two sides.
\<close>

theorem poslancy_invariant:
  assumes "sfd \<noteq> - 1" and "ok_run (pos_step sfd) (genuine sfd) init_state es"
    and "run_events (pos_step sfd) init_state es = Inr t"
  shows "current_clients t = int (size (held (clients t))) \<and> distinct (filter (\<lambda>fd. fd \<noteq> - 1) (clients t))
    \<and> length (clients t) = MAX_CLIENTS
    \<and> map num (cities t) = [1..<21] \<and> owner ` set (cities t) \<subseteq> {CHR ''p'', CHR ''g''}"
proof -
  have t: "pos_inv sfd t" using pos.run_inv [OF pos_inv_init [OF assms(1)] assms(2,3)] .
  then have "slots.counted (current_clients t) (clients t)" by (simp add: pos_inv_def)
  with t counted_distinct [OF this] show ?thesis by (simp add: pos_inv_def slots.counted_def)
qed

text \<open>
  C11: a proper message from a connected client does what the protocol says: nothing when the city
  already belongs to that side; otherwise exactly that city changes hands and the message goes,
  unchanged and once, to every other connected client in the order of the table.  This is so when each write takes the
  four bytes; a write that takes fewer (\<open>n k\<close> for the place \<open>k\<close>) is not repeated, and its client gets only these.
\<close>

theorem poslancy_message:
  assumes "pos_inv sfd s" and "ev_fd e \<noteq> sfd" and "ev_fd e \<in># held (clients s)"
    and "ev_read e = Ok (city_message p i)" and "p = CHR ''p'' \<or> p = CHR ''g''"
    and "1 \<le> i" and "i \<le> 20" and "\<forall>k. ev_write e k = Ok (n k)"
  shows "handle_event sfd s e =
    (if owner (cities s ! (i - 1)) = p then ([], Inr s)
     else (relays n (ev_fd e) (city_message p i) (clients s),
           Inr (s\<lparr>cities := (cities s)[i - 1 := \<lparr>owner = p, num = i\<rparr>]\<rparr>)))
    \<and> ((\<forall>k. n k = 4) \<longrightarrow> relays n (ev_fd e) (city_message p i) (clients s) =
         map (\<lambda>fd. Relay fd (city_message p i)) (filter (\<lambda>fd. fd \<noteq> - 1 \<and> fd \<noteq> ev_fd e) (clients s)))"
proof -
  have i: "i - 1 < length (cities s)" using city_index_in_range [OF assms(1,6,7)] .
  have "map num (cities s) ! (i - 1) = i"
    using assms(1,6,7) by (simp add: pos_inv_def del: upt_Suc)
  then have num: "num (cities s ! (i - 1)) = i" using i by simp
  have so: "set_owner (i - 1) p s = s\<lparr>cities := (cities s)[i - 1 := \<lparr>owner = p, num = i\<rparr>]\<rparr>"
    using num by (cases "cities s ! (i - 1)") (simp add: set_owner_def)
  have l: "length (clients s) = MAX_CLIENTS" using assms(1) by (simp add: pos_inv_def)
  then have b: "broadcast [0..<MAX_CLIENTS] (ev_fd e) m (ev_write e) (set_owner (i - 1) p s) =
      (relays n (ev_fd e) m (clients s), Inr (set_owner (i - 1) p s))" for m
    using broadcast_all [OF assms(8)] by (simp add: relays_def set_owner_def)
  have "i < 100" using assms(7) by simp
  note valid = city_message_valid [OF this assms(5)]
  have len: "length (city_message p i) = 4" "city_message p i ! 0 = p"
    by (simp_all add: city_message_def)
  show ?thesis
    using assms(2,4,6,7) valid len b so relays_whole [of n 4 "city_message p i" "ev_fd e" "clients s"]
    by (auto simp: handle_event_def client_ready_def full_message_def Let_def ret_def)
qed

text \<open>
  Any other input (a short or malformed message, an unknown city, end of file, a read error)
  disconnects its sender and leaves every city and every other client as it was.
\<close>

theorem poslancy_bad_input:
  assumes "pos_inv sfd s" and "ev_fd e \<noteq> sfd" and "ev_fd e \<in># held (clients s)"
    and "\<forall>buf. ev_read e = Ok buf \<longrightarrow> \<not> proper buf"
  shows "\<exists>t. snd (handle_event sfd s e) = Inr t \<and> cities t = cities s
    \<and> held (clients t) = held (clients s) - {#ev_fd e#} \<and> ev_fd e \<notin># held (clients t)
    \<and> CloseFd (ev_fd e) \<in> set (fst (handle_event sfd s e))
    \<and> (\<forall>fd m. Relay fd m \<notin> set (fst (handle_event sfd s e)))"
proof -
  have c: "slots.counted (current_clients s) (clients s)" using assms(1) by (simp add: pos_inv_def)
  have "Relay fd m \<notin> set (complaint e)" for fd m
    by (simp add: complaint_def split: sysret.split)
  with slots.released_gone [OF c assms(3)] held_release [OF assms(3)] show ?thesis
    using assms(2) client_ready_improper [OF assms(4)]
    by (simp add: handle_event_def remove_client_def)
qed

text \<open>Concrete instances.\<close>

definition demo_event :: "int \<Rightarrow> string sysret \<Rightarrow> event" where
  "demo_event fd r =
     \<lparr>ev_fd = fd, ev_accept = [Ok (fd + 10)], ev_ctl = Ok (), ev_read = r, ev_write = \<lambda>_. Ok 4\<rparr>"

definition demo_state :: pstate where
  "demo_state = init_state\<lparr>clients := [4, - 1, 6, 7], current_clients := 3\<rparr>"

lemma demo_state_inv: "pos_inv 3 demo_state"
  using pos_inv_init [of 3]
  by (auto simp: pos_inv_def demo_state_def init_state_def slots.counted_def held_def)

lemma demo_steps:
  "pos_step 3 init_state (demo_event 3 r) = Inr (init_state\<lparr>clients := [13, - 1, - 1, - 1], current_clients := 1\<rparr>)"
  "pos_step 3 (init_state\<lparr>clients := [13, - 1, - 1, - 1], current_clients := 1\<rparr>) (demo_event 13 (Fail EAGAIN))
     = Inr init_state"
  by (simp_all add: demo_event_def handle_event_def new_client_def add_new_client_def claim_slot_def
      client_ready_def remove_client_def release_slot_def Let_def init_state_def numeral_eq_Suc)

theorem poslancy_invariant_witness:
  "\<exists>t. run_events (pos_step 3) init_state [demo_event 3 (Ok []), demo_event 13 (Fail EAGAIN)] = Inr t
     \<and> current_clients t = int (size (held (clients t)))"
proof -
  let ?es = "[demo_event 3 (Ok []), demo_event 13 (Fail EAGAIN)]"
  have g: "genuine 3 init_state (demo_event 3 (Ok []))"
    "genuine 3 (init_state\<lparr>clients := [13, - 1, - 1, - 1], current_clients := 1\<rparr>) (demo_event 13 (Fail EAGAIN))"
    by (auto simp: genuine_def demo_event_def init_state_def held_def)
  then have "ok_run (pos_step 3) (genuine 3) init_state ?es"
    by (simp add: demo_steps)
  from poslancy_invariant [OF _ this] show ?thesis by (simp add: demo_steps)
qed

theorem poslancy_message_witness:
  "fst (handle_event 3 demo_state (demo_event 4 (Ok (city_message CHR ''p'' 7))))
     = [Relay 6 (city_message CHR ''p'' 7), Relay 7 (city_message CHR ''p'' 7)]"
proof -
  have "owner (cities demo_state ! 6) = CHR ''g''" by (simp add: demo_state_def init_state_def)
  moreover have "clients demo_state = [4, - 1, 6, 7]" by (simp add: demo_state_def)
  ultimately show ?thesis
    using poslancy_message [OF demo_state_inv, where n = "\<lambda>_. 4" and
        e = "demo_event 4 (Ok (city_message CHR ''p'' 7))" and p = "CHR ''p''" and i = 7]
    by (simp add: demo_event_def held_def)
qed

theorem poslancy_bad_input_witness:
  "\<exists>t. snd (handle_event 3 demo_state (demo_event 6 (Ok ''p9''))) = Inr t \<and> held (clients t) = {#4, 7#}"
proof -
  have "\<not> proper ''p9''" by (simp add: proper_iff)
  then have "\<forall>buf. ev_read (demo_event 6 (Ok ''p9'')) = Ok buf \<longrightarrow> \<not> proper buf"
    by (simp add: demo_event_def)
  from poslancy_bad_input [OF demo_state_inv _ _ this] show ?thesis
    by (auto simp: demo_event_def demo_state_def held_def)
qed

definition stale_batch :: "int \<Rightarrow> int \<Rightarrow> int \<Rightarrow> int \<Rightarrow> int \<Rightarrow> (nat \<Rightarrow> nat sysret) \<Rightarrow> event list" where
  "stale_batch sfd a b e f wr =
      [\<lparr>ev_fd = a, ev_accept = [], ev_ctl = Ok (), ev_read = Ok (city_message CHR ''p'' 1), ev_write = wr\<rparr>,
       \<lparr>ev_fd = b, ev_accept = [], ev_ctl = Ok (), ev_read = Fail EBADF, ev_write = wr\<rparr>,
       \<lparr>ev_fd = sfd, ev_accept = [Ok e], ev_ctl = Ok (), ev_read = Fail EBADF, ev_write = wr\<rparr>,
       \<lparr>ev_fd = sfd, ev_accept = [Ok f], ev_ctl = Ok (), ev_read = Fail EBADF, ev_write = wr\<rparr>]"

text \<open>
  An event left over in the batch for a client that was removed while another client's message
  was relayed (its \<^verbatim>\<open>write\<close> failed with \<open>EPIPE\<close>) is counted down a second time.
  With four clients connected, one such batch is followed by the admission of two newcomers: five
  clients are then watched, and the last one has no place in the table, so it never receives a
  relayed message.
\<close>

theorem poslancy_stale_event:
  assumes "distinct [sfd, a, b, c, d, e, f]" and "\<forall>fd \<in> {a, b, c, d, e, f}. 0 \<le> fd"
    and "clients s = [a, b, c, d]" and "current_clients s = 4"
    and "owner (cities s ! 0) = CHR ''g''"
    and "wr 1 = Fail EPIPE" and "wr 2 = Ok 4" and "wr 3 = Ok 4"
  shows "\<exists>es t. handle_events sfd s (stale_batch sfd a b e f wr) = (es, Inr t)
    \<and> clients t = [a, e, c, d] \<and> current_clients t = 4
    \<and> Watch e \<in> set es \<and> Watch f \<in> set es \<and> CloseFd f \<notin> set es"
proof -
  have m: "is_valid (city_message CHR ''p'' 1)" "city_index (city_message CHR ''p'' 1) = 1"
    "length (city_message CHR ''p'' 1) = 4" "city_message CHR ''p'' 1 ! 0 = CHR ''p''"
    using city_message_valid [of 1 "CHR ''p''"] by (simp_all add: city_message_def)
  have ne: "a \<noteq> - 1" "b \<noteq> - 1" "c \<noteq> - 1" "d \<noteq> - 1" "e \<noteq> - 1" "f \<noteq> - 1"
    "b \<noteq> a" "c \<noteq> a" "d \<noteq> a" "c \<noteq> b" "d \<noteq> b" "e \<noteq> a" "e \<noteq> b" "a \<noteq> sfd" "b \<noteq> sfd" "c \<noteq> d" "e \<noteq> sfd"
    "f \<noteq> e" "f \<noteq> a" "f \<noteq> b" "f \<noteq> c" "f \<noteq> d"
    using assms(1,2) by auto
  have b4: "[0..<MAX_CLIENTS] = [0, 1, 2, 3]" by (simp add: upt_conv_Cons)
  show ?thesis
    using assms m ne
    by (simp add: stale_batch_def handle_event_def client_ready_def full_message_def Let_def b4 remove_client_def
        release_slot_def claim_slot_def new_client_def add_new_client_def set_owner_def)
qed

theorem poslancy_stale_event_witness:
  "\<exists>es t. handle_events 3 (init_state\<lparr>clients := [4, 5, 6, 7], current_clients := 4\<rparr>)
       (stale_batch 3 4 5 8 9 (\<lambda>k. if k = 1 then Fail EPIPE else Ok 4)) = (es, Inr t)
     \<and> clients t = [4, 8, 6, 7] \<and> Watch 9 \<in> set es"
proof -
  have "owner (cities (init_state\<lparr>clients := [4, 5, 6, 7], current_clients := 4\<rparr>) ! 0) = CHR ''g''"
    by (simp add: init_state_def)
  from poslancy_stale_event [where sfd = 3 and a = 4 and b = 5 and c = 6 and d = 7 and e = 8 and f = 9
      and wr = "\<lambda>k. if k = 1 then Fail EPIPE else Ok 4", OF _ _ _ _ this]
  show ?thesis by auto
qed

end
