(* ===== verification/Mutex.thy ===== *)
theory Mutex
  imports Prelude
begin

text \<open>
  Process-shared robust mutexes, as labs 06 use them: a mutex whose owner died is handed to the
  next process with \<open>EOWNERDEAD\<close> and must be made consistent before it is unlocked, or it
  becomes unusable.  A program is described by its \<open>view\<close>: which mutexes each process holds at
  its current position, and whether it still has to repair them.
\<close>

section \<open>The operations\<close>

datatype mutex = Unlocked | Locked nat | OwnerDied | Recovering nat | NotRecoverable

datatype lock_result = Blocks | Acquired mutex | AcquiredDead mutex | LockFailed

definition mx_lock :: "nat \<Rightarrow> mutex \<Rightarrow> lock_result" where
  "mx_lock p m =
     (case m of
        Unlocked \<Rightarrow> Acquired (Locked p)
      | OwnerDied \<Rightarrow> AcquiredDead (Recovering p)
      | Locked _ \<Rightarrow> Blocks
      | Recovering _ \<Rightarrow> Blocks
      | NotRecoverable \<Rightarrow> LockFailed)"

definition mx_unlock :: "nat \<Rightarrow> mutex \<Rightarrow> mutex" where
  "mx_unlock p m =
     (if m = Locked p then Unlocked else if m = Recovering p then NotRecoverable else m)"

definition mx_consistent :: "nat \<Rightarrow> mutex \<Rightarrow> mutex" where
  "mx_consistent p m = (if m = Recovering p then Locked p else m)"

definition mx_die :: "nat \<Rightarrow> mutex \<Rightarrow> mutex" where
  "mx_die p m = (if m = Locked p \<or> m = Recovering p then OwnerDied else m)"

section \<open>Views\<close>

text \<open>
  \<open>view q m = Some b\<close>: process \<open>q\<close> holds mutex \<open>m\<close>, and \<open>b\<close> tells that it got it from a dead
  owner and has not repaired it yet.
\<close>

type_synonym 'm view = "nat \<Rightarrow> 'm \<Rightarrow> bool option"

definition shape :: "nat \<Rightarrow> bool \<Rightarrow> mutex" where
  "shape q b = (if b then Recovering q else Locked q)"

definition agrees :: "('m \<Rightarrow> mutex) \<Rightarrow> 'm view \<Rightarrow> bool" where
  "agrees mt view \<longleftrightarrow>
     (\<forall>q m b. view q m = Some b \<longleftrightarrow> mt m = shape q b) \<and> (\<forall>m. mt m \<noteq> NotRecoverable)"

lemma shape_eq_iff [simp]: "shape q b = shape q' b' \<longleftrightarrow> q = q' \<and> b = b'"
  by (auto simp: shape_def)

lemma shape_simps [simp]:
  "shape q b \<noteq> Unlocked" "shape q b \<noteq> OwnerDied" "shape q b \<noteq> NotRecoverable"
  "Locked q = shape q' b \<longleftrightarrow> q = q' \<and> \<not> b" "Recovering q = shape q' b \<longleftrightarrow> q = q' \<and> b"
  "Unlocked \<noteq> shape q b" "OwnerDied \<noteq> shape q b" "NotRecoverable \<noteq> shape q b"
  by (auto simp: shape_def)

lemma agrees_viewD: "agrees mt view \<Longrightarrow> view q m = Some b \<Longrightarrow> mt m = shape q b"
  by (simp add: agrees_def)

lemma agrees_view_None: "agrees mt view \<Longrightarrow> view q m = None \<Longrightarrow> mt m \<noteq> shape q b"
  unfolding agrees_def by (metis option.distinct(1))

lemma agrees_exclusive:
  "agrees mt view \<Longrightarrow> view q m = Some b \<Longrightarrow> view q' m = Some b' \<Longrightarrow> q = q' \<and> b = b'"
  using agrees_viewD by (metis shape_eq_iff)

lemma agrees_lock:
  assumes "agrees mt view" and "mx_lock q (mt m) = Acquired m'"
  shows "agrees (mt(m := m')) (view(q := (view q)(m \<mapsto> False)))" and "mt m = Unlocked" and "m' = Locked q"
proof -
  from assms(2) show u: "mt m = Unlocked" "m' = Locked q"
    by (simp_all add: mx_lock_def split: mutex.splits)
  then have "view q' m = None" for q'
    using assms(1) by (cases "view q' m") (auto simp: agrees_def)
  with assms(1) u show "agrees (mt(m := m')) (view(q := (view q)(m \<mapsto> False)))"
    by (auto simp: agrees_def)
qed

lemma agrees_lock_dead:
  assumes "agrees mt view" and "mx_lock q (mt m) = AcquiredDead m'"
  shows "agrees (mt(m := m')) (view(q := (view q)(m \<mapsto> True)))" and "mt m = OwnerDied" and "m' = Recovering q"
proof -
  from assms(2) show u: "mt m = OwnerDied" "m' = Recovering q"
    by (simp_all add: mx_lock_def split: mutex.splits)
  then have "view q' m = None" for q'
    using assms(1) by (cases "view q' m") (auto simp: agrees_def)
  with assms(1) u show "agrees (mt(m := m')) (view(q := (view q)(m \<mapsto> True)))"
    by (auto simp: agrees_def)
qed

lemma agrees_never_fails: "agrees mt view \<Longrightarrow> mx_lock q (mt m) \<noteq> LockFailed"
  by (auto simp: agrees_def mx_lock_def split: mutex.splits)

lemma agrees_blocks:
  "agrees mt view \<Longrightarrow> mx_lock q (mt m) = Blocks \<Longrightarrow> \<exists>q' b. view q' m = Some b"
  by (auto simp: agrees_def mx_lock_def split: mutex.splits)

lemma agrees_unheld:
  assumes "agrees mt view" and "\<And>q. view q m = None"
  shows "mt m = Unlocked \<or> mt m = OwnerDied"
proof (cases "mt m")
  case (Locked q)
  then show ?thesis using agrees_view_None [OF assms(1) assms(2), of q False] by (simp add: shape_def)
next
  case (Recovering q)
  then show ?thesis using agrees_view_None [OF assms(1) assms(2), of q True] by (simp add: shape_def)
qed (use assms(1) in \<open>simp_all add: agrees_def\<close>)

lemma agrees_consistent:
  assumes "agrees mt view" and "view q m = Some True"
  shows "agrees (mt(m := mx_consistent q (mt m))) (view(q := (view q)(m \<mapsto> False)))"
    and "mx_consistent q (mt m) = Locked q"
proof -
  from assms have r: "mt m = Recovering q" by (auto simp: agrees_def shape_def)
  then show "mx_consistent q (mt m) = Locked q" by (simp add: mx_consistent_def)
  have "view q' m = (if q' = q then Some True else None)" for q'
    using assms r agrees_viewD [OF assms(1), of q' m] by (cases "view q' m") (auto dest: sym)
  with assms(1) r show "agrees (mt(m := mx_consistent q (mt m))) (view(q := (view q)(m \<mapsto> False)))"
    by (auto simp: agrees_def mx_consistent_def)
qed

lemma agrees_unlock:
  assumes "agrees mt view" and "view q m = Some False"
  shows "agrees (mt(m := mx_unlock q (mt m))) (view(q := (view q)(m := None)))"
    and "mx_unlock q (mt m) = Unlocked"
proof -
  from assms have r: "mt m = Locked q" by (auto simp: agrees_def shape_def)
  then show "mx_unlock q (mt m) = Unlocked" by (simp add: mx_unlock_def)
  have "view q' m = (if q' = q then Some False else None)" for q'
    using assms r agrees_viewD [OF assms(1), of q' m] by (cases "view q' m") (auto dest: sym)
  with assms(1) r show "agrees (mt(m := mx_unlock q (mt m))) (view(q := (view q)(m := None)))"
    by (auto simp: agrees_def mx_unlock_def)
qed

lemma agrees_die:
  assumes "agrees mt view"
  shows "agrees (\<lambda>m. mx_die q (mt m)) (view(q := \<lambda>_. None))"
proof -
  have "mx_die q (mt m) = shape q' b \<longleftrightarrow> q' \<noteq> q \<and> mt m = shape q' b" for m q' b
    by (auto simp: mx_die_def shape_def)
  moreover have "mx_die q (mt m) \<noteq> NotRecoverable" for m
    using assms by (simp add: mx_die_def agrees_def)
  ultimately show ?thesis
    using assms by (auto simp: agrees_def)
qed

text \<open>
  Deadlock freedom from a lock order.  \<open>waits q = Some m\<close>: the next step of \<open>q\<close> locks \<open>m\<close>;
  \<open>rank\<close> orders the mutexes, and every process waits only for a mutex above all it holds.
\<close>

locale lock_order =
  fixes waits :: "nat \<Rightarrow> 'm option"
    and holds :: "nat \<Rightarrow> 'm \<Rightarrow> bool"
    and rank :: "'m \<Rightarrow> nat"
    and procs :: "nat set"
  assumes fin: "finite procs"
    and ordered: "waits q = Some m \<Longrightarrow> holds q m' \<Longrightarrow> rank m' < rank m"
    and holders: "holds q m \<Longrightarrow> q \<in> procs"
begin

text \<open>Somebody who holds a mutex, or nobody needs one: not everyone can be blocked.\<close>

lemma not_all_blocked:
  assumes "procs \<noteq> {}"
  shows "\<exists>q \<in> procs. \<forall>m. waits q = Some m \<longrightarrow> \<not> (\<exists>q'. holds q' m)"
proof (rule ccontr)
  assume "\<not> ?thesis"
  then have blocked: "\<forall>q \<in> procs. \<exists>m q'. waits q = Some m \<and> holds q' m" by blast
  define f where "f q = rank (the (waits q))" for q
  have "Max (f ` procs) \<in> f ` procs" using fin assms by simp
  then obtain q where q: "q \<in> procs" and mx: "f q = Max (f ` procs)" by auto
  have top: "\<forall>q' \<in> procs. f q' \<le> f q" unfolding mx using fin by simp
  from blocked q obtain m q' where m: "waits q = Some m" "holds q' m" by blast
  from holders [OF m(2)] blocked obtain m' where m': "waits q' = Some m'" by blast
  from ordered [OF m' m(2)] have "f q < f q'" using m m' by (simp add: f_def)
  with top holders [OF m(2)] show False by (simp add: leD)
qed

end

end
