(* ===== verification/Shop.thy ===== *)
theory Shop
  imports Mutex Ctext
begin

text \<open>
  The night shift of \<^verbatim>\<open>lab06/bitronka/sop-shop.c\<close>: worker processes sort the shelves
  of a shop in shared memory by swapping pairs of items, each shelf under its own robust mutex; a
  worker may die between locking and swapping.  A manager process locks all shelves to look at
  them, and ends the shift when they are sorted or everybody died.
\<close>

section \<open>State\<close>

datatype mid = Shelf nat | MxDead | MxSorted

text \<open>What a process does about a mutex of a dead owner: count the body, repair the mutex.\<close>

datatype dstage = DLock | DInc | DUnlock | DRepair

datatype wpc =
    WTop | WSortLock | WSortTest | WSortLeave | WSortUnlock
  | WPickX | WPickY nat
  | WLock bool nat nat | WDead bool nat nat dstage
  | WTest nat nat | WDraw nat nat | WWrite1 nat nat | WWrite2 nat nat nat
  | WUnlock2 nat nat | WUnlock1 nat nat
  | WExit | WDied

datatype mpc =
    MLock nat | MDead nat dstage | MCheck | MUnlock nat bool
  | MDLock bool | MReport bool | MDUnlock bool bool | MSetLock | MSet | MSetUnlock | MExit bool

datatype saying = Body nat nat | Alive int | AllDied | Trips nat | ShelvesSorted

record shop =
  log :: "nat list"
  mtx :: "mid \<Rightarrow> mutex"
  sorted_flag :: bool
  dead :: nat
  wpcs :: "nat \<Rightarrow> wpc"
  mgr :: mpc
  said :: "saying list"

section \<open>Setting up\<close>

fun shuffle_from :: "nat \<Rightarrow> 'a list \<Rightarrow> rng \<Rightarrow> 'a list \<times> rng" where
  "shuffle_from 0 a r = (a, r)"
| "shuffle_from (Suc i) a r =
     (let (v, r') = rand r in shuffle_from i (swap_at (Suc i) (v mod (Suc i + 1)) a) r')"

definition shuffle :: "'a list \<Rightarrow> nat \<Rightarrow> rng \<Rightarrow> 'a list \<times> rng" where
  "shuffle a n r = shuffle_from (n - 1) a r"

text \<open>
  \<^verbatim>\<open>main\<close> up to the creation of the processes; worker \<open>p\<close> has number \<open>p\<close> from 1 on,
  the manager number 0.
\<close>

definition shop_start :: "nat \<Rightarrow> rng \<Rightarrow> shop" where
  "shop_start N r =
     \<lparr>log = fst (shuffle [0..<N] N r), mtx = (\<lambda>_. Unlocked), sorted_flag = False, dead = 0,
      wpcs = (\<lambda>_. WTop), mgr = MLock 0, said = []\<rparr>"

definition shop_args :: "string list \<Rightarrow> (nat \<times> nat) run" where
  "shop_args argv =
     (if length argv \<noteq> 3 then Inl Usage
      else let N = atoi (argv ! 1); M = atoi (argv ! 2) in
        if N < 8 \<or> N > 256 \<or> M < 1 \<or> M > 64 then Inl Usage else Inr (nat N, nat M))"

section \<open>The processes\<close>

text \<open>
  One lock call.  \<open>None\<close> means that it blocks; otherwise the result tells whether it returned
  \<^verbatim>\<open>EOWNERDEAD\<close>, the only return value the program looks at.
\<close>

definition take_lock :: "nat \<Rightarrow> mid \<Rightarrow> shop \<Rightarrow> (bool \<times> shop) option" where
  "take_lock p m s =
     (case mx_lock p (mtx s m) of
        Blocks \<Rightarrow> None
      | Acquired x \<Rightarrow> Some (False, s\<lparr>mtx := (mtx s)(m := x)\<rparr>)
      | AcquiredDead x \<Rightarrow> Some (True, s\<lparr>mtx := (mtx s)(m := x)\<rparr>)
      | LockFailed \<Rightarrow> Some (False, s))"

definition drop_lock :: "nat \<Rightarrow> mid \<Rightarrow> shop \<Rightarrow> shop" where
  "drop_lock p m s = s\<lparr>mtx := (mtx s)(m := mx_unlock p (mtx s m))\<rparr>"

definition repair :: "nat \<Rightarrow> mid \<Rightarrow> shop \<Rightarrow> shop" where
  "repair p m s = s\<lparr>mtx := (mtx s)(m := mx_consistent p (mtx s m))\<rparr>"

definition at :: "nat \<Rightarrow> wpc \<Rightarrow> shop \<Rightarrow> shop" where
  "at p c s = s\<lparr>wpcs := (wpcs s)(p := c)\<rparr>"

definition mat :: "mpc \<Rightarrow> shop \<Rightarrow> shop" where
  "mat c s = s\<lparr>mgr := c\<rparr>"

definition say :: "saying \<Rightarrow> shop \<Rightarrow> shop" where
  "say x s = s\<lparr>said := said s @ [x]\<rparr>"

text \<open>\<^verbatim>\<open>first\<close> and \<^verbatim>\<open>second\<close>: the smaller and the larger index.\<close>

definition idx :: "bool \<Rightarrow> nat \<Rightarrow> nat \<Rightarrow> nat" where
  "idx second x y = (if second then max x y else min x y)"

definition after_lock :: "bool \<Rightarrow> nat \<Rightarrow> nat \<Rightarrow> wpc" where
  "after_lock second x y = (if second then WTest x y else WLock True x y)"

definition wrong_order :: "nat list \<Rightarrow> nat \<Rightarrow> nat \<Rightarrow> bool" where
  "wrong_order l x y \<longleftrightarrow> x < y \<and> l ! x > l ! y \<or> y < x \<and> l ! x < l ! y"

text \<open>
  One step of worker \<open>p\<close>; \<open>v\<close> is the value of \<^verbatim>\<open>rand()\<close> for the steps that draw one.
  The two assignments of \<^verbatim>\<open>SWAP\<close> to shared memory are separate steps.
\<close>

fun worker_step :: "nat \<Rightarrow> nat \<Rightarrow> nat \<Rightarrow> shop \<Rightarrow> shop option" where
  "worker_step N p v s =
     (case wpcs s p of
        WTop \<Rightarrow> Some (at p (if sorted_flag s then WExit else WSortLock) s)
      | WSortLock \<Rightarrow> map_option (\<lambda>(_, t). at p WSortTest t) (take_lock p MxSorted s)
      | WSortTest \<Rightarrow> Some (at p (if sorted_flag s then WSortLeave else WSortUnlock) s)
      | WSortLeave \<Rightarrow> Some (at p WExit (drop_lock p MxSorted s))
      | WSortUnlock \<Rightarrow> Some (at p WPickX (drop_lock p MxSorted s))
      | WPickX \<Rightarrow> Some (at p (WPickY (v mod N)) s)
      | WPickY x \<Rightarrow> Some (at p (if v mod N = x then WPickY x else WLock False x (v mod N)) s)
      | WLock b x y \<Rightarrow>
          map_option (\<lambda>(ownerdead, t).
              if ownerdead then at p (WDead b x y DLock) (say (Body p (idx b x y)) t)
              else at p (after_lock b x y) t)
            (take_lock p (Shelf (idx b x y)) s)
      | WDead b x y DLock \<Rightarrow> map_option (\<lambda>(_, t). at p (WDead b x y DInc) t) (take_lock p MxDead s)
      | WDead b x y DInc \<Rightarrow> Some (at p (WDead b x y DUnlock) (s\<lparr>dead := dead s + 1\<rparr>))
      | WDead b x y DUnlock \<Rightarrow> Some (at p (WDead b x y DRepair) (drop_lock p MxDead s))
      | WDead b x y DRepair \<Rightarrow> Some (at p (after_lock b x y) (repair p (Shelf (idx b x y)) s))
      | WTest x y \<Rightarrow> Some (at p (if wrong_order (log s) x y then WDraw x y else WUnlock2 x y) s)
      | WDraw x y \<Rightarrow>
          Some (if v mod 100 = 0
                then at p WDied (say (Trips p) (s\<lparr>mtx := (\<lambda>m. mx_die p (mtx s m))\<rparr>))
                else at p (WWrite1 x y) s)
      | WWrite1 x y \<Rightarrow> Some (at p (WWrite2 x y (log s ! x)) (s\<lparr>log := (log s)[x := log s ! y]\<rparr>))
      | WWrite2 x y u \<Rightarrow> Some (at p (WUnlock2 x y) (s\<lparr>log := (log s)[y := u]\<rparr>))
      | WUnlock2 x y \<Rightarrow> Some (at p (WUnlock1 x y) (drop_lock p (Shelf (max x y)) s))
      | WUnlock1 x y \<Rightarrow> Some (at p WTop (drop_lock p (Shelf (min x y)) s))
      | WExit \<Rightarrow> None
      | WDied \<Rightarrow> None)"

text \<open>
  One step of the manager, who has number 0.  The flag carried from \<open>MUnlock\<close> on is the local
  variable \<^verbatim>\<open>sorted\<close>; \<open>MExit True\<close> is the exit after the announcement.
\<close>

definition next_shelf :: "nat \<Rightarrow> nat \<Rightarrow> mpc" where
  "next_shelf N i = (if i + 1 < N then MLock (i + 1) else MCheck)"

fun manager_step :: "nat \<Rightarrow> nat \<Rightarrow> shop \<Rightarrow> shop option" where
  "manager_step N M s =
     (case mgr s of
        MLock i \<Rightarrow>
          map_option (\<lambda>(ownerdead, t).
              if ownerdead then mat (MDead i DLock) (say (Body 0 i) t) else mat (next_shelf N i) t)
            (take_lock 0 (Shelf i) s)
      | MDead i DLock \<Rightarrow> map_option (\<lambda>(_, t). mat (MDead i DInc) t) (take_lock 0 MxDead s)
      | MDead i DInc \<Rightarrow> Some (mat (MDead i DUnlock) (s\<lparr>dead := dead s + 1\<rparr>))
      | MDead i DUnlock \<Rightarrow> Some (mat (MDead i DRepair) (drop_lock 0 MxDead s))
      | MDead i DRepair \<Rightarrow> Some (mat (next_shelf N i) (repair 0 (Shelf i) s))
      | MCheck \<Rightarrow> Some (mat (MUnlock 0 (\<forall>i \<in> set [0..<N]. log s ! i = i)) s)
      | MUnlock i srt \<Rightarrow>
          Some (mat (if i + 1 < N then MUnlock (i + 1) srt else MDLock srt) (drop_lock 0 (Shelf i) s))
      | MDLock srt \<Rightarrow> map_option (\<lambda>(_, t). mat (MReport srt) t) (take_lock 0 MxDead s)
      | MReport srt \<Rightarrow>
          (let t = say (Alive (int M - int (dead s div 2))) s in
           Some (if dead s div 2 = M then mat (MDUnlock srt True) (say AllDied t)
                 else mat (MDUnlock srt False) t))
      | MDUnlock srt leave \<Rightarrow>
          Some (let t = drop_lock 0 MxDead s in
                if leave then mat (MExit False) t
                else if srt then mat MSetLock (say ShelvesSorted t) else mat (MLock 0) t)
      | MSetLock \<Rightarrow> map_option (\<lambda>(_, t). mat MSet t) (take_lock 0 MxSorted s)
      | MSet \<Rightarrow> Some (mat MSetUnlock (s\<lparr>sorted_flag := True\<rparr>))
      | MSetUnlock \<Rightarrow> Some (mat (MExit True) (drop_lock 0 MxSorted s))
      | MExit _ \<Rightarrow> None)"

inductive shop_step :: "nat \<Rightarrow> nat \<Rightarrow> shop \<Rightarrow> shop \<Rightarrow> bool" for N M :: nat where
  worker: "1 \<le> p \<Longrightarrow> p \<le> M \<Longrightarrow> worker_step N p v s = Some t \<Longrightarrow> shop_step N M s t"
| manager: "manager_step N M s = Some t \<Longrightarrow> shop_step N M s t"

definition shop_init :: "nat \<Rightarrow> shop \<Rightarrow> bool" where
  "shop_init N s \<longleftrightarrow> (\<exists>r. s = shop_start N r)"

section \<open>The shuffle\<close>

lemma mset_shuffle_from: "i < length a \<Longrightarrow> mset (fst (shuffle_from i a r)) = mset a"
proof (induction i arbitrary: a r)
  case 0
  then show ?case by simp
next
  case (Suc i)
  then have "unat (r 0) mod (Suc i + 1) < length a"
    by (metis Suc_eq_plus1 Suc_lessI mod_less_divisor not_less_eq zero_less_Suc less_trans_Suc)
  with Suc show ?case by (simp add: split_def)
qed

lemma mset_shuffle: "length a = n \<Longrightarrow> mset (fst (shuffle a n r)) = mset a"
  by (cases n) (simp_all add: shuffle_def mset_shuffle_from)

section \<open>Who holds which mutex\<close>

fun wview :: "wpc \<Rightarrow> mid \<Rightarrow> bool option" where
  "wview (WLock b x y) = (if b then [Shelf (min x y) \<mapsto> False] else Map.empty)"
| "wview (WDead b x y d) =
     (\<lambda>m. if m = Shelf (idx b x y) then Some True
          else if b \<and> m = Shelf (min x y) then Some False
          else if m = MxDead \<and> (d = DInc \<or> d = DUnlock) then Some False else None)"
| "wview (WTest x y) = [Shelf (min x y) \<mapsto> False, Shelf (max x y) \<mapsto> False]"
| "wview (WDraw x y) = [Shelf (min x y) \<mapsto> False, Shelf (max x y) \<mapsto> False]"
| "wview (WWrite1 x y) = [Shelf (min x y) \<mapsto> False, Shelf (max x y) \<mapsto> False]"
| "wview (WWrite2 x y u) = [Shelf (min x y) \<mapsto> False, Shelf (max x y) \<mapsto> False]"
| "wview (WUnlock2 x y) = [Shelf (min x y) \<mapsto> False, Shelf (max x y) \<mapsto> False]"
| "wview (WUnlock1 x y) = [Shelf (min x y) \<mapsto> False]"
| "wview WSortTest = [MxSorted \<mapsto> False]"
| "wview WSortLeave = [MxSorted \<mapsto> False]"
| "wview WSortUnlock = [MxSorted \<mapsto> False]"
| "wview _ = Map.empty"

definition shelves :: "nat set \<Rightarrow> mid \<Rightarrow> bool option" where
  "shelves A m = (case m of Shelf j \<Rightarrow> if j \<in> A then Some False else None | _ \<Rightarrow> None)"

fun mview :: "nat \<Rightarrow> mpc \<Rightarrow> mid \<Rightarrow> bool option" where
  "mview N (MLock i) = shelves {..<i}"
| "mview N (MDead i d) =
     (\<lambda>m. if m = Shelf i then Some True
          else if m = MxDead \<and> (d = DInc \<or> d = DUnlock) then Some False else shelves {..<i} m)"
| "mview N MCheck = shelves {..<N}"
| "mview N (MUnlock i _) = shelves {i..<N}"
| "mview N (MReport _) = [MxDead \<mapsto> False]"
| "mview N (MDUnlock _ _) = [MxDead \<mapsto> False]"
| "mview N MSet = [MxSorted \<mapsto> False]"
| "mview N MSetUnlock = [MxSorted \<mapsto> False]"
| "mview N _ = Map.empty"

definition view :: "nat \<Rightarrow> shop \<Rightarrow> mid view" where
  "view N s q = (if q = 0 then mview N (mgr s) else wview (wpcs s q))"

fun wf_w :: "nat \<Rightarrow> wpc \<Rightarrow> bool" where
  "wf_w N (WPickY x) = (x < N)"
| "wf_w N (WLock _ x y) = (x < N \<and> y < N \<and> x \<noteq> y)"
| "wf_w N (WDead _ x y _) = (x < N \<and> y < N \<and> x \<noteq> y)"
| "wf_w N (WTest x y) = (x < N \<and> y < N \<and> x \<noteq> y)"
| "wf_w N (WDraw x y) = (x < N \<and> y < N \<and> x \<noteq> y)"
| "wf_w N (WWrite1 x y) = (x < N \<and> y < N \<and> x \<noteq> y)"
| "wf_w N (WWrite2 x y _) = (x < N \<and> y < N \<and> x \<noteq> y)"
| "wf_w N (WUnlock2 x y) = (x < N \<and> y < N \<and> x \<noteq> y)"
| "wf_w N (WUnlock1 x y) = (x < N \<and> y < N \<and> x \<noteq> y)"
| "wf_w N _ = True"

fun wf_m :: "nat \<Rightarrow> mpc \<Rightarrow> bool" where
  "wf_m N (MLock i) = (i < N)"
| "wf_m N (MDead i _) = (i < N)"
| "wf_m N (MUnlock i _) = (i < N)"
| "wf_m N _ = True"

definition mutex_inv :: "nat \<Rightarrow> shop \<Rightarrow> bool" where
  "mutex_inv N s \<longleftrightarrow>
     agrees (mtx s) (view N s) \<and> mtx s MxDead \<noteq> OwnerDied \<and> mtx s MxSorted \<noteq> OwnerDied \<and>
     (\<forall>p. wf_w N (wpcs s p)) \<and> wf_m N (mgr s)"

text \<open>How the small operations act on the view.\<close>

lemma view_at [simp]: "p \<noteq> 0 \<Longrightarrow> view N (at p c s) = (view N s)(p := wview c)"
  by (auto simp: view_def at_def fun_eq_iff)

lemma view_mat [simp]: "view N (mat c s) = (view N s)(0 := mview N c)"
  by (auto simp: view_def mat_def fun_eq_iff)

lemma view_sel: "p \<noteq> 0 \<Longrightarrow> view N s p = wview (wpcs s p)" "view N s 0 = mview N (mgr s)"
  by (simp_all add: view_def)

lemma view_update [simp]:
  "view N (s\<lparr>mtx := a\<rparr>) = view N s" "view N (s\<lparr>log := b\<rparr>) = view N s"
  "view N (s\<lparr>dead := c\<rparr>) = view N s" "view N (s\<lparr>sorted_flag := d\<rparr>) = view N s"
  "view N (say x s) = view N s"
  by (simp_all add: view_def say_def fun_eq_iff)

lemma at_sel [simp]:
  "mtx (at p c s) = mtx s" "log (at p c s) = log s" "dead (at p c s) = dead s"
  "sorted_flag (at p c s) = sorted_flag s" "mgr (at p c s) = mgr s" "said (at p c s) = said s"
  "wpcs (at p c s) = (wpcs s)(p := c)"
  by (simp_all add: at_def)

lemma mat_sel [simp]:
  "mtx (mat c s) = mtx s" "log (mat c s) = log s" "dead (mat c s) = dead s"
  "sorted_flag (mat c s) = sorted_flag s" "mgr (mat c s) = c" "said (mat c s) = said s"
  "wpcs (mat c s) = wpcs s"
  by (simp_all add: mat_def)

lemma say_sel [simp]:
  "mtx (say x s) = mtx s" "log (say x s) = log s" "dead (say x s) = dead s"
  "sorted_flag (say x s) = sorted_flag s" "mgr (say x s) = mgr s" "said (say x s) = said s @ [x]"
  "wpcs (say x s) = wpcs s"
  by (simp_all add: say_def)

lemma take_lock_Some:
  assumes "agrees (mtx s) (view N s)" and "take_lock p m s = Some (d, t)"
  shows "t = s\<lparr>mtx := (mtx s)(m := shape p d)\<rparr>" and "mtx s m = (if d then OwnerDied else Unlocked)"
    and "agrees (mtx t) ((view N s)(p := (view N s p)(m \<mapsto> d)))"
  using assms agrees_lock [OF assms(1), of p m] agrees_lock_dead [OF assms(1), of p m]
    agrees_never_fails [OF assms(1), of p m]
  by (auto simp: take_lock_def shape_def split: lock_result.splits)

lemma drop_lock_agrees:
  assumes "agrees (mtx s) (view N s)" and "view N s p m = Some False"
  shows "drop_lock p m s = s\<lparr>mtx := (mtx s)(m := Unlocked)\<rparr>"
    and "agrees ((mtx s)(m := Unlocked)) ((view N s)(p := (view N s p)(m := None)))"
  using agrees_unlock [OF assms] by (simp_all add: drop_lock_def)

lemma repair_agrees:
  assumes "agrees (mtx s) (view N s)" and "view N s p m = Some True"
  shows "repair p m s = s\<lparr>mtx := (mtx s)(m := Locked p)\<rparr>"
    and "agrees ((mtx s)(m := Locked p)) ((view N s)(p := (view N s p)(m \<mapsto> False)))"
  using agrees_consistent [OF assms] by (simp_all add: repair_def)

text \<open>One step of a process: its position and at most one mutex change.\<close>

lemma mutex_inv_at:
  assumes "mutex_inv N s" and "p \<noteq> 0" and "wf_w N c"
    and "wpcs s' = wpcs s" and "mgr s' = mgr s"
    and "agrees (mtx s') ((view N s)(p := wview c))"
    and "mtx s' MxDead \<noteq> OwnerDied" and "mtx s' MxSorted \<noteq> OwnerDied"
  shows "mutex_inv N (at p c s')"
proof -
  have "view N s' = view N s" using assms(4,5) by (simp add: view_def fun_eq_iff)
  with assms show ?thesis by (simp add: mutex_inv_def)
qed

lemma mutex_inv_mat:
  assumes "mutex_inv N s" and "wf_m N c" and "wpcs s' = wpcs s"
    and "agrees (mtx s') ((view N s)(0 := mview N c))"
    and "mtx s' MxDead \<noteq> OwnerDied" and "mtx s' MxSorted \<noteq> OwnerDied"
  shows "mutex_inv N (mat c s')"
proof -
  have "(view N s')(0 := mview N c) = (view N s)(0 := mview N c)"
    using assms(3) by (simp add: view_def fun_eq_iff)
  with assms show ?thesis by (simp add: mutex_inv_def)
qed

text \<open>The same step forms for locks, unlocks, repairs and steps without a mutex.\<close>

lemma at_lock:
  assumes "mutex_inv N s" and "p \<noteq> 0" and "take_lock p m s = Some (d, t)"
    and "wview c = (wview (wpcs s p))(m \<mapsto> d)" and "wf_w N c"
  shows "mutex_inv N (at p c t)" and "t = s\<lparr>mtx := (mtx s)(m := shape p d)\<rparr>"
    and "mtx s m = (if d then OwnerDied else Unlocked)"
proof -
  from assms(1) have a: "agrees (mtx s) (view N s)" "mtx s MxDead \<noteq> OwnerDied" "mtx s MxSorted \<noteq> OwnerDied"
    by (simp_all add: mutex_inv_def)
  note t = take_lock_Some [OF a(1) assms(3)]
  from t(1,2) show "t = s\<lparr>mtx := (mtx s)(m := shape p d)\<rparr>" "mtx s m = (if d then OwnerDied else Unlocked)"
    by simp_all
  show "mutex_inv N (at p c t)"
    by (rule mutex_inv_at [OF assms(1,2,5)]) (use t a assms(2,4) in \<open>simp_all add: view_sel\<close>)
qed

lemma at_unlock:
  assumes "mutex_inv N s" and "p \<noteq> 0" and "wview (wpcs s p) m = Some False"
    and "wview c = (wview (wpcs s p))(m := None)" and "wf_w N c"
  shows "mutex_inv N (at p c (drop_lock p m s))" and "drop_lock p m s = s\<lparr>mtx := (mtx s)(m := Unlocked)\<rparr>"
proof -
  from assms(1) have a: "agrees (mtx s) (view N s)" "mtx s MxDead \<noteq> OwnerDied" "mtx s MxSorted \<noteq> OwnerDied"
    by (simp_all add: mutex_inv_def)
  note d = drop_lock_agrees [OF a(1), of p m]
  show t: "drop_lock p m s = s\<lparr>mtx := (mtx s)(m := Unlocked)\<rparr>"
    using d(1) assms(2,3) by (simp add: view_sel)
  show "mutex_inv N (at p c (drop_lock p m s))"
    unfolding t
    by (rule mutex_inv_at [OF assms(1,2,5)]) (use d(2) a assms(2-4) in \<open>simp_all add: view_sel\<close>)
qed

lemma at_repair:
  assumes "mutex_inv N s" and "p \<noteq> 0" and "wview (wpcs s p) (Shelf i) = Some True"
    and "wview c = (wview (wpcs s p))(Shelf i \<mapsto> False)" and "wf_w N c"
  shows "mutex_inv N (at p c (repair p (Shelf i) s))"
    and "repair p (Shelf i) s = s\<lparr>mtx := (mtx s)(Shelf i := Locked p)\<rparr>"
proof -
  from assms(1) have a: "agrees (mtx s) (view N s)" "mtx s MxDead \<noteq> OwnerDied" "mtx s MxSorted \<noteq> OwnerDied"
    by (simp_all add: mutex_inv_def)
  note d = repair_agrees [OF a(1), of p "Shelf i"]
  show t: "repair p (Shelf i) s = s\<lparr>mtx := (mtx s)(Shelf i := Locked p)\<rparr>"
    using d(1) assms(2,3) by (simp add: view_sel)
  show "mutex_inv N (at p c (repair p (Shelf i) s))"
    unfolding t
    by (rule mutex_inv_at [OF assms(1,2,5)]) (use d(2) a assms(2-4) in \<open>simp_all add: view_sel\<close>)
qed

lemma at_move:
  assumes "mutex_inv N s" and "p \<noteq> 0" and "wview c = wview (wpcs s p)" and "wf_w N c"
    and "mtx s' = mtx s" and "wpcs s' = wpcs s" and "mgr s' = mgr s"
  shows "mutex_inv N (at p c s')"
proof (rule mutex_inv_at [OF assms(1,2,4,6,7)])
  have "(view N s)(p := wview c) = view N s" using assms(2,3) by (simp add: view_sel fun_upd_idem)
  then show "agrees (mtx s') ((view N s)(p := wview c))"
    using assms(1,5) by (simp add: mutex_inv_def)
qed (use assms(1,5) in \<open>simp_all add: mutex_inv_def\<close>)

lemma say_at: "at p c (say x s) = say x (at p c s)" "mat d (say x s) = say x (mat d s)"
  by (simp_all add: at_def mat_def say_def)

lemma mutex_inv_say [simp]: "mutex_inv N (say x s) = mutex_inv N s"
  by (simp add: mutex_inv_def)

lemma idx_less: "x < N \<Longrightarrow> y < N \<Longrightarrow> idx b x y < N"
  by (simp add: idx_def min_def)

lemma wview_after_lock:
  "x \<noteq> y \<Longrightarrow> wview (after_lock b x y) = (wview (WLock b x y))(Shelf (idx b x y) \<mapsto> False)"
  "x \<noteq> y \<Longrightarrow> wview (after_lock b x y) = (wview (WDead b x y DRepair))(Shelf (idx b x y) \<mapsto> False)"
  "x \<noteq> y \<Longrightarrow> wview (WDead b x y DLock) = (wview (WLock b x y))(Shelf (idx b x y) \<mapsto> True)"
  by (auto simp: after_lock_def idx_def fun_eq_iff)

lemma wview_moves:
  "wview (WDead b x y DInc) = (wview (WDead b x y DLock))(MxDead \<mapsto> False)"
  "wview (WDead b x y DRepair) = (wview (WDead b x y DUnlock))(MxDead := None)"
  "x \<noteq> y \<Longrightarrow> wview (WUnlock1 x y) = (wview (WUnlock2 x y))(Shelf (max x y) := None)"
  "wview WTop = (wview (WUnlock1 x y))(Shelf (min x y) := None)"
  by (auto simp: fun_eq_iff max_def min_def)

lemma worker_mutex_inv:
  assumes inv: "mutex_inv N s" and p: "p \<noteq> 0" and N: "0 < N" and step: "worker_step N p v s = Some t"
  shows "mutex_inv N t"
proof -
  from inv have wf: "wf_w N (wpcs s p)" by (simp add: mutex_inv_def)
  note L = at_lock(1) [OF inv p] and U = at_unlock(1) [OF inv p] and R = at_repair(1) [OF inv p]
    and K = at_move [OF inv p]
  show ?thesis
  proof (cases "wpcs s p")
    case (WLock b x y)
    with step obtain d u where d: "take_lock p (Shelf (idx b x y)) s = Some (d, u)"
      and t: "t = (if d then say (Body p (idx b x y)) (at p (WDead b x y DLock) u)
                   else at p (after_lock b x y) u)"
      by (auto simp: say_at)
    from WLock wf have xy: "x \<noteq> y" "x < N" "y < N" by simp_all
    have "wf_w N (after_lock b x y)" using xy by (simp add: after_lock_def)
    with L [OF d, of "if d then WDead b x y DLock else after_lock b x y"] xy t WLock
      wview_after_lock [OF xy(1), of b] show ?thesis
      by (cases d) simp_all
  next
    case (WDead b x y d)
    with wf have xy: "x \<noteq> y" "x < N" "y < N" by simp_all
    show ?thesis
    proof (cases d)
      case DLock
      with step WDead obtain e u where d: "take_lock p MxDead s = Some (e, u)"
        and t: "t = at p (WDead b x y DInc) u" by auto
      have "\<not> e" using take_lock_Some(2) [OF _ d, of N] inv by (auto simp: mutex_inv_def)
      with L [OF d, of "WDead b x y DInc"] t WDead DLock xy wview_moves(1) [of b x y] show ?thesis by simp
    next
      case DInc
      with step WDead have t: "t = at p (WDead b x y DUnlock) (s\<lparr>dead := dead s + 1\<rparr>)" by simp
      show ?thesis unfolding t by (rule K) (use DInc WDead xy in auto)
    next
      case DUnlock
      with step WDead have t: "t = at p (WDead b x y DRepair) (drop_lock p MxDead s)" by simp
      show ?thesis unfolding t
        by (rule U) (use DUnlock WDead xy wview_moves(2) [of b x y] in simp_all)
    next
      case DRepair
      with step WDead have t: "t = at p (after_lock b x y) (repair p (Shelf (idx b x y)) s)" by simp
      show ?thesis unfolding t
        by (rule R) (use DRepair WDead xy wview_after_lock(2) [OF xy(1), of b] in \<open>simp_all add: after_lock_def\<close>)
    qed
  next
    case (WDraw x y)
    show ?thesis
    proof (cases "v mod 100 = 0")
      case True
      with step WDraw have t: "t = say (Trips p) (at p WDied (s\<lparr>mtx := (\<lambda>m. mx_die p (mtx s m))\<rparr>))"
        by (simp add: say_at)
      have a: "agrees (mtx s) (view N s)" using inv by (simp add: mutex_inv_def)
      have "view N s p MxDead = None" "view N s p MxSorted = None"
        using p WDraw by (simp_all add: view_sel)
      then have "mtx s MxDead \<noteq> shape p b" "mtx s MxSorted \<noteq> shape p b" for b
        using agrees_view_None [OF a] by blast+
      from this(1) [of True] this(1) [of False] this(2) [of True] this(2) [of False]
      have "mx_die p (mtx s MxDead) = mtx s MxDead" "mx_die p (mtx s MxSorted) = mtx s MxSorted"
        by (simp_all add: mx_die_def shape_def)
      then have "mutex_inv N (at p WDied (s\<lparr>mtx := (\<lambda>m. mx_die p (mtx s m))\<rparr>))"
        using agrees_die [OF a, of p] inv
        by (intro mutex_inv_at [OF inv p]) (simp_all add: mutex_inv_def)
      with t show ?thesis by simp
    next
      case False
      with step WDraw have t: "t = at p (WWrite1 x y) s" by simp
      show ?thesis unfolding t by (rule K) (use WDraw wf in simp_all)
    qed
  next
    case WSortLock
    with step obtain e u where d: "take_lock p MxSorted s = Some (e, u)" and t: "t = at p WSortTest u"
      by auto
    have "\<not> e" using take_lock_Some(2) [OF _ d, of N] inv by (auto simp: mutex_inv_def)
    with L [OF d, of WSortTest] t WSortLock show ?thesis by simp
  next
    case WSortLeave
    with step have t: "t = at p WExit (drop_lock p MxSorted s)" by simp
    show ?thesis unfolding t by (rule U) (use WSortLeave in simp_all)
  next
    case WSortUnlock
    with step have t: "t = at p WPickX (drop_lock p MxSorted s)" by simp
    show ?thesis unfolding t by (rule U) (use WSortUnlock in simp_all)
  next
    case (WUnlock2 x y)
    with step have t: "t = at p (WUnlock1 x y) (drop_lock p (Shelf (max x y)) s)" by simp
    show ?thesis unfolding t
      by (rule U) (use WUnlock2 wf wview_moves(3) [of x y] in simp_all)
  next
    case (WUnlock1 x y)
    with step have t: "t = at p WTop (drop_lock p (Shelf (min x y)) s)" by simp
    show ?thesis unfolding t
      by (rule U) (use WUnlock1 wview_moves(4) [of x y] in simp_all)
  qed (use step wf N in \<open>auto intro!: K\<close>)
qed

text \<open>The same for the manager.\<close>

lemma mat_lock:
  assumes "mutex_inv N s" and "take_lock 0 m s = Some (d, t)"
    and "mview N c = (mview N (mgr s))(m \<mapsto> d)" and "wf_m N c"
  shows "mutex_inv N (mat c t)" and "t = s\<lparr>mtx := (mtx s)(m := shape 0 d)\<rparr>"
    and "mtx s m = (if d then OwnerDied else Unlocked)"
proof -
  from assms(1) have a: "agrees (mtx s) (view N s)" "mtx s MxDead \<noteq> OwnerDied" "mtx s MxSorted \<noteq> OwnerDied"
    by (simp_all add: mutex_inv_def)
  note t = take_lock_Some [OF a(1) assms(2)]
  from t(1,2) show "t = s\<lparr>mtx := (mtx s)(m := shape 0 d)\<rparr>" "mtx s m = (if d then OwnerDied else Unlocked)"
    by simp_all
  show "mutex_inv N (mat c t)"
    by (rule mutex_inv_mat [OF assms(1,4)]) (use t a assms(3) in \<open>simp_all add: view_sel\<close>)
qed

lemma mat_unlock:
  assumes "mutex_inv N s" and "mview N (mgr s) m = Some False"
    and "mview N c = (mview N (mgr s))(m := None)" and "wf_m N c"
  shows "mutex_inv N (mat c (drop_lock 0 m s))" and "drop_lock 0 m s = s\<lparr>mtx := (mtx s)(m := Unlocked)\<rparr>"
proof -
  from assms(1) have a: "agrees (mtx s) (view N s)" "mtx s MxDead \<noteq> OwnerDied" "mtx s MxSorted \<noteq> OwnerDied"
    by (simp_all add: mutex_inv_def)
  note d = drop_lock_agrees [OF a(1), of 0 m]
  show t: "drop_lock 0 m s = s\<lparr>mtx := (mtx s)(m := Unlocked)\<rparr>"
    using d(1) assms(2) by (simp add: view_sel)
  show "mutex_inv N (mat c (drop_lock 0 m s))"
    unfolding t
    by (rule mutex_inv_mat [OF assms(1,4)]) (use d(2) a assms(2,3) in \<open>simp_all add: view_sel\<close>)
qed

lemma mat_repair:
  assumes "mutex_inv N s" and "mview N (mgr s) (Shelf i) = Some True"
    and "mview N c = (mview N (mgr s))(Shelf i \<mapsto> False)" and "wf_m N c"
  shows "mutex_inv N (mat c (repair 0 (Shelf i) s))"
    and "repair 0 (Shelf i) s = s\<lparr>mtx := (mtx s)(Shelf i := Locked 0)\<rparr>"
proof -
  from assms(1) have a: "agrees (mtx s) (view N s)" "mtx s MxDead \<noteq> OwnerDied" "mtx s MxSorted \<noteq> OwnerDied"
    by (simp_all add: mutex_inv_def)
  note d = repair_agrees [OF a(1), of 0 "Shelf i"]
  show t: "repair 0 (Shelf i) s = s\<lparr>mtx := (mtx s)(Shelf i := Locked 0)\<rparr>"
    using d(1) assms(2) by (simp add: view_sel)
  show "mutex_inv N (mat c (repair 0 (Shelf i) s))"
    unfolding t
    by (rule mutex_inv_mat [OF assms(1,4)]) (use d(2) a assms(2,3) in \<open>simp_all add: view_sel\<close>)
qed

lemma mat_move:
  assumes "mutex_inv N s" and "mview N c = mview N (mgr s)" and "wf_m N c"
    and "mtx s' = mtx s" and "wpcs s' = wpcs s"
  shows "mutex_inv N (mat c s')"
proof (rule mutex_inv_mat [OF assms(1,3,5)])
  have "(view N s)(0 := mview N c) = view N s" using assms(2) by (simp add: view_sel fun_upd_idem)
  then show "agrees (mtx s') ((view N s)(0 := mview N c))"
    using assms(1,4) by (simp add: mutex_inv_def)
qed (use assms(1,4) in \<open>simp_all add: mutex_inv_def\<close>)

lemma shelves_insert: "shelves {..<Suc i} = (shelves {..<i})(Shelf i \<mapsto> False)"
  by (auto simp: shelves_def fun_eq_iff split: mid.splits)

lemma mview_next:
  assumes "i < N"
  shows "mview N (next_shelf N i) = (shelves {..<i})(Shelf i \<mapsto> False)" and "wf_m N (next_shelf N i)"
proof -
  have "N = Suc i" if "\<not> i + 1 < N" using that assms by simp
  then show "mview N (next_shelf N i) = (shelves {..<i})(Shelf i \<mapsto> False)"
    using shelves_insert [of i] by (auto simp: next_shelf_def)
  show "wf_m N (next_shelf N i)" using assms by (simp add: next_shelf_def)
qed

lemma mview_moves:
  "mview N (MDead i DLock) = (mview N (MLock i))(Shelf i \<mapsto> True)"
  "mview N (MDead i DInc) = (mview N (MDead i DLock))(MxDead \<mapsto> False)"
  "mview N (MDead i DRepair) = (mview N (MDead i DUnlock))(MxDead := None)"
  "(mview N (MDead i DRepair))(Shelf i \<mapsto> False) = (shelves {..<i})(Shelf i \<mapsto> False)"
  by (auto simp: fun_eq_iff shelves_def)

lemma mview_unlock:
  assumes "i < N"
  shows "mview N (if i + 1 < N then MUnlock (i + 1) b else MDLock b) = (mview N (MUnlock i b))(Shelf i := None)"
  using assms by (auto simp: fun_eq_iff shelves_def split: mid.splits)

lemma manager_mutex_inv:
  assumes inv: "mutex_inv N s" and N: "0 < N" and step: "manager_step N M s = Some t"
  shows "mutex_inv N t"
proof -
  from inv have wf: "wf_m N (mgr s)" by (simp add: mutex_inv_def)
  note L = mat_lock(1) [OF inv] and U = mat_unlock(1) [OF inv] and R = mat_repair(1) [OF inv]
    and K = mat_move [OF inv]
  have no_dead: "\<not> e" if "take_lock 0 m s = Some (e, u)" "m = MxDead \<or> m = MxSorted" for e u m
    using take_lock_Some(2) [OF _ that(1), of N] inv that(2) by (auto simp: mutex_inv_def)
  show ?thesis
  proof (cases "mgr s")
    case (MLock i)
    with step obtain d u where d: "take_lock 0 (Shelf i) s = Some (d, u)"
      and t: "t = (if d then say (Body 0 i) (mat (MDead i DLock) u) else mat (next_shelf N i) u)"
      by (auto simp: say_at)
    from MLock wf have i: "i < N" by simp
    with L [OF d, of "if d then MDead i DLock else next_shelf N i"] t MLock
      mview_next [OF i] mview_moves(1) [of N i] show ?thesis
      by (cases d) simp_all
  next
    case (MDead i d)
    with wf have i: "i < N" by simp
    show ?thesis
    proof (cases d)
      case DLock
      with step MDead obtain e u where d: "take_lock 0 MxDead s = Some (e, u)"
        and t: "t = mat (MDead i DInc) u" by auto
      with L [OF d, of "MDead i DInc"] no_dead [OF d] MDead DLock i mview_moves(2) [of N i] show ?thesis
        by simp
    next
      case DInc
      with step MDead have t: "t = mat (MDead i DUnlock) (s\<lparr>dead := dead s + 1\<rparr>)" by simp
      show ?thesis unfolding t by (rule K) (use DInc MDead i in auto)
    next
      case DUnlock
      with step MDead have t: "t = mat (MDead i DRepair) (drop_lock 0 MxDead s)" by simp
      show ?thesis unfolding t
        by (rule U) (use DUnlock MDead i mview_moves(3) [of N i] in simp_all)
    next
      case DRepair
      with step MDead have t: "t = mat (next_shelf N i) (repair 0 (Shelf i) s)" by simp
      show ?thesis unfolding t
        by (rule R) (use DRepair MDead mview_next [OF i] mview_moves(4) [of N i] in simp_all)
    qed
  next
    case MCheck
    have "mview N (MUnlock 0 b) = mview N MCheck" for b
      by (auto simp: fun_eq_iff shelves_def split: mid.splits)
    with MCheck step N show ?thesis by (auto intro!: K)
  next
    case (MUnlock i b)
    with step have t: "t = mat (if i + 1 < N then MUnlock (i + 1) b else MDLock b) (drop_lock 0 (Shelf i) s)"
      by simp
    show ?thesis unfolding t
      by (rule U) (use MUnlock wf mview_unlock [of i N b] in \<open>auto simp: shelves_def\<close>)
  next
    case (MDLock b)
    with step obtain e u where d: "take_lock 0 MxDead s = Some (e, u)" and t: "t = mat (MReport b) u"
      by auto
    with L [OF d, of "MReport b"] no_dead [OF d] MDLock show ?thesis by simp
  next
    case (MReport b)
    have "mutex_inv N (mat (MDUnlock b c) s)" for c
      by (rule K) (use MReport in simp_all)
    with MReport step show ?thesis by (auto simp: Let_def say_at split: if_splits)
  next
    case (MDUnlock b c)
    have "mutex_inv N (mat d (drop_lock 0 MxDead s))" if "d \<in> {MExit False, MSetLock, MLock 0}" for d
      by (rule U) (use that MDUnlock N in \<open>auto simp: shelves_def fun_eq_iff split: mid.splits\<close>)
    with MDUnlock step show ?thesis by (auto simp: Let_def say_at split: if_splits)
  next
    case MSetLock
    with step obtain e u where d: "take_lock 0 MxSorted s = Some (e, u)" and t: "t = mat MSet u" by auto
    with L [OF d, of MSet] no_dead [OF d] MSetLock show ?thesis by simp
  next
    case MSet
    with step show ?thesis by (auto intro!: K)
  next
    case MSetUnlock
    with step have t: "t = mat (MExit True) (drop_lock 0 MxSorted s)" by simp
    show ?thesis unfolding t by (rule U) (use MSetUnlock in simp_all)
  next
    case (MExit b)
    with step show ?thesis by simp
  qed
qed

lemma mutex_inv_start: "0 < N \<Longrightarrow> mutex_inv N (shop_start N r)"
proof -
  assume N: "0 < N"
  have "view N (shop_start N r) q m = None" for q m
    by (simp add: view_def shop_start_def shelves_def split: mid.splits)
  with N show ?thesis by (simp add: mutex_inv_def agrees_def) (simp add: shop_start_def)
qed

section \<open>The contents of the shelves\<close>

text \<open>\<open>pending s p i u\<close>: worker \<open>p\<close> is in the middle of a swap and will write \<open>u\<close> to shelf \<open>i\<close>.\<close>

definition pending :: "shop \<Rightarrow> nat \<Rightarrow> nat \<Rightarrow> nat \<Rightarrow> bool" where
  "pending s p i u \<longleftrightarrow> p \<noteq> 0 \<and> (\<exists>x. wpcs s p = WWrite2 x i u)"

definition patched :: "nat \<Rightarrow> shop \<Rightarrow> nat list \<Rightarrow> bool" where
  "patched N s l \<longleftrightarrow> length l = N \<and>
     (\<forall>i < N. (\<forall>p u. pending s p i u \<longrightarrow> l ! i = u) \<and> ((\<nexists>p u. pending s p i u) \<longrightarrow> l ! i = log s ! i))"

fun swapping :: "wpc \<Rightarrow> bool" where
  "swapping (WDraw _ _) = True"
| "swapping (WWrite1 _ _) = True"
| "swapping (WWrite2 _ _ _) = True"
| "swapping _ = False"

fun settled :: "mpc \<Rightarrow> bool" where
  "settled (MUnlock _ b) = b"
| "settled (MDLock b) = b"
| "settled (MReport b) = b"
| "settled (MDUnlock b _) = b"
| "settled MSetLock = True"
| "settled MSet = True"
| "settled MSetUnlock = True"
| "settled (MExit b) = b"
| "settled _ = False"

fun announced :: "mpc \<Rightarrow> bool" where
  "announced MSetLock = True"
| "announced MSet = True"
| "announced MSetUnlock = True"
| "announced (MExit b) = b"
| "announced _ = False"

lemma announced_settled: "announced c \<Longrightarrow> settled c"
  by (cases c) auto

definition shelf_inv :: "nat \<Rightarrow> shop \<Rightarrow> bool" where
  "shelf_inv N s \<longleftrightarrow>
     length (log s) = N \<and> (\<exists>l. patched N s l \<and> mset l = mset [0..<N]) \<and>
     (settled (mgr s) \<longrightarrow> log s = [0..<N] \<and> (\<forall>p. p \<noteq> 0 \<longrightarrow> \<not> swapping (wpcs s p))) \<and>
     (sorted_flag s \<longrightarrow> mgr s = MSetUnlock \<or> mgr s = MExit True) \<and>
     (ShelvesSorted \<in> set (said s) \<longrightarrow> announced (mgr s))"

lemma exclusive:
  "mutex_inv N s \<Longrightarrow> view N s p m \<noteq> None \<Longrightarrow> view N s q m \<noteq> None \<Longrightarrow> p = q"
  using agrees_exclusive [of "mtx s" "view N s"] by (auto simp: mutex_inv_def)

lemma swapping_view:
  "swapping c \<Longrightarrow> \<exists>x y. wview c = [Shelf (min x y) \<mapsto> False, Shelf (max x y) \<mapsto> False]
     \<and> (wf_w N c \<longrightarrow> x < N \<and> y < N)"
  by (cases c) auto

text \<open>While the manager holds every shelf, no worker is in the middle of a swap.\<close>

lemma nobody_swaps:
  assumes "mutex_inv N s" and "mgr s = MCheck" and "p \<noteq> 0"
  shows "\<not> swapping (wpcs s p)"
proof
  assume "swapping (wpcs s p)"
  then obtain x y where v: "wview (wpcs s p) = [Shelf (min x y) \<mapsto> False, Shelf (max x y) \<mapsto> False]"
    and xy: "wf_w N (wpcs s p) \<longrightarrow> x < N \<and> y < N"
    using swapping_view by blast
  then have "min x y < N" using assms(1) by (auto simp: mutex_inv_def min_def)
  then have "view N s 0 (Shelf (min x y)) \<noteq> None" using assms(2) by (simp add: view_def shelves_def)
  moreover have "view N s p (Shelf (min x y)) = Some False" using v assms(3) by (simp add: view_def)
  ultimately show False using exclusive [OF assms(1), of 0 "Shelf (min x y)" p] assms(3) by simp
qed

text \<open>Positions that neither start nor end a swap keep the invariant.\<close>

lemma shelf_inv_at:
  assumes "shelf_inv N s" and "\<not> swapping c" and "\<forall>i u. \<not> pending s p i u"
    and "log s' = log s" "wpcs s' = wpcs s" "mgr s' = mgr s" "sorted_flag s' = sorted_flag s"
      "said s' = said s"
  shows "shelf_inv N (at p c s')"
proof -
  have "pending (at p c s') q i u = pending s q i u" for q i u
    using assms(2,3,5) by (auto simp: pending_def)
  then have "patched N (at p c s') l = patched N s l" for l
    using assms(4) by (simp add: patched_def)
  with assms show ?thesis by (simp add: shelf_inv_def)
qed

lemma shelf_inv_say: "x \<noteq> ShelvesSorted \<Longrightarrow> shelf_inv N (say x s) = shelf_inv N s"
  by (auto simp: shelf_inv_def patched_def pending_def)

lemma swap_pending_free:
  assumes "mutex_inv N s" and "p \<noteq> 0" and "wpcs s p = WWrite1 x y" and "i = x \<or> i = y"
  shows "\<not> pending s q i u"
proof
  assume "pending s q i u"
  then obtain z where q: "q \<noteq> 0" "wpcs s q = WWrite2 z i u" by (auto simp: pending_def)
  then have "view N s q (Shelf i) \<noteq> None" by (auto simp: view_def max_def min_def)
  moreover have "view N s p (Shelf i) \<noteq> None" using assms(2-4) by (auto simp: view_def max_def min_def)
  ultimately have "p = q" using exclusive [OF assms(1)] by blast
  with q(2) assms(3) show False by simp
qed

lemma unsettled:
  assumes "shelf_inv N s" and "p \<noteq> 0" and "swapping (wpcs s p)"
  shows "\<not> settled (mgr s)" and "\<not> sorted_flag s" and "ShelvesSorted \<notin> set (said s)"
  using assms by (auto simp: shelf_inv_def dest: announced_settled)

lemma shelf_inv_unsettledI:
  "length (log s) = N \<Longrightarrow> patched N s l \<Longrightarrow> mset l = mset [0..<N] \<Longrightarrow> \<not> settled (mgr s) \<Longrightarrow>
   \<not> sorted_flag s \<Longrightarrow> ShelvesSorted \<notin> set (said s) \<Longrightarrow> shelf_inv N s"
  by (auto simp: shelf_inv_def)

lemma shelf_inv_write1:
  assumes inv: "shelf_inv N s" and mx: "mutex_inv N s" and p: "p \<noteq> 0" "wpcs s p = WWrite1 x y"
  shows "shelf_inv N (at p (WWrite2 x y (log s ! x)) (s\<lparr>log := (log s)[x := log s ! y]\<rparr>))"
    (is "shelf_inv N ?t")
proof -
  have xy: "x < N" "y < N" "x \<noteq> y"
    using mx p(2) by (auto simp: mutex_inv_def dest: spec [of _ p])
  from inv obtain l where l: "patched N s l" "mset l = mset [0..<N]" and len: "length (log s) = N"
    by (auto simp: shelf_inv_def)
  note free = swap_pending_free [OF mx p]
  have lx: "l ! x = log s ! x" "l ! y = log s ! y" and ll: "length l = N"
    using l(1) xy free by (auto simp: patched_def)
  have pend: "pending ?t q i u \<longleftrightarrow> (if q = p then i = y \<and> u = log s ! x else pending s q i u)" for q i u
    using p by (auto simp: pending_def)
  have "patched N ?t (swap_at x y l)"
    unfolding patched_def
  proof (intro conjI allI impI)
    show "length (swap_at x y l) = N" using ll by simp
  next
    fix i q u assume "i < N" and "pending ?t q i u"
    then show "swap_at x y l ! i = u"
      using free [of i q u] l(1) lx xy ll by (auto simp: pend nth_swap_at patched_def split: if_splits)
  next
    fix i assume i: "i < N" and none: "\<nexists>q u. pending ?t q i u"
    have "pending ?t p y (log s ! x)" by (simp add: pend)
    with none have "i \<noteq> y" by blast
    moreover have "\<not> pending s q i u" for q u
    proof (cases "q = p")
      case True
      with p(2) show ?thesis by (simp add: pending_def)
    next
      case False
      with none show ?thesis by (metis pend)
    qed
    ultimately show "swap_at x y l ! i = log ?t ! i"
      using l(1) lx xy ll len i by (auto simp: nth_swap_at patched_def nth_list_update)
  qed
  moreover have "mset (swap_at x y l) = mset [0..<N]" using xy ll l(2) by simp
  ultimately show ?thesis
    using unsettled [OF inv p(1)] p(2) len by (intro shelf_inv_unsettledI) simp_all
qed

lemma shelf_inv_write2:
  assumes inv: "shelf_inv N s" and p: "p \<noteq> 0" "wpcs s p = WWrite2 x y u" and y: "y < N"
  shows "shelf_inv N (at p (WUnlock2 x y) (s\<lparr>log := (log s)[y := u]\<rparr>))" (is "shelf_inv N ?t")
proof -
  from inv obtain l where l: "patched N s l" "mset l = mset [0..<N]" and len: "length (log s) = N"
    by (auto simp: shelf_inv_def)
  have pend: "pending ?t q i v \<longleftrightarrow> q \<noteq> p \<and> pending s q i v" for q i v
    by (auto simp: pending_def)
  have "pending s p y u" using p by (auto simp: pending_def)
  then have ly: "l ! y = u" using l(1) y by (auto simp: patched_def)
  have "patched N ?t l"
    unfolding patched_def
  proof (intro conjI allI impI)
    show "length l = N" using l(1) by (simp add: patched_def)
  next
    fix i q v assume "i < N" and "pending ?t q i v"
    then show "l ! i = v" using l(1) by (auto simp: patched_def pend)
  next
    fix i assume i: "i < N" and none: "\<nexists>q v. pending ?t q i v"
    show "l ! i = log ?t ! i"
    proof (cases "i = y")
      case True
      with ly i len show ?thesis by simp
    next
      case False
      then have "\<not> pending s p i v" for v using p(2) by (auto simp: pending_def)
      moreover have "\<not> pending s q i v" if "q \<noteq> p" for q v using none that pend by blast
      ultimately have "\<not> pending s q i v" for q v by (cases "q = p") simp_all
      with l(1) i False show ?thesis by (simp add: patched_def)
    qed
  qed
  then show ?thesis
    using unsettled [OF inv p(1)] p(2) len l(2) by (intro shelf_inv_unsettledI) simp_all
qed

lemma take_lock_sel:
  "take_lock p m s = Some (d, t) \<Longrightarrow> log t = log s \<and> wpcs t = wpcs s \<and> mgr t = mgr s
     \<and> sorted_flag t = sorted_flag s \<and> said t = said s \<and> dead t = dead s"
  by (auto simp: take_lock_def split: lock_result.splits)

lemma drop_repair_sel [simp]:
  "log (drop_lock p m s) = log s" "wpcs (drop_lock p m s) = wpcs s" "mgr (drop_lock p m s) = mgr s"
  "sorted_flag (drop_lock p m s) = sorted_flag s" "said (drop_lock p m s) = said s"
  "dead (drop_lock p m s) = dead s"
  "log (repair p m s) = log s" "wpcs (repair p m s) = wpcs s" "mgr (repair p m s) = mgr s"
  "sorted_flag (repair p m s) = sorted_flag s" "said (repair p m s) = said s" "dead (repair p m s) = dead s"
  by (simp_all add: drop_lock_def repair_def)

lemma worker_shelf_inv:
  assumes inv: "shelf_inv N s" and mx: "mutex_inv N s" and p: "p \<noteq> 0"
    and step: "worker_step N p v s = Some t"
  shows "shelf_inv N t"
proof -
  note A = shelf_inv_at [OF inv]
  show ?thesis
  proof (cases "wpcs s p")
    case (WWrite1 x y)
    with step shelf_inv_write1 [OF inv mx p WWrite1] show ?thesis by simp
  next
    case (WWrite2 x y u)
    have "wf_w N (wpcs s p)" using mx by (simp add: mutex_inv_def)
    then have "y < N" using WWrite2 by simp
    with step WWrite2 shelf_inv_write2 [OF inv p WWrite2] show ?thesis by simp
  next
    case (WTest x y)
    have np: "\<forall>i u. \<not> pending s p i u" using WTest by (simp add: pending_def)
    show ?thesis
    proof (cases "wrong_order (log s) x y")
      case False
      with step WTest have "t = at p (WUnlock2 x y) s" by simp
      with A [OF _ np] show ?thesis by simp
    next
      case True
      with step WTest have t: "t = at p (WDraw x y) s" by simp
      have xy: "x < N" "y < N" using mx WTest by (auto simp: mutex_inv_def dest: spec [of _ p])
      have "log s \<noteq> [0..<N]" using True xy by (auto simp: wrong_order_def)
      then have "\<not> settled (mgr s)" using inv by (auto simp: shelf_inv_def)
      then have un: "\<not> settled (mgr s)" "\<not> announced (mgr s)" using announced_settled by auto
      moreover from inv obtain l where l: "patched N s l" "mset l = mset [0..<N]"
        by (auto simp: shelf_inv_def)
      moreover have "pending (at p (WDraw x y) s) q i u = pending s q i u" for q i u
        using np by (auto simp: pending_def)
      ultimately show ?thesis
        using inv t by (intro shelf_inv_unsettledI [of t N l]) (auto simp: shelf_inv_def patched_def)
    qed
  next
    case (WDraw x y)
    have np: "\<forall>i u. \<not> pending s p i u" using WDraw by (simp add: pending_def)
    have un: "\<not> settled (mgr s)" "\<not> sorted_flag s" "ShelvesSorted \<notin> set (said s)"
      using unsettled [OF inv p] WDraw by simp_all
    show ?thesis
    proof (cases "v mod 100 = 0")
      case True
      with step WDraw have t: "t = say (Trips p) (at p WDied (s\<lparr>mtx := (\<lambda>m. mx_die p (mtx s m))\<rparr>))"
        by (simp add: say_at)
      have "shelf_inv N (at p WDied (s\<lparr>mtx := (\<lambda>m. mx_die p (mtx s m))\<rparr>))"
        by (rule A [OF _ np]) simp_all
      with t show ?thesis by (simp add: shelf_inv_say)
    next
      case False
      with step WDraw have t: "t = at p (WWrite1 x y) s" by simp
      from inv obtain l where l: "patched N s l" "mset l = mset [0..<N]" by (auto simp: shelf_inv_def)
      moreover have "pending (at p (WWrite1 x y) s) q i u = pending s q i u" for q i u
        using np by (auto simp: pending_def)
      ultimately show ?thesis
        using inv t un by (intro shelf_inv_unsettledI [of t N l]) (auto simp: shelf_inv_def patched_def)
    qed
  next
    case (WLock b x y)
    have np: "\<forall>i u. \<not> pending s p i u" using WLock by (simp add: pending_def)
    from step WLock obtain d u where d: "take_lock p (Shelf (idx b x y)) s = Some (d, u)"
      and t: "t = (if d then say (Body p (idx b x y)) (at p (WDead b x y DLock) u)
                   else at p (after_lock b x y) u)"
      by (auto simp: say_at)
    with A [OF _ np, of "WDead b x y DLock" u] A [OF _ np, of "after_lock b x y" u] take_lock_sel [OF d]
    show ?thesis by (auto simp: shelf_inv_say after_lock_def)
  next
    case (WDead b x y d)
    have np: "\<forall>i u. \<not> pending s p i u" using WDead by (simp add: pending_def)
    show ?thesis
    proof (cases d)
      case DLock
      with step WDead obtain e u where d: "take_lock p MxDead s = Some (e, u)"
        and t: "t = at p (WDead b x y DInc) u" by auto
      with A [OF _ np, of "WDead b x y DInc" u] take_lock_sel [OF d] show ?thesis by simp
    qed (use step WDead in \<open>auto intro!: A [OF _ np] simp: after_lock_def split: if_splits\<close>)
  next
    case WSortLock
    have np: "\<forall>i u. \<not> pending s p i u" using WSortLock by (simp add: pending_def)
    from step WSortLock obtain e u where d: "take_lock p MxSorted s = Some (e, u)" and t: "t = at p WSortTest u"
      by auto
    with A [OF _ np, of WSortTest u] take_lock_sel [OF d] show ?thesis by simp
  qed (use step in \<open>auto intro!: A simp: pending_def split: if_splits\<close>)
qed

lemma shelf_inv_mat:
  assumes "shelf_inv N s" and "settled c \<Longrightarrow> settled (mgr s)" and "\<not> sorted_flag s \<or> c = MExit True"
    and "ShelvesSorted \<notin> set (said s) \<or> announced c"
    and "log s' = log s" "wpcs s' = wpcs s" "sorted_flag s' = sorted_flag s" "said s' = said s"
  shows "shelf_inv N (mat c s')"
proof -
  have "pending (mat c s') = pending s" using assms(6) by (simp add: pending_def fun_eq_iff)
  then have "patched N (mat c s') l = patched N s l" for l
    using assms(5) by (simp add: patched_def)
  then have pl: "\<exists>l. patched N (mat c s') l \<and> mset l = mset [0..<N]"
    using assms(1) by (simp add: shelf_inv_def)
  have st: "settled c \<longrightarrow> log s = [0..<N] \<and> (\<forall>p. p \<noteq> 0 \<longrightarrow> \<not> swapping (wpcs s p))"
    using assms(1,2) unfolding shelf_inv_def by blast
  have "length (log s) = N" using assms(1) by (simp add: shelf_inv_def)
  with pl st assms(3-8) show ?thesis unfolding shelf_inv_def by simp
qed

lemma all_in_place: "length l = N \<Longrightarrow> (\<forall>i \<in> set [0..<N]. l ! i = i) \<longleftrightarrow> l = [0..<N]"
proof -
  assume len: "length l = N"
  then have "l = [0..<N] \<longleftrightarrow> (\<forall>i < N. l ! i = [0..<N] ! i)"
    by (subst list_eq_iff_nth_eq) (simp only: length_upt, simp)
  also have "\<dots> \<longleftrightarrow> (\<forall>i < N. l ! i = i)" by simp
  finally show ?thesis by auto
qed

lemma shelf_inv_say_settled: "announced (mgr s) \<Longrightarrow> shelf_inv N s \<Longrightarrow> shelf_inv N (say x s)"
  by (auto simp: shelf_inv_def patched_def pending_def)

lemma manager_shelf_inv:
  assumes inv: "shelf_inv N s" and mx: "mutex_inv N s" and step: "manager_step N M s = Some t"
  shows "shelf_inv N t"
proof -
  have fl: "\<not> sorted_flag s" if "mgr s \<noteq> MSetUnlock" "mgr s \<noteq> MExit True"
    using inv that by (auto simp: shelf_inv_def)
  have sd: "ShelvesSorted \<notin> set (said s)" if "\<not> announced (mgr s)"
    using inv that by (auto simp: shelf_inv_def)
  note A = shelf_inv_mat [OF inv _ disjI1]
  show ?thesis
  proof (cases "mgr s")
    case (MLock i)
    with step obtain d u where d: "take_lock 0 (Shelf i) s = Some (d, u)"
      and t: "t = (if d then say (Body 0 i) (mat (MDead i DLock) u) else mat (next_shelf N i) u)"
      by (auto simp: say_at)
    with A [of "MDead i DLock" u] A [of "next_shelf N i" u] take_lock_sel [OF d] MLock fl sd
    show ?thesis by (auto simp: shelf_inv_say next_shelf_def)
  next
    case (MDead i d)
    show ?thesis
    proof (cases d)
      case DLock
      with step MDead obtain e u where d: "take_lock 0 MxDead s = Some (e, u)"
        and t: "t = mat (MDead i DInc) u" by auto
      with A [of "MDead i DInc" u] take_lock_sel [OF d] MDead fl sd show ?thesis by simp
    qed (use step MDead fl sd in \<open>auto intro!: A simp: next_shelf_def split: if_splits\<close>)
  next
    case MCheck
    have len: "length (log s) = N" using inv by (simp add: shelf_inv_def)
    have t: "t = mat (MUnlock 0 (log s = [0..<N])) s"
      using step MCheck all_in_place [OF len] by simp
    show ?thesis
    proof (cases "log s = [0..<N]")
      case False
      with A [of "MUnlock 0 False" s] t MCheck fl sd show ?thesis by simp
    next
      case True
      have "pending (mat c s) = pending s" for c by (simp add: pending_def fun_eq_iff)
      then have "patched N (mat c s) l = patched N s l" for l c by (simp add: patched_def)
      with inv True t nobody_swaps [OF mx MCheck] MCheck fl show ?thesis
        by (auto simp: shelf_inv_def)
    qed
  next
    case (MDLock b)
    with step obtain e u where d: "take_lock 0 MxDead s = Some (e, u)" and t: "t = mat (MReport b) u"
      by auto
    with A [of "MReport b" u] take_lock_sel [OF d] MDLock fl sd show ?thesis by simp
  next
    case (MReport b)
    have "shelf_inv N (mat (MDUnlock b c) s)" for c
      by (rule A) (use MReport fl sd in simp_all)
    with MReport step show ?thesis by (auto simp: Let_def say_at shelf_inv_say split: if_splits)
  next
    case (MDUnlock b c)
    consider "c" "t = mat (MExit False) (drop_lock 0 MxDead s)"
      | "\<not> c" "b" "t = say ShelvesSorted (mat MSetLock (drop_lock 0 MxDead s))"
      | "\<not> c" "\<not> b" "t = mat (MLock 0) (drop_lock 0 MxDead s)"
      using MDUnlock step by (auto simp: Let_def say_at split: if_splits)
    then show ?thesis
    proof cases
      case 1
      then show ?thesis using MDUnlock fl sd by (auto intro!: A)
    next
      case 2
      have "shelf_inv N (mat MSetLock (drop_lock 0 MxDead s))"
        by (rule A) (use MDUnlock fl sd 2 in simp_all)
      with 2 show ?thesis by (simp add: shelf_inv_say_settled)
    next
      case 3
      then show ?thesis using MDUnlock fl sd by (auto intro!: A)
    qed
  next
    case MSetLock
    with step obtain e u where d: "take_lock 0 MxSorted s = Some (e, u)" and t: "t = mat MSet u" by auto
    with A [of MSet u] take_lock_sel [OF d] MSetLock fl show ?thesis by simp
  next
    case MSet
    have "pending (mat c (s\<lparr>sorted_flag := True\<rparr>)) = pending s" for c by (simp add: pending_def fun_eq_iff)
    then have "patched N (mat c (s\<lparr>sorted_flag := True\<rparr>)) l = patched N s l" for l c by (simp add: patched_def)
    then have "shelf_inv N (mat MSetUnlock (s\<lparr>sorted_flag := True\<rparr>))"
      using MSet inv by (simp add: shelf_inv_def)
    moreover have "t = mat MSetUnlock (s\<lparr>sorted_flag := True\<rparr>)" using MSet step by simp
    ultimately show ?thesis by simp
  next
    case MSetUnlock
    with step have t: "t = mat (MExit True) (drop_lock 0 MxSorted s)" by simp
    show ?thesis unfolding t
      by (rule shelf_inv_mat [OF inv]) (use MSetUnlock in simp_all)
  qed (use step fl sd in \<open>auto intro!: A split: if_splits\<close>)
qed

section \<open>The dead\<close>

text \<open>
  Each worker that dies leaves two mutexes behind, and each is counted once: in the counter, still
  unlocked as \<open>OwnerDied\<close>, or found but not counted yet.
\<close>

definition bodies :: "nat \<Rightarrow> (mid \<Rightarrow> mutex) \<Rightarrow> nat" where
  "bodies N mt = (\<Sum>i<N. of_bool (mt (Shelf i) = OwnerDied))"

fun uncounted :: "wpc \<Rightarrow> nat" where
  "uncounted (WDead _ _ _ d) = of_bool (d = DLock \<or> d = DInc)"
| "uncounted _ = 0"

fun muncounted :: "mpc \<Rightarrow> nat" where
  "muncounted (MDead _ d) = of_bool (d = DLock \<or> d = DInc)"
| "muncounted _ = 0"

definition died :: "nat \<Rightarrow> shop \<Rightarrow> nat" where
  "died M s = (\<Sum>p\<in>{1..M}. of_bool (wpcs s p = WDied))"

definition dead_inv :: "nat \<Rightarrow> nat \<Rightarrow> shop \<Rightarrow> bool" where
  "dead_inv N M s \<longleftrightarrow>
     dead s + bodies N (mtx s) + (\<Sum>p\<in>{1..M}. uncounted (wpcs s p)) + muncounted (mgr s) = 2 * died M s \<and>
     (AllDied \<in> set (said s) \<longrightarrow> (\<forall>p \<in> {1..M}. wpcs s p = WDied))"

lemma sum_upd:
  fixes g :: "'b \<Rightarrow> nat"
  assumes "finite A" and "i \<in> A"
  shows "(\<Sum>j\<in>A. g ((f(i := x)) j)) + g (f i) = (\<Sum>j\<in>A. g (f j)) + g x"
proof -
  have "(\<Sum>j\<in>A. g ((f(i := x)) j)) = g x + (\<Sum>j\<in>A - {i}. g ((f(i := x)) j))"
    using sum.remove [OF assms, of "\<lambda>j. g ((f(i := x)) j)"] by simp
  moreover have "(\<Sum>j\<in>A - {i}. g ((f(i := x)) j)) = (\<Sum>j\<in>A - {i}. g (f j))"
    by (rule sum.cong) auto
  moreover have "(\<Sum>j\<in>A. g (f j)) = g (f i) + (\<Sum>j\<in>A - {i}. g (f j))"
    using sum.remove [OF assms, of "\<lambda>j. g (f j)"] by simp
  ultimately show ?thesis by simp
qed

lemma bodies_upd:
  assumes "i < N"
  shows "bodies N (mt(Shelf i := m)) + of_bool (mt (Shelf i) = OwnerDied)
       = bodies N mt + of_bool (m = OwnerDied)"
proof -
  have "bodies N (mt(Shelf i := m)) = (\<Sum>j<N. of_bool (((\<lambda>j. mt (Shelf j))(i := m)) j = OwnerDied))"
    unfolding bodies_def by (rule sum.cong) auto
  then show ?thesis
    using sum_upd [of "{..<N}" i "\<lambda>x. of_bool (x = OwnerDied)" "\<lambda>j. mt (Shelf j)" m] assms
    by (simp add: bodies_def)
qed

lemma bodies_other: "\<forall>i. m \<noteq> Shelf i \<Longrightarrow> bodies N (mt(m := x)) = bodies N mt"
  unfolding bodies_def by (rule sum.cong) auto

lemma bodies_die:
  assumes "i < N" and "j < N" and "i \<noteq> j"
    and "\<And>k. k < N \<Longrightarrow> mt (Shelf k) = Locked p \<or> mt (Shelf k) = Recovering p \<longleftrightarrow> k = i \<or> k = j"
  shows "bodies N (\<lambda>m. mx_die p (mt m)) = bodies N mt + 2"
proof -
  have "(of_bool (mx_die p (mt (Shelf k)) = OwnerDied) :: nat)
      = of_bool (mt (Shelf k) = OwnerDied) + (of_bool (k = i) + of_bool (k = j))" if "k < N" for k
    using assms(3) assms(4) [OF that] by (auto simp: mx_die_def)
  then have "bodies N (\<lambda>m. mx_die p (mt m))
      = bodies N mt + ((\<Sum>k<N. of_bool (k = i)) + (\<Sum>k<N. of_bool (k = j)))"
    by (simp add: bodies_def sum.distrib)
  moreover have "(\<Sum>k<N. of_bool (k = i)) = (1::nat)" if "i < N" for i
    using that by (simp add: of_bool_def)
  ultimately show ?thesis using assms(1,2) by simp
qed

lemma sum_uncounted:
  "p \<in> {1..M} \<Longrightarrow> (\<Sum>q\<in>{1..M}. uncounted (((wpcs s)(p := c)) q)) + uncounted (wpcs s p)
     = (\<Sum>q\<in>{1..M}. uncounted (wpcs s q)) + uncounted c"
  by (rule sum_upd) simp_all

lemma died_upd:
  "p \<in> {1..M} \<Longrightarrow> wpcs t = (wpcs s)(p := c) \<Longrightarrow>
   died M t + of_bool (wpcs s p = WDied) = died M s + of_bool (c = WDied)"
  using sum_upd [of "{1..M}" p "\<lambda>c. of_bool (c = WDied)" "wpcs s" c] by (simp add: died_def)

text \<open>What a step must satisfy to keep the count.\<close>

lemma dead_inv_worker:
  assumes "dead_inv N M s" and "p \<in> {1..M}" and "wpcs s p \<noteq> WDied"
    and "wpcs t = (wpcs s)(p := c)" and "mgr t = mgr s" and "AllDied \<in> set (said t) \<longrightarrow> AllDied \<in> set (said s)"
    and "dead t + bodies N (mtx t) + uncounted c + 2 * died M s
       = dead s + bodies N (mtx s) + uncounted (wpcs s p) + 2 * (died M s + of_bool (c = WDied))"
  shows "dead_inv N M t"
proof -
  have "died M t = died M s + of_bool (c = WDied)"
    using died_upd [OF assms(2,4)] assms(3) by simp
  moreover have "(\<Sum>q\<in>{1..M}. uncounted (wpcs t q)) + uncounted (wpcs s p)
     = (\<Sum>q\<in>{1..M}. uncounted (wpcs s q)) + uncounted c"
    using sum_uncounted [OF assms(2), of s c] assms(4) by simp
  moreover have "AllDied \<notin> set (said s)"
    using assms(1-3) by (auto simp: dead_inv_def)
  ultimately show ?thesis
    using assms(1,5-7) by (auto simp: dead_inv_def)
qed

lemma dead_inv_manager:
  assumes "dead_inv N M s" and "wpcs t = wpcs s" and "AllDied \<in> set (said t) \<longrightarrow> AllDied \<in> set (said s)"
    and "dead t + bodies N (mtx t) + muncounted (mgr t) = dead s + bodies N (mtx s) + muncounted (mgr s)"
  shows "dead_inv N M t"
  using assms by (simp add: dead_inv_def died_def)

lemma died_all: "died M s = M \<Longrightarrow> p \<in> {1..M} \<Longrightarrow> wpcs s p = WDied"
proof (rule ccontr)
  assume d: "died M s = M" and p: "p \<in> {1..M}" and n: "wpcs s p \<noteq> WDied"
  have "died M s = (\<Sum>q\<in>{1..M} - {p}. of_bool (wpcs s q = WDied))"
    using n sum.remove [OF _ p, of "\<lambda>q. of_bool (wpcs s q = WDied) :: nat"]
    by (simp add: died_def del: sum_of_bool_eq)
  also have "\<dots> \<le> (\<Sum>q\<in>{1..M} - {p}. 1)" by (rule sum_mono) simp
  also have "\<dots> = M - 1" using p by simp
  finally show False using d p by simp
qed

lemma bodies_drop:
  assumes "mutex_inv N s" and "view N s p m = Some False" and "\<forall>i. m = Shelf i \<longrightarrow> i < N"
  shows "bodies N (mtx (drop_lock p m s)) = bodies N (mtx s)"
proof -
  from assms(1) have a: "agrees (mtx s) (view N s)" by (simp add: mutex_inv_def)
  have "mtx s m \<noteq> OwnerDied" using agrees_viewD [OF a assms(2)] by simp
  note d = drop_lock_agrees(1) [OF a assms(2)]
  show ?thesis
  proof (cases m)
    case (Shelf i)
    then have "i < N" using assms(3) by simp
    from bodies_upd [OF this, of "mtx s" Unlocked] Shelf d \<open>mtx s m \<noteq> OwnerDied\<close> show ?thesis by simp
  qed (use d in \<open>simp_all add: bodies_other\<close>)
qed

lemma bodies_repair:
  assumes "mutex_inv N s" and "view N s p (Shelf i) = Some True" and "i < N"
  shows "bodies N (mtx (repair p (Shelf i) s)) = bodies N (mtx s)"
proof -
  from assms(1) have a: "agrees (mtx s) (view N s)" by (simp add: mutex_inv_def)
  have "mtx s (Shelf i) \<noteq> OwnerDied" using agrees_viewD [OF a assms(2)] by simp
  with repair_agrees(1) [OF a assms(2)] bodies_upd [OF assms(3), of "mtx s" "Locked p"] show ?thesis
    by simp
qed

lemma bodies_lock:
  assumes "mutex_inv N s" and "take_lock p m s = Some (d, t)" and "\<forall>i. m = Shelf i \<longrightarrow> i < N"
  shows "bodies N (mtx t) + of_bool d = bodies N (mtx s)"
proof -
  from assms(1) have a: "agrees (mtx s) (view N s)" "mtx s MxDead \<noteq> OwnerDied" "mtx s MxSorted \<noteq> OwnerDied"
    by (simp_all add: mutex_inv_def)
  note t = take_lock_Some [OF a(1) assms(2)]
  show ?thesis
  proof (cases "\<exists>i. m = Shelf i")
    case True
    then obtain i where i: "m = Shelf i" "i < N" using assms(3) by auto
    with t bodies_upd [OF i(2), of "mtx s" "shape p d"] show ?thesis by (cases d) simp_all
  next
    case False
    then have "m = MxDead \<or> m = MxSorted" by (cases m) auto
    with a(2,3) t(2) have "\<not> d" by (auto split: if_splits)
    with False t show ?thesis by (simp add: bodies_other)
  qed
qed

lemma worker_dead_inv:
  assumes inv: "dead_inv N M s" and mx: "mutex_inv N s" and p: "1 \<le> p" "p \<le> M"
    and step: "worker_step N p v s = Some t"
  shows "dead_inv N M t"
proof -
  have pM: "p \<in> {1..M}" "p \<noteq> 0" using p by auto
  have nd: "wpcs s p \<noteq> WDied" using step by auto
  note A = dead_inv_worker [OF inv pM(1) nd]
  have wf: "wf_w N (wpcs s p)" using mx by (simp add: mutex_inv_def)
  have vw: "view N s p = wview (wpcs s p)" using pM(2) by (rule view_sel(1))
  show ?thesis
  proof (cases "wpcs s p")
    case (WLock b x y)
    with step obtain d u where d: "take_lock p (Shelf (idx b x y)) s = Some (d, u)"
      and t: "t = (if d then say (Body p (idx b x y)) (at p (WDead b x y DLock) u)
                   else at p (after_lock b x y) u)"
      by (auto simp: say_at)
    have "idx b x y < N" using wf WLock idx_less by simp
    then have "bodies N (mtx u) + of_bool d = bodies N (mtx s)" by (intro bodies_lock [OF mx d]) simp
    with t WLock take_lock_sel [OF d] show ?thesis
      by (intro A [where c = "if d then WDead b x y DLock else after_lock b x y"])
        (auto simp: after_lock_def)
  next
    case (WDead b x y d)
    show ?thesis
    proof (cases d)
      case DLock
      with step WDead obtain e u where d: "take_lock p MxDead s = Some (e, u)"
        and t: "t = at p (WDead b x y DInc) u" by auto
      have "\<not> e" using take_lock_Some(2) [OF _ d, of N] mx by (auto simp: mutex_inv_def)
      with bodies_lock [OF mx d] t WDead DLock take_lock_sel [OF d] show ?thesis
        by (intro A [where c = "WDead b x y DInc"]) simp_all
    next
      case DInc
      with step WDead show ?thesis by (intro A [where c = "WDead b x y DUnlock"]) auto
    next
      case DUnlock
      then have "view N s p MxDead = Some False" using WDead vw by simp
      with bodies_drop [OF mx] have "bodies N (mtx (drop_lock p MxDead s)) = bodies N (mtx s)" by simp
      with DUnlock step WDead show ?thesis by (intro A [where c = "WDead b x y DRepair"]) auto
    next
      case DRepair
      have "view N s p (Shelf (idx b x y)) = Some True" using WDead vw by simp
      moreover have "idx b x y < N" using wf WDead idx_less by simp
      ultimately have "bodies N (mtx (repair p (Shelf (idx b x y)) s)) = bodies N (mtx s)"
        by (rule bodies_repair [OF mx])
      with DRepair step WDead show ?thesis
        by (intro A [where c = "after_lock b x y"]) (auto simp: after_lock_def)
    qed
  next
    case (WDraw x y)
    show ?thesis
    proof (cases "v mod 100 = 0")
      case False
      with WDraw step show ?thesis by (intro A [where c = "WWrite1 x y"]) auto
    next
      case True
      with step WDraw have t: "t = say (Trips p) (at p WDied (s\<lparr>mtx := (\<lambda>m. mx_die p (mtx s m))\<rparr>))"
        by (simp add: say_at)
      have xy: "x < N" "y < N" "x \<noteq> y" using wf WDraw by simp_all
      have a: "agrees (mtx s) (view N s)" using mx by (simp add: mutex_inv_def)
      have "mtx s (Shelf k) = Locked p \<or> mtx s (Shelf k) = Recovering p \<longleftrightarrow> k = min x y \<or> k = max x y" for k
      proof -
        have "(mtx s (Shelf k) = Locked p \<or> mtx s (Shelf k) = Recovering p) \<longleftrightarrow> (\<exists>b. mtx s (Shelf k) = shape p b)"
          by (auto simp: shape_def)
        also have "\<dots> \<longleftrightarrow> (\<exists>b. view N s p (Shelf k) = Some b)" using a by (simp add: agrees_def)
        also have "\<dots> \<longleftrightarrow> k = min x y \<or> k = max x y" using vw WDraw by auto
        finally show ?thesis .
      qed
      then have "bodies N (\<lambda>m. mx_die p (mtx s m)) = bodies N (mtx s) + 2"
        using xy by (intro bodies_die [of "min x y" N "max x y"]) (auto simp: min_def max_def)
      with WDraw t show ?thesis by (intro A [where c = WDied]) simp_all
    qed
  next
    case WSortLock
    with step obtain e u where d: "take_lock p MxSorted s = Some (e, u)" and t: "t = at p WSortTest u"
      by auto
    have "\<not> e" using take_lock_Some(2) [OF _ d, of N] mx by (auto simp: mutex_inv_def)
    with bodies_lock [OF mx d] t WSortLock take_lock_sel [OF d] show ?thesis
      by (intro A [where c = WSortTest]) simp_all
  next
    case WSortLeave
    with vw bodies_drop [OF mx, of p MxSorted] step show ?thesis by (intro A [where c = WExit]) auto
  next
    case WSortUnlock
    with vw bodies_drop [OF mx, of p MxSorted] step show ?thesis by (intro A [where c = WPickX]) auto
  next
    case (WUnlock2 x y)
    have "view N s p (Shelf (max x y)) = Some False" using WUnlock2 vw by simp
    with bodies_drop [OF mx this] wf step WUnlock2 show ?thesis by (intro A [where c = "WUnlock1 x y"]) auto
  next
    case (WUnlock1 x y)
    have "view N s p (Shelf (min x y)) = Some False" using WUnlock1 vw by simp
    moreover have "min x y < N" using WUnlock1 wf by (simp add: min_def)
    ultimately show ?thesis
      using bodies_drop [OF mx] step WUnlock1 by (intro A [where c = WTop]) auto
  next
    case (WTest x y)
    with step show ?thesis
      by (intro A [where c = "if wrong_order (log s) x y then WDraw x y else WUnlock2 x y"]) auto
  next
    case (WWrite1 x y)
    with step show ?thesis by (intro A [where c = "WWrite2 x y (log s ! x)"]) auto
  next
    case (WWrite2 x y u)
    with step show ?thesis by (intro A [where c = "WUnlock2 x y"]) auto
  next
    case WTop
    with step show ?thesis by (intro A [where c = "if sorted_flag s then WExit else WSortLock"]) auto
  next
    case WSortTest
    with step show ?thesis by (intro A [where c = "if sorted_flag s then WSortLeave else WSortUnlock"]) auto
  next
    case WPickX
    with step show ?thesis by (intro A [where c = "WPickY (v mod N)"]) auto
  next
    case (WPickY x)
    with step show ?thesis
      by (intro A [where c = "if v mod N = x then WPickY x else WLock False x (v mod N)"]) auto
  qed (use step in simp_all)
qed

lemma manager_dead_inv:
  assumes inv: "dead_inv N M s" and mx: "mutex_inv N s" and step: "manager_step N M s = Some t"
  shows "dead_inv N M t"
proof -
  note A = dead_inv_manager [OF inv]
  have wf: "wf_m N (mgr s)" using mx by (simp add: mutex_inv_def)
  have vw: "view N s 0 = mview N (mgr s)" by (rule view_sel(2))
  have no_dead: "\<not> e" if "take_lock 0 m s = Some (e, u)" "m = MxDead \<or> m = MxSorted" for e u m
    using take_lock_Some(2) [OF _ that(1), of N] mx that(2) by (auto simp: mutex_inv_def)
  show ?thesis
  proof (cases "mgr s")
    case (MLock i)
    with step obtain d u where d: "take_lock 0 (Shelf i) s = Some (d, u)"
      and t: "t = (if d then say (Body 0 i) (mat (MDead i DLock) u) else mat (next_shelf N i) u)"
      by (auto simp: say_at)
    have "bodies N (mtx u) + of_bool d = bodies N (mtx s)"
      using bodies_lock [OF mx d] wf MLock by simp
    with t MLock take_lock_sel [OF d] show ?thesis
      by (intro A) (auto simp: next_shelf_def)
  next
    case (MDead i d)
    show ?thesis
    proof (cases d)
      case DLock
      with step MDead obtain e u where d: "take_lock 0 MxDead s = Some (e, u)"
        and t: "t = mat (MDead i DInc) u" by auto
      with bodies_lock [OF mx d] no_dead [OF d] MDead DLock take_lock_sel [OF d] show ?thesis
        by (intro A) simp_all
    next
      case DInc
      with step MDead show ?thesis by (intro A) auto
    next
      case DUnlock
      then have "view N s 0 MxDead = Some False" using MDead vw by simp
      with bodies_drop [OF mx] have "bodies N (mtx (drop_lock 0 MxDead s)) = bodies N (mtx s)" by simp
      with DUnlock step MDead show ?thesis by (intro A) auto
    next
      case DRepair
      have "view N s 0 (Shelf i) = Some True" using MDead vw by simp
      then have "bodies N (mtx (repair 0 (Shelf i) s)) = bodies N (mtx s)"
        by (rule bodies_repair [OF mx]) (use wf MDead in simp)
      with DRepair step MDead show ?thesis by (intro A) (auto simp: next_shelf_def)
    qed
  next
    case MCheck
    with step show ?thesis by (intro A) auto
  next
    case (MUnlock i b)
    have "view N s 0 (Shelf i) = Some False" using MUnlock vw wf by (simp add: shelves_def)
    then have "bodies N (mtx (drop_lock 0 (Shelf i) s)) = bodies N (mtx s)"
      by (rule bodies_drop [OF mx]) (use wf MUnlock in simp)
    with MUnlock step show ?thesis by (intro A) auto
  next
    case (MDLock b)
    with step obtain e u where d: "take_lock 0 MxDead s = Some (e, u)" and t: "t = mat (MReport b) u"
      by auto
    with bodies_lock [OF mx d] no_dead [OF d] MDLock take_lock_sel [OF d] show ?thesis
      by (intro A) simp_all
  next
    case (MReport b)
    show ?thesis
    proof (cases "dead s div 2 = M")
      case False
      with MReport step show ?thesis by (intro A) (auto simp: Let_def)
    next
      case True
      have le: "died M s \<le> M"
        using sum_bounded_above [of "{1..M}" "\<lambda>p. of_bool (wpcs s p = WDied)" "1 :: nat"]
        by (simp add: died_def del: sum_of_bool_eq)
      have "dead s \<le> 2 * died M s" using inv by (auto simp: dead_inv_def)
      with True le have "died M s = M" by linarith
      then have all: "\<forall>p \<in> {1..M}. wpcs s p = WDied" using died_all by blast
      from True MReport step have
        t: "t = mat (MDUnlock b True) (say AllDied (say (Alive (int M - int (dead s div 2))) s))"
        by (simp add: Let_def)
      from inv all show ?thesis unfolding t by (simp add: dead_inv_def died_def MReport)
    qed
  next
    case (MDUnlock b c)
    then have "view N s 0 MxDead = Some False" using vw by simp
    with bodies_drop [OF mx] have "bodies N (mtx (drop_lock 0 MxDead s)) = bodies N (mtx s)" by simp
    with MDUnlock step show ?thesis by (intro A) (auto simp: Let_def split: if_splits)
  next
    case MSetLock
    with step obtain e u where d: "take_lock 0 MxSorted s = Some (e, u)" and t: "t = mat MSet u" by auto
    with bodies_lock [OF mx d] no_dead [OF d] MSetLock take_lock_sel [OF d] show ?thesis
      by (intro A) simp_all
  next
    case MSet
    with step show ?thesis by (intro A) auto
  next
    case MSetUnlock
    then have "view N s 0 MxSorted = Some False" using vw by simp
    with bodies_drop [OF mx] have "bodies N (mtx (drop_lock 0 MxSorted s)) = bodies N (mtx s)" by simp
    with MSetUnlock step show ?thesis by (intro A) auto
  next
    case (MExit b)
    with step show ?thesis by simp
  qed
qed

section \<open>The invariant of the program\<close>

definition shop_inv :: "nat \<Rightarrow> nat \<Rightarrow> shop \<Rightarrow> bool" where
  "shop_inv N M s \<longleftrightarrow> 0 < N \<and> mutex_inv N s \<and> shelf_inv N s \<and> dead_inv N M s \<and>
     (\<forall>p > M. wpcs s p = WTop)"

definition shop_initial :: "nat \<Rightarrow> shop \<Rightarrow> bool" where
  "shop_initial N s \<longleftrightarrow> 0 < N \<and> shop_init N s"

lemma shop_inv_start: "0 < N \<Longrightarrow> shop_inv N M (shop_start N r)"
proof -
  assume N: "0 < N"
  let ?s = "shop_start N r"
  have m: "mset (log ?s) = mset [0..<N]" using mset_shuffle [of "[0..<N]" N r] by (simp add: shop_start_def)
  then have "length (log ?s) = N" by (metis length_upt minus_nat.diff_0 size_mset)
  moreover from this have "patched N ?s (log ?s)"
    by (auto simp: patched_def pending_def shop_start_def)
  ultimately have "shelf_inv N ?s" using m by (auto simp: shelf_inv_def) (simp_all add: shop_start_def)
  moreover have "dead_inv N M ?s" by (simp add: dead_inv_def bodies_def died_def shop_start_def)
  ultimately show ?thesis using mutex_inv_start [OF N] N
    by (simp add: shop_inv_def) (simp add: shop_start_def)
qed

lemma worker_step_pcs: "worker_step N p v s = Some t \<Longrightarrow> q \<noteq> p \<Longrightarrow> wpcs t q = wpcs s q"
  by (cases "wpcs s p") (auto dest!: take_lock_sel split: dstage.splits)

lemma manager_step_pcs: "manager_step N M s = Some t \<Longrightarrow> wpcs t = wpcs s"
proof -
  assume step: "manager_step N M s = Some t"
  show ?thesis
  proof (cases "mgr s")
    case (MDead i d)
    with step show ?thesis by (cases d) (auto dest!: take_lock_sel)
  next
    case (MReport b)
    with step have "t \<in> {mat (MDUnlock b True) (say AllDied (say (Alive (int M - int (dead s div 2))) s)),
        mat (MDUnlock b False) (say (Alive (int M - int (dead s div 2))) s)}"
      by (simp add: Let_def split: if_splits)
    then show ?thesis by auto
  next
    case (MDUnlock b c)
    with step show ?thesis by (cases b; cases c) (auto simp: Let_def)
  qed (use step in \<open>auto dest!: take_lock_sel\<close>)
qed

interpretation shop: inv_system "shop_initial N" "shop_step N M" "shop_inv N M" for N M
proof unfold_locales
  fix s assume "shop_initial N s"
  then show "shop_inv N M s" using shop_inv_start by (auto simp: shop_initial_def shop_init_def)
next
  fix s t assume "shop_inv N M s" and "shop_step N M s t"
  note inv = \<open>shop_inv N M s\<close> [unfolded shop_inv_def]
  from \<open>shop_step N M s t\<close> show "shop_inv N M t"
  proof cases
    case (worker p v)
    then have "p \<noteq> 0" by simp
    with worker inv worker_mutex_inv [of N s p v t] worker_shelf_inv [of N s p v t]
      worker_dead_inv [of N M s p v t] worker_step_pcs [OF worker(3)] show ?thesis
      unfolding shop_inv_def by (metis leD)
  next
    case manager
    with inv manager_mutex_inv [of N s M t] manager_shelf_inv [of N s M t]
      manager_dead_inv [of N M s t] manager_step_pcs [OF manager] show ?thesis
      unfolding shop_inv_def by simp
  qed
qed

section \<open>No deadlock\<close>

fun wwaits :: "wpc \<Rightarrow> mid option" where
  "wwaits WSortLock = Some MxSorted"
| "wwaits (WLock b x y) = Some (Shelf (idx b x y))"
| "wwaits (WDead _ _ _ d) = (if d = DLock then Some MxDead else None)"
| "wwaits _ = None"

fun mwaits :: "mpc \<Rightarrow> mid option" where
  "mwaits (MLock i) = Some (Shelf i)"
| "mwaits (MDead _ d) = (if d = DLock then Some MxDead else None)"
| "mwaits (MDLock _) = Some MxDead"
| "mwaits MSetLock = Some MxSorted"
| "mwaits _ = None"

definition waits :: "nat \<Rightarrow> nat \<Rightarrow> shop \<Rightarrow> nat \<Rightarrow> mid option" where
  "waits N M s q =
     (if shop_inv N M s then if q = 0 then mwaits (mgr s) else wwaits (wpcs s q) else None)"

definition holding :: "nat \<Rightarrow> nat \<Rightarrow> shop \<Rightarrow> nat \<Rightarrow> mid \<Rightarrow> bool" where
  "holding N M s q m \<longleftrightarrow> shop_inv N M s \<and> view N s q m \<noteq> None"

definition rank :: "nat \<Rightarrow> mid \<Rightarrow> nat" where
  "rank N m = (case m of Shelf i \<Rightarrow> i | _ \<Rightarrow> N)"

definition ended :: "shop \<Rightarrow> nat \<Rightarrow> bool" where
  "ended s q \<longleftrightarrow>
     (if q = 0 then \<exists>b. mgr s = MExit b else wpcs s q = WExit \<or> wpcs s q = WDied)"

definition running :: "nat \<Rightarrow> shop \<Rightarrow> nat set" where
  "running M s = {q \<in> {0..M}. \<not> ended s q}"

text \<open>Everyone locks shelves in ascending order, and the two counters' mutexes last.\<close>

lemma worker_order:
  "wf_w N c \<Longrightarrow> wwaits c = Some m \<Longrightarrow> wview c m' \<noteq> None \<Longrightarrow> rank N m' < rank N m"
  by (cases c) (auto simp: rank_def idx_def split: if_splits mid.splits)

lemma manager_order:
  "wf_m N c \<Longrightarrow> mwaits c = Some m \<Longrightarrow> mview N c m' \<noteq> None \<Longrightarrow> rank N m' < rank N m"
  by (cases c) (auto simp: rank_def shelves_def split: if_splits mid.splits)

interpretation shop_order: lock_order "waits N M s" "holding N M s" "rank N" "running M s" for N M s
proof unfold_locales
  show "finite (running M s)" by (simp add: running_def)
next
  fix q m m' assume w: "waits N M s q = Some m" and h: "holding N M s q m'"
  then have "wf_w N (wpcs s q)" "wf_m N (mgr s)"
    by (auto simp: holding_def shop_inv_def mutex_inv_def)
  with w h worker_order [of N "wpcs s q" m m'] manager_order [of N "mgr s" m m']
  show "rank N m' < rank N m"
    by (auto simp: waits_def holding_def view_def split: if_splits)
next
  fix q m assume h: "holding N M s q m"
  then have v: "view N s q m \<noteq> None" and idle: "\<forall>p > M. wpcs s p = WTop"
    by (simp_all add: holding_def shop_inv_def)
  have "q \<le> M" using v idle by (cases "q \<le> M") (auto simp: view_def split: if_splits)
  moreover have "\<not> ended s q" using v by (auto simp: ended_def view_def split: if_splits)
  ultimately show "q \<in> running M s" by (simp add: running_def)
qed

lemma take_lock_free:
  assumes "shop_inv N M s" and "\<not> (\<exists>q. holding N M s q m)"
  shows "\<exists>d t. take_lock p m s = Some (d, t)"
proof -
  have a: "agrees (mtx s) (view N s)" using assms(1) by (simp add: shop_inv_def mutex_inv_def)
  have "mx_lock p (mtx s m) \<noteq> Blocks"
    using agrees_blocks [OF a, of p m] assms by (auto simp: holding_def)
  then show ?thesis by (cases "mx_lock p (mtx s m)") (auto simp: take_lock_def)
qed

lemma worker_can_step:
  assumes "wpcs s p \<noteq> WExit" and "wpcs s p \<noteq> WDied"
    and "\<And>m. wwaits (wpcs s p) = Some m \<Longrightarrow> \<exists>d t. take_lock p m s = Some (d, t)"
  shows "\<exists>t. worker_step N p v s = Some t"
  using assms by (cases "wpcs s p") (auto split: dstage.splits)

lemma manager_can_step:
  assumes "\<forall>b. mgr s \<noteq> MExit b"
    and "\<And>m. mwaits (mgr s) = Some m \<Longrightarrow> \<exists>d t. take_lock 0 m s = Some (d, t)"
  shows "\<exists>t. manager_step N M s = Some t"
  using assms by (cases "mgr s") (auto simp: Let_def split: dstage.splits)

lemma shop_progress:
  assumes inv: "shop_inv N M s" and "\<exists>q \<le> M. \<not> ended s q"
  shows "\<exists>t. shop_step N M s t"
proof -
  have "running M s \<noteq> {}" using assms(2) by (auto simp: running_def)
  from shop_order.not_all_blocked [OF this, of N] obtain q where
    q: "q \<le> M" "\<not> ended s q" and free: "\<forall>m. waits N M s q = Some m \<longrightarrow> \<not> (\<exists>q'. holding N M s q' m)"
    by (auto simp: running_def)
  show ?thesis
  proof (cases "q = 0")
    case True
    have "\<exists>t. manager_step N M s = Some t"
      by (rule manager_can_step)
        (use q True free take_lock_free [OF inv] inv in \<open>auto simp: ended_def waits_def\<close>)
    then show ?thesis using shop_step.manager by blast
  next
    case False
    have "\<exists>t. worker_step N q 0 s = Some t"
      by (rule worker_can_step)
        (use q False free take_lock_free [OF inv] inv in \<open>auto simp: ended_def waits_def\<close>)
    then show ?thesis using shop_step.worker [of q M N 0 s] q(1) False by auto
  qed
qed

section \<open>Properties\<close>

text \<open>Concrete runs: the numbers of the processes that move, with the random values they draw.\<close>

fun exec :: "nat \<Rightarrow> nat \<Rightarrow> (nat \<times> nat) list \<Rightarrow> shop \<Rightarrow> shop option" where
  "exec N M [] s = Some s"
| "exec N M ((p, v) # cs) s =
     (case (if p = 0 then manager_step N M s else worker_step N p v s) of
        None \<Rightarrow> None | Some t \<Rightarrow> exec N M cs t)"

lemma exec_reach:
  "reach init (shop_step N M) s \<Longrightarrow> \<forall>c \<in> set cs. fst c \<le> M \<Longrightarrow> exec N M cs s = Some t \<Longrightarrow>
   reach init (shop_step N M) t"
proof (induction cs arbitrary: s)
  case Nil
  then show ?case by simp
next
  case (Cons c cs)
  obtain p v where c: "c = (p, v)" by fastforce
  with Cons.prems(3) obtain u where
    u: "(if p = 0 then manager_step N M s else worker_step N p v s) = Some u" "exec N M cs u = Some t"
    by (auto split: option.splits)
  have "shop_step N M s u"
    using u(1) Cons.prems(2) c shop_step.manager [of N M s u] shop_step.worker [of p M N v s u]
    by (auto split: if_splits)
  with Cons u(2) show ?case by (auto intro: reach_step)
qed

lemma reach_start: "0 < N \<Longrightarrow> reach (shop_initial N) (shop_step N M) (shop_start N r)"
  by (rule reach_init) (auto simp: shop_initial_def shop_init_def)

text \<open>
  C3: no item is ever lost or doubled: in every reachable state in which no worker is between the
  two writes of a swap, the shelves hold each item exactly once, however many workers died.
\<close>

theorem shop_permutation:
  assumes "reach (shop_initial N) (shop_step N M) s" and "\<forall>p x y u. wpcs s p \<noteq> WWrite2 x y u"
  shows "mset (log s) = mset [0..<N]"
proof -
  from shop.reach_inv [OF assms(1)] obtain l where
    l: "patched N s l" "mset l = mset [0..<N]" "length (log s) = N"
    by (auto simp: shop_inv_def shelf_inv_def)
  have "\<not> pending s p i u" for p i u using assms(2) by (simp add: pending_def)
  with l(1,3) have "l = log s" by (auto simp: patched_def list_eq_iff_nth_eq)
  with l(2) show ?thesis by simp
qed

theorem shop_permutation_witness:
  "mset (log (shop_start 8 (\<lambda>_. 5))) = mset [0..<8]"
  by (rule shop_permutation [OF reach_start]) (simp_all add: shop_start_def)

text \<open>
  C2: when the manager has announced that the shelves are sorted (in print or by the shared flag),
  they are sorted, and they stay sorted in every later state of the shift.
\<close>

theorem shop_announced_sorted:
  assumes "reach (shop_initial N) (shop_step N M) s"
    and "sorted_flag s \<or> ShelvesSorted \<in> set (said s) \<or> mgr s = MExit True"
  shows "log s = [0..<N]"
  using shop.reach_inv [OF assms(1)] assms(2) announced_settled [of "mgr s"]
  by (auto simp: shop_inv_def shelf_inv_def)

definition demo_shift :: "(nat \<times> nat) list" where
  "demo_shift = replicate 10 (0, 0)"

lemma demo_shift_run:
  "case exec 2 1 demo_shift (shop_start 2 (\<lambda>_. 1)) of None \<Rightarrow> False | Some t \<Rightarrow> sorted_flag t"
  by code_simp

theorem shop_announced_sorted_witness:
  "\<exists>t. exec 2 1 demo_shift (shop_start 2 (\<lambda>_. 1)) = Some t \<and> log t = [0, 1]"
proof -
  from demo_shift_run obtain t where
    t: "exec 2 1 demo_shift (shop_start 2 (\<lambda>_. 1)) = Some t" "sorted_flag t"
    by (auto split: option.splits)
  have "reach (shop_initial 2) (shop_step 2 1) t"
    by (rule exec_reach [OF reach_start _ t(1)]) (simp_all add: demo_shift_def)
  from shop_announced_sorted [OF this] t show ?thesis by (simp add: numeral_2_eq_2)
qed

text \<open>
  C5: the dead are counted right: the counter never exceeds two per dead worker, so the manager
  never reports fewer workers than are alive, and gives up only when every worker has died.
\<close>

theorem shop_dead_count:
  assumes "reach (shop_initial N) (shop_step N M) s"
  shows "dead s \<le> 2 * card {p \<in> {1..M}. wpcs s p = WDied}
    \<and> (AllDied \<in> set (said s) \<longrightarrow> (\<forall>p \<in> {1..M}. wpcs s p = WDied))"
proof -
  have "{p \<in> {1..M}. wpcs s p = WDied} = {1..M} \<inter> {p. wpcs s p = WDied}" by auto
  then have "died M s = card {p \<in> {1..M}. wpcs s p = WDied}" by (simp add: died_def)
  with shop.reach_inv [OF assms] show ?thesis by (auto simp: shop_inv_def dead_inv_def)
qed

text \<open>A shift of one worker who dies over two shelves in the wrong order.\<close>

definition demo_death :: "(nat \<times> nat) list" where
  "demo_death =
     [(1, 0), (1, 0), (1, 0), (1, 0), (1, 0), (1, 1), (1, 0), (1, 0), (1, 0), (1, 0)] @ replicate 16 (0, 0)"

lemma demo_death_run:
  "case exec 2 1 demo_death (shop_start 2 (\<lambda>_. 0)) of
     None \<Rightarrow> False | Some t \<Rightarrow> AllDied \<in> set (said t) \<and> dead t = 2"
  by code_simp

theorem shop_dead_count_witness:
  "\<exists>t. exec 2 1 demo_death (shop_start 2 (\<lambda>_. 0)) = Some t \<and> dead t = 2 \<and> wpcs t 1 = WDied"
proof -
  from demo_death_run obtain t where
    t: "exec 2 1 demo_death (shop_start 2 (\<lambda>_. 0)) = Some t" "AllDied \<in> set (said t)" "dead t = 2"
    by (auto split: option.splits)
  have "reach (shop_initial 2) (shop_step 2 1) t"
    by (rule exec_reach [OF reach_start _ t(1)]) (simp_all add: demo_death_def)
  from shop_dead_count [OF this] t show ?thesis by auto
qed

text \<open>
  C4: the shift cannot deadlock, whoever dies: in every reachable state in which some process has
  not ended, some process can take a step.
\<close>

theorem shop_no_deadlock:
  assumes "reach (shop_initial N) (shop_step N M) s" and "\<exists>q \<le> M. \<not> ended s q"
  shows "\<exists>t. shop_step N M s t"
  using shop_progress [OF shop.reach_inv [OF assms(1)] assms(2)] .

theorem shop_no_deadlock_witness: "\<exists>t. shop_step 8 3 (shop_start 8 (\<lambda>_. 5)) t"
proof -
  have "\<not> ended (shop_start 8 (\<lambda>_. 5)) 1" by (simp add: ended_def shop_start_def)
  then have "\<exists>q \<le> 3. \<not> ended (shop_start 8 (\<lambda>_. 5)) q" by (intro exI [of _ 1]) simp
  then show ?thesis by (intro shop_no_deadlock [OF reach_start]) simp_all
qed

end
