(* ===== verification/Channel.thy ===== *)
theory Channel
  imports Io
begin

text \<open>
  The shared-memory channel of \<^verbatim>\<open>lab06/channel\<close> (\<^verbatim>\<open>channel.c\<close>,
  \<^verbatim>\<open>channel.h\<close>) and the program \<^verbatim>\<open>ops-double-processor.c\<close>, which
  doubles every character between two channels.

  The operations run under the mutex of the channel, so each is one atomic step; waiting on a
  condition variable is an operation that is not enabled yet (\<open>None\<close>).
\<close>

section \<open>The channel\<close>

abbreviation CHANNEL_SIZE :: nat where "CHANNEL_SIZE \<equiv> 4096"

datatype status = UNINITIALIZED | EMPTY | OCCUPIED | DEPLETED

record channel =
  status :: status
  cdata :: "byte list"
  clen :: nat

datatype chan_eff = SemOpen string | SemWait | SemPost | SemClose | ShmOpen string | Truncate | Mmap | CloseShm

record open_answers =
  sem_ok :: bool
  shm_ok :: bool
  trunc_ok :: bool
  map_ok :: bool

text \<open>
  \<^verbatim>\<open>channel_open\<close>: the semaphore guards the initialisation of a fresh channel; \<open>c\<close> is
  the content of the shared memory.  The name is cut to fit \<^verbatim>\<open>PATH_MAX\<close> (4096).
\<close>

definition sem_name :: "string \<Rightarrow> string" where
  "sem_name path = ''sem_'' @ take 4091 path"

definition init_channel :: "channel \<Rightarrow> channel" where
  "init_channel c = (if status c = UNINITIALIZED then c\<lparr>status := EMPTY, clen := 0\<rparr> else c)"

definition channel_open :: "open_answers \<Rightarrow> string \<Rightarrow> channel \<Rightarrow> (chan_eff, channel) io" where
  "channel_open a path c =
     seq (emit [SemOpen (sem_name path)]) (\<lambda>_.
     if \<not> sem_ok a then die (ERR ''sem_open'')
     else seq (emit [SemWait, ShmOpen path]) (\<lambda>_.
     if \<not> shm_ok a then seq (emit [SemPost]) (\<lambda>_. die (ERR ''shm_open''))
     else seq (emit [Truncate]) (\<lambda>_.
     if \<not> trunc_ok a then seq (emit [SemPost]) (\<lambda>_. die (ERR ''ftruncate''))
     else seq (emit [Mmap]) (\<lambda>_.
     if \<not> map_ok a then seq (emit [SemPost]) (\<lambda>_. die (ERR ''mmap''))
     else seq (emit [CloseShm, SemPost, SemClose]) (\<lambda>_. ret (init_channel c))))))"

text \<open>
  \<^verbatim>\<open>channel_produce\<close> copies without looking at the length; more than the size of the
  buffer is an access outside it.
\<close>

definition channel_produce :: "byte list \<Rightarrow> channel \<Rightarrow> channel run option" where
  "channel_produce d c =
     (if status c = OCCUPIED then None
      else Some (if length d > CHANNEL_SIZE then Inl (Undefined ''buffer overflow'')
                 else Inr (c\<lparr>cdata := d @ drop (length d) (cdata c), clen := length d, status := OCCUPIED\<rparr>)))"

text \<open>\<open>Some (1, [], c)\<close> is the return value 1; otherwise 0 with the data copied out.\<close>

definition channel_consume :: "channel \<Rightarrow> (nat \<times> byte list \<times> channel) option" where
  "channel_consume c =
     (if status c = EMPTY then None
      else if status c = DEPLETED then Some (1, [], c)
      else Some (0, take (clen c) (cdata c), c\<lparr>status := EMPTY\<rparr>))"

section \<open>The double processor\<close>

text \<open>The inner loop on one consumed chunk: the pieces handed to \<^verbatim>\<open>channel_produce\<close>.\<close>

definition put :: "byte list \<Rightarrow> byte \<Rightarrow> byte list list \<times> byte list" where
  "put out_buf b =
     (let out = out_buf @ [b] in if length out = CHANNEL_SIZE then ([out], []) else ([], out))"

fun double_loop :: "byte list \<Rightarrow> byte list \<Rightarrow> byte list list" where
  "double_loop [] out_buf = (if length out_buf > 0 then [out_buf] else [])"
| "double_loop (b # bs) out_buf =
     (let (p1, out1) = put out_buf b; (p2, out2) = put out1 b in p1 @ p2 @ double_loop bs out2)"

datatype ppc = PConsume | PProduce "byte list list" | PDeplete | PDone

record dsys =
  ch_in :: channel
  ch_out :: channel
  ppc :: ppc
  consumed :: "byte list"
  received :: "byte list list"

definition processor_step :: "dsys \<Rightarrow> dsys run option" where
  "processor_step s =
     (case ppc s of
        PConsume \<Rightarrow>
          (case channel_consume (ch_in s) of
             None \<Rightarrow> None
           | Some (r, d, c) \<Rightarrow>
               Some (Inr (if r = 0
                 then s\<lparr>ch_in := c, consumed := consumed s @ d, ppc := PProduce (double_loop d [])\<rparr>
                 else s\<lparr>ch_in := c, ppc := PDeplete\<rparr>)))
      | PProduce [] \<Rightarrow> Some (Inr (s\<lparr>ppc := PConsume\<rparr>))
      | PProduce (d # ds) \<Rightarrow>
          map_option (\<lambda>r. bindr r (\<lambda>c. Inr (s\<lparr>ch_out := c, ppc := PProduce ds\<rparr>)))
            (channel_produce d (ch_out s))
      | PDeplete \<Rightarrow> Some (Inr (s\<lparr>ch_out := (ch_out s)\<lparr>status := DEPLETED\<rparr>, ppc := PDone\<rparr>))
      | PDone \<Rightarrow> None)"

text \<open>
  The processor between a producer that obeys the documented limit and any number of consumers;
  \<open>feed_end\<close> is the producer's last act.
\<close>

inductive dstep :: "dsys \<Rightarrow> dsys \<Rightarrow> bool" where
  process: "processor_step s = Some (Inr t) \<Longrightarrow> dstep s t"
| feed: "length d \<le> CHANNEL_SIZE \<Longrightarrow> channel_produce d (ch_in s) = Some (Inr c) \<Longrightarrow>
     dstep s (s\<lparr>ch_in := c\<rparr>)"
| feed_end: "dstep s (s\<lparr>ch_in := (ch_in s)\<lparr>status := DEPLETED\<rparr>\<rparr>)"
| receive: "channel_consume (ch_out s) = Some (0, d, c) \<Longrightarrow>
     dstep s (s\<lparr>ch_out := c, received := received s @ [d]\<rparr>)"

definition dinit :: "dsys \<Rightarrow> bool" where
  "dinit s \<longleftrightarrow>
     (\<exists>c1 c2. length (cdata c1) = CHANNEL_SIZE \<and> length (cdata c2) = CHANNEL_SIZE \<and>
        status c1 = UNINITIALIZED \<and> status c2 = UNINITIALIZED \<and>
        s = \<lparr>ch_in = init_channel c1, ch_out = init_channel c2, ppc = PConsume, consumed = [], received = []\<rparr>)"

section \<open>The contract of a channel\<close>

text \<open>
  One place: what is put in comes out, once, unchanged.  \<open>content\<close> is what a consumer would get.
\<close>

locale one_place =
  fixes produce :: "'d \<Rightarrow> 'c \<Rightarrow> 'c option"
    and consume :: "'c \<Rightarrow> ('d \<times> 'c) option"
    and content :: "'c \<Rightarrow> 'd option"
    and good :: "'c \<Rightarrow> bool"
  assumes produce_content: "good c \<Longrightarrow> produce d c = Some c' \<Longrightarrow> content c = None \<and> content c' = Some d \<and> good c'"
    and consume_content: "good c \<Longrightarrow> consume c = Some (d, c') \<Longrightarrow> content c = Some d \<and> content c' = None \<and> good c'"
begin

lemma produce_consume:
  "good c \<Longrightarrow> produce d c = Some c' \<Longrightarrow> consume c' = Some (e, c'') \<Longrightarrow> e = d \<and> content c'' = None"
  using produce_content consume_content by (metis option.inject)

text \<open>A log of what went in equals what came out followed by what is inside.\<close>

definition balanced :: "'d list \<Rightarrow> 'd list \<Rightarrow> 'c \<Rightarrow> bool" where
  "balanced ins outs c \<longleftrightarrow> ins = outs @ (case content c of None \<Rightarrow> [] | Some d \<Rightarrow> [d])"

lemma balanced_produce:
  "good c \<Longrightarrow> balanced ins outs c \<Longrightarrow> produce d c = Some c' \<Longrightarrow> balanced (ins @ [d]) outs c'"
  using produce_content [of c d c'] by (simp add: balanced_def)

lemma balanced_consume:
  "good c \<Longrightarrow> balanced ins outs c \<Longrightarrow> consume c = Some (d, c') \<Longrightarrow> balanced ins (outs @ [d]) c'"
  using consume_content [of c d c'] by (simp add: balanced_def)

end

definition content :: "channel \<Rightarrow> byte list option" where
  "content c = (if status c = OCCUPIED then Some (take (clen c) (cdata c)) else None)"

definition produced :: "byte list \<Rightarrow> channel \<Rightarrow> channel option" where
  "produced d c = (case channel_produce d c of Some (Inr c') \<Rightarrow> Some c' | _ \<Rightarrow> None)"

definition pulled :: "channel \<Rightarrow> (byte list \<times> channel) option" where
  "pulled c = (case channel_consume c of Some (r, d, c') \<Rightarrow> if r = 0 then Some (d, c') else None | None \<Rightarrow> None)"

definition good_channel :: "channel \<Rightarrow> bool" where
  "good_channel c \<longleftrightarrow> length (cdata c) = CHANNEL_SIZE \<and> status c \<noteq> UNINITIALIZED"

interpretation ch: one_place produced pulled content good_channel
proof unfold_locales
  fix c d c' assume "good_channel c" and "produced d c = Some c'"
  then show "content c = None \<and> content c' = Some d \<and> good_channel c'"
    by (auto simp: produced_def channel_produce_def content_def good_channel_def
        split: option.splits sum.splits if_splits)
next
  fix c d c' assume "good_channel c" and "pulled c = Some (d, c')"
  then show "content c = Some d \<and> content c' = None \<and> good_channel c'"
    by (auto simp: pulled_def channel_consume_def content_def good_channel_def split: if_splits)
      (metis status.exhaust)+
qed

section \<open>What the processor does\<close>

definition doubled :: "byte list \<Rightarrow> byte list" where
  "doubled bs = concat (map (\<lambda>b. [b, b]) bs)"

lemma doubled_append [simp]: "doubled (xs @ ys) = doubled xs @ doubled ys"
  by (simp add: doubled_def)

definition pieces_ok :: "byte list list \<Rightarrow> bool" where
  "pieces_ok ps \<longleftrightarrow> (\<forall>p \<in> set ps. p \<noteq> [] \<and> length p \<le> CHANNEL_SIZE)"

lemma pieces_ok_simps [simp]:
  "pieces_ok []" "pieces_ok (p # ps) \<longleftrightarrow> p \<noteq> [] \<and> length p \<le> CHANNEL_SIZE \<and> pieces_ok ps"
  "pieces_ok (ps @ qs) \<longleftrightarrow> pieces_ok ps \<and> pieces_ok qs"
  by (auto simp: pieces_ok_def)

lemma put_spec:
  assumes "length out < CHANNEL_SIZE" and "put out b = (p, out')"
  shows "concat p @ out' = out @ [b]" and "length out' < CHANNEL_SIZE" and "pieces_ok p"
  using assms by (auto simp: put_def Let_def split: if_splits)

lemma double_loop_spec:
  "length out < CHANNEL_SIZE \<Longrightarrow>
   concat (double_loop bs out) = out @ doubled bs \<and> pieces_ok (double_loop bs out)"
proof (induction bs arbitrary: out)
  case Nil
  then show ?case by (simp add: doubled_def)
next
  case (Cons b bs)
  obtain p1 out1 where p1: "put out b = (p1, out1)" by fastforce
  obtain p2 out2 where p2: "put out1 b = (p2, out2)" by fastforce
  note s1 = put_spec [OF Cons.prems p1]
  note s2 = put_spec [OF s1(2) p2]
  have "concat p1 @ concat p2 @ out2 = out @ [b, b]"
    using s1(1) s2(1) by (metis append.assoc append_Cons append_Nil)
  with Cons.IH [OF s2(2)] p1 p2 s1 s2 show ?case
    by (simp add: doubled_def)
qed

text \<open>\<open>inside\<close>: the data in the outgoing channel; \<open>waiting\<close>: the pieces not yet handed over.\<close>

definition inside :: "channel \<Rightarrow> byte list" where
  "inside c = (case content c of None \<Rightarrow> [] | Some d \<Rightarrow> d)"

fun waiting :: "ppc \<Rightarrow> byte list list" where
  "waiting (PProduce ds) = ds"
| "waiting _ = []"

definition dinv :: "dsys \<Rightarrow> bool" where
  "dinv s \<longleftrightarrow>
     good_channel (ch_in s) \<and> good_channel (ch_out s) \<and>
     pieces_ok (received s) \<and> pieces_ok (waiting (ppc s)) \<and>
     (content (ch_out s) \<noteq> None \<longrightarrow> pieces_ok [inside (ch_out s)]) \<and>
     (if ppc s = PDone
      then status (ch_out s) = DEPLETED \<and>
           (\<exists>lost. doubled (consumed s) = concat (received s) @ lost \<and> length lost \<le> CHANNEL_SIZE)
      else doubled (consumed s) = concat (received s) @ inside (ch_out s) @ concat (waiting (ppc s)))"

lemma produced_eq: "channel_produce d c = Some (Inr c') \<Longrightarrow> produced d c = Some c'"
  by (simp add: produced_def)

lemma pulled_eq: "channel_consume c = Some (0, d, c') \<Longrightarrow> pulled c = Some (d, c')"
  by (simp add: pulled_def)

lemma length_inside: "good_channel c \<Longrightarrow> length (inside c) \<le> CHANNEL_SIZE"
  by (auto simp: inside_def content_def good_channel_def)

lemma dinv_init: "dinit s \<Longrightarrow> dinv s"
  by (auto simp: dinit_def dinv_def init_channel_def good_channel_def inside_def content_def doubled_def)

lemma dinv_process:
  assumes inv: "dinv s" and step: "processor_step s = Some (Inr t)"
  shows "dinv t"
proof (cases "ppc s")
  case PConsume
  with step obtain r d c where c: "channel_consume (ch_in s) = Some (r, d, c)"
    and t: "t = (if r = 0 then s\<lparr>ch_in := c, consumed := consumed s @ d, ppc := PProduce (double_loop d [])\<rparr>
                 else s\<lparr>ch_in := c, ppc := PDeplete\<rparr>)"
    by (auto simp: processor_step_def split: option.splits)
  have "good_channel c"
    using c inv by (auto simp: channel_consume_def good_channel_def dinv_def split: if_splits)
  with t inv PConsume double_loop_spec [of "[]" d] show ?thesis
    by (auto simp: dinv_def)
next
  case (PProduce ds)
  show ?thesis
  proof (cases ds)
    case Nil
    with step PProduce inv show ?thesis by (auto simp: processor_step_def dinv_def)
  next
    case (Cons d ds')
    with step PProduce obtain c where c: "channel_produce d (ch_out s) = Some (Inr c)"
      and t: "t = s\<lparr>ch_out := c, ppc := PProduce ds'\<rparr>"
      by (auto simp: processor_step_def bindr_eq_Inr_iff)
    from inv have "good_channel (ch_out s)" by (simp add: dinv_def)
    from ch.produce_content [OF this produced_eq [OF c]] t inv PProduce Cons show ?thesis
      by (auto simp: dinv_def inside_def)
  qed
next
  case PDeplete
  with step have t: "t = s\<lparr>ch_out := (ch_out s)\<lparr>status := DEPLETED\<rparr>, ppc := PDone\<rparr>"
    by (auto simp: processor_step_def)
  from inv PDeplete have "doubled (consumed s) = concat (received s) @ inside (ch_out s)"
    "good_channel (ch_out s)" by (auto simp: dinv_def)
  moreover from this(2) have "good_channel ((ch_out s)\<lparr>status := DEPLETED\<rparr>)"
    "content ((ch_out s)\<lparr>status := DEPLETED\<rparr>) = None"
    by (simp_all add: good_channel_def content_def)
  ultimately show ?thesis
    using inv PDeplete length_inside unfolding t dinv_def by auto
next
  case PDone
  with step show ?thesis by (simp add: processor_step_def)
qed

lemma dinv_receive:
  assumes inv: "dinv s" and c: "channel_consume (ch_out s) = Some (0, d, c)"
  shows "dinv (s\<lparr>ch_out := c, received := received s @ [d]\<rparr>)"
proof -
  from inv have "good_channel (ch_out s)" by (simp add: dinv_def)
  note P = ch.consume_content [OF this pulled_eq [OF c]]
  have "status (ch_out s) \<noteq> DEPLETED" using c by (auto simp: channel_consume_def split: if_splits)
  with P inv show ?thesis by (auto simp: dinv_def inside_def)
qed

interpretation dbl: inv_system dinit dstep dinv
proof unfold_locales
  show "dinit s \<Longrightarrow> dinv s" for s by (rule dinv_init)
next
  fix s t assume inv: "dinv s" and "dstep s t"
  from this(2) show "dinv t"
  proof cases
    case process
    with inv dinv_process show ?thesis by blast
  next
    case (feed d c)
    from inv have "good_channel (ch_in s)" by (simp add: dinv_def)
    from ch.produce_content [OF this produced_eq [OF feed(3)]] feed(1) inv show ?thesis
      by (simp add: dinv_def)
  next
    case feed_end
    with inv show ?thesis by (simp add: dinv_def good_channel_def)
  next
    case (receive d c)
    with inv dinv_receive show ?thesis by blast
  qed
qed

section \<open>Properties\<close>

text \<open>
  C8: whatever the producers feed and however the consumers interleave, the consumers of the output
  channel get the consumed input with every byte doubled, in order, without gaps, in non-empty
  pieces of at most 4096 bytes, so no write leaves the buffer.
\<close>

theorem double_processor_output:
  assumes "reach dinit dstep s"
  shows "(\<exists>rest. doubled (consumed s) = concat (received s) @ rest)
    \<and> (\<forall>p \<in> set (received s). 0 < length p \<and> length p \<le> CHANNEL_SIZE)
    \<and> (\<forall>e. processor_step s \<noteq> Some (Inl e))"
proof (intro conjI allI)
  note inv = dbl.reach_inv [OF assms]
  show "\<exists>rest. doubled (consumed s) = concat (received s) @ rest"
    using inv by (cases "ppc s = PDone") (auto simp: dinv_def)
  show "\<forall>p \<in> set (received s). 0 < length p \<and> length p \<le> CHANNEL_SIZE"
    using inv by (auto simp: dinv_def pieces_ok_def)
  show "processor_step s \<noteq> Some (Inl e)" for e
    using inv by (auto simp: processor_step_def channel_produce_def dinv_def bindr_eq_Inl_iff
        split: ppc.splits option.splits list.splits if_splits)
qed

text \<open>
  The end of the processing can lose the last piece.  The processor sets the status to depleted
  without waiting for the last piece to be consumed: from any state in which it is about to end
  while the output channel is occupied, the piece is gone after its next step and no consumer will
  ever get it.
\<close>

theorem double_processor_loses_last:
  assumes "ppc s = PDeplete" and "content (ch_out s) = Some d"
  shows "\<exists>t. dstep s t \<and> ppc t = PDone \<and> received t = received s \<and> content (ch_out t) = None
    \<and> channel_consume (ch_out t) = Some (1, [], ch_out t) \<and> (\<forall>u. dstep t u \<longrightarrow> ch_out u = ch_out t)"
proof -
  let ?t = "s\<lparr>ch_out := (ch_out s)\<lparr>status := DEPLETED\<rparr>, ppc := PDone\<rparr>"
  have "dstep s ?t" using assms(1) by (intro process) (simp add: processor_step_def)
  moreover have "ch_out u = ch_out ?t" if "dstep ?t u" for u
    using that by cases (auto simp: processor_step_def channel_consume_def)
  ultimately show ?thesis
    by (intro exI [of _ ?t]) (simp add: content_def channel_consume_def)
qed

text \<open>A run in which the only character of the input is lost that way.\<close>

definition demo_channel :: channel where
  "demo_channel = \<lparr>status = UNINITIALIZED, cdata = replicate CHANNEL_SIZE 0, clen = 0\<rparr>"

definition demo_sys :: dsys where
  "demo_sys = \<lparr>ch_in = init_channel demo_channel, ch_out = init_channel demo_channel, ppc = PConsume,
               consumed = [], received = []\<rparr>"

lemma demo_reach:
  "\<exists>s. reach dinit dstep s \<and> consumed s = [65] \<and> received s = [] \<and> ppc s = PDeplete
     \<and> content (ch_out s) = Some [65, 65]"
proof -
  let ?full = "\<lambda>d. \<lparr>status = OCCUPIED, cdata = d @ replicate (CHANNEL_SIZE - length d) 0, clen = length d\<rparr>"
  define s1 where "s1 = demo_sys\<lparr>ch_in := ?full [65]\<rparr>"
  define s2 where "s2 = s1\<lparr>ch_in := (?full [65])\<lparr>status := EMPTY\<rparr>, consumed := [65], ppc := PProduce [[65, 65]]\<rparr>"
  define s3 where "s3 = s2\<lparr>ch_out := ?full [65, 65], ppc := PProduce []\<rparr>"
  define s4 where "s4 = s3\<lparr>ppc := PConsume\<rparr>"
  define s5 where "s5 = s4\<lparr>ch_in := (ch_in s4)\<lparr>status := DEPLETED\<rparr>\<rparr>"
  have r0: "reach dinit dstep demo_sys"
    by (rule reach_init, unfold dinit_def, intro exI [of _ demo_channel])
      (simp add: demo_sys_def demo_channel_def)
  have r1: "reach dinit dstep s1"
    unfolding s1_def by (rule reach_step [OF r0 feed [of "[65]"]])
      (simp_all add: demo_sys_def demo_channel_def init_channel_def channel_produce_def)
  have r2: "reach dinit dstep s2"
    by (rule reach_step [OF r1 process])
      (simp add: s2_def s1_def demo_sys_def processor_step_def channel_consume_def put_def Let_def)
  have r3: "reach dinit dstep s3"
    by (rule reach_step [OF r2 process])
      (simp add: s3_def s2_def s1_def demo_sys_def demo_channel_def init_channel_def processor_step_def
        channel_produce_def)
  have r4: "reach dinit dstep s4"
    by (rule reach_step [OF r3 process]) (simp add: s4_def s3_def s2_def s1_def processor_step_def)
  have r5: "reach dinit dstep s5"
    unfolding s5_def by (rule reach_step [OF r4 feed_end])
  have "reach dinit dstep (s5\<lparr>ppc := PDeplete\<rparr>)"
    by (rule reach_step [OF r5 process])
      (simp add: s5_def s4_def s3_def s2_def s1_def processor_step_def channel_consume_def)
  then show ?thesis
    by (intro exI [of _ "s5\<lparr>ppc := PDeplete\<rparr>"])
      (simp add: s5_def s4_def s3_def s2_def s1_def demo_sys_def content_def)
qed

theorem double_processor_output_witness:
  "\<exists>s rest. consumed s = [65] \<and> doubled [65] = concat (received (s :: dsys)) @ rest"
proof -
  from demo_reach obtain s where "reach dinit dstep s" "consumed s = [65]" by blast
  with double_processor_output [of s] show ?thesis by metis
qed

theorem double_processor_loses_last_witness:
  "\<exists>t. reach dinit dstep t \<and> ppc t = PDone \<and> consumed t = [65] \<and> received t = []"
proof -
  from demo_reach obtain s where s: "reach dinit dstep s" "consumed s = [65]" "received s = []"
    "ppc s = PDeplete" "content (ch_out s) = Some [65, 65]" by blast
  from double_processor_loses_last [OF s(4,5)] obtain t where t: "dstep s t" "ppc t = PDone" "received t = []"
    using s(3) by auto
  from t(1) s(4) t(2) have "consumed t = consumed s"
    by cases (auto simp: processor_step_def)
  with s t reach_step [OF s(1) t(1)] show ?thesis by auto
qed

end
