(* ===== verification/Napoleon.thy ===== *)
theory Napoleon
  imports Calc
begin

text \<open>
  The headquarters server of \<^verbatim>\<open>lab08/napoleon/napoleon.c\<close>: reports arrive over UDP
  and are put on a stack; four adjutant threads take them off, keep the register of divisions and
  move the pieces on a map of 100 by 100 fields; the thread of Napoleon reads the map and sends
  orders back.
\<close>

section \<open>Reading a report\<close>

text \<open>
  \<^verbatim>\<open>sscanf(buf, "%d %d %d %128[^\n]", ...)\<close>.  \<open>%d\<close> skips white space and takes an
  optional sign and at least one digit; a value outside \<^verbatim>\<open>int\<close> is undefined.  White
  space in the format skips any amount of white space.  The last directive takes 1 to 128
  characters other than the newline.  \<open>None\<close>: fewer than four conversions.
\<close>

definition scan_name :: "string \<Rightarrow> string option" where
  "scan_name s =
     (let t = take 128 (takeWhile (\<lambda>c. c \<noteq> CHR 0x0A) s) in if t = [] then None else Some t)"

definition scan_report :: "string \<Rightarrow> (int \<times> int \<times> int \<times> string) option" where
  "scan_report s =
     (case scan_int s of None \<Rightarrow> None | Some (x, s1) \<Rightarrow>
        (case scan_int (dropWhile isspace s1) of None \<Rightarrow> None | Some (y, s2) \<Rightarrow>
           (case scan_int (dropWhile isspace s2) of None \<Rightarrow> None | Some (p, s3) \<Rightarrow>
              map_option (\<lambda>n. (x, y, p, n)) (scan_name (dropWhile isspace s3)))))"

definition read_report :: "string \<Rightarrow> (int \<times> int \<times> int \<times> string) option run" where
  "read_report buf =
     (case scan_report buf of
        None \<Rightarrow> Inr None
      | Some (x, y, p, n) \<Rightarrow>
          if fits_int32 x \<and> fits_int32 y \<and> fits_int32 p then Inr (Some (x, y, p, n))
          else Inl (Undefined ''sscanf''))"

section \<open>State\<close>

abbreviation STACK_SIZE :: nat where "STACK_SIZE \<equiv> 16"
abbreviation DIVISION_NAMES_SIZE :: nat where "DIVISION_NAMES_SIZE \<equiv> 128"

record message =
  buf :: string
  msg_addr :: sockaddr_in

datatype apc =
    AWait | AGot message | ARegister nat nat int string sockaddr_in
  | ASweep nat nat nat nat | APlace nat nat nat | AEnd

text \<open>
  The part of the stack array below \<^verbatim>\<open>top\<close>, the first \<^verbatim>\<open>num_divs\<close> entries
  of the three arrays of the register, the map with -1 for a free field, and the positions of the
  adjutants.
\<close>

record hq =
  stk :: "message list"
  div_names :: "string list"
  div_addr :: "sockaddr_in list"
  div_p :: "int list"
  field :: "nat \<Rightarrow> nat \<Rightarrow> int"
  do_work :: bool
  adj :: "nat \<Rightarrow> apc"

definition hq_start :: hq where
  "hq_start = \<lparr>stk = [], div_names = [], div_addr = [], div_p = [], field = (\<lambda>_ _. - 1),
               do_work = True, adj = (\<lambda>_. AWait)\<rparr>"

section \<open>Reports arrive\<close>

text \<open>
  One datagram of at most 511 bytes: the message is the C string in the zeroed buffer.  An empty
  datagram or an error is ignored.
\<close>

definition push_report :: "message \<Rightarrow> hq \<Rightarrow> hq" where
  "push_report msg s = (if length (stk s) < STACK_SIZE then s\<lparr>stk := stk s @ [msg]\<rparr> else s)"

definition receive_report :: "(string \<times> sockaddr_in) sysret \<Rightarrow> hq \<Rightarrow> hq" where
  "receive_report r s =
     (case r of
        Fail _ \<Rightarrow> s
      | Ok (d, a) \<Rightarrow>
          if length d > 0
          then push_report \<lparr>buf = takeWhile (\<lambda>c. c \<noteq> CHR 0x00) (take 511 d), msg_addr = a\<rparr> s
          else s)"

datatype hq_poll = Datagrams "(string \<times> sockaddr_in) sysret list" | HqInterrupt bool | HqPollError

fun receive_loop :: "hq_poll list \<Rightarrow> hq \<Rightarrow> hq run" where
  "receive_loop [] s = Inr s"
| "receive_loop (p # ps) s =
     (if \<not> do_work s then Inr s
      else case p of
        HqPollError \<Rightarrow> Inl (ERR ''epoll_pwait'')
      | HqInterrupt sigint \<Rightarrow> receive_loop ps (s\<lparr>do_work := \<not> sigint\<rparr>)
      | Datagrams ds \<Rightarrow> receive_loop ps (fold receive_report ds s))"

section \<open>The adjutants\<close>

text \<open>
  \<^verbatim>\<open>strcmp\<close> with a stored name.  \<^verbatim>\<open>strncpy\<close> of 128 characters leaves a
  name of full length without a terminator; \<open>term i\<close> tells whether byte 128 of entry \<open>i\<close> happens
  to be 0.
\<close>

definition same_name :: "(nat \<Rightarrow> bool) \<Rightarrow> hq \<Rightarrow> string \<Rightarrow> nat \<Rightarrow> bool" where
  "same_name term s n i \<longleftrightarrow> div_names s ! i = n \<and> (length n < 128 \<or> term i)"

definition register :: "(nat \<Rightarrow> bool) \<Rightarrow> string \<Rightarrow> sockaddr_in \<Rightarrow> int \<Rightarrow> hq \<Rightarrow> nat option \<times> hq" where
  "register term n a p s =
     (case find_idx (same_name term s n) [0..<length (div_names s)] of
        Some i \<Rightarrow> (Some i, s\<lparr>div_addr := (div_addr s)[i := a], div_p := (div_p s)[i := p]\<rparr>)
      | None \<Rightarrow>
          if length (div_names s) < DIVISION_NAMES_SIZE
          then (Some (length (div_names s)),
                s\<lparr>div_names := div_names s @ [n], div_addr := div_addr s @ [a], div_p := div_p s @ [p]\<rparr>)
          else (None, s))"

definition set_field :: "nat \<Rightarrow> nat \<Rightarrow> int \<Rightarrow> hq \<Rightarrow> hq" where
  "set_field r c v s = s\<lparr>field := (field s)(r := (field s r)(c := v))\<rparr>"

text \<open>One row of the search for the old place of division \<open>d\<close>: whether it was found there.\<close>

definition sweep_row :: "nat \<Rightarrow> nat \<Rightarrow> hq \<Rightarrow> bool \<times> hq" where
  "sweep_row d r s =
     (case find_idx (\<lambda>c. field s r c = int d) [0..<100] of
        Some c \<Rightarrow> (True, set_field r c (- 1) s)
      | None \<Rightarrow> (False, s))"

definition goto :: "nat \<Rightarrow> apc \<Rightarrow> hq \<Rightarrow> hq" where
  "goto i c s = s\<lparr>adj := (adj s)(i := c)\<rparr>"

text \<open>One step of adjutant \<open>i\<close>: the critical sections of the four kinds of mutexes are atomic.\<close>

definition in_range :: "int \<Rightarrow> int \<Rightarrow> int \<Rightarrow> bool" where
  "in_range x y p \<longleftrightarrow> x \<ge> 0 \<and> x \<le> 99 \<and> y \<ge> 0 \<and> y \<le> 99 \<and> (p = 0 \<or> p = 1)"

definition adjutant_step :: "(nat \<Rightarrow> bool) \<Rightarrow> nat \<Rightarrow> hq \<Rightarrow> hq run option" where
  "adjutant_step term i s =
     (case adj s i of
        AWait \<Rightarrow>
          (if stk s = [] then if do_work s then None else Some (Inr (goto i AEnd s))
           else Some (Inr (goto i (AGot (last (stk s))) (s\<lparr>stk := butlast (stk s)\<rparr>))))
      | AGot msg \<Rightarrow>
          Some (bindr (read_report (buf msg)) (\<lambda>r.
            case r of
              Some (x, y, p, n) \<Rightarrow>
                if in_range x y p then Inr (goto i (ARegister (nat x) (nat y) p n (msg_addr msg)) s)
                else Inr (goto i AWait s)
            | None \<Rightarrow> Inr (goto i AWait s)))
      | ARegister x y p n a \<Rightarrow>
          (let (d, t) = register term n a p s in
           Some (Inr (goto i (case d of Some k \<Rightarrow> ASweep k 0 x y | None \<Rightarrow> AWait) t)))
      | ASweep d r x y \<Rightarrow>
          (let (found, t) = sweep_row d r s in
           Some (Inr (goto i (if found \<or> r + 1 = 100 then APlace d x y else ASweep d (r + 1) x y) t)))
      | APlace d x y \<Rightarrow> Some (Inr (goto i AWait (set_field x y (int d) s)))
      | AEnd \<Rightarrow> None)"

section \<open>Napoleon\<close>

definition allies :: "hq \<Rightarrow> nat list" where
  "allies s = filter (\<lambda>i. div_p s ! i = 1) [0..<length (div_names s)]"

definition order_text :: "nat \<Rightarrow> nat \<Rightarrow> string \<Rightarrow> string" where
  "order_text x y n = show_nat x @ '' '' @ show_nat y @ '' 1 '' @ n @ [CHR 0x0A]"

text \<open>
  One round: the report of the map, then an order for a random ally.  A name of 128 characters has
  no terminator to copy.
\<close>

definition map_report :: "hq \<Rightarrow> (nat \<times> nat \<times> int) list" where
  "map_report s =
     concat (map (\<lambda>r. map (\<lambda>c. (r, c, field s r c)) (filter (\<lambda>c. field s r c \<noteq> - 1) [0..<100])) [0..<100])"

definition napoleon_order :: "hq \<Rightarrow> rng \<Rightarrow> (sockaddr_in \<times> string) option run \<times> rng" where
  "napoleon_order s g =
     (if allies s = [] then (Inr None, g)
      else
        let (v1, g1) = rand g; d = allies s ! (v1 mod length (allies s));
            (v2, g2) = rand g1; (v3, g3) = rand g2; n = div_names s ! d
        in (if length n < 128
            then Inr (Some (div_addr s ! d, order_text (v2 mod 100) (v3 mod 100) n))
            else Inl (Undefined ''unterminated name''), g3))"

definition send_order :: "nat sysret \<Rightarrow> unit run" where
  "send_order r = (case r of Ok _ \<Rightarrow> Inr () | Fail e \<Rightarrow> if e \<noteq> EAGAIN then Inl (ERR ''sendto'') else Inr ())"

section \<open>Text\<close>

lemma takeWhile_digits:
  "\<forall>c \<in> set s. isdigit c \<Longrightarrow> t = [] \<or> \<not> isdigit (hd t) \<Longrightarrow>
   takeWhile isdigit (s @ t) = s \<and> dropWhile isdigit (s @ t) = t"
  by (cases t) (auto simp: takeWhile_append dropWhile_append)

lemma scan_show_nat:
  assumes "t = [] \<or> \<not> isdigit (hd t)"
  shows "scan_int (show_nat n @ t) = Some (int n, t)"
proof -
  have h: "hd (show_nat n @ t) = hd (show_nat n)" "show_nat n @ t \<noteq> []" by simp_all
  have d: "dropWhile isspace (show_nat n @ t) = show_nat n @ t"
    by (rule dropWhile_hd [OF h(2)]) (use h(1) show_nat_hd isdigit_not_other in auto)
  have w: "takeWhile isdigit (show_nat n @ t) = show_nat n" "dropWhile isdigit (show_nat n @ t) = t"
    using takeWhile_digits [OF _ assms, of "show_nat n"] show_nat_digits by auto
  show ?thesis
    using isdigit_not_other [OF show_nat_hd [of n]] d w
    by (simp add: scan_int_def scan_digits_def read_show_nat Let_def)
qed

definition name_ok :: "string \<Rightarrow> bool" where
  "name_ok n \<longleftrightarrow> n \<noteq> [] \<and> \<not> isspace (hd n) \<and> CHR 0x0A \<notin> set n \<and> length n \<le> 128"

lemma scan_name_ok:
  assumes "scan_name (dropWhile isspace s) = Some n"
  shows "name_ok n"
proof -
  let ?t = "dropWhile isspace s"
  from assms have n: "n = take 128 (takeWhile (\<lambda>c. c \<noteq> CHR 0x0A) ?t)" "n \<noteq> []"
    by (auto simp: scan_name_def Let_def split: if_splits)
  then have t: "?t \<noteq> []" by (metis takeWhile.simps(1) take_Nil)
  have "hd n = hd ?t"
    using n(1,2) t by (cases ?t) (auto split: if_splits)
  moreover have "\<not> isspace (hd ?t)" using t by (rule hd_dropWhile)
  moreover have "CHR 0x0A \<notin> set n"
    using n(1) by (auto dest!: in_set_takeD set_takeWhileD)
  ultimately show ?thesis using n by (simp add: name_ok_def)
qed

lemma read_report_name_ok: "read_report b = Inr (Some (x, y, p, n)) \<Longrightarrow> name_ok n"
  by (auto simp: read_report_def scan_report_def split: option.splits if_splits
      dest!: scan_name_ok)

lemma scan_name_order:
  assumes "name_ok n"
  shows "scan_name (n @ [CHR 0x0A]) = Some n"
proof -
  have "takeWhile (\<lambda>c. c \<noteq> CHR 0x0A) (n @ [CHR 0x0A]) = n"
    using assms by (subst takeWhile_append2) (auto simp: name_ok_def)
  with assms show ?thesis by (simp add: scan_name_def name_ok_def)
qed

text \<open>An order is a report of its division: what Napoleon prints, an adjutant can read.\<close>

lemma read_order:
  assumes "name_ok n" and "x < 100" and "y < 100"
  shows "read_report (order_text x y n) = Inr (Some (int x, int y, 1, n))"
proof -
  have nd: "\<not> isdigit CHR '' ''" and sp: "isspace CHR '' ''" by (simp_all add: isdigit_def isspace_def)
  let ?s3 = "CHR '' '' # n @ [CHR 0x0A]"
  let ?s2 = "CHR '' '' # CHR ''1'' # ?s3"
  let ?s1 = "CHR '' '' # show_nat y @ ?s2"
  have 1: "scan_int (show_nat x @ ?s1) = Some (int x, ?s1)"
    by (rule scan_show_nat) (simp add: nd)
  have dy: "dropWhile isspace (show_nat y @ ?s2) = show_nat y @ ?s2"
    by (rule dropWhile_hd) (use show_nat_hd [of y] isdigit_not_other in \<open>auto simp: hd_append\<close>)
  have 2: "scan_int (show_nat y @ ?s2) = Some (int y, ?s2)"
    by (rule scan_show_nat) (simp add: nd)
  have one: "show_nat 1 = ''1''" by (subst show_nat.simps) (simp add: digit_char_def, code_simp)
  have 3: "scan_int (CHR ''1'' # ?s3) = Some (1, ?s3)"
    using scan_show_nat [of ?s3 1] nd unfolding one by simp
  have d1: "dropWhile isspace (CHR ''1'' # ?s3) = CHR ''1'' # ?s3" by (simp add: isspace_def)
  have dn: "dropWhile isspace (n @ [CHR 0x0A]) = n @ [CHR 0x0A]"
    by (rule dropWhile_hd) (use assms(1) in \<open>auto simp: name_ok_def hd_append\<close>)
  have "scan_report (order_text x y n) = Some (int x, int y, 1, n)"
    using 1 2 3 dy d1 dn sp scan_name_order [OF assms(1)]
    by (simp add: scan_report_def order_text_def)
  with assms(2,3) show ?thesis by (simp add: read_report_def fits_int32_def)
qed

section \<open>All threads together\<close>

inductive hq_step :: "(nat \<Rightarrow> bool) \<Rightarrow> hq \<Rightarrow> hq \<Rightarrow> bool" for term_byte where
  adjutant: "i < 4 \<Longrightarrow> adjutant_step term_byte i s = Some (Inr t) \<Longrightarrow> hq_step term_byte s t"
| arrival: "do_work s \<Longrightarrow> hq_step term_byte s (receive_report r s)"
| stop: "hq_step term_byte s (s\<lparr>do_work := False\<rparr>)"

definition apc_ok :: "nat \<Rightarrow> apc \<Rightarrow> bool" where
  "apc_ok n c =
     (case c of
        ARegister x y p m _ \<Rightarrow> x < 100 \<and> y < 100 \<and> p \<in> {0, 1} \<and> name_ok m
      | ASweep d r x y \<Rightarrow> d < n \<and> r < 100 \<and> x < 100 \<and> y < 100
      | APlace d x y \<Rightarrow> d < n \<and> x < 100 \<and> y < 100
      | _ \<Rightarrow> True)"

definition hq_inv :: "hq \<Rightarrow> bool" where
  "hq_inv s \<longleftrightarrow>
     length (stk s) \<le> STACK_SIZE \<and> length (div_names s) \<le> DIVISION_NAMES_SIZE \<and>
     length (div_addr s) = length (div_names s) \<and> length (div_p s) = length (div_names s) \<and>
     (\<forall>n \<in> set (div_names s). name_ok n) \<and> set (div_p s) \<subseteq> {0, 1} \<and>
     distinct (filter (\<lambda>n. length n < 128) (div_names s)) \<and>
     (\<forall>r c. field s r c = - 1 \<or> 0 \<le> field s r c \<and> field s r c < int (length (div_names s))
              \<and> r < 100 \<and> c < 100) \<and>
     (\<forall>i. apc_ok (length (div_names s)) (adj s i))"

lemma apc_ok_mono: "apc_ok n c \<Longrightarrow> n \<le> m \<Longrightarrow> apc_ok m c"
  by (auto simp: apc_ok_def split: apc.splits)

lemma hq_inv_start: "hq_inv hq_start"
  by (simp add: hq_inv_def hq_start_def apc_ok_def)

lemma hq_inv_goto: "hq_inv s \<Longrightarrow> apc_ok (length (div_names s)) c \<Longrightarrow> hq_inv (goto i c s)"
  by (simp add: hq_inv_def goto_def)

lemma hq_inv_arrival: "hq_inv s \<Longrightarrow> hq_inv (receive_report r s)"
  by (simp add: receive_report_def push_report_def hq_inv_def split: sysret.split prod.split)

lemma hq_inv_set_field:
  "hq_inv s \<Longrightarrow> v = - 1 \<or> 0 \<le> v \<and> v < int (length (div_names s)) \<and> r < 100 \<and> c < 100 \<Longrightarrow>
   hq_inv (set_field r c v s)"
  by (auto simp: hq_inv_def set_field_def)

lemma hq_inv_register:
  assumes "hq_inv s" and "name_ok n" and "p \<in> {0, 1}" and "register term_byte n a p s = (d, t)"
  shows "hq_inv t" and "d = Some k \<Longrightarrow> k < length (div_names t)"
    and "adj t = adj s" and "length (div_names s) \<le> length (div_names t)"
proof -
  let ?f = "find_idx (same_name term_byte s n) [0..<length (div_names s)]"
  show a: "adj t = adj s" "length (div_names s) \<le> length (div_names t)"
    using assms(4) by (auto simp: register_def split: option.splits if_splits)
  have "hq_inv t \<and> (d = Some k \<longrightarrow> k < length (div_names t))"
  proof (cases ?f)
    case (Some i)
    from find_idx_SomeD [OF Some] have i: "i < length (div_names s)" by simp
    have "set ((div_p s)[i := p]) \<subseteq> {0, 1}"
      using assms(1,3) set_update_subset_insert [of "div_p s" i p] by (auto simp: hq_inv_def)
    moreover have "t = s\<lparr>div_addr := (div_addr s)[i := a], div_p := (div_p s)[i := p]\<rparr>" "d = Some i"
      using Some assms(4) by (simp_all add: register_def)
    ultimately show ?thesis using assms(1) i by (simp add: hq_inv_def)
  next
    case None
    show ?thesis
    proof (cases "length (div_names s) < DIVISION_NAMES_SIZE")
      case False
      with None assms(1,4) show ?thesis by (simp add: register_def)
    next
      case True
      with None assms(4) have t: "t = s\<lparr>div_names := div_names s @ [n], div_addr := div_addr s @ [a],
          div_p := div_p s @ [p]\<rparr>" "d = Some (length (div_names s))"
        by (simp_all add: register_def)
      have "n \<notin> set (filter (\<lambda>n. length n < 128) (div_names s))"
        using None by (auto simp: find_idx_None_iff same_name_def in_set_conv_nth)
      then have "distinct (filter (\<lambda>n. length n < 128) (div_names s @ [n]))"
        using assms(1) by (auto simp: hq_inv_def)
      moreover have "apc_ok (Suc (length (div_names s))) (adj s i)" for i
        using assms(1) by (auto simp: hq_inv_def intro: apc_ok_mono [of "length (div_names s)"])
      ultimately show ?thesis
        using assms(1-3) True unfolding t hq_inv_def by fastforce
    qed
  qed
  then show "hq_inv t" "d = Some k \<Longrightarrow> k < length (div_names t)" by blast+
qed

lemma hq_inv_adjutant:
  assumes inv: "hq_inv s" and step: "adjutant_step term_byte i s = Some (Inr t)"
  shows "hq_inv t"
proof -
  have ok: "apc_ok (length (div_names s)) (adj s i)" using inv by (simp add: hq_inv_def)
  show ?thesis
  proof (cases "adj s i")
    case AWait
    have "length (butlast (stk s)) \<le> STACK_SIZE" using inv by (simp add: hq_inv_def le_diff_conv)
    then have "hq_inv (s\<lparr>stk := butlast (stk s)\<rparr>)" using inv by (simp add: hq_inv_def)
    from hq_inv_goto [OF this] hq_inv_goto [OF inv] AWait step show ?thesis
      by (auto simp: adjutant_step_def apc_ok_def split: if_splits)
  next
    case (AGot msg)
    show ?thesis
    proof (cases "read_report (buf msg)")
      case (Inl e)
      with step AGot show ?thesis by (simp add: adjutant_step_def)
    next
      case (Inr r)
      show ?thesis
      proof (cases r)
        case None
        with step AGot Inr hq_inv_goto [OF inv, of AWait] show ?thesis
          by (auto simp: adjutant_step_def apc_ok_def)
      next
        case (Some q)
        obtain x y p n where q: "q = (x, y, p, n)" by (metis prod.collapse)
        have "apc_ok (length (div_names s)) (ARegister (nat x) (nat y) p n (msg_addr msg))"
          if "in_range x y p"
          using that Inr Some q read_report_name_ok [of "buf msg" x y p n]
          by (auto simp: apc_ok_def in_range_def)
        with step AGot Inr Some q hq_inv_goto [OF inv] show ?thesis
          by (auto simp: adjutant_step_def apc_ok_def split: if_splits)
      qed
    qed
  next
    case (ARegister x y p n a)
    obtain d u where u: "register term_byte n a p s = (d, u)" by fastforce
    from ok ARegister have xy: "x < 100" "y < 100" "p \<in> {0, 1}" "name_ok n" by (simp_all add: apc_ok_def)
    note R = hq_inv_register [OF inv xy(4,3) u]
    from step ARegister u have "t = goto i (case d of Some k \<Rightarrow> ASweep k 0 x y | None \<Rightarrow> AWait) u"
      by (simp add: adjutant_step_def)
    with R xy show ?thesis
      by (auto intro!: hq_inv_goto simp: apc_ok_def split: option.splits)
  next
    case (ASweep d r x y)
    obtain f u where u: "sweep_row d r s = (f, u)" by fastforce
    from ok ASweep have b: "d < length (div_names s)" "r < 100" "x < 100" "y < 100"
      by (simp_all add: apc_ok_def)
    have "hq_inv u \<and> div_names u = div_names s"
      using u inv hq_inv_set_field [OF inv, of "- 1"]
      by (auto simp: sweep_row_def set_field_def split: option.splits)
    moreover from step ASweep u have
      "t = goto i (if f \<or> r + 1 = 100 then APlace d x y else ASweep d (r + 1) x y) u"
      by (simp add: adjutant_step_def)
    ultimately show ?thesis using b by (auto intro!: hq_inv_goto simp: apc_ok_def)
  next
    case (APlace d x y)
    from ok APlace have "d < length (div_names s)" "x < 100" "y < 100" by (simp_all add: apc_ok_def)
    then have "hq_inv (set_field x y (int d) s)" using hq_inv_set_field [OF inv] by simp
    with step APlace show ?thesis
      by (auto intro!: hq_inv_goto simp: adjutant_step_def apc_ok_def)
  next
    case AEnd
    with step show ?thesis by (simp add: adjutant_step_def)
  qed
qed

definition hq_initial :: "hq \<Rightarrow> bool" where
  "hq_initial s \<longleftrightarrow> s = hq_start"

interpretation hq: inv_system hq_initial "hq_step term_byte" hq_inv for term_byte
proof unfold_locales
  show "hq_initial s \<Longrightarrow> hq_inv s" for s using hq_inv_start by (simp add: hq_initial_def)
next
  fix s t assume "hq_inv s" and "hq_step term_byte s t"
  from this(2,1) show "hq_inv t"
  proof cases
    case stop
    then show ?thesis using \<open>hq_inv s\<close> by (simp add: hq_inv_def)
  qed (use \<open>hq_inv s\<close> hq_inv_adjutant hq_inv_arrival in blast)+
qed

section \<open>One report, handled without interference\<close>

text \<open>The adjutant's steps, taken alone, until it waits again; \<open>k\<close> bounds their number.\<close>

fun alone :: "(nat \<Rightarrow> bool) \<Rightarrow> nat \<Rightarrow> nat \<Rightarrow> hq \<Rightarrow> hq run" where
  "alone term_byte i 0 s = Inr s"
| "alone term_byte i (Suc k) s =
     (case adjutant_step term_byte i s of
        None \<Rightarrow> Inr s
      | Some r \<Rightarrow> bindr r (\<lambda>t. if adj t i = AWait then Inr t else alone term_byte i k t))"

text \<open>\<open>unique d f\<close>: division \<open>d\<close> is on at most one field, inside the map.\<close>

definition unique :: "nat \<Rightarrow> (nat \<Rightarrow> nat \<Rightarrow> int) \<Rightarrow> bool" where
  "unique d f \<longleftrightarrow>
     (\<forall>r c r' c'. f r c = int d \<longrightarrow> f r' c' = int d \<longrightarrow> r = r' \<and> c = c') \<and>
     (\<forall>r c. f r c = int d \<longrightarrow> r < 100 \<and> c < 100)"

definition removed :: "nat \<Rightarrow> (nat \<Rightarrow> nat \<Rightarrow> int) \<Rightarrow> nat \<Rightarrow> nat \<Rightarrow> int" where
  "removed d f r c = (if f r c = int d then - 1 else f r c)"

lemma sweep_row_result:
  assumes "unique d (field s)" and "sweep_row d r s = (found, t)"
  shows "if found then t = s\<lparr>field := removed d (field s)\<rparr> else t = s \<and> (\<forall>c. field s r c \<noteq> int d)"
proof (cases "find_idx (\<lambda>c. field s r c = int d) [0..<100]")
  case None
  then have "\<forall>c < 100. field s r c \<noteq> int d" by (auto simp: find_idx_None_iff)
  moreover have "field s r c = int d \<Longrightarrow> c < 100" for c using assms(1) by (auto simp: unique_def)
  ultimately have "\<forall>c. field s r c \<noteq> int d" by blast
  with None assms(2) show ?thesis by (auto simp: sweep_row_def)
next
  case (Some c)
  from find_idx_SomeD [OF Some] have c: "c < 100" "field s r c = int d" by auto
  have "(field s)(r := (field s r)(c := - 1)) = removed d (field s)"
    using assms(1) c by (auto simp: removed_def unique_def fun_eq_iff)
  with Some assms(2) show ?thesis by (auto simp: sweep_row_def set_field_def)
qed

lemma removed_absent: "\<forall>r c. f r c \<noteq> int d \<Longrightarrow> removed d f = f"
  by (simp add: removed_def fun_eq_iff)

lemma alone_sweep:
  assumes "adj s i = ASweep d r x y" and "unique d (field s)" and "r < 100"
    and "\<forall>r' < r. \<forall>c. field s r' c \<noteq> int d"
  shows "\<exists>k. k \<le> 101 - r \<and> (\<forall>j. alone term_byte i (k + j) s
    = alone term_byte i j (goto i (APlace d x y) (s\<lparr>field := removed d (field s)\<rparr>)))"
  using assms
proof (induction "99 - r" arbitrary: s r)
  case 0
  then have r: "r = 99" by simp
  obtain f t where t: "sweep_row d r s = (f, t)" by fastforce
  have "\<forall>r c. field s r c \<noteq> int d" if "\<not> f"
  proof (intro allI notI)
    fix r' c assume e: "field s r' c = int d"
    then have "r' < 100" using "0.prems"(2) by (auto simp: unique_def)
    with e r "0.prems"(4) sweep_row_result [OF "0.prems"(2) t] that show False
      by (cases "r' = 99") auto
  qed
  then have "t = s\<lparr>field := removed d (field s)\<rparr>"
    using sweep_row_result [OF "0.prems"(2) t] by (cases f) (simp_all add: removed_absent)
  with "0.prems"(1) t r show ?case
    by (intro exI [of _ 1]) (simp add: adjutant_step_def goto_def)
next
  case (Suc m)
  obtain f t where t: "sweep_row d r s = (f, t)" by fastforce
  note res = sweep_row_result [OF Suc.prems(2) t]
  show ?case
  proof (cases f)
    case True
    with Suc.prems(1,3) t res show ?thesis
      by (intro exI [of _ 1]) (simp add: adjutant_step_def goto_def)
  next
    case False
    let ?u = "goto i (ASweep d (r + 1) x y) s"
    have r1: "r + 1 < 100" using Suc.hyps(2) by simp
    have u: "adj ?u i = ASweep d (r + 1) x y" "field ?u = field s" by (simp_all add: goto_def)
    have abs: "\<forall>r' < r + 1. \<forall>c. field s r' c \<noteq> int d"
      using res False Suc.prems(4) by (auto simp: less_Suc_eq)
    have m: "m = 99 - (r + 1)" using Suc.hyps(2) by simp
    from Suc.hyps(1) [OF m u(1)] Suc.prems(2) r1 abs u(2) obtain k where
      k: "k \<le> 101 - (r + 1)" "\<forall>j. alone term_byte i (k + j) ?u
        = alone term_byte i j (goto i (APlace d x y) (?u\<lparr>field := removed d (field s)\<rparr>))"
      by auto
    have g: "goto i (APlace d x y) (?u\<lparr>field := removed d (field s)\<rparr>)
      = goto i (APlace d x y) (s\<lparr>field := removed d (field s)\<rparr>)"
      by (simp add: goto_def)
    have "alone term_byte i (Suc (k + j)) s = alone term_byte i (k + j) ?u" for j
      using Suc.prems(1) t res False r1 by (simp add: adjutant_step_def) (simp add: goto_def)
    with k g r1 show ?thesis by (intro exI [of _ "Suc k"]) auto
  qed
qed

definition moved :: "nat \<Rightarrow> nat \<Rightarrow> nat \<Rightarrow> (nat \<Rightarrow> nat \<Rightarrow> int) \<Rightarrow> nat \<Rightarrow> nat \<Rightarrow> int" where
  "moved d x y f r c = (if r = x \<and> c = y then int d else removed d f r c)"

lemma register_sel:
  "register term_byte n a p s = (d, u) \<Longrightarrow> field u = field s \<and> adj u = adj s \<and> stk u = stk s
     \<and> do_work u = do_work s"
  by (auto simp: register_def split: option.splits if_splits)

lemma moved_upd: "(removed d f)(x := (removed d f x)(y := int d)) = moved d x y f"
  by (auto simp: moved_def fun_eq_iff)

lemma same_name_goto: "same_name term_byte (goto i c s) = same_name term_byte s"
  by (simp add: same_name_def goto_def fun_eq_iff)

lemma alone_report:
  assumes "adj s i = AGot msg" and "read_report (buf msg) = Inr (Some (x, y, p, n))"
    and "in_range x y p" and "register term_byte n (msg_addr msg) p s = (Some d, u)"
    and "unique d (field s)"
  shows "alone term_byte i 110 s = Inr (goto i AWait (u\<lparr>field := moved d (nat x) (nat y) (field s)\<rparr>))"
proof -
  let ?s1 = "goto i (ARegister (nat x) (nat y) p n (msg_addr msg)) s"
  let ?s2 = "goto i (ASweep d 0 (nat x) (nat y)) u"
  let ?s3 = "\<lambda>t. goto i (APlace d (nat x) (nat y)) (t\<lparr>field := removed d (field s)\<rparr>)"
  have r1: "register term_byte n (msg_addr msg) p ?s1 = (Some d, goto i (ARegister (nat x) (nat y) p n (msg_addr msg)) u)"
    using assms(4) by (auto simp: register_def same_name_goto) (auto simp: goto_def split: option.splits if_splits)
  have g: "goto i c (goto i c' t) = goto i c t" for c c' t by (simp add: goto_def)
  have "alone term_byte i (Suc 109) s = alone term_byte i 109 ?s1"
    using assms(1-3) by (subst alone.simps(2)) (simp add: adjutant_step_def, simp add: goto_def)
  also have "alone term_byte i 109 ?s1 = alone term_byte i (Suc 108) ?s1" by simp
  also have "\<dots> = alone term_byte i 108 ?s2"
    using r1 by (subst alone.simps(2)) (simp add: adjutant_step_def g, simp add: goto_def)
  also have "\<dots> = Inr (goto i AWait (u\<lparr>field := moved d (nat x) (nat y) (field s)\<rparr>))"
  proof -
    have f: "field ?s2 = field s" using register_sel [OF assms(4)] by (simp add: goto_def)
    have "adj ?s2 i = ASweep d 0 (nat x) (nat y)" by (simp add: goto_def)
    from alone_sweep [OF this, of term_byte] f assms(5) obtain k where
      k: "k \<le> 101" "\<forall>j. alone term_byte i (k + j) ?s2 = alone term_byte i j (?s3 ?s2)"
      by auto
    have "108 = k + Suc (107 - k)" using k(1) by simp
    then have "alone term_byte i 108 ?s2 = alone term_byte i (Suc (107 - k)) (?s3 ?s2)"
      using k(2) by metis
    moreover have "?s3 ?s2 = ?s3 u" by (simp add: goto_def)
    moreover have "set_field (nat x) (nat y) (int d) (?s3 u)
        = goto i (APlace d (nat x) (nat y)) (u\<lparr>field := moved d (nat x) (nat y) (field s)\<rparr>)"
      by (simp add: goto_def set_field_def moved_upd)
    ultimately show ?thesis by (simp add: adjutant_step_def g) (simp add: goto_def)
  qed
  finally show ?thesis by simp
qed

lemma alone_reach:
  "reach init (hq_step term_byte) s \<Longrightarrow> i < 4 \<Longrightarrow> alone term_byte i k s = Inr t \<Longrightarrow>
   reach init (hq_step term_byte) t"
proof (induction k arbitrary: s)
  case 0
  then show ?case by simp
next
  case (Suc k)
  show ?case
  proof (cases "adjutant_step term_byte i s")
    case None
    with Suc.prems show ?thesis by simp
  next
    case (Some r)
    with Suc.prems(3) obtain u where u: "r = Inr u"
      "(if adj u i = AWait then Inr u else alone term_byte i k u) = Inr t"
      by (auto simp: bindr_eq_Inr_iff)
    then have "reach init (hq_step term_byte) u"
      using reach_step [OF Suc.prems(1) adjutant [OF Suc.prems(2)]] Some by simp
    with Suc u show ?thesis by (auto split: if_splits)
  qed
qed

section \<open>Properties\<close>

text \<open>
  C17: with four adjutants, the arrival of datagrams and the shutdown interleaved in any way, every
  array index stays in its array: at most 16 reports on the stack, at most 128 divisions with their
  addresses and sides, only registered divisions on the map, and every position an adjutant is about
  to write is inside the map; and no name (short enough to be terminated) is registered twice.
\<close>

theorem hq_safe:
  assumes "reach hq_initial (hq_step term_byte) s"
  shows "length (stk s) \<le> STACK_SIZE \<and> length (div_names s) \<le> DIVISION_NAMES_SIZE
    \<and> length (div_addr s) = length (div_names s) \<and> length (div_p s) = length (div_names s)
    \<and> (\<forall>r c. field s r c = - 1 \<or> (0 \<le> field s r c \<and> field s r c < int (length (div_names s))))
    \<and> distinct (filter (\<lambda>n. length n < 128) (div_names s))
    \<and> (\<forall>i d x y. adj s i = APlace d x y \<longrightarrow> d < length (div_names s) \<and> x < 100 \<and> y < 100)"
proof -
  have I: "hq_inv s" using hq.reach_inv [OF assms] .
  have "d < length (div_names s) \<and> x < 100 \<and> y < 100" if "adj s i = APlace d x y" for i d x y
  proof -
    have "apc_ok (length (div_names s)) (adj s i)" using I by (simp add: hq_inv_def)
    with that show ?thesis by (simp add: apc_ok_def)
  qed
  with I show ?thesis unfolding hq_inv_def by blast
qed

theorem hq_safe_witness: "length (stk (receive_report (Ok (''1 2 1 Garde'', \<lparr>sin_port = 7, sin_addr = 1\<rparr>)) hq_start)) \<le> 16"
proof -
  have "reach hq_initial (hq_step (\<lambda>_. True)) hq_start" by (rule reach_init) (simp add: hq_initial_def)
  moreover have "do_work hq_start" by (simp add: hq_start_def)
  ultimately have "reach hq_initial (hq_step (\<lambda>_. True))
      (receive_report (Ok (''1 2 1 Garde'', \<lparr>sin_port = 7, sin_addr = 1\<rparr>)) hq_start)"
    using reach_step arrival by metis
  from hq_safe [OF this] show ?thesis by blast
qed

text \<open>
  C16: a report handled without interference moves its division, and nothing else: afterwards the
  division stands on the reported field only, the field it stood on before is free, and every other
  field is as it was.
\<close>

theorem report_moves_division:
  assumes "adj s i = AGot msg" and "read_report (buf msg) = Inr (Some (x, y, p, n))"
    and "in_range x y p" and "register term_byte n (msg_addr msg) p s = (Some d, u)"
    and "unique d (field s)"
  shows "\<exists>t. alone term_byte i 110 s = Inr t \<and> adj t i = AWait
    \<and> field t (nat x) (nat y) = int d \<and> unique d (field t)
    \<and> (\<forall>r c. (r, c) \<noteq> (nat x, nat y) \<longrightarrow> field t r c = (if field s r c = int d then - 1 else field s r c))"
proof -
  have "unique d (moved d (nat x) (nat y) (field s))"
    using assms(3) by (auto simp: unique_def moved_def removed_def in_range_def)
  with alone_report [OF assms] show ?thesis
    by (simp add: goto_def moved_def removed_def)
qed

definition demo_hq :: hq where
  "demo_hq = hq_start\<lparr>adj := (\<lambda>i. AGot \<lparr>buf = order_text 3 4 ''Garde'', msg_addr = \<lparr>sin_port = 7, sin_addr = 1\<rparr>\<rparr>)\<rparr>"

lemma demo_report: "read_report (order_text 3 4 ''Garde'') = Inr (Some (3, 4, 1, ''Garde''))"
  using read_order [of "''Garde''" 3 4] by (simp add: name_ok_def isspace_def)

theorem report_moves_division_witness:
  "\<exists>t. alone (\<lambda>_. True) 2 110 demo_hq = Inr t \<and> field t 3 4 = 0 \<and> field t 4 3 = - 1"
proof -
  let ?a = "\<lparr>sin_port = 7, sin_addr = 1\<rparr> :: sockaddr_in"
  obtain u where "register (\<lambda>_. True) ''Garde'' ?a 1 demo_hq = (Some 0, u)"
    by (simp add: register_def demo_hq_def hq_start_def)
  moreover have "unique 0 (field demo_hq)" by (simp add: unique_def demo_hq_def hq_start_def)
  moreover have "adj demo_hq 2 = AGot \<lparr>buf = order_text 3 4 ''Garde'', msg_addr = ?a\<rparr>"
    by (simp add: demo_hq_def)
  ultimately show ?thesis
    using report_moves_division [of demo_hq 2 "\<lparr>buf = order_text 3 4 ''Garde'', msg_addr = ?a\<rparr>" 3 4 1 "''Garde''"
        "\<lambda>_. True" 0 u] demo_report
    by (auto simp: in_range_def demo_hq_def hq_start_def)
qed

text \<open>
  C23: what Napoleon sends is a report of the division it is sent to: in every reachable state the
  order goes to the address of a registered ally, and read with the format of the reports it gives a
  field of the map, the side 1 and the name of that division.
\<close>

theorem order_is_readable:
  assumes "reach hq_initial (hq_step term_byte) s" and "napoleon_order s g = (Inr (Some (a, t)), g')"
  shows "\<exists>d x y. d < length (div_names s) \<and> div_p s ! d = 1 \<and> a = div_addr s ! d \<and> x < 100 \<and> y < 100
    \<and> read_report t = Inr (Some (int x, int y, 1, div_names s ! d))"
proof -
  have I: "hq_inv s" using hq.reach_inv [OF assms(1)] .
  from assms(2) have ne: "allies s \<noteq> []" by (auto simp: napoleon_order_def split: if_splits)
  define d where "d = allies s ! (fst (rand g) mod length (allies s))"
  define x where "x = fst (rand (snd (rand g))) mod 100"
  define y where "y = fst (rand (snd (rand (snd (rand g))))) mod 100"
  from assms(2) ne have at: "a = div_addr s ! d" "t = order_text x y (div_names s ! d)"
    by (auto simp: napoleon_order_def Let_def split_def d_def x_def y_def split: if_splits)
  have "d \<in> set (allies s)" using ne unfolding d_def by (intro nth_mem) simp
  then have d: "d < length (div_names s)" "div_p s ! d = 1" by (auto simp: allies_def)
  then have "name_ok (div_names s ! d)" using I by (simp add: hq_inv_def)
  moreover have "x < 100" "y < 100" by (simp_all add: x_def y_def)
  ultimately show ?thesis using d at read_order by blast
qed

lemma hq_reach_adjutant:
  "reach init (hq_step term_byte) s \<Longrightarrow> i < 4 \<Longrightarrow> adjutant_step term_byte i s = Some (Inr t) \<Longrightarrow>
   reach init (hq_step term_byte) t"
  by (rule reach_step) (auto intro: adjutant)

lemma demo_registered:
  "\<exists>t. reach hq_initial (hq_step (\<lambda>_. True)) t \<and> div_names t = [''Garde''] \<and> div_p t = [1]
     \<and> div_addr t = [\<lparr>sin_port = 7, sin_addr = 1\<rparr>]"
proof -
  let ?a = "\<lparr>sin_port = 7, sin_addr = 1\<rparr> :: sockaddr_in"
  let ?txt = "order_text 3 4 ''Garde''"
  let ?m = "\<lparr>buf = ?txt, msg_addr = ?a\<rparr>"
  have r0: "reach hq_initial (hq_step (\<lambda>_. True)) hq_start" by (rule reach_init) (simp add: hq_initial_def)
  have ord: "?txt = ''3 4 1 Garde'' @ [CHR 0x0A]"
    by (simp add: order_text_def show_nat.simps digit_char_def) code_simp
  have rr: "receive_report (Ok (?txt, ?a)) hq_start = hq_start\<lparr>stk := [?m]\<rparr>"
    unfolding ord by (simp add: receive_report_def push_report_def hq_start_def)
  have "hq_step (\<lambda>_. True) hq_start (receive_report (Ok (?txt, ?a)) hq_start)"
    by (rule arrival) (simp add: hq_start_def)
  then have st: "hq_step (\<lambda>_. True) hq_start (hq_start\<lparr>stk := [?m]\<rparr>)" unfolding rr .
  have r1: "reach hq_initial (hq_step (\<lambda>_. True)) (hq_start\<lparr>stk := [?m]\<rparr>)"
    by (rule reach_step, rule r0, rule st)
  let ?s = "goto 0 (AGot ?m) hq_start"
  have st: "adjutant_step (\<lambda>_. True) 0 (hq_start\<lparr>stk := [?m]\<rparr>) = Some (Inr ?s)"
    by (simp add: adjutant_step_def hq_start_def goto_def)
  have r2: "reach hq_initial (hq_step (\<lambda>_. True)) ?s"
    by (rule hq_reach_adjutant [OF r1 _ st]) simp
  have reg: "register (\<lambda>_. True) ''Garde'' ?a 1 ?s
      = (Some 0, ?s\<lparr>div_names := [''Garde''], div_addr := [?a], div_p := [1]\<rparr>)"
    by (simp add: register_def hq_start_def goto_def)
  have un: "unique 0 (field ?s)" by (simp add: unique_def hq_start_def goto_def)
  have ad: "adj ?s 0 = AGot ?m" by (simp add: goto_def)
  have rp: "read_report (buf ?m) = Inr (Some (3, 4, 1, ''Garde''))" by (simp add: demo_report)
  have "msg_addr ?m = ?a" "in_range 3 4 1" by (simp_all add: in_range_def)
  with reg un ad rp have "alone (\<lambda>_. True) 0 110 ?s = Inr (goto 0 AWait ((?s\<lparr>div_names := [''Garde''],
      div_addr := [?a], div_p := [1]\<rparr>)\<lparr>field := moved 0 (nat 3) (nat 4) (field ?s)\<rparr>))"
    by (intro alone_report [OF ad rp]) simp_all
  from alone_reach [OF r2 _ this] show ?thesis by (intro exI conjI) (assumption | simp add: goto_def)+
qed

theorem order_is_readable_witness:
  "\<exists>t. read_report t = Inr (Some (0, 0, 1, ''Garde''))"
proof -
  from demo_registered obtain s where s: "reach hq_initial (hq_step (\<lambda>_. True)) s"
    "div_names s = [''Garde'']" "div_p s = [1]" "div_addr s = [\<lparr>sin_port = 7, sin_addr = 1\<rparr>]" by blast
  obtain g' where "napoleon_order s (\<lambda>_. 0)
      = (Inr (Some (\<lparr>sin_port = 7, sin_addr = 1\<rparr>, order_text 0 0 ''Garde'')), g')"
    using s(2-4) by (simp add: napoleon_order_def allies_def Let_def split_def)
  from order_is_readable [OF s(1) this] obtain x y where
    xy: "read_report (order_text 0 0 ''Garde'') = Inr (Some (int x, int y, 1, ''Garde''))"
    using s(2) by auto
  have "read_report (order_text 0 0 ''Garde'') = Inr (Some (0, 0, 1, ''Garde''))"
    using read_order [of "''Garde''" 0 0] by (simp add: name_ok_def isspace_def)
  with xy show ?thesis by blast
qed

text \<open>
  Two adjutants that handle reports of the same division at the same time can leave it on two
  fields: both search the map before either of them places the piece.
\<close>

theorem division_on_two_fields:
  assumes "adj s 0 = ARegister x y p n a" and "adj s 1 = ARegister x' y' p' n a'"
    and "find_idx (same_name term_byte s n) [0..<length (div_names s)] = Some d"
    and "unique d (field s)" and "(x, y) \<noteq> (x', y')"
  shows "\<exists>t. reach (\<lambda>u. u = s) (hq_step term_byte) t \<and> field t x y = int d \<and> field t x' y' = int d"
proof -
  have r0: "reach (\<lambda>u. u = s) (hq_step term_byte) s" by (rule reach_init) simp
  define u where "u = snd (register term_byte n a p s)"
  have u: "register term_byte n a p s = (Some d, u)" "field u = field s" "adj u = adj s"
    "div_names u = div_names s"
    using assms(3) by (simp_all add: u_def register_def)
  let ?s1 = "goto 0 (ASweep d 0 x y) u"
  have st: "adjutant_step term_byte 0 s = Some (Inr ?s1)"
    using assms(1) u(1) by (simp add: adjutant_step_def)
  have r1: "reach (\<lambda>u. u = s) (hq_step term_byte) ?s1"
    by (rule hq_reach_adjutant [OF r0 _ st]) simp
  have sn: "same_name term_byte ?s1 n = same_name term_byte s n"
    using u(4) by (simp add: same_name_def goto_def fun_eq_iff)
  define v where "v = snd (register term_byte n a' p' ?s1)"
  have v: "register term_byte n a' p' ?s1 = (Some d, v)" "field v = field s"
    "adj v = (adj s)(0 := ASweep d 0 x y)"
    using assms(3) sn u by (simp_all add: v_def register_def) (simp_all add: goto_def)
  let ?s2 = "goto 1 (ASweep d 0 x' y') v"
  have st: "adjutant_step term_byte 1 ?s1 = Some (Inr ?s2)"
    using assms(2) v(1) u(3) by (simp add: adjutant_step_def goto_def)
  have r2: "reach (\<lambda>u. u = s) (hq_step term_byte) ?s2"
    by (rule hq_reach_adjutant [OF r1 _ st]) simp
  have a2: "adj ?s2 0 = ASweep d 0 x y" "field ?s2 = field s" using v by (simp_all add: goto_def)
  from alone_sweep [OF a2(1), of term_byte] a2(2) assms(4) obtain k where
    k: "\<forall>j. alone term_byte 0 (k + j) ?s2
      = alone term_byte 0 j (goto 0 (APlace d x y) (?s2\<lparr>field := removed d (field s)\<rparr>))" by auto
  let ?s3 = "goto 0 (APlace d x y) (?s2\<lparr>field := removed d (field s)\<rparr>)"
  have r3: "reach (\<lambda>u. u = s) (hq_step term_byte) ?s3"
    by (rule alone_reach [OF r2, of 0 k]) (use spec [OF k, of 0] in simp_all)
  have a3: "adj ?s3 1 = ASweep d 0 x' y'" "field ?s3 = removed d (field s)" by (simp_all add: goto_def)
  have no_d: "removed d (field s) r c \<noteq> int d" for r c by (simp add: removed_def)
  then have "unique d (field ?s3)" unfolding a3(2) unique_def by blast
  from alone_sweep [OF a3(1) this, of term_byte] obtain l where
    l: "\<forall>j. alone term_byte 1 (l + j) ?s3
      = alone term_byte 1 j (goto 1 (APlace d x' y') (?s3\<lparr>field := removed d (field ?s3)\<rparr>))" by auto
  let ?s4 = "goto 1 (APlace d x' y') (?s3\<lparr>field := removed d (field ?s3)\<rparr>)"
  have r4: "reach (\<lambda>u. u = s) (hq_step term_byte) ?s4"
    by (rule alone_reach [OF r3, of 1 l]) (use spec [OF l, of 0] in simp_all)
  let ?s5 = "goto 0 AWait (set_field x y (int d) ?s4)"
  have st: "adjutant_step term_byte 0 ?s4 = Some (Inr ?s5)" by (simp add: adjutant_step_def goto_def)
  have r5: "reach (\<lambda>u. u = s) (hq_step term_byte) ?s5"
    by (rule hq_reach_adjutant [OF r4 _ st]) simp
  let ?s6 = "goto 1 AWait (set_field x' y' (int d) ?s5)"
  have st: "adjutant_step term_byte 1 ?s5 = Some (Inr ?s6)"
    by (simp add: adjutant_step_def goto_def set_field_def)
  have r6: "reach (\<lambda>u. u = s) (hq_step term_byte) ?s6"
    by (rule hq_reach_adjutant [OF r5 _ st]) simp
  have "field ?s6 x y = int d \<and> field ?s6 x' y' = int d"
    using assms(5) by (auto simp: goto_def set_field_def)
  with r6 show ?thesis by blast
qed

theorem division_on_two_fields_witness:
  "\<exists>t :: hq. field t 1 2 = 0 \<and> field t 3 4 = 0"
proof -
  let ?a = "\<lparr>sin_port = 7, sin_addr = 1\<rparr> :: sockaddr_in"
  let ?s = "hq_start\<lparr>div_names := [''Garde''], div_addr := [?a], div_p := [1],
      adj := (\<lambda>i. if i = 0 then ARegister 1 2 1 ''Garde'' ?a else ARegister 3 4 1 ''Garde'' ?a)\<rparr>"
  have "find_idx (same_name (\<lambda>_. True) ?s ''Garde'') [0..<length (div_names ?s)] = Some 0"
    by (simp add: same_name_def)
  from division_on_two_fields [OF _ _ this, of 1 2 1 ?a 3 4 1 ?a] show ?thesis
    by (auto simp: unique_def hq_start_def)
qed

end
