(* ===== verification/Pipes.thy ===== *)
theory Pipes
  imports Io Ctext
begin

text \<open>
  What the pipe programs of lab 05 share: \<^verbatim>\<open>pipe-utils.h\<close> over the set of descriptors
  a process has open, the distribution of the pipe ends between a parent and its children, integer
  arithmetic in \<^verbatim>\<open>int\<close>, and the values programs exchange through pipes.

  A pipe is the pair of its read end and its write end.  Closing a descriptor that is not open fails
  (\<^verbatim>\<open>EBADF\<close>), so a successful result shows that every descriptor was closed at most once.
\<close>

section \<open>Integers of C\<close>

definition in_int :: "int \<Rightarrow> bool" where
  "in_int x \<longleftrightarrow> - 2147483648 \<le> x \<and> x < 2147483648"

definition c_int :: "int \<Rightarrow> int run" where
  "c_int x = (if in_int x then Inr x else Inl (Undefined ''signed overflow''))"

lemma c_int_Inr [simp]: "c_int x = Inr y \<longleftrightarrow> y = x \<and> in_int x"
  by (auto simp: c_int_def)

section \<open>Descriptors and pipes\<close>

type_synonym pipe = "int \<times> int"

abbreviation READ :: nat where "READ \<equiv> 0"
abbreviation WRITE :: nat where "WRITE \<equiv> 1"

definition pend :: "nat \<Rightarrow> pipe \<Rightarrow> int" where
  "pend e p = (if e = READ then fst p else snd p)"

fun create_pipes :: "nat \<Rightarrow> pipe option list \<Rightarrow> int set \<Rightarrow> (pipe list \<times> int set) run" where
  "create_pipes 0 ks fds = Inr ([], fds)"
| "create_pipes (Suc n) ks fds =
     (case ks of
        Some p # ks' \<Rightarrow>
          bindr (create_pipes n ks' (insert (fst p) (insert (snd p) fds))) (\<lambda>(ps, f). Inr (p # ps, f))
      | _ \<Rightarrow> Inl (ERR ''pipe''))"

definition close_pipe :: "int \<Rightarrow> int set \<Rightarrow> int set run" where
  "close_pipe fd fds = (if fd \<in> fds then Inr (fds - {fd}) else Inl (ERR ''close''))"

fun close_pipes_all :: "int list \<Rightarrow> int set \<Rightarrow> int set run" where
  "close_pipes_all [] fds = Inr fds"
| "close_pipes_all (fd # rest) fds = bindr (close_pipe fd fds) (close_pipes_all rest)"

fun close_others :: "nat \<Rightarrow> nat \<Rightarrow> pipe list \<Rightarrow> int set \<Rightarrow> int set run" where
  "close_others i except_idx [] fds = Inr fds"
| "close_others i except_idx (p # ps) fds =
     bindr (if i \<noteq> except_idx
            then bindr (close_pipe (pend READ p) fds) (close_pipe (pend WRITE p))
            else Inr fds)
       (close_others (Suc i) except_idx ps)"

definition close_pipes_except :: "pipe list \<Rightarrow> nat \<Rightarrow> nat \<Rightarrow> int set \<Rightarrow> int set run" where
  "close_pipes_except ps except_idx pipe_end fds =
     bindr (close_others 0 except_idx ps fds) (close_pipe (pend (WRITE - pipe_end) (ps ! except_idx)))"

fun close_pipes_all_one_end :: "pipe list \<Rightarrow> nat \<Rightarrow> int set \<Rightarrow> int set run" where
  "close_pipes_all_one_end [] one_end fds = Inr fds"
| "close_pipes_all_one_end (p # ps) one_end fds =
     bindr (close_pipe (pend one_end p) fds) (close_pipes_all_one_end ps one_end)"

text \<open>The descriptors of a list of pipes, and pipes whose descriptors are all different and open.\<close>

definition ends :: "pipe list \<Rightarrow> int set" where
  "ends ps = (\<Union>p \<in> set ps. {fst p, snd p})"

fun fresh :: "pipe list \<Rightarrow> bool" where
  "fresh [] = True"
| "fresh (p # ps) = (fst p \<noteq> snd p \<and> fst p \<notin> ends ps \<and> snd p \<notin> ends ps \<and> fresh ps)"

lemma ends_simps [simp]:
  "ends [] = {}" "ends (p # ps) = insert (fst p) (insert (snd p) (ends ps))"
  by (auto simp: ends_def)

lemma pend_in_ends: "i < length ps \<Longrightarrow> pend e (ps ! i) \<in> ends ps"
  by (force simp: ends_def pend_def)

lemma close_pipe_Inr [simp]: "fd \<in> fds \<Longrightarrow> close_pipe fd fds = Inr (fds - {fd})"
  by (simp add: close_pipe_def)

lemma create_pipes_spec:
  "create_pipes n ks fds = Inr (ps, f) \<Longrightarrow>
   length ps = n \<and> f = fds \<union> ends ps"
proof (induction n ks fds arbitrary: ps f rule: create_pipes.induct)
  case (1 ks fds)
  then show ?case by simp
next
  case (2 n ks fds)
  then obtain p ks' ps' where k: "ks = Some p # ks'" "ps = p # ps'"
    "create_pipes n ks' (insert (fst p) (insert (snd p) fds)) = Inr (ps', f)"
    by (auto simp: bindr_eq_Inr_iff split: list.splits option.splits)
  from "2.IH" [OF k(1) refl k(3)] k(1,2) show ?case by auto
qed

lemma close_others_spec:
  "fresh ps \<Longrightarrow> ends ps \<subseteq> fds \<Longrightarrow>
   close_others i e ps fds = Inr (fds - (\<Union>k \<in> {k. k < length ps \<and> i + k \<noteq> e}. {fst (ps ! k), snd (ps ! k)}))"
proof (induction ps arbitrary: i fds)
  case Nil
  then show ?case by simp
next
  case (Cons p ps)
  let ?D = "\<lambda>i ps. \<Union>k \<in> {k. k < length ps \<and> i + k \<noteq> e}. {fst (ps ! k), snd (ps ! k)}"
  have D: "?D i (p # ps) = (if i \<noteq> e then {fst p, snd p} else {}) \<union> ?D (Suc i) ps"
  proof -
    have "{k. k < length (p # ps) \<and> i + k \<noteq> e}
        = (if i \<noteq> e then {0} else {}) \<union> Suc ` {k. k < length ps \<and> Suc i + k \<noteq> e}"
      by (auto simp: image_iff less_Suc_eq_0_disj)
    then show ?thesis by (simp only: UN_Un UN_insert image_UN[symmetric]) auto
  qed
  have s: "ends ps \<subseteq> fds - {fst p} - {snd p}" "ends ps \<subseteq> fds"
    using Cons.prems by auto
  show ?case
  proof (cases "i = e")
    case True
    with Cons.IH [of fds "Suc i"] Cons.prems s D show ?thesis by simp
  next
    case False
    with Cons.IH [of "fds - {fst p} - {snd p}" "Suc i"] Cons.prems s D show ?thesis
      by (simp add: pend_def) auto
  qed
qed

lemma fresh_nth:
  "fresh ps \<Longrightarrow> i < length ps \<Longrightarrow> j < length ps \<Longrightarrow>
   pend a (ps ! i) = pend b (ps ! j) \<longleftrightarrow> i = j \<and> (a = READ \<longleftrightarrow> b = READ)"
proof (induction ps arbitrary: i j)
  case Nil
  then show ?case by simp
next
  case (Cons p ps)
  have h: "pend a p \<notin> ends ps" for a using Cons.prems(1) by (simp add: pend_def)
  have d: "pend a p = pend b p \<longleftrightarrow> (a = READ \<longleftrightarrow> b = READ)" using Cons.prems(1) by (auto simp: pend_def)
  have n: "pend a p \<noteq> pend b (ps ! k)" if "k < length ps" for a b k
    using h pend_in_ends [OF that] by metis
  show ?case
  proof (cases i)
    case 0
    show ?thesis using 0 d n Cons.prems(3) by (cases j) auto
  next
    case (Suc k)
    show ?thesis
    proof (cases j)
      case 0
      then show ?thesis using Suc n [of k b a] Cons.prems(2) by auto
    next
      case (Suc l)
      with \<open>i = Suc k\<close> show ?thesis using Cons.IH [of k l] Cons.prems by simp
    qed
  qed
qed

lemma both_ends: "{fst p, snd p} = {pend e p | e. True}"
  unfolding pend_def by (rule set_eqI) (auto intro: exI [of _ READ] exI [of _ WRITE])

lemma ends_nth: "ends ps = {pend e (ps ! k) | k e. k < length ps}"
  unfolding ends_def both_ends set_conv_nth by blast

lemma remove_all_but_one:
  assumes "D \<subseteq> E" and "\<And>x. x \<in> E \<Longrightarrow> x = a \<or> x = b \<or> x \<in> D" and "b \<in> E" and "a \<notin> D" and "a \<noteq> b"
  shows "fds - D - {b} = fds - (E - {a})"
  using assms by blast

lemma close_pipes_except_spec:
  assumes "fresh ps" and "ends ps \<subseteq> fds" and "i < length ps" and "e = READ \<or> e = WRITE"
  shows "close_pipes_except ps i e fds = Inr (fds - (ends ps - {pend e (ps ! i)}))"
proof -
  let ?D = "{pend a (ps ! k) | k a. k < length ps \<and> k \<noteq> i}"
  have D: "(\<Union>k \<in> {k. k < length ps \<and> 0 + k \<noteq> i}. {fst (ps ! k), snd (ps ! k)}) = ?D"
    unfolding both_ends by auto
  note c = close_others_spec [OF assms(1,2), of 0 i, unfolded D]
  have o: "pend (WRITE - e) (ps ! i) \<in> ends ps" "pend (WRITE - e) (ps ! i) \<notin> ?D"
    using assms(3) fresh_nth [OF assms(1) assms(3)] pend_in_ends by auto
  have p: "pend e (ps ! i) \<notin> ?D" "pend e (ps ! i) \<noteq> pend (WRITE - e) (ps ! i)"
    using assms(3,4) fresh_nth [OF assms(1) assms(3)] by auto
  have E: "x = pend e (ps ! i) \<or> x = pend (WRITE - e) (ps ! i) \<or> x \<in> ?D" if "x \<in> ends ps" for x
  proof -
    from that obtain k a where x: "x = pend a (ps ! k)" "k < length ps" unfolding ends_nth by blast
    then show ?thesis using assms(4) by (cases "k = i") (auto simp: pend_def)
  qed
  have "?D \<subseteq> ends ps" unfolding ends_nth by blast
  then have "fds - ?D - {pend (WRITE - e) (ps ! i)} = fds - (ends ps - {pend e (ps ! i)})"
    using E o(1) p by (intro remove_all_but_one)
  moreover have "pend (WRITE - e) (ps ! i) \<in> fds - ?D" using o assms(2) by blast
  ultimately show ?thesis
    unfolding close_pipes_except_def c bindr_simps by (simp only: close_pipe_Inr)
qed

lemma close_one_end_spec:
  "fresh ps \<Longrightarrow> ends ps \<subseteq> fds \<Longrightarrow>
   close_pipes_all_one_end ps e fds = Inr (fds - pend e ` set ps)"
proof (induction ps arbitrary: fds)
  case Nil
  then show ?case by simp
next
  case (Cons p ps)
  have "pend e p \<in> fds" "ends ps \<subseteq> fds - {pend e p}" using Cons.prems by (auto simp: pend_def)
  with Cons.IH [of "fds - {pend e p}"] Cons.prems show ?case by auto
qed

section \<open>Tables of descriptors\<close>

text \<open>
  The parents keep the ends they still use in the arrays \<^verbatim>\<open>rps\<close> and \<^verbatim>\<open>wps\<close>
  and overwrite a closed one with 0.  \<open>fd_table std xs fds\<close>: the process has open the descriptors
  \<open>std\<close> and, each once, the entries of the table that are not 0.
\<close>

definition live :: "int list \<Rightarrow> int set" where
  "live xs = set xs - {0}"

definition fd_table :: "int set \<Rightarrow> int list \<Rightarrow> int set \<Rightarrow> bool" where
  "fd_table std xs fds \<longleftrightarrow>
     distinct (filter (\<lambda>x. x \<noteq> 0) xs) \<and> fds = std \<union> live xs \<and> std \<inter> live xs = {}"

lemma live_update:
  assumes "distinct (filter (\<lambda>x. x \<noteq> 0) xs)" and "i < length xs"
  shows "live (xs[i := 0]) = live xs - {xs ! i}" and "distinct (filter (\<lambda>x. x \<noteq> 0) (xs[i := 0]))"
proof -
  let ?a = "take i xs" and ?b = "drop (Suc i) xs"
  have u: "xs[i := 0] = ?a @ 0 # ?b" "xs = ?a @ xs ! i # ?b"
    using assms(2) by (simp_all add: upd_conv_take_nth_drop id_take_nth_drop)
  have d: "distinct (filter (\<lambda>x. x \<noteq> 0) (?a @ xs ! i # ?b))"
    using assms(1) u(2) by simp
  then show "distinct (filter (\<lambda>x. x \<noteq> 0) (xs[i := 0]))"
    by (cases "xs ! i = 0") (auto simp: u(1))
  have "live xs = live (?a @ xs ! i # ?b)" using u(2) by simp
  then show "live (xs[i := 0]) = live xs - {xs ! i}"
    using d by (cases "xs ! i = 0") (auto simp: u(1) live_def)
qed

lemma fd_table_close:
  assumes "fd_table std xs fds" and "i < length xs" and "xs ! i \<noteq> 0"
  shows "close_pipe (xs ! i) fds = Inr (fds - {xs ! i})"
    and "fd_table std (xs[i := 0]) (fds - {xs ! i})"
proof -
  have m: "xs ! i \<in> live xs" using assms(2,3) by (simp add: live_def)
  with assms(1) have "xs ! i \<in> fds" "xs ! i \<notin> std" by (auto simp: fd_table_def)
  then show "close_pipe (xs ! i) fds = Inr (fds - {xs ! i})" by simp
  show "fd_table std (xs[i := 0]) (fds - {xs ! i})"
    using assms(1) live_update [OF _ assms(2)] \<open>xs ! i \<notin> std\<close> unfolding fd_table_def by auto
qed

text \<open>
  The parents' last loop: \<^verbatim>\<open>close\<close> on what is left in the tables, its results not looked at.
\<close>

definition close_quietly :: "int \<Rightarrow> int set \<Rightarrow> int set" where
  "close_quietly fd fds = fds - {fd}"

text \<open>A loop that only closes, and the two ends of a pipe by name.\<close>

lemma fold_closes: "(\<And>x f. g x f = f - h x) \<Longrightarrow> fold g xs F = F - (\<Union>x \<in> set xs. h x)"
  by (induction xs arbitrary: F) auto

lemma pend_ends: "pend READ p = fst p" "pend WRITE p = snd p" "pend (Suc 0) p = snd p"
  by (simp_all add: pend_def)

fun close_left :: "int list \<Rightarrow> int list \<Rightarrow> int set \<Rightarrow> int set" where
  "close_left (r # rs) (w # ws) fds =
     (let f = if r \<noteq> 0 then close_quietly r fds else fds
      in close_left rs ws (if w \<noteq> 0 then close_quietly w f else f))"
| "close_left _ _ fds = fds"

lemma close_left_live: "length rs = length ws \<Longrightarrow> close_left rs ws fds = fds - live (rs @ ws)"
  by (induction rs ws fds rule: close_left.induct) (auto simp: Let_def close_quietly_def live_def)

lemma close_left_table:
  "length rs = length ws \<Longrightarrow> fd_table std (rs @ ws) fds \<Longrightarrow> close_left rs ws fds = std"
  by (auto simp: close_left_live fd_table_def)

section \<open>A parent and its children\<close>

text \<open>
  Before the fork every process has open all ends of two lists of pipes; child \<open>i\<close> keeps the read
  end of \<open>to ! i\<close> and the write end of \<open>from ! i\<close>, the parent keeps the other ends.
\<close>

lemma ends_append [simp]: "ends (ps @ qs) = ends ps \<union> ends qs"
  by (simp add: ends_def)

lemma fresh_append: "fresh (ps @ qs) \<longleftrightarrow> fresh ps \<and> fresh qs \<and> ends ps \<inter> ends qs = {}"
  by (induction ps) auto

lemma star_child:
  assumes "fresh (to @ from)" and "std \<inter> ends (to @ from) = {}" and "i < length to" and "length from = length to"
  shows "bindr (close_pipes_except to i READ (std \<union> ends (to @ from))) (close_pipes_except from i WRITE) =
         Inr (std \<union> {pend READ (to ! i), pend WRITE (from ! i)})"
proof -
  let ?r = "pend READ (to ! i)" and ?w = "pend WRITE (from ! i)"
  have f: "fresh to" "fresh from" "ends to \<inter> ends from = {}" using assms(1) by (auto simp: fresh_append)
  have m: "?r \<in> ends to" "?w \<in> ends from" using assms(3,4) by (simp_all add: pend_in_ends)
  have "close_pipes_except to i READ (std \<union> ends (to @ from)) =
        Inr (std \<union> ends (to @ from) - (ends to - {?r}))"
    by (rule close_pipes_except_spec) (use f assms(3) in auto)
  moreover have "close_pipes_except from i WRITE (std \<union> ends (to @ from) - (ends to - {?r})) =
        Inr (std \<union> ends (to @ from) - (ends to - {?r}) - (ends from - {?w}))"
    by (rule close_pipes_except_spec) (use f assms(3,4) in auto)
  moreover have "std \<union> ends (to @ from) - (ends to - {?r}) - (ends from - {?w}) = std \<union> {?r, ?w}"
    using m f(3) assms(2) by auto
  ultimately show ?thesis by simp
qed

lemma one_end_subset: "pend e ` set ps \<subseteq> ends ps"
  by (auto simp: pend_def ends_def)

lemma fresh_one_end:
  "fresh ps \<Longrightarrow> distinct (map (pend e) ps)"
  "fresh ps \<Longrightarrow> ends ps - pend READ ` set ps = pend WRITE ` set ps"
  "fresh ps \<Longrightarrow> ends ps - pend WRITE ` set ps = pend READ ` set ps"
proof -
  have P: "fresh ps \<Longrightarrow> distinct (map (pend e) ps) \<and> ends ps - pend READ ` set ps = pend WRITE ` set ps \<and>
        ends ps - pend WRITE ` set ps = pend READ ` set ps"
  proof (induction ps)
    case Nil
    then show ?case by simp
  next
    case (Cons p ps)
    have s: "pend READ ` set ps \<subseteq> ends ps" "pend WRITE ` set ps \<subseteq> ends ps" "pend e ` set ps \<subseteq> ends ps"
      by (rule one_end_subset)+
    have d: "fst p \<noteq> snd p" "fst p \<notin> ends ps" "snd p \<notin> ends ps" using Cons.prems by auto
    have "pend e p \<notin> ends ps" using d by (simp add: pend_def)
    moreover have "pend READ p = fst p" "pend WRITE p = snd p" by (simp_all add: pend_def)
    ultimately show ?case using Cons.IH Cons.prems s d by auto
  qed
  show "fresh ps \<Longrightarrow> distinct (map (pend e) ps)"
    "fresh ps \<Longrightarrow> ends ps - pend READ ` set ps = pend WRITE ` set ps"
    "fresh ps \<Longrightarrow> ends ps - pend WRITE ` set ps = pend READ ` set ps"
    using P by auto
qed

lemma keep_parts:
  "T - A = W \<Longrightarrow> F - B = R \<Longrightarrow> A \<subseteq> T \<Longrightarrow> B \<subseteq> F \<Longrightarrow> T \<inter> F = {} \<Longrightarrow> S \<inter> (T \<union> F) = {} \<Longrightarrow>
   S \<union> (T \<union> F) - A - B = S \<union> (R \<union> W)"
  by blast

lemma star_parent:
  assumes "fresh (to @ from)" and "std \<inter> ends (to @ from) = {}" and "0 \<notin> ends (to @ from)"
  shows "\<exists>fds. bindr (close_pipes_all_one_end to READ (std \<union> ends (to @ from))) (close_pipes_all_one_end from WRITE) = Inr fds
           \<and> fd_table std (map (pend READ) from @ map (pend WRITE) to) fds"
proof -
  have f: "fresh to" "fresh from" "ends to \<inter> ends from = {}" using assms(1) by (auto simp: fresh_append)
  let ?R = "pend READ ` set from" and ?W = "pend WRITE ` set to"
  have s: "?R \<subseteq> ends from" "?W \<subseteq> ends to" "pend READ ` set to \<subseteq> ends to" "pend WRITE ` set from \<subseteq> ends from"
    by (rule one_end_subset)+
  let ?F = "std \<union> ends (to @ from)"
  have 1: "close_pipes_all_one_end to READ ?F = Inr (?F - pend READ ` set to)"
    by (rule close_one_end_spec) (use f in auto)
  have 2: "close_pipes_all_one_end from WRITE (?F - pend READ ` set to) =
           Inr (?F - pend READ ` set to - pend WRITE ` set from)"
    by (rule close_one_end_spec) (use f s in auto)
  let ?T = "map (pend READ) from @ map (pend WRITE) to"
  have z: "0 \<notin> set ?T" using s assms(3) by auto
  then have n: "filter (\<lambda>x. x \<noteq> 0) ?T = ?T" by (intro filter_True) blast
  have l: "live ?T = ?R \<union> ?W" using z by (auto simp: live_def)
  have "?R \<inter> ?W = {}" using f(3) s by blast
  then have "distinct ?T" using fresh_one_end(1) [OF f(1)] fresh_one_end(1) [OF f(2)] by simp
  moreover have "?F - pend READ ` set to - pend WRITE ` set from = std \<union> (?R \<union> ?W)"
    unfolding ends_append
    by (rule keep_parts [OF fresh_one_end(2) [OF f(1)] fresh_one_end(3) [OF f(2)] s(3,4) f(3)])
       (use assms(2) in simp)
  ultimately have "fd_table std ?T (?F - pend READ ` set to - pend WRITE ` set from)"
    using assms(2) s unfolding fd_table_def n l by auto
  with 1 2 show ?thesis by simp
qed

text \<open>A piece of a program without effects, inside one that has them.\<close>

definition quiet :: "'a run \<Rightarrow> ('e, 'a) io" where
  "quiet m = ([], m)"

lemma quiet_sel [simp]: "fst (quiet m) = []" "snd (quiet m) = m"
  by (simp_all add: quiet_def)

lemma seq_quiet [simp]: "seq (quiet (Inl e)) f = die e" "seq (quiet (Inr x)) f = f x"
  by (simp_all add: quiet_def die_def)

text \<open>The loop \<^verbatim>\<open>for (i = a; i < a + n; i++)\<close> over a state.\<close>

fun io_for :: "nat \<Rightarrow> nat \<Rightarrow> (nat \<Rightarrow> 's \<Rightarrow> ('e, 's) io) \<Rightarrow> 's \<Rightarrow> ('e, 's) io" where
  "io_for a 0 body s = ret s"
| "io_for a (Suc n) body s = seq (body a s) (io_for (Suc a) n body)"

text \<open>
  \<open>yields E Q m\<close>: a run that leaves early leaves with an exit in \<open>E\<close>, any other has a result in \<open>Q\<close>.
\<close>

definition yields :: "(fatal \<Rightarrow> bool) \<Rightarrow> ('a \<Rightarrow> bool) \<Rightarrow> 'a run \<Rightarrow> bool" where
  "yields E Q m = (case m of Inl e \<Rightarrow> E e | Inr x \<Rightarrow> Q x)"

lemma yields_simps [simp]: "yields E Q (Inl e) = E e" "yields E Q (Inr x) = Q x"
  by (simp_all add: yields_def)

lemma yields_bindr: "yields E R m \<Longrightarrow> (\<And>x. R x \<Longrightarrow> yields E Q (f x)) \<Longrightarrow> yields E Q (bindr m f)"
  by (cases m) simp_all

lemma snd_seq: "snd (seq m f) = bindr (snd m) (\<lambda>x. snd (f x))"
  by (cases m; cases "snd m") (auto simp: seq_def split: prod.splits)

lemma yields_seq:
  "yields E R (snd m) \<Longrightarrow> (\<And>x. R x \<Longrightarrow> yields E Q (snd (f x))) \<Longrightarrow> yields E Q (snd (seq m f))"
  unfolding snd_seq by (rule yields_bindr)

lemma yields_emit: "yields E Q (snd (f ())) \<Longrightarrow> yields E Q (snd (seq (emit es) f))"
  by simp

lemma yields_mono:
  "yields E R m \<Longrightarrow> (\<And>x. R x \<Longrightarrow> Q x) \<Longrightarrow> yields E Q m"
  by (cases m) auto

lemma yieldsI:
  "(\<And>e. m = Inl e \<Longrightarrow> E e) \<Longrightarrow> (\<And>x. m = Inr x \<Longrightarrow> Q x) \<Longrightarrow> yields E Q m"
  by (cases m) auto

lemma yields_c_int: "E (Undefined ''signed overflow'') \<Longrightarrow> Q x \<Longrightarrow> yields E Q (c_int x)"
  by (simp add: c_int_def)

lemma yields_io_for:
  assumes "\<And>i s. a \<le> i \<Longrightarrow> i < a + n \<Longrightarrow> I i s \<Longrightarrow> yields E (I (Suc i)) (snd (body i s))" and "I a s"
  shows "yields E (I (a + n)) (snd (io_for a n body s))"
  using assms
proof (induction n arbitrary: a s)
  case 0
  then show ?case by simp
next
  case (Suc n)
  have b: "yields E (I (Suc a)) (snd (body a s))" using Suc.prems by simp
  have r: "yields E (I (Suc a + n)) (snd (io_for (Suc a) n body t))" if "I (Suc a) t" for t
    by (rule Suc.IH) (use Suc.prems(1) that in auto)
  show ?case using yields_seq [OF b r] by simp
qed

text \<open>
  \<open>tells E Q h m\<close>: the same with the effects: \<open>Q\<close> is asked of the result and of the effects of the
  program so far, which are \<open>h\<close> before \<open>m\<close> runs.
\<close>

definition tells :: "(fatal \<Rightarrow> bool) \<Rightarrow> ('e list \<Rightarrow> 'a \<Rightarrow> bool) \<Rightarrow> 'e list \<Rightarrow> ('e, 'a) io \<Rightarrow> bool" where
  "tells E Q h m = yields E (Q (h @ fst m)) (snd m)"

lemma tells_ret [simp]: "tells E Q h (ret x) = Q h x"
  by (simp add: tells_def)

lemma tells_pair [simp]: "tells E Q h (es, Inr x) = Q (h @ es) x" "tells E Q h (es, Inl e) = E e"
  by (simp_all add: tells_def)

lemma tells_total: "tells (\<lambda>_. False) Q h m \<Longrightarrow> \<exists>es x. m = (es, Inr x) \<and> Q (h @ es) x"
  by (cases m; cases "snd m") auto

lemma tells_die [simp]: "tells E Q h (die e) = E e"
  by (simp add: tells_def)

lemma tells_seq:
  assumes m: "tells E R h m" and f: "\<And>h' x. R h' x \<Longrightarrow> tells E Q h' (f x)"
  shows "tells E Q h (seq m f)"
proof (cases m)
  case (Pair es r)
  show ?thesis
  proof (cases r)
    case (Inl e)
    then show ?thesis using m Pair by (simp add: tells_def)
  next
    case (Inr x)
    then have "R (h @ es) x" using m Pair by (simp add: tells_def)
    from f [OF this] show ?thesis using Pair Inr by (simp add: tells_def)
  qed
qed

lemma tells_emit: "tells E Q (h @ es) (f ()) \<Longrightarrow> tells E Q h (seq (emit es) f)"
  by (simp add: tells_def)

lemma tells_io_for:
  assumes "\<And>i h s. a \<le> i \<Longrightarrow> i < a + n \<Longrightarrow> I i h s \<Longrightarrow> tells E (I (Suc i)) h (body i s)" and "I a h s"
  shows "tells E (I (a + n)) h (io_for a n body s)"
  using assms
proof (induction n arbitrary: a h s)
  case 0
  then show ?case by simp
next
  case (Suc n)
  have b: "tells E (I (Suc a)) h (body a s)" using Suc.prems by simp
  have r: "tells E (I (Suc a + n)) h' (io_for (Suc a) n body t)" if "I (Suc a) h' t" for h' t
    by (rule Suc.IH) (use Suc.prems(1) that in auto)
  show ?case using tells_seq [OF b r] by simp
qed

end
