(* ===== verification/Lotto.thy ===== *)
theory Lotto
  imports Pipes
begin

text \<open>
  \<^verbatim>\<open>lab05/sop-lotto/sop-lotto.c\<close>: players bet six numbers a week, the totaliser draws six
  and pays.  Messages are at most 24 bytes, which a pipe transfers whole, so a read answers with the
  end of file, a whole message, or an error.
\<close>

section \<open>Numbers and rewards\<close>

abbreviation NUMBERS_MAX :: nat where "NUMBERS_MAX \<equiv> 49"
abbreviation NUMBERS :: nat where "NUMBERS \<equiv> 6"
abbreviation BET_PRICE :: int where "BET_PRICE \<equiv> 3"
abbreviation RESIGN_PROBABILITY :: nat where "RESIGN_PROBABILITY \<equiv> 100"

definition should_resign :: "nat \<Rightarrow> rng \<Rightarrow> bool \<times> rng" where
  "should_resign probability r = (fst (rand r) mod probability = 0, snd (rand r))"

definition get_reward :: "nat \<Rightarrow> int run" where
  "get_reward matches =
     (let rewards = [0, 0, 0, 24, 160, 6000, 10000000]
      in if matches < length rewards then Inr (rewards ! matches) else Inl (Undefined ''rewards''))"

fun draw_loop :: "nat \<Rightarrow> nat \<Rightarrow> int list \<Rightarrow> rng \<Rightarrow> int list \<times> rng" where
  "draw_loop i 0 numbers_all r = (numbers_all, r)"
| "draw_loop i (Suc n) numbers_all r =
     (let j = i + fst (rand r) div (RAND_MAX div (NUMBERS_MAX - i) + 1)
      in draw_loop (Suc i) n (swap_at i j numbers_all) (snd (rand r)))"

definition draw :: "rng \<Rightarrow> int list \<times> rng" where
  "draw r = (case draw_loop 0 (NUMBERS_MAX - 1) [1..int NUMBERS_MAX] r of
               (numbers_all, r') \<Rightarrow> (take NUMBERS numbers_all, r'))"

text \<open>Both arrays have six elements.\<close>

definition compare_bets :: "int list \<Rightarrow> int list \<Rightarrow> nat" where
  "compare_bets bet numbers =
     sum_list (map (\<lambda>number. sum_list (map (\<lambda>b. if number = b then 1 else 0) bet)) numbers)"

section \<open>The player\<close>

datatype lotto_eff =
    Playing int | Waste int | SendPid int | SendBet "int list" | Won int int
  | BetLine int "int list" | SendWin nat "int list" | Lucky "int list" | Totals int int

text \<open>The answers a player gets in one week: its two writes and its read.\<close>

record player_week =
  ans_pid :: "unit sysret"
  ans_bet :: "unit sysret"
  ans_win :: "int list option sysret"

fun player_work :: "int \<Rightarrow> nat \<Rightarrow> rng \<Rightarrow> (nat \<Rightarrow> player_week) \<Rightarrow> (lotto_eff, unit) io" where
  "player_work pid 0 r k = ret ()"
| "player_work pid (Suc t) r k =
     (let a = k 0; (resigns, r1) = should_resign RESIGN_PROBABILITY r
      in if resigns then emit [Waste pid]
         else let (numbers, r2) = draw r1
         in seq (emit [SendPid pid]) (\<lambda>_.
            case ans_pid a of
              Fail e \<Rightarrow> if e = EPIPE then ret () else die (ERR ''write pid'')
            | Ok _ \<Rightarrow> seq (emit [SendBet numbers]) (\<lambda>_.
              case ans_bet a of
                Fail e \<Rightarrow> if e = EPIPE then ret () else die (ERR ''write numbers'')
              | Ok _ \<Rightarrow> (case ans_win a of
                  Fail e \<Rightarrow> die (ERR ''read winning'')
                | Ok None \<Rightarrow> ret ()
                | Ok (Some winning) \<Rightarrow>
                    seq (quiet (get_reward (compare_bets winning numbers))) (\<lambda>reward.
                    seq (emit (if reward > 0 then [Won pid reward] else [])) (\<lambda>_.
                    player_work pid t r2 (\<lambda>w. k (Suc w))))))))"

section \<open>The totaliser\<close>

record tot =
  rps :: "int list"
  wps :: "int list"
  total_bet :: int
  total_reward :: int
  any_left :: bool
  open_fds :: "int set"

text \<open>What the kernel answers to the three calls on player \<open>i\<close> in one week.\<close>

record tot_ans =
  got_pid :: "int option sysret"
  got_bet :: "int list option sysret"
  sent_win :: "unit sysret"

definition drop_rp :: "nat \<Rightarrow> tot \<Rightarrow> tot run" where
  "drop_rp i s = bindr (close_pipe (rps s ! i) (open_fds s))
                   (\<lambda>f. Inr (s\<lparr>rps := (rps s)[i := 0], open_fds := f\<rparr>))"

definition drop_wp :: "nat \<Rightarrow> tot \<Rightarrow> tot run" where
  "drop_wp i s = bindr (close_pipe (wps s ! i) (open_fds s))
                   (\<lambda>f. Inr (s\<lparr>wps := (wps s)[i := 0], open_fds := f\<rparr>))"

definition serve_player :: "int list \<Rightarrow> tot_ans \<Rightarrow> nat \<Rightarrow> tot \<Rightarrow> (lotto_eff, tot) io" where
  "serve_player winning a i s0 =
     (if rps s0 ! i = 0 then ret s0
      else let s = s0\<lparr>any_left := True\<rparr> in
      case got_pid a of
        Fail _ \<Rightarrow> die (ERR ''read pid'')
      | Ok None \<Rightarrow> quiet (drop_rp i s)
      | Ok (Some player_pid) \<Rightarrow>
         (case got_bet a of
            Fail _ \<Rightarrow> die (ERR ''read numbers'')
          | Ok None \<Rightarrow> quiet (drop_rp i s)
          | Ok (Some player_numbers) \<Rightarrow>
              seq (emit [BetLine player_pid player_numbers]) (\<lambda>_.
              seq (quiet (get_reward (compare_bets winning player_numbers))) (\<lambda>reward.
              seq (quiet (c_int (total_reward s + reward))) (\<lambda>tr.
              seq (quiet (c_int (total_bet s + BET_PRICE))) (\<lambda>tb.
              let s' = s\<lparr>total_reward := tr, total_bet := tb\<rparr> in
              seq (emit [SendWin i winning]) (\<lambda>_.
              case sent_win a of
                Ok _ \<Rightarrow> ret s'
              | Fail e \<Rightarrow> if e = EPIPE then quiet (drop_wp i s') else die (ERR ''write''))))))))"

fun totalisator_weeks :: "nat \<Rightarrow> nat \<Rightarrow> rng \<Rightarrow> (nat \<Rightarrow> nat \<Rightarrow> tot_ans) \<Rightarrow> tot \<Rightarrow> (lotto_eff, tot) io" where
  "totalisator_weeks n 0 r k s = ret s"
| "totalisator_weeks n (Suc t) r k s =
     (let (winning, r') = draw r
      in seq (io_for 0 n (\<lambda>i. serve_player winning (k 0 i) i) (s\<lparr>any_left := False\<rparr>)) (\<lambda>s'.
         if \<not> any_left s' then ret s'
         else seq (emit [Lucky winning]) (\<lambda>_. totalisator_weeks n t r' (\<lambda>w. k (Suc w)) s')))"

definition totalisator_work ::
  "int list \<Rightarrow> int list \<Rightarrow> nat \<Rightarrow> nat \<Rightarrow> rng \<Rightarrow> (nat \<Rightarrow> nat \<Rightarrow> tot_ans) \<Rightarrow> int set \<Rightarrow> (lotto_eff, tot) io" where
  "totalisator_work rp wp n t r k fds =
     seq (totalisator_weeks n t r k
            \<lparr>rps = rp, wps = wp, total_bet = 0, total_reward = 0, any_left = False, open_fds = fds\<rparr>) (\<lambda>s.
     seq (emit [Totals (total_bet s) (total_reward s)]) (\<lambda>_. ret s))"

section \<open>The program\<close>

text \<open>
  A child closes the ends it does not use.  The answers the kernel has for the calls of its game are for the open
  descriptors \<open>rp\<close> and \<open>wp\<close>; on a closed one a call fails with \<open>EBADF\<close>.
\<close>

definition player_ends :: "pipe list \<Rightarrow> pipe list \<Rightarrow> nat \<Rightarrow> int set \<Rightarrow> int set run" where
  "player_ends to from i fds = bindr (close_pipes_except to i READ fds) (close_pipes_except from i WRITE)"

definition on_open :: "int \<Rightarrow> int set \<Rightarrow> 'a sysret \<Rightarrow> 'a sysret" where
  "on_open fd fds a = (if fd \<in> fds then a else Fail EBADF)"

definition lotto_child ::
  "pipe list \<Rightarrow> pipe list \<Rightarrow> nat \<Rightarrow> nat \<Rightarrow> int \<Rightarrow> rng \<Rightarrow> (nat \<Rightarrow> player_week) \<Rightarrow> int set \<Rightarrow> (lotto_eff, int set) io" where
  "lotto_child to from i t pid r k fds =
     seq (emit [Playing pid]) (\<lambda>_.
     seq (quiet (player_ends to from i fds)) (\<lambda>f.
     let rp = pend READ (to ! i); wp = pend WRITE (from ! i) in
     seq (player_work pid t r (\<lambda>w. \<lparr>ans_pid = on_open wp f (ans_pid (k w)), ans_bet = on_open wp f (ans_bet (k w)),
        ans_win = on_open rp f (ans_win (k w))\<rparr>)) (\<lambda>_.
     ret (close_quietly (pend WRITE (to ! i)) (close_quietly (pend READ (to ! i)) f)))))"

definition lotto_parent ::
  "pipe list \<Rightarrow> pipe list \<Rightarrow> nat \<Rightarrow> nat \<Rightarrow> rng \<Rightarrow> (nat \<Rightarrow> nat \<Rightarrow> tot_ans) \<Rightarrow> int set \<Rightarrow> (lotto_eff, int set) io" where
  "lotto_parent to from n t r k fds =
     seq (quiet (bindr (close_pipes_all_one_end to READ fds) (close_pipes_all_one_end from WRITE))) (\<lambda>f.
     seq (totalisator_work (map (pend READ) from) (map (pend WRITE) to) n t r k f) (\<lambda>s.
     ret (close_left (rps s) (wps s) (open_fds s))))"

definition lotto_args :: "string list \<Rightarrow> (nat \<times> nat) run" where
  "lotto_args argv =
     (if length argv \<noteq> 3 then Inl Usage
      else let N = atoi (argv ! 1); T = atoi (argv ! 2) in
        if N < 1 \<or> T < 1 then Inl Usage else Inr (nat N, nat T))"

text \<open>The set-up of \<^verbatim>\<open>main\<close>: both lists of pipes, whatever pipes the kernel hands out.\<close>

definition lotto_pipes :: "nat \<Rightarrow> pipe option list \<Rightarrow> pipe option list \<Rightarrow> int set \<Rightarrow> (pipe list \<times> pipe list \<times> int set) run" where
  "lotto_pipes n k1 k2 fds =
     bindr (create_pipes n k1 fds) (\<lambda>(to, f1).
     bindr (create_pipes n k2 f1) (\<lambda>(from, f2). Inr (to, from, f2)))"

definition lotto_main ::
  "string list \<Rightarrow> pipe option list \<Rightarrow> pipe option list \<Rightarrow> (nat \<Rightarrow> unit sysret) \<Rightarrow> rng \<Rightarrow>
   (nat \<Rightarrow> nat \<Rightarrow> tot_ans) \<Rightarrow> int set \<Rightarrow> (lotto_eff, int set) io" where
  "lotto_main argv k1 k2 forks r k fds =
     seq (quiet (lotto_args argv)) (\<lambda>(N, T).
     seq (quiet (lotto_pipes N k1 k2 fds)) (\<lambda>(to, from, f).
     seq (io_for 0 N (\<lambda>i u. case forks i of Ok _ \<Rightarrow> ret () | Fail _ \<Rightarrow> die (ERR ''fork'')) ()) (\<lambda>_.
     lotto_parent to from N T r k f)))"

section \<open>Draws\<close>

lemma rand_scaled_less:
  assumes "0 < m"
  shows "fst (rand r) div (RAND_MAX div m + 1) < m"
proof -
  have "fst (rand r) < m * (RAND_MAX div m + 1)"
    using rand_le_max [of r] dividend_less_times_div [OF assms, of RAND_MAX] by simp
  then show ?thesis
    using less_mult_imp_div_less by blast
qed

lemma draw_loop_perm:
  "length xs = NUMBERS_MAX \<Longrightarrow> i + n < NUMBERS_MAX \<Longrightarrow> mset (fst (draw_loop i n xs r)) = mset xs"
proof (induction n arbitrary: i xs r)
  case 0
  then show ?case by simp
next
  case (Suc n)
  have "fst (rand r) div (RAND_MAX div (NUMBERS_MAX - i) + 1) < NUMBERS_MAX - i"
    by (rule rand_scaled_less) (use Suc.prems in simp)
  then have "i + fst (rand r) div (RAND_MAX div (NUMBERS_MAX - i) + 1) < length xs" "i < length xs"
    using Suc.prems by simp_all
  with Suc.IH [of _ "Suc i"] Suc.prems show ?case by (simp add: Let_def)
qed

lemma draw_spec:
  "length (fst (draw r)) = NUMBERS \<and> distinct (fst (draw r)) \<and> set (fst (draw r)) \<subseteq> {1..int NUMBERS_MAX}"
proof -
  obtain xs r' where d: "draw_loop 0 (NUMBERS_MAX - 1) [1..int NUMBERS_MAX] r = (xs, r')"
    by (metis surj_pair)
  have "mset (fst (draw_loop 0 (NUMBERS_MAX - 1) [1..int NUMBERS_MAX] r)) = mset [1..int NUMBERS_MAX]"
    by (rule draw_loop_perm) simp_all
  then have m: "mset xs = mset [1..int NUMBERS_MAX]" using d by simp
  have "length xs = NUMBERS_MAX" "distinct xs" "set xs = {1..int NUMBERS_MAX}"
    using mset_eq_length [OF m] mset_eq_imp_distinct_iff [OF m] mset_eq_setD [OF m] by simp_all
  with d show ?thesis using set_take_subset [of NUMBERS xs] by (simp add: draw_def)
qed

lemma count_hits:
  "distinct ys \<Longrightarrow> sum_list (map (\<lambda>y. if x = y then 1 else 0) ys) = (if x \<in> set ys then 1 else (0::nat))"
  by (induction ys) auto

lemma compare_bets_card:
  assumes "distinct a" and "distinct b"
  shows "compare_bets a b = card (set a \<inter> set b)"
proof -
  have "compare_bets a b = sum_list (map (\<lambda>y. if y \<in> set a then 1 else 0) b)"
    by (simp add: compare_bets_def count_hits [OF assms(1)])
  also have "\<dots> = card (set a \<inter> set b)"
    using assms(2) by (induction b) (auto simp: Int_insert_right)
  finally show ?thesis .
qed

lemma reward_defined:
  assumes "n \<le> NUMBERS"
  obtains x where "get_reward n = Inr x" and "0 \<le> x" and "x \<le> 10000000"
proof -
  have "n \<in> {0, 1, 2, 3, 4, 5, 6}" using assms by auto
  then show ?thesis using that by (auto simp: get_reward_def)
qed

text \<open>
  Every draw gives six different numbers between 1 and 49; two draws compare to the number of
  numbers they share, which is an index inside the reward table.
\<close>
theorem lotto_draws_pay:
  "let a = fst (draw r1); b = fst (draw r2)
   in length a = 6 \<and> distinct a \<and> set a \<subseteq> {1..49} \<and> compare_bets a b = card (set a \<inter> set b)
      \<and> (\<exists>x. get_reward (compare_bets a b) = Inr x \<and> 0 \<le> x \<and> x \<le> 10000000)"
proof -
  note a = draw_spec [of r1] and b = draw_spec [of r2]
  have c: "compare_bets (fst (draw r1)) (fst (draw r2)) = card (set (fst (draw r1)) \<inter> set (fst (draw r2)))"
    using a b by (simp add: compare_bets_card)
  also have "\<dots> \<le> card (set (fst (draw r1)))" by (rule card_mono) auto
  also have "\<dots> \<le> NUMBERS" using a card_length [of "fst (draw r1)"] by simp
  finally show ?thesis using a c reward_defined by (metis (no_types, lifting) of_nat_numeral)
qed

section \<open>Descriptors\<close>

definition tot_inv :: "int set \<Rightarrow> nat \<Rightarrow> tot \<Rightarrow> bool" where
  "tot_inv std n s \<longleftrightarrow> length (rps s) = n \<and> length (wps s) = n \<and> fd_table std (rps s @ wps s) (open_fds s)"

lemma tot_inv_any [simp]: "tot_inv std n (s\<lparr>any_left := b\<rparr>) = tot_inv std n s"
  by (simp add: tot_inv_def)

lemma drop_rp_ok:
  assumes "tot_inv std n s" and "i < n" and "rps s ! i \<noteq> 0"
  obtains s' where "drop_rp i s = Inr s'" and "tot_inv std n s'"
proof -
  let ?xs = "rps s @ wps s"
  have l: "length (rps s) = n" "length (wps s) = n" "fd_table std ?xs (open_fds s)"
    using assms(1) by (simp_all add: tot_inv_def)
  have x: "?xs ! i = rps s ! i" "?xs[i := 0] = (rps s)[i := 0] @ wps s"
    using assms(2) l by (simp_all add: nth_append list_update_append1)
  note c = fd_table_close [OF l(3), of i, unfolded x]
  with assms(2,3) l show ?thesis
    by (intro that [of "s\<lparr>rps := (rps s)[i := 0], open_fds := open_fds s - {rps s ! i}\<rparr>"])
       (simp_all add: drop_rp_def tot_inv_def)
qed

lemma drop_wp_ok:
  assumes "tot_inv std n s" and "i < n" and "wps s ! i \<noteq> 0"
  obtains s' where "drop_wp i s = Inr s'" and "tot_inv std n s'"
proof -
  let ?xs = "rps s @ wps s"
  have l: "length (rps s) = n" "length (wps s) = n" "fd_table std ?xs (open_fds s)"
    using assms(1) by (simp_all add: tot_inv_def)
  have x: "?xs ! (n + i) = wps s ! i" "?xs[n + i := 0] = rps s @ (wps s)[i := 0]"
    using assms(2) l by (simp_all add: nth_append list_update_append)
  note c = fd_table_close [OF l(3), of "n + i", unfolded x]
  with assms(2,3) l show ?thesis
    by (intro that [of "s\<lparr>wps := (wps s)[i := 0], open_fds := open_fds s - {wps s ! i}\<rparr>"])
       (simp_all add: drop_wp_def tot_inv_def)
qed

text \<open>
  A player whose end of a pipe is gone has exited: it reads its pipe until it leaves its loop, and
  it sends nothing afterwards.
\<close>

definition eof_after_epipe :: "(nat \<Rightarrow> nat \<Rightarrow> tot_ans) \<Rightarrow> bool" where
  "eof_after_epipe k \<longleftrightarrow>
     (\<forall>w i. sent_win (k w i) = Fail EPIPE \<longrightarrow> (\<forall>w' > w. got_pid (k w' i) = Ok None))"

definition week_inv :: "int set \<Rightarrow> nat \<Rightarrow> (nat \<Rightarrow> nat \<Rightarrow> tot_ans) \<Rightarrow> nat \<Rightarrow> tot \<Rightarrow> bool" where
  "week_inv std n k i s \<longleftrightarrow> tot_inv std n s \<and>
     (\<forall>j < n. wps s ! j = 0 \<longrightarrow> (\<forall>w. (j < i \<longrightarrow> 0 < w) \<longrightarrow> got_pid (k w j) = Ok None))"

lemma drop_rp_wps: "drop_rp i s = Inr s' \<Longrightarrow> wps s' = wps s"
  by (auto simp: drop_rp_def bindr_eq_Inr_iff)

lemma drop_wp_wps: "drop_wp i s = Inr s' \<Longrightarrow> wps s' = (wps s)[i := 0]"
  by (auto simp: drop_wp_def bindr_eq_Inr_iff)

abbreviation no_close :: "fatal \<Rightarrow> bool" where
  "no_close e \<equiv> e \<noteq> ERR ''close''"

lemma drop_rp_week:
  assumes "week_inv std n k i s" and "i < n" and "rps s ! i \<noteq> 0"
  shows "yields no_close (week_inv std n k (Suc i)) (drop_rp i (s\<lparr>any_left := True\<rparr>))"
proof -
  let ?s = "s\<lparr>any_left := True\<rparr>"
  have "tot_inv std n ?s" "rps ?s ! i \<noteq> 0" using assms by (simp_all add: week_inv_def)
  then obtain s' where s': "drop_rp i ?s = Inr s'" "tot_inv std n s'" using drop_rp_ok assms(2) by blast
  then show ?thesis using assms(1) drop_rp_wps [OF s'(1)] by (auto simp: week_inv_def)
qed

lemma drop_wp_week:
  assumes K: "eof_after_epipe k" and I: "week_inv std n k i s" and "i < n"
    and a: "got_pid (k 0 i) \<noteq> Ok None" "sent_win (k 0 i) = Fail EPIPE"
    and t: "rps t = rps s" "wps t = wps s" "open_fds t = open_fds s"
  shows "yields no_close (week_inv std n k (Suc i)) (drop_wp i t)"
proof -
  have "wps t ! i \<noteq> 0" using I \<open>i < n\<close> a(1) t by (auto simp: week_inv_def)
  moreover have "tot_inv std n t" using I t by (simp add: week_inv_def tot_inv_def)
  ultimately obtain s' where s': "drop_wp i t = Inr s'" "tot_inv std n s'"
    using drop_wp_ok [of std n t i] \<open>i < n\<close> by auto
  have "got_pid (k w i) = Ok None" if "0 < w" for w
    using K a(2) that by (auto simp: eof_after_epipe_def)
  then have "got_pid (k w j) = Ok None"
    if "j < n" "(wps s)[i := 0] ! j = 0" "j < Suc i \<longrightarrow> 0 < w" for j w
    using that I by (cases "j = i") (auto simp: week_inv_def less_Suc_eq)
  then have "week_inv std n k (Suc i) s'"
    unfolding week_inv_def using s'(2) drop_wp_wps [OF s'(1)] t by simp
  with s'(1) show ?thesis by simp
qed

lemma yields_reward: "yields no_close (\<lambda>_. True) (get_reward n)"
  by (simp add: get_reward_def Let_def)

lemma serve_player_good:
  assumes K: "eof_after_epipe k" and I: "week_inv std n k i s" and "i < n"
  shows "yields no_close (week_inv std n k (Suc i)) (snd (serve_player winning (k 0 i) i s))"
proof -
  have J: "week_inv std n k (Suc i) s" using I by (auto simp: week_inv_def)
  note D = drop_rp_week [OF I \<open>i < n\<close>]
  show ?thesis
  proof (cases "rps s ! i = 0")
    case True
    with J show ?thesis by (simp add: serve_player_def)
  next
    case rp: False
    show ?thesis
    proof (cases "got_pid (k 0 i) = Ok None \<or> got_bet (k 0 i) = Ok None \<or> got_bet (k 0 i) \<noteq> Ok None \<and> (\<exists>e. got_bet (k 0 i) = Fail e)")
      case True
      with rp D show ?thesis
        by (auto simp: serve_player_def Let_def split: sysret.split option.split)
    next
      case False
      have W: "yields no_close (week_inv std n k (Suc i))
          (snd (case sent_win (k 0 i) of Ok _ \<Rightarrow> ret t
                | Fail e \<Rightarrow> if e = EPIPE then quiet (drop_wp i t) else die (ERR ''write'')))"
        if "rps t = rps s" "wps t = wps s" "open_fds t = open_fds s" for t
        using drop_wp_week [OF K I \<open>i < n\<close> _ _ that] False J that
        by (auto simp: week_inv_def tot_inv_def split: sysret.split)
      show ?thesis
        using False rp unfolding serve_player_def Let_def
        by (auto simp del: seq_emit split: sysret.split option.split
            intro!: W yields_emit yields_seq [where R = "\<lambda>_. True"] yields_reward yields_c_int)
    qed
  qed
qed

lemma eof_after_epipe_Suc: "eof_after_epipe k \<Longrightarrow> eof_after_epipe (\<lambda>w. k (Suc w))"
  by (simp add: eof_after_epipe_def)

lemma weeks_good:
  "eof_after_epipe k \<Longrightarrow> week_inv std n k 0 s \<Longrightarrow>
   yields no_close (tot_inv std n) (snd (totalisator_weeks n t r k s))"
proof (induction t arbitrary: r k s)
  case 0
  then show ?case by (simp add: week_inv_def)
next
  case (Suc t)
  obtain winning r' where d: "draw r = (winning, r')" by (metis surj_pair)
  have "week_inv std n k 0 (s\<lparr>any_left := False\<rparr>)" using Suc.prems(2) by (simp add: week_inv_def)
  from yields_io_for [where a = 0 and I = "week_inv std n k", OF serve_player_good [OF Suc.prems(1)] this]
  have B: "yields no_close (week_inv std n k n)
      (snd (io_for 0 n (\<lambda>i. serve_player winning (k 0 i) i) (s\<lparr>any_left := False\<rparr>)))" by simp
  have "week_inv std n (\<lambda>w. k (Suc w)) 0 u" "tot_inv std n u" if "week_inv std n k n u" for u
    using that by (auto simp: week_inv_def)
  then show ?case
    using Suc.IH [OF eof_after_epipe_Suc [OF Suc.prems(1)]]
    by (auto simp: d intro!: yields_seq [OF B])
qed

lemma lotto_parent_fds:
  assumes "fresh (to @ from)" and "std \<inter> ends (to @ from) = {}" and "0 \<in> std" and "length from = length to"
    and "eof_after_epipe k"
  shows "yields no_close (\<lambda>f. f = std) (snd (lotto_parent to from (length to) t r k (std \<union> ends (to @ from))))"
proof -
  have z: "0 \<notin> ends (to @ from)" using assms(2,3) by auto
  obtain fds where f: "bindr (close_pipes_all_one_end to READ (std \<union> ends (to @ from)))
      (close_pipes_all_one_end from WRITE) = Inr fds"
    "fd_table std (map (pend READ) from @ map (pend WRITE) to) fds"
    using star_parent [OF assms(1,2) z] by blast
  let ?s = "\<lparr>rps = map (pend READ) from, wps = map (pend WRITE) to, total_bet = 0, total_reward = 0,
    any_left = False, open_fds = fds\<rparr>"
  have "wps ?s ! j \<noteq> 0" if "j < length to" for j
    using z pend_in_ends [OF that, of WRITE] that by auto
  then have I: "week_inv std (length to) k 0 ?s"
    using f(2) assms(4) by (auto simp: week_inv_def tot_inv_def)
  have "yields no_close (tot_inv std (length to))
     (snd (totalisator_work (map (pend READ) from) (map (pend WRITE) to) (length to) t r k fds))"
    unfolding totalisator_work_def
    by (intro yields_seq [OF weeks_good [OF assms(5) I]] yields_emit) simp
  then show ?thesis
    unfolding lotto_parent_def snd_seq quiet_sel f(1) bindr_simps
    by (rule yields_bindr) (simp add: tot_inv_def close_left_table)
qed

lemma lotto_pipes_spec:
  "lotto_pipes n k1 k2 fds = Inr (to, from, f) \<Longrightarrow>
   length to = n \<and> length from = n \<and> f = fds \<union> ends (to @ from)"
  by (auto simp: lotto_pipes_def bindr_eq_Inr_iff Un_assoc dest!: create_pipes_spec)

lemma player_work_close: "yields no_close (\<lambda>_. True) (snd (player_work pid t r k))"
proof (induction t arbitrary: r k)
  case 0
  then show ?case by simp
next
  case (Suc t)
  obtain b r1 where 1: "should_resign RESIGN_PROBABILITY r = (b, r1)" by (metis surj_pair)
  obtain ns r2 where 2: "draw r1 = (ns, r2)" by (metis surj_pair)
  show ?case
    using Suc.IH [of r2 "\<lambda>w. k (Suc w)"]
    by (auto simp: 1 2 Let_def split: sysret.splits option.splits
        intro!: yields_seq [where R = "\<lambda>_. True"] yields_reward)
qed

lemma lotto_child_fds:
  assumes "fresh (to @ from)" and "std \<inter> ends (to @ from) = {}" and "i < length to" and "length from = length to"
  shows "yields no_close (\<lambda>f. f = std \<union> {pend WRITE (from ! i)})
           (snd (lotto_child to from i t pid r k (std \<union> ends (to @ from))))"
proof -
  have f: "ends to \<inter> ends from = {}" using assms(1) by (auto simp: fresh_append)
  have m: "pend e (to ! i) \<in> ends to" "pend WRITE (from ! i) \<in> ends from" for e
    using assms(3,4) by (simp_all add: pend_in_ends)
  have n: "pend e (to ! i) \<notin> std" "pend e (to ! i) \<noteq> pend WRITE (from ! i)" for e
    using m(1) [of e] m(2) f assms(2) by auto
  then have "std \<union> {pend READ (to ! i), pend WRITE (from ! i)} - {pend READ (to ! i)} - {pend WRITE (to ! i)}
           = std \<union> {pend WRITE (from ! i)}"
    by auto
  then show ?thesis
    unfolding lotto_child_def player_ends_def Let_def snd_seq quiet_sel star_child [OF assms] bindr_simps emit_sel
    by (intro yields_bindr [OF player_work_close]) (simp add: close_quietly_def)
qed

lemma fst_seq_ret: "fst (seq m (\<lambda>_. ret x)) = fst m"
  by (cases m; cases "snd m") (auto simp: seq_def ret_def)

lemma lotto_child_game:
  assumes "fresh (to @ from)" and "std \<inter> ends (to @ from) = {}" and "i < length to" and "length from = length to"
  shows "player_ends to from i (std \<union> ends (to @ from)) = Inr (std \<union> {pend READ (to ! i), pend WRITE (from ! i)})"
    and "fst (lotto_child to from i t pid r k (std \<union> ends (to @ from))) = Playing pid # fst (player_work pid t r k)"
proof -
  let ?f = "std \<union> {pend READ (to ! i), pend WRITE (from ! i)}"
  show e: "player_ends to from i (std \<union> ends (to @ from)) = Inr ?f"
    unfolding player_ends_def by (rule star_child [OF assms])
  have "on_open (pend READ (to ! i)) ?f a = a" "on_open (pend WRITE (from ! i)) ?f b = b" for a :: "int list option sysret" and b :: "unit sysret"
    by (simp_all add: on_open_def)
  moreover have "(\<lambda>w. \<lparr>ans_pid = ans_pid (k w), ans_bet = ans_bet (k w), ans_win = ans_win (k w)\<rparr>) = k"
    by (simp add: fun_eq_iff)
  ultimately show "fst (lotto_child to from i t pid r k (std \<union> ends (to @ from))) = Playing pid # fst (player_work pid t r k)"
    unfolding lotto_child_def e Let_def by (simp add: fst_seq_ret)
qed

text \<open>
  C34: With pipes whose descriptors are different and not in use before, and a kernel that delivers the
  end of file after a broken pipe, the totaliser never fails to close a descriptor, whatever the players
  send and whenever they leave, and a run to the end leaves exactly the descriptors the program started
  with.  A child never fails to close one either: it plays with exactly its two ends open besides the descriptors the
  program started with, the read end of the pipe to it and the write end of the pipe from it, so that no call of its game
  meets a closed descriptor, and after its game it closes the first and leaves the second open.
\<close>
theorem lotto_descriptors:
  assumes "lotto_args argv = Inr (N, T)" and "lotto_pipes N k1 k2 std = Inr (to, from, fds)"
    and "fresh (to @ from)" and "std \<inter> ends (to @ from) = {}" and "0 \<in> std" and "eof_after_epipe k"
    and "i < N"
  shows "yields (\<lambda>e. e \<noteq> ERR ''close'') (\<lambda>f. f = std) (snd (lotto_main argv k1 k2 forks r k std)) \<and>
         player_ends to from i fds = Inr (std \<union> {pend READ (to ! i), pend WRITE (from ! i)}) \<and>
         fst (lotto_child to from i T pid rc kc fds) = Playing pid # fst (player_work pid T rc kc) \<and>
         yields (\<lambda>e. e \<noteq> ERR ''close'') (\<lambda>f. f = std \<union> {pend WRITE (from ! i)})
           (snd (lotto_child to from i T pid rc kc fds))"
proof -
  note s = lotto_pipes_spec [OF assms(2)]
  have F: "yields no_close (\<lambda>_. True)
      (snd (io_for 0 N (\<lambda>i u. case forks i of Ok _ \<Rightarrow> ret () | Fail _ \<Rightarrow> die (ERR ''fork'')) ()))"
    by (rule yields_io_for [where I = "\<lambda>_ _. True"]) (auto split: sysret.splits)
  have "yields no_close (\<lambda>f. f = std) (snd (lotto_main argv k1 k2 forks r k std))"
    unfolding lotto_main_def snd_seq quiet_sel assms(1,2) bindr_simps prod.case
    using lotto_parent_fds [OF assms(3-5) _ assms(6), of T r] s
    by (intro yields_bindr [OF F]) auto
  then show ?thesis
    using lotto_child_fds [OF assms(3,4)] lotto_child_game [OF assms(3,4)] s assms(7) by simp
qed

theorem lotto_descriptors_witness:
  "yields (\<lambda>e. e \<noteq> ERR ''close'') (\<lambda>f. f = {0, 1, 2})
     (snd (lotto_main [''lotto'', ''1'', ''2''] [Some (3, 4)] [Some (5, 6)] (\<lambda>_. Ok ()) (\<lambda>_. 0)
        (\<lambda>_ _. \<lparr>got_pid = Ok None, got_bet = Ok None, sent_win = Fail EPIPE\<rparr>) {0, 1, 2})) \<and>
   player_ends [(3, 4)] [(5, 6)] 0 ({0, 1, 2} \<union> {3, 4, 5, 6}) = Inr ({0, 1, 2} \<union> {pend READ ([(3, 4)] ! 0), pend WRITE ([(5, 6)] ! 0)}) \<and>
   fst (lotto_child [(3, 4)] [(5, 6)] 0 2 77 (\<lambda>_. 0) (\<lambda>_. \<lparr>ans_pid = Ok (), ans_bet = Ok (), ans_win = Ok None\<rparr>) ({0, 1, 2} \<union> {3, 4, 5, 6})) =
     Playing 77 # fst (player_work 77 2 (\<lambda>_. 0) (\<lambda>_. \<lparr>ans_pid = Ok (), ans_bet = Ok (), ans_win = Ok None\<rparr>)) \<and>
   yields (\<lambda>e. e \<noteq> ERR ''close'') (\<lambda>f. f = {0, 1, 2} \<union> {pend WRITE ([(5, 6)] ! 0)})
     (snd (lotto_child [(3, 4)] [(5, 6)] 0 2 77 (\<lambda>_. 0)
        (\<lambda>_. \<lparr>ans_pid = Ok (), ans_bet = Ok (), ans_win = Ok None\<rparr>) ({0, 1, 2} \<union> {3, 4, 5, 6})))"
proof (rule lotto_descriptors [where N = 1])
  show "lotto_args [''lotto'', ''1'', ''2''] = Inr (1, 2)" by (simp add: lotto_args_def) code_simp
  show "lotto_pipes 1 [Some (3, 4)] [Some (5, 6)] {0, 1, 2} = Inr ([(3, 4)], [(5, 6)], {0, 1, 2} \<union> {3, 4, 5, 6})"
    by (simp add: lotto_pipes_def) auto
qed (auto simp: eof_after_epipe_def)

end
