(* ===== verification/Roulette.thy ===== *)
theory Roulette
  imports Pipes
begin

text \<open>
  \<^verbatim>\<open>lab05/sop-roulette/sop-roulette.c\<close>: players bet until they resign or are broke, the
  croupier draws a number per round.  Every message is one \<^verbatim>\<open>int\<close>, which a pipe transfers
  whole.  Neither loop is bounded in the code: the models take the number of rounds they may use, and
  the result \<open>None\<close> says that they were not enough.
\<close>

section \<open>The player\<close>

definition should_resign :: "nat \<Rightarrow> rng \<Rightarrow> bool \<times> rng" where
  "should_resign probability r = (fst (rand r) mod probability = 0, snd (rand r))"

datatype roulette_eff =
    Joining int int | Saved int int | SendInt int | WonBet int int | Broke int
  | Placed int int int | SendLucky nat int | LuckyIs int | CasinoWins

text \<open>The answers to the three writes and the read of one round of a player.\<close>

record player_round =
  w_pid :: "unit sysret"
  w_number :: "unit sysret"
  w_bet :: "unit sysret"
  r_lucky :: "int option sysret"

text \<open>
  \<open>lucky\<close> is the variable \<^verbatim>\<open>lucky_number\<close>: the end of file leaves it as it was, and
  before the first message it has no value.
\<close>

definition send_int :: "unit sysret \<Rightarrow> int \<Rightarrow> (roulette_eff, unit) io" where
  "send_int a x = seq (emit [SendInt x]) (\<lambda>_. case a of Ok _ \<Rightarrow> ret () | Fail _ \<Rightarrow> die (ERR ''write''))"

fun player_rounds ::
  "nat \<Rightarrow> int \<Rightarrow> int \<Rightarrow> int option \<Rightarrow> rng \<Rightarrow> (nat \<Rightarrow> player_round) \<Rightarrow> (roulette_eff, int option) io" where
  "player_rounds 0 pid amount lucky r k = ret (if amount > 0 then None else Some amount)"
| "player_rounds (Suc fuel) pid amount lucky r k =
     (if \<not> amount > 0 then ret (Some amount)
      else let (resigns, r1) = should_resign 10 r
      in if resigns then seq (emit [Saved pid amount]) (\<lambda>_. ret (Some amount))
         else let bet = int (fst (rand r1)) mod amount + 1; r2 = snd (rand r1);
                  left = amount - bet;
                  number = int (fst (rand r2)) mod 37; r3 = snd (rand r2);
                  a = k 0
         in seq (send_int (w_pid a) pid) (\<lambda>_.
            seq (send_int (w_number a) number) (\<lambda>_.
            seq (send_int (w_bet a) bet) (\<lambda>_.
            case r_lucky a of
              Fail _ \<Rightarrow> die (ERR ''read'')
            | Ok got \<Rightarrow>
                let lucky' = (case got of None \<Rightarrow> lucky | Some x \<Rightarrow> Some x) in
                case lucky' of
                  None \<Rightarrow> die (Undefined ''lucky_number'')
                | Some x \<Rightarrow>
                    if x = number
                    then seq (quiet (c_int (35 * bet))) (\<lambda>win.
                         seq (emit [WonBet pid win]) (\<lambda>_.
                         seq (quiet (c_int (left + win))) (\<lambda>amount'.
                         player_rounds fuel pid amount' lucky' r3 (\<lambda>w. k (Suc w)))))
                    else player_rounds fuel pid left lucky' r3 (\<lambda>w. k (Suc w))))))"

definition player_work :: "nat \<Rightarrow> int \<Rightarrow> int \<Rightarrow> rng \<Rightarrow> (nat \<Rightarrow> player_round) \<Rightarrow> (roulette_eff, int option) io" where
  "player_work fuel pid m r k =
     seq (player_rounds fuel pid m None r k) (\<lambda>res.
     case res of None \<Rightarrow> ret None
     | Some amount \<Rightarrow> seq (emit (if amount \<le> 0 then [Broke pid] else [])) (\<lambda>_. ret (Some amount)))"

section \<open>The croupier\<close>

record table =
  t_wps :: "int list"
  t_rps :: "int list"
  t_any :: bool
  t_fds :: "int set"

record croupier_ans =
  g_pid :: "int option sysret"
  g_number :: "int option sysret"
  g_bet :: "int option sysret"
  g_sent :: "unit sysret"

definition leave_rp :: "nat \<Rightarrow> table \<Rightarrow> table run" where
  "leave_rp i s = bindr (close_pipe (t_rps s ! i) (t_fds s))
                    (\<lambda>f. Inr (s\<lparr>t_rps := (t_rps s)[i := 0], t_fds := f\<rparr>))"

definition leave_wp :: "nat \<Rightarrow> table \<Rightarrow> table run" where
  "leave_wp i s = bindr (close_pipe (t_wps s ! i) (t_fds s))
                    (\<lambda>f. Inr (s\<lparr>t_wps := (t_wps s)[i := 0], t_fds := f\<rparr>))"

definition serve_bet :: "int \<Rightarrow> croupier_ans \<Rightarrow> nat \<Rightarrow> table \<Rightarrow> (roulette_eff, table) io" where
  "serve_bet lucky a i s0 =
     (if t_rps s0 ! i = 0 then ret s0
      else let s = s0\<lparr>t_any := True\<rparr> in
      case g_pid a of
        Fail _ \<Rightarrow> die (ERR ''ret'')
      | Ok None \<Rightarrow> quiet (leave_rp i s)
      | Ok (Some pid) \<Rightarrow>
      (case g_number a of
        Fail _ \<Rightarrow> die (ERR ''ret'')
      | Ok None \<Rightarrow> quiet (leave_rp i s)
      | Ok (Some number) \<Rightarrow>
      (case g_bet a of
        Fail _ \<Rightarrow> die (ERR ''ret'')
      | Ok None \<Rightarrow> quiet (leave_rp i s)
      | Ok (Some bet) \<Rightarrow>
          seq (emit [SendLucky i lucky]) (\<lambda>_.
          case g_sent a of
            Ok _ \<Rightarrow> seq (emit [Placed pid bet number]) (\<lambda>_. ret s)
          | Fail e \<Rightarrow>
              if e = EPIPE
              then if t_wps s ! i \<noteq> 0 then quiet (leave_wp i s)
                   else seq (emit [Placed pid bet number]) (\<lambda>_. ret s)
              else die (ERR ''write'')))))"

fun server_rounds :: "nat \<Rightarrow> nat \<Rightarrow> rng \<Rightarrow> (nat \<Rightarrow> nat \<Rightarrow> croupier_ans) \<Rightarrow> table \<Rightarrow> (roulette_eff, table option) io" where
  "server_rounds 0 n r k s = ret None"
| "server_rounds (Suc fuel) n r k s =
     (let lucky = int (fst (rand r)) mod 37
      in seq (io_for 0 n (\<lambda>i. serve_bet lucky (k 0 i) i) (s\<lparr>t_any := False\<rparr>)) (\<lambda>s'.
         if \<not> t_any s' then ret (Some s')
         else seq (emit [LuckyIs lucky]) (\<lambda>_. server_rounds fuel n (snd (rand r)) (\<lambda>w. k (Suc w)) s')))"

definition server_work ::
  "nat \<Rightarrow> int list \<Rightarrow> int list \<Rightarrow> nat \<Rightarrow> rng \<Rightarrow> (nat \<Rightarrow> nat \<Rightarrow> croupier_ans) \<Rightarrow> int set \<Rightarrow> (roulette_eff, table option) io" where
  "server_work fuel wps rps n r k fds =
     seq (server_rounds fuel n r k \<lparr>t_wps = wps, t_rps = rps, t_any = False, t_fds = fds\<rparr>) (\<lambda>res.
     case res of None \<Rightarrow> ret None | Some s \<Rightarrow> seq (emit [CasinoWins]) (\<lambda>_. ret (Some s)))"

section \<open>The program\<close>

definition roulette_args :: "string list \<Rightarrow> (nat \<times> int) run" where
  "roulette_args argv =
     (if length argv \<noteq> 3 then Inl Usage
      else let n = atoi (argv ! 1); m = atoi (argv ! 2) in
        if n < 1 \<or> m < 100 then Inl Usage else Inr (nat n, m))"

definition roulette_pipes :: "nat \<Rightarrow> pipe option list \<Rightarrow> pipe option list \<Rightarrow> int set \<Rightarrow> (pipe list \<times> pipe list \<times> int set) run" where
  "roulette_pipes n k1 k2 fds =
     bindr (create_pipes n k1 fds) (\<lambda>(to, f1).
     bindr (create_pipes n k2 f1) (\<lambda>(from, f2). Inr (to, from, f2)))"

definition roulette_child ::
  "nat \<Rightarrow> pipe list \<Rightarrow> pipe list \<Rightarrow> nat \<Rightarrow> int \<Rightarrow> int \<Rightarrow> rng \<Rightarrow> (nat \<Rightarrow> player_round) \<Rightarrow> int set \<Rightarrow>
   (roulette_eff, int set option) io" where
  "roulette_child fuel to from i m pid r k fds =
     seq (emit [Joining pid m]) (\<lambda>_.
     seq (quiet (bindr (close_pipes_except to i READ fds) (close_pipes_except from i WRITE))) (\<lambda>f.
     seq (player_work fuel pid m r k) (\<lambda>res.
     case res of None \<Rightarrow> ret None
     | Some _ \<Rightarrow> quiet (bindr (bindr (close_pipe (pend READ (to ! i)) f) (close_pipe (pend WRITE (from ! i))))
                        (\<lambda>f'. Inr (Some f'))))))"

fun close_checked :: "int list \<Rightarrow> int list \<Rightarrow> int set \<Rightarrow> int set run" where
  "close_checked (r # rs) (w # ws) fds =
     bindr (if r \<noteq> 0 then close_pipe r fds else Inr fds) (\<lambda>f.
     bindr (if w \<noteq> 0 then close_pipe w f else Inr f) (\<lambda>f'. close_checked rs ws f'))"
| "close_checked _ _ fds = Inr fds"

definition roulette_parent ::
  "nat \<Rightarrow> pipe list \<Rightarrow> pipe list \<Rightarrow> nat \<Rightarrow> rng \<Rightarrow> (nat \<Rightarrow> nat \<Rightarrow> croupier_ans) \<Rightarrow> int set \<Rightarrow>
   (roulette_eff, int set option) io" where
  "roulette_parent fuel to from n r k fds =
     seq (quiet (bindr (close_pipes_all_one_end to READ fds) (close_pipes_all_one_end from WRITE))) (\<lambda>f.
     seq (server_work fuel (map (pend WRITE) to) (map (pend READ) from) n r k f) (\<lambda>res.
     case res of None \<Rightarrow> ret None
     | Some s \<Rightarrow> quiet (bindr (close_checked (t_rps s) (t_wps s) (t_fds s)) (\<lambda>f'. Inr (Some f')))))"

definition roulette_main ::
  "string list \<Rightarrow> pipe option list \<Rightarrow> pipe option list \<Rightarrow> (nat \<Rightarrow> unit sysret) \<Rightarrow> nat \<Rightarrow> rng \<Rightarrow>
   (nat \<Rightarrow> nat \<Rightarrow> croupier_ans) \<Rightarrow> int set \<Rightarrow> (roulette_eff, int set option) io" where
  "roulette_main argv k1 k2 forks fuel r k fds =
     seq (quiet (roulette_args argv)) (\<lambda>(n, m).
     seq (quiet (roulette_pipes n k1 k2 fds)) (\<lambda>(to, from, f).
     seq (io_for 0 n (\<lambda>i u. case forks i of Ok _ \<Rightarrow> ret () | Fail _ \<Rightarrow> die (ERR ''fork'')) ()) (\<lambda>_.
     roulette_parent fuel to from n r k f)))"

section \<open>The ledger of a player\<close>

text \<open>
  The abstract game: from what a player sends and prints, the money it must have.  A round is a
  bet of 1 up to all the money on a number between 0 and 36, which is gone unless the number wins,
  and 35 times the bet if it does.  \<open>None\<close>: the transcript is not one of the game.
\<close>

definition fair :: "int \<Rightarrow> int \<Rightarrow> int \<Rightarrow> bool" where
  "fair m number bet \<longleftrightarrow> 0 \<le> number \<and> number < 37 \<and> 1 \<le> bet \<and> bet \<le> m"

fun won_part :: "int \<Rightarrow> int \<Rightarrow> roulette_eff list \<Rightarrow> int \<times> roulette_eff list" where
  "won_part pid b (WonBet p w # es) = (if p = pid \<and> w = 35 * b then (w, es) else (0, WonBet p w # es))"
| "won_part pid b es = (0, es)"

lemma won_part_length: "won_part pid b es = (w, es') \<Longrightarrow> length es' \<le> length es"
  by (cases "(pid, b, es)" rule: won_part.cases) (auto split: if_splits)

function ledger :: "int \<Rightarrow> int \<Rightarrow> roulette_eff list \<Rightarrow> int option" where
  "ledger pid m es =
     (case es of
        [] \<Rightarrow> Some m
      | [Saved p a] \<Rightarrow> if p = pid \<and> a = m then Some m else None
      | SendInt p # SendInt number # SendInt bet # es' \<Rightarrow>
          if p = pid \<and> fair m number bet
          then (case won_part pid bet es' of (w, es'') \<Rightarrow> ledger pid (m - bet + w) es'') else None
      | _ \<Rightarrow> None)"
  by auto
termination
  by (relation "measure (\<lambda>(pid, m, es). length es)") (auto dest!: won_part_length [OF sym])

declare ledger.simps [simp del]

lemma ledger_simps [simp]:
  "ledger pid m [] = Some m"
  "ledger pid m [Saved p a] = (if p = pid \<and> a = m then Some m else None)"
  "ledger pid m (SendInt p # SendInt x # SendInt b # es) =
     (if p = pid \<and> fair m x b
      then (case won_part pid b es of (w, es') \<Rightarrow> ledger pid (m - b + w) es') else None)"
  by (subst ledger.simps; simp)+

lemma won_part_none: "(\<forall>p w es'. es \<noteq> WonBet p w # es') \<Longrightarrow> won_part pid b es = (0, es)"
  by (cases "(pid, b, es)" rule: won_part.cases) auto

lemma no_won_first: "\<forall>p w es. fst (player_rounds fuel pid m lucky r k) \<noteq> WonBet p w # es"
  by (cases fuel) (auto simp: Let_def send_int_def split_def split: sysret.splits option.splits)

lemma won_part_rounds [simp]:
  "won_part pid b (fst (player_rounds fuel pid m lucky r k)) = (0, fst (player_rounds fuel pid m lucky r k))"
  by (rule won_part_none [OF no_won_first])

lemma mod_bet: "0 < m \<Longrightarrow> 1 \<le> x mod m + 1 \<and> x mod m + 1 \<le> (m::int)"
  by (simp add: add1_zle_eq)

lemma rounds_ledger:
  "snd (player_rounds fuel pid m lucky r k) = Inr (Some a) \<Longrightarrow> 0 \<le> m \<Longrightarrow>
   ledger pid m (fst (player_rounds fuel pid m lucky r k)) = Some a \<and> 0 \<le> a"
proof (induction fuel arbitrary: m lucky r k)
  case 0
  then show ?case by (auto split: if_splits)
next
  case (Suc fuel)
  obtain resigns r1 where s: "should_resign 10 r = (resigns, r1)" by (metis surj_pair)
  show ?case
  proof (cases "m > 0 \<and> \<not> resigns")
    case False
    with Suc.prems show ?thesis by (auto simp: s)
  next
    case True
    define bet where "bet = int (fst (rand r1)) mod m + 1"
    define number where "number = int (fst (rand (snd (rand r1)))) mod 37"
    have f: "fair m number bet" using mod_bet [of m "int (fst (rand r1))"] True
      unfolding fair_def bet_def number_def by simp
    then have "0 \<le> m - bet" "0 \<le> m - bet + 35 * bet" by (auto simp: fair_def)
    with Suc True f show ?thesis
      unfolding player_rounds.simps s Let_def prod.case bet_def [symmetric] number_def [symmetric]
      by (auto simp: send_int_def c_int_def split: sysret.splits option.splits if_splits)
  qed
qed

lemma rounds_enough:
  "snd (player_rounds fuel pid m lucky r k) = Inr None \<Longrightarrow> nat m \<le> fuel \<Longrightarrow>
   \<exists>w. WonBet pid w \<in> set (fst (player_rounds fuel pid m lucky r k))"
proof (induction fuel arbitrary: m lucky r k)
  case 0
  then show ?case by simp
next
  case (Suc fuel)
  obtain resigns r1 where s: "should_resign 10 r = (resigns, r1)" by (metis surj_pair)
  show ?case
  proof (cases "m > 0 \<and> \<not> resigns")
    case False
    with Suc.prems show ?thesis by (cases "m > 0") (auto simp: s)
  next
    case True
    define bet where "bet = int (fst (rand r1)) mod m + 1"
    have "1 \<le> bet" using mod_bet [of m "int (fst (rand r1))"] True unfolding bet_def by simp
    then have "nat (m - bet) \<le> fuel" using Suc.prems(2) by simp
    with Suc.IH True Suc.prems(1) show ?thesis
      unfolding player_rounds.simps s Let_def prod.case bet_def [symmetric]
      by (auto simp: send_int_def c_int_def split: sysret.splits option.splits if_splits)
  qed
qed

text \<open>
  C36: Whatever the croupier answers, a player's transcript is one of the game: every bet is
  between 1 and the money it then has, on a number of the wheel; the money it ends with is what the
  ledger of the transcript gives, and is never negative.  A player that wins nothing is done after at
  most as many rounds as it had money.
\<close>
theorem roulette_money:
  assumes "0 < m" and "player_rounds fuel pid m None r k = (es, Inr res)"
  shows "(case res of Some a \<Rightarrow> ledger pid m es = Some a \<and> 0 \<le> a
                    | None \<Rightarrow> nat m \<le> fuel \<longrightarrow> (\<exists>w. WonBet pid w \<in> set es))"
  using rounds_ledger [of fuel pid m None r k] rounds_enough [of fuel pid m None r k] assms
  by (auto split: option.split)

theorem roulette_money_witness:
  "ledger 7 2 [SendInt 7, SendInt 0, SendInt 2, WonBet 7 70, Saved 7 70] = Some 70"
proof -
  have "player_rounds 2 7 2 None (\<lambda>n. if n = 0 then 1 else if n = 1 then 1 else 0)
      (\<lambda>_. \<lparr>w_pid = Ok (), w_number = Ok (), w_bet = Ok (), r_lucky = Ok (Some 0)\<rparr>) =
     ([SendInt 7, SendInt 0, SendInt 2, WonBet 7 70, Saved 7 70], Inr (Some 70))"
    by (simp add: numeral_2_eq_2 should_resign_def send_int_def Let_def c_int_def in_int_def emit_def)
  from roulette_money [OF _ this] show ?thesis by simp
qed

end
