(* ===== verification/Cards5.thy ===== *)
theory Cards5
  imports Pipes
begin

text \<open>
  \<^verbatim>\<open>lab05/sop-cards/sop-cards.c\<close>: the game over pipes.  Every message is a buffer of
  16 bytes, which a pipe transfers whole; a message is modelled by the text in it.
\<close>

section \<open>The game server\<close>

datatype cards_eff =
    NewRound nat | SentTo int string | GotNumber int nat | Scoreboard "int list"
  | Joined nat | Played int string

record game =
  g_rps :: "int list"
  g_wps :: "int list"
  scores :: "int list"
  played_cards :: "int list"
  g_max :: int
  g_fds :: "int set"

definition close_rp :: "nat \<Rightarrow> game \<Rightarrow> game run" where
  "close_rp i s = bindr (close_pipe (g_rps s ! i) (g_fds s)) (\<lambda>f. Inr (s\<lparr>g_rps := (g_rps s)[i := 0], g_fds := f\<rparr>))"

definition close_wp :: "nat \<Rightarrow> game \<Rightarrow> game run" where
  "close_wp i s = bindr (close_pipe (g_wps s ! i) (g_fds s)) (\<lambda>f. Inr (s\<lparr>g_wps := (g_wps s)[i := 0], g_fds := f\<rparr>))"

text \<open>The kernel's answers on player \<open>i\<close> in one round: the announcement, the card, the points.\<close>

record game_ans =
  a_round :: "unit sysret"
  a_card :: "string option sysret"
  a_points :: "unit sysret"

text \<open>The announcement of a round; the result tells whether the function returned from inside.\<close>

fun announce :: "nat \<Rightarrow> nat \<Rightarrow> (nat \<Rightarrow> game_ans) \<Rightarrow> game \<Rightarrow> (cards_eff, bool \<times> game) io" where
  "announce i 0 k s = ret (False, s)"
| "announce i (Suc n) k s =
     (if g_wps s ! i = 0 then announce (Suc i) n k s
      else seq (emit [SentTo (g_wps s ! i) ''new_round'']) (\<lambda>_.
        case a_round (k i) of
          Ok _ \<Rightarrow> announce (Suc i) n k s
        | Fail e \<Rightarrow>
            if e = EPIPE
            then seq (quiet (bindr (close_wp i s) (close_rp i))) (\<lambda>s'. ret (True, s'))
            else die (ERR ''write'')))"

definition collect :: "(nat \<Rightarrow> game_ans) \<Rightarrow> nat \<Rightarrow> game \<Rightarrow> (cards_eff, game) io" where
  "collect k i s =
     (if g_rps s ! i = 0 then ret s
      else case a_card (k i) of
        Fail _ \<Rightarrow> die (ERR ''read'')
      | Ok None \<Rightarrow> quiet (bindr (close_rp i s) (close_wp i))
      | Ok (Some buf) \<Rightarrow>
          let card = atoi buf in
          seq (emit [GotNumber card i]) (\<lambda>_.
          ret (s\<lparr>played_cards := (played_cards s)[i := card],
                 g_max := if card > g_max s then card else g_max s\<rparr>)))"

definition winners_count :: "nat \<Rightarrow> game \<Rightarrow> nat" where
  "winners_count n s = length (filter (\<lambda>i. g_rps s ! i \<noteq> 0 \<and> played_cards s ! i = g_max s) [0..<n])"

definition pointstogive :: "nat \<Rightarrow> nat \<Rightarrow> int" where
  "pointstogive n winners = (if winners > 0 then int (n div winners) else 0)"

text \<open>The test of the code looks at \<^verbatim>\<open>wps[0]\<close> for every player.\<close>

definition give_points :: "int \<Rightarrow> (nat \<Rightarrow> game_ans) \<Rightarrow> nat \<Rightarrow> game \<Rightarrow> (cards_eff, game) io" where
  "give_points points k i s =
     (if g_wps s ! 0 = 0 then ret s
      else
        let pts = (if played_cards s ! i = g_max s then points else 0);
            s' = s\<lparr>scores := (scores s)[i := scores s ! i + pts]\<rparr>
        in seq (emit [SentTo (g_wps s' ! i) (show_int pts)]) (\<lambda>_.
           case a_points (k i) of
             Ok _ \<Rightarrow> ret s'
           | Fail e \<Rightarrow> if e = EPIPE then quiet (bindr (close_wp i s') (close_rp i)) else die (ERR ''write points'')))"

fun game_rounds :: "nat \<Rightarrow> nat \<Rightarrow> nat \<Rightarrow> (nat \<Rightarrow> nat \<Rightarrow> game_ans) \<Rightarrow> game \<Rightarrow> (cards_eff, bool \<times> game) io" where
  "game_rounds n j 0 k s = ret (False, s)"
| "game_rounds n j (Suc m) k s =
     seq (emit [NewRound j]) (\<lambda>_.
     seq (announce 0 n (k j) s) (\<lambda>(returned, s1).
     if returned then ret (True, s1)
     else seq (io_for 0 n (collect (k j)) (s1\<lparr>played_cards := replicate n 0, g_max := -1\<rparr>)) (\<lambda>s2.
       let points = pointstogive n (winners_count n s2) in
       seq (io_for 0 n (give_points points (k j)) s2) (\<lambda>s3. game_rounds n (Suc j) m k s3))))"

definition game_server_work ::
  "int list \<Rightarrow> int list \<Rightarrow> nat \<Rightarrow> nat \<Rightarrow> (nat \<Rightarrow> nat \<Rightarrow> game_ans) \<Rightarrow> int set \<Rightarrow> (cards_eff, game) io" where
  "game_server_work rps wps n m k fds =
     seq (game_rounds n 1 m k
            \<lparr>g_rps = rps, g_wps = wps, scores = replicate n 0, played_cards = replicate n 0, g_max = -1, g_fds = fds\<rparr>)
       (\<lambda>(returned, s). if returned then ret s else seq (emit [Scoreboard (scores s)]) (\<lambda>_. ret s))"

section \<open>The player\<close>

text \<open>
  The variables of \<^verbatim>\<open>player_work\<close> that change, with its descriptors; \<open>cards\<close> and
  \<^verbatim>\<open>remaining\<close> are the hand.
\<close>

record hand =
  h_rp :: int
  cards :: "nat list"
  remaining :: nat
  h_fds :: "int set"

record round_ans =
  b_round :: "string option sysret"
  b_sent :: "unit sysret"
  b_points :: "string option sysret"

fun hand_rounds :: "int \<Rightarrow> nat \<Rightarrow> rng \<Rightarrow> (nat \<Rightarrow> round_ans) \<Rightarrow> hand \<Rightarrow> (cards_eff, hand) io" where
  "hand_rounds wp 0 r k s = ret s"
| "hand_rounds wp (Suc m) r k s =
     (case b_round (k 0) of
        Fail _ \<Rightarrow> die (ERR ''res'')
      | Ok None \<Rightarrow>
          seq (quiet (close_pipe (h_rp s) (h_fds s))) (\<lambda>f.
          hand_rounds wp m r (\<lambda>w. k (Suc w)) (s\<lparr>h_rp := 0, h_fds := f\<rparr>))
      | Ok (Some buf) \<Rightarrow>
          if buf \<noteq> ''new_round'' then die (ERR ''new_round'')
          else let (v, r1) = rand r in
          if v mod 100 < 5 then ret s
          else let (w, r2) = rand r1 in
          if remaining s = 0 then die (Undefined ''rand() % 0'')
          else let rand_id = w mod remaining s; my_card = cards s ! rand_id;
                   s' = s\<lparr>cards := (cards s)[rand_id := cards s ! (remaining s - 1)], remaining := remaining s - 1\<rparr>
          in seq (emit [Played wp (show_int (int my_card))]) (\<lambda>_.
             case b_sent (k 0) of
               Fail e \<Rightarrow> if e = EPIPE
                         then seq (quiet (close_pipe wp (h_fds s'))) (\<lambda>f. ret (s'\<lparr>h_fds := f\<rparr>))
                         else die (ERR ''write'')
             | Ok _ \<Rightarrow> (case b_points (k 0) of
                 Fail _ \<Rightarrow> die (ERR ''read'')
               | Ok None \<Rightarrow> ret s'
               | Ok (Some _) \<Rightarrow> hand_rounds wp m r2 (\<lambda>w. k (Suc w)) s')))"

definition player_work :: "int \<Rightarrow> int \<Rightarrow> nat \<Rightarrow> nat \<Rightarrow> rng \<Rightarrow> (nat \<Rightarrow> round_ans) \<Rightarrow> int set \<Rightarrow> (cards_eff, hand) io" where
  "player_work rp wp player_idx m r k fds =
     seq (emit [Joined player_idx]) (\<lambda>_.
     hand_rounds wp m r k \<lparr>h_rp = rp, cards = map Suc [0..<m], remaining = m, h_fds = fds\<rparr>)"

section \<open>The program\<close>

definition cards_args :: "string list \<Rightarrow> (nat \<times> nat) run" where
  "cards_args argv =
     (if length argv \<noteq> 3 then Inl Usage
      else let n = atoi (argv ! 1); m = atoi (argv ! 2) in
        if n < 2 \<or> n > 5 \<or> m < 5 \<or> m > 10 then Inl Usage else Inr (nat n, nat m))"

definition cards_child ::
  "pipe list \<Rightarrow> pipe list \<Rightarrow> nat \<Rightarrow> nat \<Rightarrow> rng \<Rightarrow> (nat \<Rightarrow> round_ans) \<Rightarrow> int set \<Rightarrow> (cards_eff, int set) io" where
  "cards_child to from i m r k fds =
     seq (quiet (bindr (close_pipes_except to i READ fds) (close_pipes_except from i WRITE))) (\<lambda>f.
     let rp = pend READ (to ! i); wp = pend WRITE (from ! i) in
     seq (player_work rp wp i m r k f) (\<lambda>s.
     quiet (bindr (close_pipe rp (h_fds s)) (close_pipe wp))))"

fun close_game :: "int list \<Rightarrow> int list \<Rightarrow> int set \<Rightarrow> int set run" where
  "close_game (r # rs) (w # ws) fds =
     bindr (if r \<noteq> 0 then close_pipe r fds else Inr fds) (\<lambda>f.
     bindr (if w \<noteq> 0 then close_pipe w f else Inr f) (\<lambda>f'. close_game rs ws f'))"
| "close_game _ _ fds = Inr fds"

definition cards_parent ::
  "pipe list \<Rightarrow> pipe list \<Rightarrow> nat \<Rightarrow> nat \<Rightarrow> (nat \<Rightarrow> nat \<Rightarrow> game_ans) \<Rightarrow> int set \<Rightarrow> (cards_eff, int set) io" where
  "cards_parent to from n m k fds =
     seq (quiet (bindr (close_pipes_all_one_end to READ fds) (close_pipes_all_one_end from WRITE))) (\<lambda>f.
     seq (game_server_work (map (pend READ) from) (map (pend WRITE) to) n m k f) (\<lambda>s.
     quiet (close_game (g_rps s) (g_wps s) (g_fds s))))"

definition cards_main ::
  "string list \<Rightarrow> pipe option list \<Rightarrow> pipe option list \<Rightarrow> (nat \<Rightarrow> unit sysret) \<Rightarrow>
   (nat \<Rightarrow> nat \<Rightarrow> game_ans) \<Rightarrow> int set \<Rightarrow> (cards_eff, int set) io" where
  "cards_main argv k1 k2 forks k fds =
     seq (quiet (cards_args argv)) (\<lambda>(n, m).
     seq (quiet (create_pipes n k1 fds)) (\<lambda>(to, f1).
     seq (quiet (create_pipes n k2 f1)) (\<lambda>(from, f2).
     seq (io_for 0 n (\<lambda>i u. case forks i of Ok _ \<Rightarrow> ret () | Fail _ \<Rightarrow> die (ERR ''fork'')) ()) (\<lambda>_.
     cards_parent to from n m k f2))))"

section \<open>The hand\<close>

definition sent_cards :: "cards_eff list \<Rightarrow> string list" where
  "sent_cards es = concat (map (\<lambda>e. case e of Played _ c \<Rightarrow> [c] | _ \<Rightarrow> []) es)"

lemma sent_cards_simps [simp]:
  "sent_cards [] = []"
  "sent_cards (Played fd c # es) = c # sent_cards es"
  "sent_cards (Joined i # es) = sent_cards es"
  "sent_cards (es @ es') = sent_cards es @ sent_cards es'"
  by (simp_all add: sent_cards_def)

text \<open>The cards still in the hand.\<close>

definition held_cards :: "hand \<Rightarrow> nat list" where
  "held_cards s = take (remaining s) (cards s)"

lemma play_card:
  assumes "i < remaining s" and "remaining s \<le> length (cards s)"
  shows "held_cards (s\<lparr>cards := (cards s)[i := cards s ! (remaining s - 1)], remaining := remaining s - 1\<rparr>)
         = butlast ((held_cards s)[i := last (held_cards s)])"
    and "cards s ! i = held_cards s ! i" and "i < length (held_cards s)"
proof -
  have "last (held_cards s) = cards s ! (remaining s - 1)"
    using assms by (subst last_conv_nth) (auto simp: held_cards_def min_def)
  then show "held_cards (s\<lparr>cards := (cards s)[i := cards s ! (remaining s - 1)], remaining := remaining s - 1\<rparr>)
         = butlast ((held_cards s)[i := last (held_cards s)])"
    using assms by (simp add: held_cards_def take_update_swap butlast_list_update butlast_take list_update_beyond)
  show "cards s ! i = held_cards s ! i" "i < length (held_cards s)"
    using assms by (simp_all add: held_cards_def)
qed

definition plays_hand :: "nat set \<Rightarrow> (cards_eff, 'a) io \<Rightarrow> bool" where
  "plays_hand A m \<longleftrightarrow> (\<forall>x. snd m \<noteq> Inl (Undefined x)) \<and>
     (\<exists>ns. sent_cards (fst m) = map (\<lambda>n. show_int (int n)) ns \<and> distinct ns \<and> set ns \<subseteq> A)"

lemma plays_hand_none: "sent_cards (fst m) = [] \<Longrightarrow> (\<forall>x. snd m \<noteq> Inl (Undefined x)) \<Longrightarrow> plays_hand A m"
  unfolding plays_hand_def by (auto intro!: exI [of _ "[]"])

lemma plays_hand_card:
  assumes "c \<in> A" and "plays_hand (A - {c}) m"
  shows "plays_hand A (Played wp (show_int (int c)) # fst m, snd m)"
proof -
  from assms(2) obtain ns where "sent_cards (fst m) = map (\<lambda>n. show_int (int n)) ns" "distinct ns" "set ns \<subseteq> A - {c}"
    by (auto simp: plays_hand_def)
  with assms show ?thesis
    unfolding plays_hand_def by (auto intro!: exI [of _ "c # ns"])
qed

lemma plays_hand_quiet:
  "plays_hand A (seq (quiet (close_pipe fd fds)) f)" if "plays_hand A (f (fds - {fd}))"
  using that by (auto simp: close_pipe_def intro: plays_hand_none)

lemma hand_rounds_plays:
  "m \<le> remaining s \<Longrightarrow> remaining s \<le> length (cards s) \<Longrightarrow> distinct (held_cards s) \<Longrightarrow>
   plays_hand (set (held_cards s)) (hand_rounds wp m r k s)"
proof (induction m arbitrary: r k s)
  case 0
  then show ?case by (simp add: plays_hand_none)
next
  case (Suc m)
  have c: "plays_hand (set (held_cards s)) (hand_rounds wp m r (\<lambda>w. k (Suc w)) (s\<lparr>h_rp := 0, h_fds := f\<rparr>))" for f
    using Suc.IH [of "s\<lparr>h_rp := 0, h_fds := f\<rparr>"] Suc.prems by (simp add: held_cards_def)
  let ?i = "fst (rand (snd (rand r))) mod remaining s"
  let ?s = "s\<lparr>cards := (cards s)[?i := cards s ! (remaining s - 1)], remaining := remaining s - 1\<rparr>"
  have i: "?i < remaining s" using Suc.prems(1) by simp
  note p = play_card [OF i Suc.prems(2)]
  note t = set_take_out [OF p(3) Suc.prems(3)]
  have h: "set (held_cards ?s) = set (held_cards s) - {cards s ! ?i}" "distinct (held_cards ?s)"
    using t p(1,2) by simp_all
  have m: "cards s ! ?i \<in> set (held_cards s)" using p(2,3) by simp
  have "plays_hand (set (held_cards s) - {cards s ! ?i}) (hand_rounds wp m r2 (\<lambda>w. k (Suc w)) ?s)" for r2
    using Suc.IH [of ?s] Suc.prems h by simp
  note rest = plays_hand_card [OF m this]
  have stop: "plays_hand (set (held_cards s)) (Played wp (show_int (int (cards s ! ?i))) # fst (z::(cards_eff, hand) io), snd z)"
    if "sent_cards (fst z) = []" "\<forall>x. snd z \<noteq> Inl (Undefined x)" for z
    by (rule plays_hand_card [OF m plays_hand_none [OF that]])
  show ?case
  proof (cases "b_round (k 0)")
    case (Fail e)
    then show ?thesis by (simp add: plays_hand_none)
  next
    case (Ok got)
    show ?thesis
    proof (cases got)
      case None
      with Ok show ?thesis by (auto simp del: seq_quiet intro!: plays_hand_quiet c)
    next
      case (Some buf)
      let ?z = "case b_sent (k 0) of
               Fail e \<Rightarrow> if e = EPIPE
                         then seq (quiet (close_pipe wp (h_fds ?s))) (\<lambda>f. ret (?s\<lparr>h_fds := f\<rparr>))
                         else die (ERR ''write'')
             | Ok _ \<Rightarrow> (case b_points (k 0) of
                 Fail _ \<Rightarrow> die (ERR ''read'')
               | Ok None \<Rightarrow> ret ?s
               | Ok (Some _) \<Rightarrow> hand_rounds wp m (snd (rand (snd (rand r)))) (\<lambda>w. k (Suc w)) ?s)"
      have "plays_hand (set (held_cards s)) (Played wp (show_int (int (cards s ! ?i))) # fst ?z, snd ?z)"
      proof (cases "sent_cards (fst ?z) = [] \<and> (\<forall>x. snd ?z \<noteq> Inl (Undefined x))")
        case True
        then show ?thesis by (intro stop) auto
      next
        case False
        then have "?z = hand_rounds wp m (snd (rand (snd (rand r)))) (\<lambda>w. k (Suc w)) ?s"
          by (auto simp: close_pipe_def split: sysret.splits option.splits if_splits)
        then show ?thesis using rest by simp
      qed
      moreover have "hand_rounds wp (Suc m) r k s =
          (if buf \<noteq> ''new_round'' then die (ERR ''new_round'')
           else if fst (rand r) mod 100 < 5 then ret s
           else seq (emit [Played wp (show_int (int (cards s ! ?i)))]) (\<lambda>_. ?z))"
        using Ok Some Suc.prems(1) by (simp add: Let_def case_prod_beta del: fst_rand snd_rand seq_emit One_nat_def)
      ultimately show ?thesis
        by (auto simp del: hand_rounds.simps fst_rand snd_rand intro!: plays_hand_none)
    qed
  qed
qed

text \<open>
  Whatever the server answers and whenever the player leaves, the cards it sends are different
  numbers between 1 and \<open>m\<close>, and it never draws from an empty hand.
\<close>
theorem cards_hand:
  "(\<forall>x. snd (player_work rp wp idx m r k fds) \<noteq> Inl (Undefined x)) \<and>
   (\<exists>ns. sent_cards (fst (player_work rp wp idx m r k fds)) = map (\<lambda>n. show_int (int n)) ns
         \<and> distinct ns \<and> set ns \<subseteq> {1..m})"
proof -
  let ?s = "\<lparr>h_rp = rp, cards = map Suc [0..<m], remaining = m, h_fds = fds\<rparr>"
  have h: "held_cards ?s = map Suc [0..<m]" by (simp add: held_cards_def)
  have "plays_hand (set (held_cards ?s)) (hand_rounds wp m r k ?s)"
    by (rule hand_rounds_plays) (simp_all add: h distinct_map)
  moreover have "set (held_cards ?s) = {1..m}" by (auto simp: h image_iff Bex_def gr0_conv_Suc)
  ultimately show ?thesis
    by (simp add: plays_hand_def player_work_def)
qed

section \<open>Scoring\<close>

text \<open>What a round of points does when every player is still there.\<close>

definition points_of :: "int \<Rightarrow> game \<Rightarrow> nat \<Rightarrow> int" where
  "points_of points s i = (if played_cards s ! i = g_max s then points else 0)"

definition with_points :: "int \<Rightarrow> nat \<Rightarrow> game \<Rightarrow> game" where
  "with_points points i s = s\<lparr>scores := map (\<lambda>j. scores s ! j + (if j < i then points_of points s j else 0)) [0..<length (scores s)]\<rparr>"

lemma with_points_0 [simp]: "with_points points 0 s = s"
  by (simp add: with_points_def map_nth)

lemma give_points_step:
  assumes "g_wps s ! 0 \<noteq> 0" and "a_points (k i) = Ok ()" and "i < length (scores s)"
  shows "give_points points k i (with_points points i s) =
         ([SentTo (g_wps s ! i) (show_int (points_of points s i))], Inr (with_points points (Suc i) s))"
proof -
  have "(scores (with_points points i s))[i := scores (with_points points i s) ! i + points_of points s i]
      = scores (with_points points (Suc i) s)"
    using assms(3) by (intro nth_equalityI) (auto simp: with_points_def nth_list_update)
  then show ?thesis
    using assms by (simp add: give_points_def with_points_def Let_def points_of_def emit_def)
qed

lemma give_points_all:
  "g_wps s ! 0 \<noteq> 0 \<Longrightarrow> \<forall>i < n. a_points (k i) = Ok () \<Longrightarrow> a + m = n \<Longrightarrow> n = length (scores s) \<Longrightarrow>
   io_for a m (give_points points k) (with_points points a s) =
     (map (\<lambda>i. SentTo (g_wps s ! i) (show_int (points_of points s i))) [a..<n], Inr (with_points points n s))"
proof (induction m arbitrary: a)
  case 0
  then show ?case by (simp add: ret_def)
next
  case (Suc m)
  then have "[a..<n] = a # [Suc a..<n]" by (simp add: upt_conv_Cons)
  with Suc.IH [of "Suc a"] Suc.prems give_points_step [of s k a points] show ?case by simp
qed

lemma give_points_none: "g_wps s ! 0 = 0 \<Longrightarrow> io_for a n (give_points points k) s = ret s"
  by (induction n arbitrary: a) (simp_all add: give_points_def)

lemma sum_list_points:
  "sum_list (map (\<lambda>i. if P i then p else 0) [0..<n]) = p * int (length (filter P [0..<n]))"
  for p :: int
  by (induction n) (simp_all add: algebra_simps)

text \<open>
  With everybody still in the game, each holder of the highest card gets the \<open>n\<close> points divided
  by the number of holders (rounded down), the others none, everyone is told, and the scores grow by at
  most \<open>n\<close> points in all.  Once the first player has left, nobody is given or told any points.
\<close>
theorem cards_scoring:
  assumes "length (scores s) = n" and "\<forall>i < n. g_rps s ! i \<noteq> 0" and "\<forall>i < n. a_points (k i) = Ok ()"
  shows "let w = winners_count n s; p = pointstogive n w; t = io_for 0 n (give_points p k) s in
         if g_wps s ! 0 = 0 then t = ([], Inr s)
         else \<exists>s'. t = (map (\<lambda>i. SentTo (g_wps s ! i) (show_int (if played_cards s ! i = g_max s then p else 0))) [0..<n], Inr s')
                \<and> scores s' = map (\<lambda>i. scores s ! i + (if played_cards s ! i = g_max s then p else 0)) [0..<n]
                \<and> w = card {i. i < n \<and> played_cards s ! i = g_max s}
                \<and> sum_list (scores s') \<le> sum_list (scores s) + int n"
proof (cases "g_wps s ! 0 = 0")
  case True
  then show ?thesis by (simp add: give_points_none Let_def ret_def)
next
  case False
  define w where "w = winners_count n s"
  define p where "p = pointstogive n w"
  let ?H = "\<lambda>i. played_cards s ! i = g_max s"
  have f: "filter (\<lambda>i. g_rps s ! i \<noteq> 0 \<and> ?H i) [0..<n] = filter ?H [0..<n]"
    using assms(2) by (intro filter_cong) auto
  then have w: "w = length (filter ?H [0..<n])" by (simp add: w_def winners_count_def)
  have c: "w = card {i. i < n \<and> ?H i}"
    unfolding w length_filter_conv_card by (rule arg_cong [where f = card]) auto
  have t: "io_for 0 n (give_points p k) s =
      (map (\<lambda>i. SentTo (g_wps s ! i) (show_int (points_of p s i))) [0..<n], Inr (with_points p n s))"
    using give_points_all [OF False assms(3) add_0 assms(1) [symmetric], of p] by (simp only: with_points_0)
  have sc: "scores (with_points p n s) = map (\<lambda>i. scores s ! i + points_of p s i) [0..<n]"
    using assms(1) by (simp add: with_points_def)
  have "sum_list (scores (with_points p n s)) = sum_list (map ((!) (scores s)) [0..<n]) + sum_list (map (points_of p s) [0..<n])"
    unfolding sc by (simp add: sum_list_addf)
  also have "map ((!) (scores s)) [0..<n] = scores s" using assms(1) map_nth by blast
  also have "sum_list (map (points_of p s) [0..<n]) = p * int w"
    unfolding points_of_def w by (rule sum_list_points)
  also have "p * int w \<le> int n"
    by (auto simp: p_def pointstogive_def simp flip: of_nat_mult)
  finally have b: "sum_list (scores (with_points p n s)) \<le> sum_list (scores s) + int n" by simp
  show ?thesis
    unfolding Let_def w_def [symmetric] p_def [symmetric] if_not_P [OF False]
    using t sc c b unfolding points_of_def by blast
qed

text \<open>A table of two players, of whom the first holds the higher card.\<close>

definition two_players :: game where
  "two_players = \<lparr>g_rps = [5, 9], g_wps = [4, 8], scores = [0, 2], played_cards = [7, 3], g_max = 7, g_fds = {}\<rparr>"

theorem cards_scoring_witness:
  "\<exists>s'. snd (io_for 0 2 (give_points (pointstogive 2 (winners_count 2 two_players))
             (\<lambda>_. \<lparr>a_round = Ok (), a_card = Ok None, a_points = Ok ()\<rparr>)) two_players) = Inr s'
        \<and> sum_list (scores s') \<le> 4"
proof -
  let ?k = "\<lambda>_. \<lparr>a_round = Ok (), a_card = Ok None, a_points = Ok ()\<rparr>"
  have h: "length (scores two_players) = 2" "\<forall>i < 2. g_rps two_players ! i \<noteq> 0"
      "\<forall>i < 2. a_points (?k i) = Ok ()" "g_wps two_players ! 0 \<noteq> 0" "sum_list (scores two_players) = 2"
    by (auto simp: two_players_def less_2_cases_iff)
  from cards_scoring [OF h(1-3)] h(4) show ?thesis
    unfolding Let_def h(5) by (auto simp only: if_False snd_conv)
qed

end
