(* ===== verification/Ship.thy ===== *)
theory Ship
  imports Pipes
begin

text \<open>
  \<^verbatim>\<open>lab05/sop-ship/sop-ship.c\<close>: the server deals, the players pass cards round a ring of
  pipes until one holds a single suit.  Cards are the numbers 0 to 51, the suit of a card its remainder
  modulo 4.  Messages are single integers (a dealt hand at most 208 bytes), which a pipe transfers whole.
  The calls repeated after \<^verbatim>\<open>EINTR\<close> appear with their last answer; an interrupt sets
  \<^verbatim>\<open>keep_running\<close>, which the players test once per turn.
\<close>

section \<open>Cards\<close>

fun shuffle_from :: "nat \<Rightarrow> nat list \<Rightarrow> rng \<Rightarrow> nat list \<times> rng" where
  "shuffle_from 0 deck r = (deck, r)"
| "shuffle_from (Suc i) deck r =
     shuffle_from i (swap_at (Suc i) (fst (rand r) mod (Suc i + 1)) deck) (snd (rand r))"

definition shuffle :: "nat list \<Rightarrow> nat \<Rightarrow> rng \<Rightarrow> nat list \<times> rng" where
  "shuffle deck n r = shuffle_from (n - 1) deck r"

definition is_winning :: "nat list \<Rightarrow> nat \<Rightarrow> bool" where
  "is_winning hand m = (\<forall>i \<in> set [1..<m]. hand ! i mod 4 = hand ! 0 mod 4)"

definition suit_counts :: "nat list \<Rightarrow> nat list" where
  "suit_counts hand = fold (\<lambda>c sc. sc[c mod 4 := sc ! (c mod 4) + 1]) hand (replicate 4 0)"

definition best_suit :: "nat list \<Rightarrow> nat" where
  "best_suit sc = fold (\<lambda>i best. if sc ! i > sc ! best then i else best) [1..<4] 0"

definition bad_cards :: "nat list \<Rightarrow> nat \<Rightarrow> nat list" where
  "bad_cards hand best = filter (\<lambda>i. hand ! i mod 4 \<noteq> best) [0..<length hand]"

text \<open>The second argument of the code is the length of the hand.\<close>

definition choose_card_to_discard :: "nat list \<Rightarrow> rng \<Rightarrow> nat \<times> rng" where
  "choose_card_to_discard hand r =
     (let bad = bad_cards hand (best_suit (suit_counts hand)); (v, r') = rand r in
      if length bad > 0 then (bad ! (v mod length bad), r') else (v mod length hand, r'))"

section \<open>The players\<close>

text \<open>
  Where a player is: at the top of its loop, waiting for a card in the place of the one it passed, or
  out of the loop (with the place of a card it passed and got nothing for).
\<close>

datatype pc = Top | Waiting nat | Left "nat option"

record ship =
  hands :: "nat \<Rightarrow> nat list"
  pcs :: "nat \<Rightarrow> pc"
  ring :: "nat \<Rightarrow> nat list"
  shared :: "nat list"
  winner :: "nat option"

definition leave :: "nat \<Rightarrow> nat option \<Rightarrow> ship \<Rightarrow> ship" where
  "leave i hole s = s\<lparr>pcs := (pcs s)(i := Left hole)\<rparr>"

text \<open>
  From the top of the loop to the write: \<open>keep\<close> is the flag, \<open>a\<close> and \<open>b\<close> the answers to the two
  writes, of which one is made.
\<close>

definition turn :: "nat \<Rightarrow> nat \<Rightarrow> nat \<Rightarrow> bool \<Rightarrow> unit sysret \<Rightarrow> unit sysret \<Rightarrow> rng \<Rightarrow> ship \<Rightarrow> ship run" where
  "turn n m i keep a b r s =
     (if \<not> keep then Inr (leave i None s)
      else if is_winning (hands s i) m
      then (case a of
              Ok _ \<Rightarrow> Inr (leave i None (s\<lparr>shared := shared s @ [i]\<rparr>))
            | Fail e \<Rightarrow> if e \<noteq> EPIPE then Inl (ERR ''write to shared pipe'') else Inr (leave i None s))
      else
        let discard_idx = fst (choose_card_to_discard (hands s i) r);
            card_to_pass = hands s i ! discard_idx; to = (i + 1) mod n
        in case b of
             Ok _ \<Rightarrow> Inr (s\<lparr>ring := (ring s)(to := ring s to @ [card_to_pass]),
                              pcs := (pcs s)(i := Waiting discard_idx)\<rparr>)
           | Fail e \<Rightarrow> if e = EPIPE then Inr (leave i None s) else Inl (ERR ''write to ring''))"

definition receive :: "nat \<Rightarrow> nat \<Rightarrow> nat option sysret \<Rightarrow> ship \<Rightarrow> ship run" where
  "receive i idx a s =
     (case a of
        Fail _ \<Rightarrow> Inl (ERR ''read from ring'')
      | Ok None \<Rightarrow> Inr (leave i (Some idx) s)
      | Ok (Some c) \<Rightarrow> Inr (s\<lparr>hands := (hands s)(i := (hands s i)[idx := c]), ring := (ring s)(i := tl (ring s i)),
                               pcs := (pcs s)(i := Top)\<rparr>))"

definition read_winner :: "ship \<Rightarrow> ship" where
  "read_winner s = (case shared s of [] \<Rightarrow> s | p # ps \<Rightarrow> s\<lparr>winner := Some p, shared := ps\<rparr>)"

definition out_of_loop :: "ship \<Rightarrow> nat \<Rightarrow> bool" where
  "out_of_loop s i = (case pcs s i of Left _ \<Rightarrow> True | _ \<Rightarrow> False)"

text \<open>
  The processes and the kernel: a broken pipe only after the reader has left, the end of file only on an
  empty pipe whose writer has left, otherwise the oldest card of the pipe.
\<close>

inductive ship_step :: "nat \<Rightarrow> nat \<Rightarrow> ship \<Rightarrow> ship \<Rightarrow> bool" for n m where
  step_turn: "i < n \<Longrightarrow> pcs s i = Top \<Longrightarrow> (b = Fail EPIPE \<Longrightarrow> out_of_loop s ((i + 1) mod n)) \<Longrightarrow>
     turn n m i keep a b r s = Inr t \<Longrightarrow> ship_step n m s t"
| step_card: "i < n \<Longrightarrow> pcs s i = Waiting idx \<Longrightarrow> ring s i = c # q \<Longrightarrow>
     receive i idx (Ok (Some c)) s = Inr t \<Longrightarrow> ship_step n m s t"
| step_eof: "i < n \<Longrightarrow> pcs s i = Waiting idx \<Longrightarrow> ring s i = [] \<Longrightarrow> out_of_loop s ((i + n - 1) mod n) \<Longrightarrow>
     receive i idx (Ok None) s = Inr t \<Longrightarrow> ship_step n m s t"
| step_winner: "winner s = None \<Longrightarrow> shared s \<noteq> [] \<Longrightarrow> t = read_winner s \<Longrightarrow> ship_step n m s t"

inductive_cases ship_stepE: "ship_step n m s t"

section \<open>The server\<close>

definition ship_args :: "string list \<Rightarrow> (nat \<times> nat) run" where
  "ship_args argv =
     (if length argv \<noteq> 3 then Inl Usage
      else let n = atoi (argv ! 1); m = atoi (argv ! 2) in
        if n < 4 \<or> n > 7 \<or> m < 4 \<or> n * m > 52 then Inl Usage else Inr (nat n, nat m))"

definition deal :: "nat list \<Rightarrow> nat \<Rightarrow> nat \<Rightarrow> nat list" where
  "deal deck m i = take m (drop (i * m) deck)"

definition ship_start :: "nat \<Rightarrow> rng \<Rightarrow> ship" where
  "ship_start m r =
     \<lparr>hands = deal (fst (shuffle [0..<52] 52 r)) m, pcs = (\<lambda>_. Top), ring = (\<lambda>_. []), shared = [], winner = None\<rparr>"

text \<open>
  The descriptors of a child: those it closes with \<^verbatim>\<open>close\<close>, whose results are not looked at,
  and those it keeps.
\<close>

definition ship_child_fds :: "nat \<Rightarrow> pipe list \<Rightarrow> pipe list \<Rightarrow> pipe \<Rightarrow> nat \<Rightarrow> int set \<Rightarrow> int set" where
  "ship_child_fds n deal_pipes ring_pipes shared_pipe i fds =
     fold (\<lambda>j f.
        let f1 = close_quietly (pend WRITE (deal_pipes ! j)) f;
            f2 = (if j \<noteq> i then close_quietly (pend READ (deal_pipes ! j)) f1 else f1);
            f3 = (if j \<noteq> i then close_quietly (pend READ (ring_pipes ! j)) f2 else f2)
        in (if j \<noteq> (i + 1) mod n then close_quietly (pend WRITE (ring_pipes ! j)) f3 else f3))
       [0..<n] (close_quietly (pend READ shared_pipe) fds)"

lemma ship_args_bounds: "ship_args argv = Inr (n, m) \<Longrightarrow> 4 \<le> n \<and> n \<le> 7 \<and> 4 \<le> m \<and> n * m \<le> 52"
  by (auto simp: ship_args_def Let_def nat_mult_distrib [symmetric] split: if_splits)

section \<open>Choosing a card\<close>

lemma mset_deal_shuffle_from: "i < length deck \<Longrightarrow> mset (fst (shuffle_from i deck r)) = mset deck"
proof (induction i arbitrary: deck r)
  case 0
  then show ?case by simp
next
  case (Suc i)
  have "fst (rand r) mod (Suc i + 1) < length deck"
    using Suc.prems mod_less_divisor [of "Suc i + 1" "fst (rand r)"] by linarith
  with Suc show ?case by simp
qed

lemma mset_deal_shuffle: "mset (fst (shuffle deck (length deck) r)) = mset deck"
  by (cases deck) (simp_all add: shuffle_def mset_deal_shuffle_from)

lemma choose_less: "0 < length hand \<Longrightarrow> fst (choose_card_to_discard hand r) < length hand"
proof -
  assume "0 < length hand"
  let ?bad = "bad_cards hand (best_suit (suit_counts hand))"
  have "?bad ! (v mod length ?bad) < length hand" if "?bad \<noteq> []" for v
  proof -
    have "?bad ! (v mod length ?bad) \<in> set ?bad" using that by simp
    then show ?thesis by (simp add: bad_cards_def)
  qed
  then show ?thesis using \<open>0 < length hand\<close> by (simp add: choose_card_to_discard_def Let_def case_prod_beta)
qed

definition suit_number :: "nat list \<Rightarrow> nat \<Rightarrow> nat" where
  "suit_number hand k = length (filter (\<lambda>c. c mod 4 = k) hand)"

lemma suit_counts_fold:
  "length sc = 4 \<Longrightarrow> fold (\<lambda>c sc. sc[c mod 4 := sc ! (c mod 4) + 1]) hand sc
     = map (\<lambda>k. sc ! k + suit_number hand k) [0..<4]"
proof (induction hand arbitrary: sc)
  case Nil
  then show ?case by (auto simp: suit_number_def intro: nth_equalityI)
next
  case (Cons c hand)
  have "map (\<lambda>k. sc[c mod 4 := sc ! (c mod 4) + 1] ! k + suit_number hand k) [0..<4]
      = map (\<lambda>k. sc ! k + suit_number (c # hand) k) [0..<4]"
    using Cons.prems by (auto simp: suit_number_def nth_list_update)
  then show ?case using Cons by simp
qed

lemma suit_counts_nth: "k < 4 \<Longrightarrow> suit_counts hand ! k = suit_number hand k"
  unfolding suit_counts_def by (subst suit_counts_fold) simp_all

lemma best_suit_max: "best_suit sc < 4 \<and> (\<forall>k < 4. sc ! k \<le> sc ! best_suit sc)"
  by (auto simp: best_suit_def upt_conv_Cons numeral_eq_Suc less_Suc_eq)

text \<open>
  From a hand that is not winning a player passes on a card that is not of the suit it holds
  most of; the place is inside the hand.
\<close>
theorem ship_discard:
  assumes "\<not> is_winning hand (length hand)"
  shows "let i = fst (choose_card_to_discard hand r); b = best_suit (suit_counts hand) in
         i < length hand \<and> hand ! i mod 4 \<noteq> b \<and> (\<forall>k < 4. suit_number hand k \<le> suit_number hand b)"
proof -
  let ?b = "best_suit (suit_counts hand)"
  from assms obtain i where i: "0 < i" "i < length hand" "hand ! i mod 4 \<noteq> hand ! 0 mod 4"
    by (auto simp: is_winning_def Suc_le_eq)
  then have "0 < length hand" by linarith
  have "bad_cards hand ?b \<noteq> []"
  proof (cases "hand ! 0 mod 4 = ?b")
    case True
    with i have "i \<in> set (bad_cards hand ?b)" by (auto simp: bad_cards_def)
    then show ?thesis by auto
  next
    case False
    with \<open>0 < length hand\<close> have "0 \<in> set (bad_cards hand ?b)" by (auto simp: bad_cards_def)
    then show ?thesis by auto
  qed
  then have "fst (choose_card_to_discard hand r) \<in> set (bad_cards hand ?b)"
    by (simp add: choose_card_to_discard_def Let_def case_prod_beta)
  then show ?thesis
    using best_suit_max [of "suit_counts hand"] by (auto simp: Let_def bad_cards_def suit_counts_nth)
qed

theorem ship_discard_witness:
  "fst (choose_card_to_discard [0, 4, 5, 8] (\<lambda>_. 0)) < 4 \<and>
   [0, 4, 5, 8] ! fst (choose_card_to_discard [0, 4, 5, 8] (\<lambda>_. 0)) mod 4 \<noteq> best_suit (suit_counts [0, 4, 5, 8])"
proof -
  have "\<not> is_winning [0, 4, 5, 8] (length [0, 4, 5, 8::nat])" by (simp add: is_winning_def)
  from ship_discard [OF this, of "\<lambda>_. 0"] show ?thesis by (simp only: Let_def) simp
qed

section \<open>No card is lost or duplicated\<close>

definition held :: "ship \<Rightarrow> nat \<Rightarrow> nat multiset" where
  "held s i = (case pcs s i of
      Waiting idx \<Rightarrow> mset (hands s i) - {#hands s i ! idx#}
    | Left (Some idx) \<Rightarrow> mset (hands s i) - {#hands s i ! idx#}
    | _ \<Rightarrow> mset (hands s i))"

definition all_cards :: "nat \<Rightarrow> ship \<Rightarrow> nat multiset" where
  "all_cards n s = (\<Sum>i<n. held s i) + (\<Sum>i<n. mset (ring s i))"

definition places :: "nat \<Rightarrow> nat \<Rightarrow> ship \<Rightarrow> bool" where
  "places n m s \<longleftrightarrow> (\<forall>i < n. length (hands s i) = m \<and> (\<forall>idx. pcs s i = Waiting idx \<longrightarrow> idx < m))"

definition claims :: "nat \<Rightarrow> nat \<Rightarrow> ship \<Rightarrow> bool" where
  "claims n m s \<longleftrightarrow> (\<forall>p \<in> set (shared s) \<union> set_option (winner s).
     p < n \<and> pcs s p = Left None \<and> is_winning (hands s p) m)"

definition ship_inv :: "nat multiset \<Rightarrow> nat \<Rightarrow> nat \<Rightarrow> ship \<Rightarrow> bool" where
  "ship_inv D n m s \<longleftrightarrow> all_cards n s = D \<and> places n m s \<and> claims n m s"

lemma all_cards_cong:
  "hands t = hands s \<Longrightarrow> pcs t = pcs s \<Longrightarrow> ring t = ring s \<Longrightarrow> all_cards n t = all_cards n s"
proof -
  assume h: "hands t = hands s" "pcs t = pcs s" "ring t = ring s"
  then have "held t = held s" by (intro ext) (simp add: held_def split: pc.split option.split)
  with h show ?thesis by (simp add: all_cards_def)
qed

lemma moved:
  fixes X :: "'a multiset"
  assumes "X' + h = X + h'" and "h = h' + C"
  shows "X = X' + C"
proof -
  from assms have "X + h' = (X' + C) + h'" by (simp add: ac_simps)
  then show ?thesis by simp
qed

lemma sum_one_changed:
  fixes f g :: "nat \<Rightarrow> nat multiset"
  assumes "i < n" and "\<And>j. j \<noteq> i \<Longrightarrow> g j = f j"
  shows "(\<Sum>j<n. g j) + f i = (\<Sum>j<n. f j) + g i"
proof -
  have "(\<Sum>j\<in>{..<n} - {i}. g j) = (\<Sum>j\<in>{..<n} - {i}. f j)" by (rule sum.cong) (use assms(2) in auto)
  then show ?thesis using sum.remove [of "{..<n}" i f] sum.remove [of "{..<n}" i g] assms(1) by (simp add: ac_simps)
qed

lemma pass_card:
  assumes "i < n" "to < n" "idx < length (hands s i)" "pcs s i = Top"
  shows "all_cards n (s\<lparr>ring := (ring s)(to := ring s to @ [hands s i ! idx]), pcs := (pcs s)(i := Waiting idx)\<rparr>)
         = all_cards n s"
proof -
  let ?c = "hands s i ! idx"
  let ?t = "s\<lparr>ring := (ring s)(to := ring s to @ [?c]), pcs := (pcs s)(i := Waiting idx)\<rparr>"
  have a: "(\<Sum>j<n. held ?t j) + held s i = (\<Sum>j<n. held s j) + held ?t i"
    by (rule sum_one_changed [OF assms(1)]) (simp add: held_def split: pc.split option.split)
  have b: "(\<Sum>j<n. mset (ring ?t j)) + mset (ring s to) = (\<Sum>j<n. mset (ring s j)) + mset (ring ?t to)"
    by (rule sum_one_changed [OF assms(2)]) simp
  have "held s i = held ?t i + {#?c#}" using assms(3,4) by (simp add: held_def)
  from moved [OF a this] have "(\<Sum>j<n. held s j) = (\<Sum>j<n. held ?t j) + {#?c#}" .
  moreover from b have "(\<Sum>j<n. mset (ring ?t j)) = (\<Sum>j<n. mset (ring s j)) + {#?c#}" by simp
  ultimately show ?thesis unfolding all_cards_def by (simp add: ac_simps)
qed

lemma take_card:
  assumes "i < n" "idx < length (hands s i)" "pcs s i = Waiting idx" "ring s i = c # q"
  shows "all_cards n (s\<lparr>hands := (hands s)(i := (hands s i)[idx := c]), ring := (ring s)(i := q), pcs := (pcs s)(i := Top)\<rparr>)
         = all_cards n s"
proof -
  let ?t = "s\<lparr>hands := (hands s)(i := (hands s i)[idx := c]), ring := (ring s)(i := q), pcs := (pcs s)(i := Top)\<rparr>"
  have a: "(\<Sum>j<n. held ?t j) + held s i = (\<Sum>j<n. held s j) + held ?t i"
    by (rule sum_one_changed [OF assms(1)]) (simp add: held_def split: pc.split option.split)
  have b: "(\<Sum>j<n. mset (ring ?t j)) + mset (ring s i) = (\<Sum>j<n. mset (ring s j)) + mset (ring ?t i)"
    by (rule sum_one_changed [OF assms(1)]) simp
  have "held ?t i = held s i + {#c#}" using assms(2,3) by (simp add: held_def mset_update)
  from moved [OF a [symmetric] this] have "(\<Sum>j<n. held ?t j) = (\<Sum>j<n. held s j) + {#c#}" .
  moreover from b assms(4) have "(\<Sum>j<n. mset (ring s j)) = (\<Sum>j<n. mset (ring ?t j)) + {#c#}" by simp
  ultimately show ?thesis unfolding all_cards_def by (simp add: ac_simps)
qed

lemma leave_cards: "pcs s i = Top \<and> hole = None \<or> pcs s i = Waiting idx \<and> hole = Some idx \<Longrightarrow>
   all_cards n (leave i hole s) = all_cards n s"
  unfolding all_cards_def leave_def held_def by (intro arg_cong2 [where f = plus] sum.cong) (auto split: pc.split option.split)

lemma claims_pcs:
  "claims n m s \<Longrightarrow> pcs s i \<noteq> Left None \<Longrightarrow> i \<notin> set (shared s) \<union> set_option (winner s)"
  by (auto simp: claims_def)

lemma claims_update:
  assumes "claims n m s" and "pcs s i \<noteq> Left None"
    and "shared t = shared s" "winner t = winner s"
    and "\<And>p. p \<noteq> i \<Longrightarrow> pcs t p = pcs s p \<and> hands t p = hands s p"
  shows "claims n m t"
  using claims_pcs [OF assms(1,2)] assms unfolding claims_def by (metis (no_types, lifting))

lemma ship_inv_leave:
  assumes "ship_inv D n m s" and "pcs s i = Top \<and> hole = None \<or> pcs s i = Waiting idx \<and> hole = Some idx"
  shows "ship_inv D n m (leave i hole s)"
proof -
  have "claims n m (leave i hole s)"
    by (rule claims_update [where s = s and i = i]) (use assms in \<open>auto simp: ship_inv_def leave_def\<close>)
  moreover have "places n m (leave i hole s)" using assms(1) by (auto simp: ship_inv_def places_def leave_def)
  ultimately show ?thesis using assms leave_cards [OF assms(2)] by (simp add: ship_inv_def)
qed

lemma ship_inv_turn:
  assumes I: "ship_inv D n m s" and i: "i < n" "pcs s i = Top" and "0 < m" and t: "turn n m i keep a b r s = Inr t"
  shows "ship_inv D n m t"
proof -
  have L: "ship_inv D n m (leave i None s)" by (rule ship_inv_leave [OF I]) (use i in simp)
  let ?idx = "fst (choose_card_to_discard (hands s i) r)"
  let ?p = "s\<lparr>ring := (ring s)((i + 1) mod n := ring s ((i + 1) mod n) @ [hands s i ! ?idx]), pcs := (pcs s)(i := Waiting ?idx)\<rparr>"
  have l: "length (hands s i) = m" using I i(1) by (simp add: ship_inv_def places_def)
  have idx: "?idx < m" using choose_less [of "hands s i" r] l \<open>0 < m\<close> by simp
  have "claims n m ?p"
    by (rule claims_update [where s = s and i = i]) (use I i in \<open>auto simp: ship_inv_def\<close>)
  moreover have "places n m ?p" using I idx by (auto simp: ship_inv_def places_def)
  moreover have "all_cards n ?p = all_cards n s" by (rule pass_card) (use i idx l in auto)
  ultimately have P: "ship_inv D n m ?p" using I by (simp add: ship_inv_def)
  have W: "ship_inv D n m (leave i None (s\<lparr>shared := shared s @ [i]\<rparr>))" if "is_winning (hands s i) m"
  proof -
    have "all_cards n (leave i None (s\<lparr>shared := shared s @ [i]\<rparr>)) = all_cards n (leave i None s)"
      by (rule all_cards_cong) (simp_all add: leave_def)
    with L i(1) that show ?thesis by (auto simp: ship_inv_def places_def claims_def leave_def)
  qed
  from t L P W show ?thesis
    by (auto simp: turn_def Let_def split: if_splits sysret.splits)
qed

lemma ship_inv_step: "ship_inv D n m s \<Longrightarrow> 0 < m \<Longrightarrow> ship_step n m s t \<Longrightarrow> ship_inv D n m t"
proof (erule ship_stepE)
  assume I: "ship_inv D n m s" and "0 < m"
  {
    fix i b keep a r
    assume "i < n" "pcs s i = Top" "turn n m i keep a b r s = Inr t"
    then show "ship_inv D n m t" by (rule ship_inv_turn [OF I _ _ \<open>0 < m\<close>])
  next
    fix i idx c q
    assume h: "i < n" "pcs s i = Waiting idx" "ring s i = c # q" "receive i idx (Ok (Some c)) s = Inr t"
    have l: "length (hands s i) = m" "idx < m" using I h(1,2) by (simp_all add: ship_inv_def places_def)
    have t: "t = s\<lparr>hands := (hands s)(i := (hands s i)[idx := c]), ring := (ring s)(i := q), pcs := (pcs s)(i := Top)\<rparr>"
      using h(3,4) by (simp add: receive_def)
    have "all_cards n t = all_cards n s" unfolding t by (rule take_card) (use h l in auto)
    moreover have "claims n m t"
      by (rule claims_update [where s = s and i = i]) (use I h in \<open>auto simp: ship_inv_def t\<close>)
    moreover have "places n m t" using I l by (auto simp: ship_inv_def places_def t)
    ultimately show "ship_inv D n m t" using I by (simp add: ship_inv_def)
  next
    fix i idx
    assume h: "i < n" "pcs s i = Waiting idx" "receive i idx (Ok None) s = Inr t"
    then have "t = leave i (Some idx) s" by (simp add: receive_def)
    with ship_inv_leave [OF I, of i "Some idx"] h(2) show "ship_inv D n m t" by simp
  next
    assume "shared s \<noteq> []" "t = read_winner s"
    moreover have "all_cards n (read_winner s) = all_cards n s"
      by (rule all_cards_cong) (simp_all add: read_winner_def split: list.split)
    ultimately show "ship_inv D n m t" using I
      by (cases "shared s") (auto simp: read_winner_def ship_inv_def places_def claims_def)
  }
qed

lemma deal_all:
  "n * m \<le> length deck \<Longrightarrow> (\<Sum>i<n. mset (deal deck m i)) = mset (take (n * m) deck)"
proof (induction n)
  case 0
  then show ?case by simp
next
  case (Suc n)
  have "Suc n * m = n * m + m" by simp
  then have "take (Suc n * m) deck = take (n * m) deck @ deal deck m n"
    by (simp only: deal_def take_add)
  with Suc show ?case by simp
qed

lemma deck_52: "mset (fst (shuffle [0..<52] 52 r)) = mset [0..<52]"
  using mset_deal_shuffle [of "[0..<52]" r] by simp

lemma ship_inv_start:
  assumes "n * m \<le> 52"
  shows "ship_inv (mset (take (n * m) (fst (shuffle [0..<52] 52 r)))) n m (ship_start m r)"
proof -
  have l: "length (fst (shuffle [0..<52] 52 r)) = 52" using mset_eq_length [OF deck_52] by simp
  have "m \<le> 52 - i * m" if "i < n" for i
  proof -
    have "Suc i * m \<le> n * m" using that by (intro mult_le_mono1) simp
    with assms show ?thesis by simp
  qed
  then have "length (deal (fst (shuffle [0..<52] 52 r)) m i) = m" if "i < n" for i
    using that l by (simp add: deal_def)
  with deal_all [of n m "fst (shuffle [0..<52] 52 r)"] assms l show ?thesis
    by (simp add: ship_inv_def all_cards_def held_def places_def claims_def ship_start_def)
qed

interpretation ship: inv_system "\<lambda>s. 4 \<le> n \<and> n \<le> 7 \<and> 4 \<le> m \<and> n * m \<le> 52 \<and> s = ship_start m r" "ship_step n m"
  "\<lambda>s. 0 < m \<and> ship_inv (mset (take (n * m) (fst (shuffle [0..<52] 52 r)))) n m s" for n m r
  by unfold_locales (use ship_inv_start ship_inv_step in fastforce)+

text \<open>
  C27: However the players' turns interleave, and wherever they are interrupted, the cards in the
  hands and in the pipes are always exactly the cards that were dealt, the first \<open>n * m\<close> of the shuffled deck,
  which are all different; and the player the server announces holds a single suit.
\<close>
theorem ship_cards:
  assumes "ship_args argv = Inr (n, m)" and "reach (\<lambda>s. s = ship_start m r) (ship_step n m) s"
  shows "all_cards n s = (\<Sum>i<n. mset (deal (fst (shuffle [0..<52] 52 r)) m i)) \<and>
         size (all_cards n s) = n * m \<and> (\<forall>c. count (all_cards n s) c \<le> 1) \<and> set_mset (all_cards n s) \<subseteq> {..<52}
         \<and> (\<forall>p. winner s = Some p \<longrightarrow> p < n \<and> is_winning (hands s p) m)"
proof -
  have a: "4 \<le> n \<and> n \<le> 7 \<and> 4 \<le> m \<and> n * m \<le> 52"
    using ship_args_bounds [OF assms(1)] .
  from assms(2) have "reach (\<lambda>s. 4 \<le> n \<and> n \<le> 7 \<and> 4 \<le> m \<and> n * m \<le> 52 \<and> s = ship_start m r) (ship_step n m) s"
    by (induction rule: reach.induct) (use a in \<open>auto intro: reach.intros\<close>)
  from ship.reach_inv [OF this] have I: "ship_inv (mset (take (n * m) (fst (shuffle [0..<52] 52 r)))) n m s" by simp
  let ?D = "fst (shuffle [0..<52] 52 r)"
  have "length ?D = 52" "distinct ?D" "set ?D = {0..<52}"
    using mset_eq_length [OF deck_52 [of r]] mset_eq_imp_distinct_iff [OF deck_52 [of r]] mset_eq_setD [OF deck_52 [of r]]
    by simp_all
  then have "size (mset (take (n * m) ?D)) = n * m" "distinct (take (n * m) ?D)" "set (take (n * m) ?D) \<subseteq> {..<52}"
      "(\<Sum>i<n. mset (deal ?D m i)) = mset (take (n * m) ?D)"
    using a deal_all [of n m ?D] set_take_subset [of "n * m" ?D] by auto
  moreover from this have "\<forall>c. count (mset (take (n * m) ?D)) c \<le> 1"
    by (metis distinct_count_atmost_1 le_numeral_extra(3) le_numeral_extra(4) zero_le_one)
  ultimately show ?thesis using I by (auto simp: ship_inv_def claims_def)
qed

text \<open>
  A deal that gives player 0 the cards 0, 4, 8 and 12: player 1 passes on a card, player 0 announces itself and the
  server reads it.
\<close>

definition lucky_rng :: rng where
  "lucky_rng k = word_of_nat (if k = 39 then 3 else if k = 43 then 2 else if k = 47 then 1 else 51 - k)"

lemma lucky_hands: "hands (ship_start 4 lucky_rng) 0 = [0, 4, 8, 12]" "hands (ship_start 4 lucky_rng) 1 = [1, 5, 6, 7]"
  by (code_simp, code_simp)

theorem ship_cards_witness:
  "\<exists>s. reach (\<lambda>s. s = ship_start 4 lucky_rng) (ship_step 4 4) s \<and> winner s = Some 0 \<and> is_winning (hands s 0) 4 \<and>
     ring s 2 = [6] \<and> all_cards 4 s = (\<Sum>i<4. mset (deal (fst (shuffle [0..<52] 52 lucky_rng)) 4 i))"
proof -
  let ?i = "\<lambda>s. s = ship_start 4 lucky_rng" and ?s0 = "ship_start 4 lucky_rng"
  have z: "pcs ?s0 = (\<lambda>_. Top)" "ring ?s0 = (\<lambda>_. [])" "shared ?s0 = []" "winner ?s0 = None" by (simp_all add: ship_start_def)
  have args: "ship_args [''ship'', ''4'', ''4''] = Inr (4, 4)" by code_simp
  let ?s1 = "?s0\<lparr>ring := (ring ?s0)(2 := ring ?s0 2 @ [6]), pcs := (pcs ?s0)(1 := Waiting 2)\<rparr>"
  have w: "\<not> is_winning [1, 5, 6, 7] 4" "fst (choose_card_to_discard [1, 5, 6, 7] (\<lambda>_. 0)) = 2" "is_winning [0, 4, 8, 12] 4"
    by (code_simp, code_simp, code_simp)
  have "turn 4 4 1 True (Ok ()) (Ok ()) (\<lambda>_. 0) ?s0 = Inr ?s1" using w lucky_hands(2) by (simp add: turn_def Let_def numeral_2_eq_2)
  then have 1: "reach ?i (ship_step 4 4) ?s1"
    by (intro reach_step [OF reach_init] step_turn [where i = 1]) (simp_all add: z)
  let ?s2 = "leave 0 None (?s1\<lparr>shared := shared ?s1 @ [0]\<rparr>)"
  have "turn 4 4 0 True (Ok ()) (Ok ()) (\<lambda>_. 0) ?s1 = Inr ?s2" using w lucky_hands(1) by (simp add: turn_def)
  then have 2: "reach ?i (ship_step 4 4) ?s2"
    by (intro reach_step [OF 1] step_turn [where i = 0]) (simp_all add: z)
  have 3: "reach ?i (ship_step 4 4) (read_winner ?s2)"
    by (rule reach_step [OF 2], rule step_winner) (simp_all add: leave_def z)
  have "winner (read_winner ?s2) = Some 0" "ring (read_winner ?s2) 2 = [6]" by (simp_all add: read_winner_def leave_def z)
  then show ?thesis using ship_cards [OF args 3] 3 by blast
qed

section \<open>The server's process\<close>

datatype ship_event = Dealt nat "nat list" | Won int

text \<open>
  The descriptors a player closes: the pipe of its hand when it has read it, the other three when it is
  out of its loop.
\<close>

definition player_closes :: "nat \<Rightarrow> pipe list \<Rightarrow> pipe list \<Rightarrow> pipe \<Rightarrow> nat \<Rightarrow> int set \<Rightarrow> int set" where
  "player_closes n deal_pipes ring_pipes shared_pipe i fds =
     close_quietly (pend WRITE shared_pipe)
       (close_quietly (pend WRITE (ring_pipes ! ((i + 1) mod n)))
         (close_quietly (pend READ (ring_pipes ! i)) (close_quietly (pend READ (deal_pipes ! i)) fds)))"

definition server_closes :: "nat \<Rightarrow> pipe list \<Rightarrow> pipe list \<Rightarrow> pipe \<Rightarrow> int set \<Rightarrow> int set" where
  "server_closes n deal_pipes ring_pipes shared_pipe fds =
     close_quietly (pend WRITE shared_pipe)
       (fold (\<lambda>i f. close_quietly (pend WRITE (ring_pipes ! i)) (close_quietly (pend READ (ring_pipes ! i))
          (close_quietly (pend READ (deal_pipes ! i)) f))) [0..<n] fds)"

text \<open>Dealing: \<open>a\<close> has the answers to the writes; without one the write still waits.\<close>

fun deal_out :: "nat list \<Rightarrow> nat \<Rightarrow> pipe list \<Rightarrow> nat list \<Rightarrow> unit sysret list \<Rightarrow> int set \<Rightarrow> (ship_event, int set) io" where
  "deal_out deck m deal_pipes [] a fds = ret fds"
| "deal_out deck m deal_pipes (i # is) [] fds = die (ERR ''no answer'')"
| "deal_out deck m deal_pipes (i # is) (x # a) fds =
     (case x of
        Fail _ \<Rightarrow> die (ERR ''write cards'')
      | Ok _ \<Rightarrow> seq (emit [Dealt i (deal deck m i)]) (\<lambda>_.
          deal_out deck m deal_pipes is a (close_quietly (pend WRITE (deal_pipes ! i)) fds)))"

text \<open>\<open>w\<close> answers the read of the winner: a process number, the end of file or an error.\<close>

definition ship_server ::
  "nat list \<Rightarrow> nat \<Rightarrow> nat \<Rightarrow> pipe list \<Rightarrow> pipe list \<Rightarrow> pipe \<Rightarrow> unit sysret list \<Rightarrow> int option sysret \<Rightarrow> int set \<Rightarrow> (ship_event, int set) io" where
  "ship_server deck n m deal_pipes ring_pipes shared_pipe a w fds =
     seq (deal_out deck m deal_pipes [0..<n] a (server_closes n deal_pipes ring_pipes shared_pipe fds)) (\<lambda>f.
     seq (emit (case w of Ok (Some winner_pid) \<Rightarrow> [Won winner_pid] | _ \<Rightarrow> [])) (\<lambda>_.
     ret (close_quietly (pend READ shared_pipe) f)))"

lemma server_closes: "server_closes n dp rp sp fds = fds - (\<Union>j < n. {fst (dp ! j), fst (rp ! j), snd (rp ! j)}) - {snd sp}"
proof -
  have "server_closes n dp rp sp fds = fds - (\<Union>j \<in> set [0..<n]. {fst (dp ! j), fst (rp ! j), snd (rp ! j)}) - {snd sp}"
    unfolding server_closes_def close_quietly_def pend_ends
    by (rule arg_cong [where f = "\<lambda>F. F - {snd sp}"], rule fold_closes) auto
  then show ?thesis by (simp add: lessThan_atLeast0)
qed

text \<open>Whatever its numbers are, a player closes every end of every pipe.\<close>

lemma child_closes:
  assumes "i < n"
  shows "player_closes n dp rp sp i (ship_child_fds n dp rp sp i fds) =
    fds - (\<Union>j < n. {fst (dp ! j), snd (dp ! j), fst (rp ! j), snd (rp ! j)}) - {fst sp, snd sp}"
proof -
  let ?h = "\<lambda>j. {snd (dp ! j)} \<union> (if j \<noteq> i then {fst (dp ! j), fst (rp ! j)} else {}) \<union>
    (if j \<noteq> (i + 1) mod n then {snd (rp ! j)} else {})"
  have "ship_child_fds n dp rp sp i fds = fds - {fst sp} - (\<Union>j \<in> set [0..<n]. ?h j)"
    unfolding ship_child_fds_def close_quietly_def pend_ends Let_def by (rule fold_closes) (simp, blast)
  moreover have "(\<Union>j \<in> set [0..<n]. ?h j) \<union> {snd (rp ! ((i + 1) mod n)), fst (rp ! i), fst (dp ! i)} =
    (\<Union>j < n. {fst (dp ! j), snd (dp ! j), fst (rp ! j), snd (rp ! j)})"
  proof (rule set_eqI)
    fix x
    have e: "(\<exists>j < n. j \<noteq> k \<and> x = f j) \<or> x = f k \<longleftrightarrow> (\<exists>j < n. x = f j)" if "k < n" for f :: "nat \<Rightarrow> int" and k
      using that by auto
    have h: "x \<in> ?h j \<longleftrightarrow> x = snd (dp ! j) \<or> j \<noteq> i \<and> x = fst (dp ! j) \<or> j \<noteq> i \<and> x = fst (rp ! j) \<or>
      j \<noteq> (i + 1) mod n \<and> x = snd (rp ! j)" for j
      by simp
    have "x \<in> (\<Union>j \<in> set [0..<n]. ?h j) \<longleftrightarrow> (\<exists>j < n. x = snd (dp ! j)) \<or> (\<exists>j < n. j \<noteq> i \<and> x = fst (dp ! j)) \<or>
      (\<exists>j < n. j \<noteq> i \<and> x = fst (rp ! j)) \<or> (\<exists>j < n. j \<noteq> (i + 1) mod n \<and> x = snd (rp ! j))"
      unfolding UN_iff h set_upt bex_disj_distrib by (simp only: Bex_def atLeastLessThan_iff le0 simp_thms)
    moreover have "(i + 1) mod n < n" using assms by simp
    note e [OF this, of "\<lambda>j. snd (rp ! j)"] e [OF assms, of "\<lambda>j. fst (rp ! j)"] e [OF assms, of "\<lambda>j. fst (dp ! j)"]
    ultimately show "x \<in> (\<Union>j \<in> set [0..<n]. ?h j) \<union> {snd (rp ! ((i + 1) mod n)), fst (rp ! i), fst (dp ! i)} \<longleftrightarrow>
      x \<in> (\<Union>j < n. {fst (dp ! j), snd (dp ! j), fst (rp ! j), snd (rp ! j)})"
      unfolding Un_iff UN_iff [of _ _ "{..<n}"] insert_iff empty_iff bex_disj_distrib
      by (simp only: Bex_def lessThan_iff simp_thms) blast
  qed
  ultimately show ?thesis unfolding player_closes_def close_quietly_def pend_ends by blast
qed

lemma deal_out_result:
  "deal_out deck m dp is a F = (es, Inr f) \<Longrightarrow> es = map (\<lambda>i. Dealt i (deal deck m i)) is \<and> f = F - (\<Union>i \<in> set is. {snd (dp ! i)})"
proof (induction deck m dp "is" a F arbitrary: es f rule: deal_out.induct)
  case (3 deck m dp i "is" x a F)
  then show ?case
    by (cases x) (auto simp: pend_ends close_quietly_def seq_def emit_def die_def split: prod.splits)
qed (simp_all add: ret_def die_def)

text \<open>
  A server that does not fail has dealt every hand, in order and before it reads, announces at most
  the process it read and keeps only the descriptors that were open before the pipes.
\<close>

lemma server_deals:
  assumes "ship_server deck n m dp rp sp a w fds = (es, Inr f)"
  shows "es = map (\<lambda>i. Dealt i (deal deck m i)) [0..<n] @ (case w of Ok (Some p) \<Rightarrow> [Won p] | _ \<Rightarrow> [])"
    and "f = fds - (\<Union>j < n. {fst (dp ! j), snd (dp ! j), fst (rp ! j), snd (rp ! j)}) - {fst sp, snd sp}"
proof -
  obtain d g where d: "deal_out deck m dp [0..<n] a (server_closes n dp rp sp fds) = (d, Inr g)"
    using assms by (cases "deal_out deck m dp [0..<n] a (server_closes n dp rp sp fds)"; cases "snd (deal_out deck m dp [0..<n] a (server_closes n dp rp sp fds))")
      (auto simp: ship_server_def seq_def)
  note r = deal_out_result [OF d]
  have e: "es = d @ (case w of Ok (Some p) \<Rightarrow> [Won p] | _ \<Rightarrow> [])" "f = g - {fst sp}"
    using assms d by (auto simp: ship_server_def seq_def emit_def ret_def pend_ends close_quietly_def)
  show "es = map (\<lambda>i. Dealt i (deal deck m i)) [0..<n] @ (case w of Ok (Some p) \<Rightarrow> [Won p] | _ \<Rightarrow> [])"
    using e(1) r by simp
  show "f = fds - (\<Union>j < n. {fst (dp ! j), snd (dp ! j), fst (rp ! j), snd (rp ! j)}) - {fst sp, snd sp}"
    using e(2) r by (auto simp: server_closes)
qed

end
