(* ===== verification/Flood.thy ===== *)
theory Flood
  imports Pipes
begin

text \<open>
  \<^verbatim>\<open>lab05/generated/generated.c\<close>: the government reads directives (single letters) from a
  FIFO and sends them to province 0; each province forwards a directive it has not just seen to all its
  neighbours in a graph read from a file.  Reads of the provinces do not block.  The state of a province
  is the state of its loop: the input it polls next, and the output it forwards to next.
\<close>

section \<open>The graph\<close>

abbreviation MAX_N :: nat where "MAX_N \<equiv> 10"

record graph =
  gr_n :: nat
  matrix :: "int list list"

text \<open>The results of the successive calls of \<^verbatim>\<open>fscanf(file, "%d", ...)\<close>; \<open>None\<close> when a call does not read a number.\<close>

fun read_row :: "nat \<Rightarrow> int option list \<Rightarrow> (int list \<times> int option list) run" where
  "read_row 0 xs = Inr ([], xs)"
| "read_row (Suc m) xs =
     (case xs of Some x # xs' \<Rightarrow> bindr (read_row m xs') (\<lambda>(row, rest). Inr (x # row, rest))
               | _ \<Rightarrow> Inl (ERR ''matrix''))"

fun read_rows :: "nat \<Rightarrow> nat \<Rightarrow> int option list \<Rightarrow> int list list run" where
  "read_rows n 0 xs = Inr []"
| "read_rows n (Suc m) xs =
     bindr (read_row n xs) (\<lambda>(row, rest). bindr (read_rows n m rest) (\<lambda>rows. Inr (row # rows)))"

definition load_graph :: "int option list option \<Rightarrow> graph run" where
  "load_graph contents =
     (case contents of
        None \<Rightarrow> Inl (ERR ''fopen'')
      | Some (Some n # xs) \<Rightarrow>
          if n < 2 \<or> n > int MAX_N then Inl (ERR ''size'')
          else bindr (read_rows (nat n) (nat n) xs) (\<lambda>rows. Inr \<lparr>gr_n = nat n, matrix = rows\<rparr>)
      | Some _ \<Rightarrow> Inl (ERR ''size''))"

definition arc :: "graph \<Rightarrow> nat \<Rightarrow> nat \<Rightarrow> bool" where
  "arc g i j \<longleftrightarrow> i < gr_n g \<and> j < gr_n g \<and> matrix g ! i ! j = 1"

section \<open>A province\<close>

datatype src = From nat | Government

record prov =
  in_fds :: "src option list"
  out_fds :: "nat option list"
  active_inputs :: nat
  last_char :: char
  poll_at :: nat
  sending :: "(char \<times> nat) option"
  alive :: bool

text \<open>The descriptors a child keeps, in the order of the loops over the matrix.\<close>

definition out_list :: "graph \<Rightarrow> nat \<Rightarrow> nat list" where
  "out_list g k = filter (\<lambda>j. arc g k j) [0..<gr_n g]"

definition in_list :: "graph \<Rightarrow> nat \<Rightarrow> src list" where
  "in_list g k = map From (filter (\<lambda>i. arc g i k \<and> i \<noteq> k) [0..<gr_n g]) @ (if k = 0 then [Government] else [])"

definition NUL :: char where "NUL = char_of (0::nat)"

definition province_start :: "graph \<Rightarrow> nat \<Rightarrow> prov" where
  "province_start g k =
     (let ins = in_list g k
      in \<lparr>in_fds = map Some ins, out_fds = map Some (out_list g k), active_inputs = length ins,
          last_char = NUL, poll_at = 0, sending = None, alive = length ins > 0\<rparr>)"

text \<open>To the next input; after the last one the test of the outer loop.\<close>

definition next_input :: "bool \<Rightarrow> prov \<Rightarrow> prov" where
  "next_input keep_running p =
     (if poll_at p + 1 < length (in_fds p) then p\<lparr>poll_at := poll_at p + 1\<rparr>
      else p\<lparr>poll_at := 0, alive := active_inputs p > 0 \<and> keep_running\<rparr>)"

text \<open>
  One turn of the inner loop: the answer of \<^verbatim>\<open>read\<close> is a letter, the end of file, or an
  error (nothing there).  A new letter starts the loop over the outputs.
\<close>

definition poll :: "bool \<Rightarrow> char option sysret \<Rightarrow> prov \<Rightarrow> prov" where
  "poll keep a p =
     (case in_fds p ! poll_at p of
        None \<Rightarrow> next_input keep p
      | Some _ \<Rightarrow>
          (case a of
             Ok (Some c) \<Rightarrow> if c \<noteq> last_char p then p\<lparr>last_char := c, sending := Some (c, 0)\<rparr> else next_input keep p
           | Ok None \<Rightarrow> next_input keep (p\<lparr>in_fds := (in_fds p)[poll_at p := None], active_inputs := active_inputs p - 1\<rparr>)
           | Fail _ \<Rightarrow> next_input keep p))"

text \<open>One turn of the loop over the outputs; the answer is that of the write it makes, if it makes one.\<close>

definition forward :: "bool \<Rightarrow> unit sysret \<Rightarrow> prov \<Rightarrow> prov" where
  "forward keep a p =
     (case sending p of
        None \<Rightarrow> p
      | Some (c, out) \<Rightarrow>
          if out \<ge> length (out_fds p) then next_input keep (p\<lparr>sending := None\<rparr>)
          else let p' = p\<lparr>sending := Some (c, out + 1)\<rparr> in
               if out_fds p ! out \<noteq> None \<and> a = Fail EPIPE then p'\<lparr>out_fds := (out_fds p)[out := None]\<rparr> else p')"

section \<open>The country\<close>

record country =
  provs :: "nat \<Rightarrow> prov"
  edges :: "nat \<Rightarrow> nat \<Rightarrow> char list"
  gov_pipe :: "char list"
  fifo :: "char list"
  gov_open :: bool
  log :: "(nat \<times> char) list"

definition letter :: "char \<Rightarrow> bool" where
  "letter c \<longleftrightarrow> 97 \<le> (of_char c :: nat) \<and> (of_char c :: nat) \<le> 122"

text \<open>
  The loop of the government: one character of the FIFO, or its end.  The write to province 0 fails
  when that province has left.
\<close>

definition gov_step :: "country \<Rightarrow> country" where
  "gov_step s =
     (case fifo s of
        [] \<Rightarrow> s\<lparr>gov_open := False\<rparr>
      | c # cs \<Rightarrow>
          if letter c
          then if alive (provs s 0) then s\<lparr>fifo := cs, gov_pipe := gov_pipe s @ [c]\<rparr>
               else s\<lparr>fifo := cs, gov_open := False\<rparr>
          else s\<lparr>fifo := cs\<rparr>)"

definition set_prov :: "nat \<Rightarrow> prov \<Rightarrow> country \<Rightarrow> country" where
  "set_prov k p s = s\<lparr>provs := (provs s)(k := p)\<rparr>"

text \<open>
  What the kernel answers to a non-blocking read: the oldest letter, the end of file when the only
  writer has left, an error otherwise.
\<close>

definition peek :: "country \<Rightarrow> nat \<Rightarrow> src \<Rightarrow> char option sysret" where
  "peek s k source =
     (let (q, writer) = (case source of From i \<Rightarrow> (edges s i k, alive (provs s i)) | Government \<Rightarrow> (gov_pipe s, gov_open s))
      in case q of c # _ \<Rightarrow> Ok (Some c) | [] \<Rightarrow> if writer then Fail EAGAIN else Ok None)"

definition pop :: "nat \<Rightarrow> src \<Rightarrow> country \<Rightarrow> country" where
  "pop k source s =
     (case source of
        From i \<Rightarrow> s\<lparr>edges := (edges s)(i := (edges s i)(k := tl (edges s i k)))\<rparr>
      | Government \<Rightarrow> s\<lparr>gov_pipe := tl (gov_pipe s)\<rparr>)"

definition poll_step :: "nat \<Rightarrow> country \<Rightarrow> country" where
  "poll_step k s =
     (let p = provs s k in
      case in_fds p ! poll_at p of
        None \<Rightarrow> set_prov k (poll True (Fail EAGAIN) p) s
      | Some source \<Rightarrow>
          let a = peek s k source; t = set_prov k (poll True a p) (pop k source s)
          in case a of Ok (Some c) \<Rightarrow> if c \<noteq> last_char p then t\<lparr>log := log t @ [(k, c)]\<rparr> else t | _ \<Rightarrow> t)"

text \<open>A province has closed the read end of a pipe from itself to itself, so its own writes to it fail.\<close>

definition forward_step :: "nat \<Rightarrow> country \<Rightarrow> country" where
  "forward_step k s =
     (let p = provs s k in
      case sending p of
        None \<Rightarrow> s
      | Some (c, out) \<Rightarrow>
          if out < length (out_fds p)
          then (case out_fds p ! out of
                  None \<Rightarrow> set_prov k (forward True (Ok ()) p) s
                | Some j \<Rightarrow>
                    if j \<noteq> k \<and> alive (provs s j)
                    then set_prov k (forward True (Ok ()) p)
                           (s\<lparr>edges := (edges s)(k := (edges s k)(j := edges s k j @ [c]))\<rparr>)
                    else set_prov k (forward True (Fail EPIPE) p) s)
          else set_prov k (forward True (Ok ()) p) s)"

inductive country_step :: "graph \<Rightarrow> country \<Rightarrow> country \<Rightarrow> bool" for g where
  country_gov: "gov_open s \<Longrightarrow> t = gov_step s \<Longrightarrow> country_step g s t"
| country_poll: "k < gr_n g \<Longrightarrow> alive (provs s k) \<Longrightarrow> sending (provs s k) = None \<Longrightarrow> t = poll_step k s \<Longrightarrow>
     country_step g s t"
| country_forward: "k < gr_n g \<Longrightarrow> alive (provs s k) \<Longrightarrow> sending (provs s k) \<noteq> None \<Longrightarrow> t = forward_step k s \<Longrightarrow>
     country_step g s t"

inductive_cases country_stepE: "country_step g s t"

definition country_start :: "graph \<Rightarrow> char list \<Rightarrow> country" where
  "country_start g cs =
     \<lparr>provs = province_start g, edges = (\<lambda>_ _. []), gov_pipe = [], fifo = cs, gov_open = True, log = []\<rparr>"

section \<open>One directive\<close>

definition open_inputs :: "prov \<Rightarrow> nat" where
  "open_inputs p = length (filter (\<lambda>x. x \<noteq> None) (in_fds p))"

definition prov_ok :: "graph \<Rightarrow> char \<Rightarrow> nat \<Rightarrow> prov \<Rightarrow> bool" where
  "prov_ok g c k p \<longleftrightarrow>
     length (in_fds p) = length (in_list g k) \<and> length (out_fds p) = length (out_list g k) \<and>
     (\<forall>a < length (in_list g k). in_fds p ! a = None \<or> in_fds p ! a = Some (in_list g k ! a)) \<and>
     (\<forall>b < length (out_list g k). out_fds p ! b = Some (out_list g k ! b) \<or> out_fds p ! b = None \<and> out_list g k ! b = k) \<and>
     (last_char p = NUL \<or> last_char p = c) \<and>
     (\<forall>x out. sending p = Some (x, out) \<longrightarrow> x = c \<and> last_char p = c \<and> alive p) \<and>
     active_inputs p = open_inputs p \<and> (\<not> alive p \<longrightarrow> active_inputs p = 0) \<and>
     (alive p \<longrightarrow> poll_at p < length (in_fds p))"

definition finished :: "country \<Rightarrow> nat \<Rightarrow> src \<Rightarrow> bool" where
  "finished s k source = (case source of
      From i \<Rightarrow> \<not> alive (provs s i) \<and> edges s i k = []
    | Government \<Rightarrow> \<not> gov_open s \<and> gov_pipe s = [])"

text \<open>Province \<open>i\<close> has still to write to \<open>j\<close>.\<close>

definition pending :: "graph \<Rightarrow> char \<Rightarrow> nat \<Rightarrow> prov \<Rightarrow> nat \<Rightarrow> bool" where
  "pending g c i p j \<longleftrightarrow>
     (\<exists>out b. sending p = Some (c, out) \<and> out \<le> b \<and> b < length (out_list g i) \<and> out_list g i ! b = j)"

definition content_ok :: "graph \<Rightarrow> char \<Rightarrow> country \<Rightarrow> bool" where
  "content_ok g c s \<longleftrightarrow> set (gov_pipe s) \<subseteq> {c} \<and> (\<forall>x \<in> set (fifo s). letter x \<longrightarrow> x = c) \<and>
     (\<forall>i j. set (edges s i j) \<subseteq> {c} \<and> (edges s i j \<noteq> [] \<longrightarrow> arc g i j \<and> last_char (provs s i) = c))"

definition flow_ok :: "graph \<Rightarrow> char \<Rightarrow> country \<Rightarrow> bool" where
  "flow_ok g c s \<longleftrightarrow>
     (\<forall>i j. arc g i j \<longrightarrow> i \<noteq> j \<longrightarrow> last_char (provs s i) = c \<longrightarrow>
        last_char (provs s j) = c \<or> c \<in> set (edges s i j) \<or> pending g c i (provs s i) j) \<and>
     (last_char (provs s 0) = c \<or> c \<in> set (gov_pipe s) \<or> gov_open s \<and> c \<in> set (fifo s))"

definition graph_rel :: "graph \<Rightarrow> (nat \<times> nat) set" where
  "graph_rel g = {(i, j). arc g i j}"

definition log_ok :: "graph \<Rightarrow> char \<Rightarrow> country \<Rightarrow> bool" where
  "log_ok g c s \<longleftrightarrow> distinct (log s) \<and>
     set (log s) = {(k, c) | k. k < gr_n g \<and> last_char (provs s k) = c} \<and>
     (\<forall>k < gr_n g. last_char (provs s k) = c \<longrightarrow> (0, k) \<in> (graph_rel g)\<^sup>*)"

definition closed_ok :: "graph \<Rightarrow> country \<Rightarrow> bool" where
  "closed_ok g s \<longleftrightarrow> (\<forall>k < gr_n g. \<forall>a < length (in_list g k).
     in_fds (provs s k) ! a = None \<longrightarrow> finished s k (in_list g k ! a))"

definition flood_inv :: "graph \<Rightarrow> char \<Rightarrow> country \<Rightarrow> bool" where
  "flood_inv g c s \<longleftrightarrow> 0 < gr_n g \<and> letter c \<and> (\<forall>k < gr_n g. prov_ok g c k (provs s k)) \<and>
     content_ok g c s \<and> flow_ok g c s \<and> log_ok g c s \<and> closed_ok g s"

lemma letter_not_NUL: "letter c \<Longrightarrow> c \<noteq> NUL"
  by (auto simp: letter_def NUL_def)

lemma arc_less: "arc g i j \<Longrightarrow> i < gr_n g \<and> j < gr_n g"
  by (simp add: arc_def)

lemma in_list_From: "From i \<in> set (in_list g k) \<longleftrightarrow> arc g i k \<and> i \<noteq> k"
  by (auto simp: in_list_def arc_def)

lemma in_list_Government: "Government \<in> set (in_list g k) \<longleftrightarrow> k = 0"
  by (auto simp: in_list_def)

lemma out_list_set: "set (out_list g k) = {j. arc g k j}"
  by (auto simp: out_list_def arc_def)

lemma open_after_close:
  "a < length xs \<Longrightarrow> xs ! a \<noteq> None \<Longrightarrow>
   length (filter (\<lambda>x. x \<noteq> None) (xs[a := None])) = length (filter (\<lambda>x. x \<noteq> None) xs) - 1"
proof (induction xs arbitrary: a)
  case Nil
  then show ?case by simp
next
  case (Cons x xs)
  show ?case
  proof (cases a)
    case 0
    with Cons.prems show ?thesis by simp
  next
    case (Suc b)
    with Cons have "length (filter (\<lambda>x. x \<noteq> None) (xs[b := None])) = length (filter (\<lambda>x. x \<noteq> None) xs) - 1"
      "xs ! b \<in> set (filter (\<lambda>x. x \<noteq> None) xs)" by auto
    moreover have "0 < length (filter (\<lambda>x. x \<noteq> None) xs)"
      using calculation(2) by (rule length_pos_if_in_set)
    ultimately show ?thesis using Suc by simp
  qed
qed

lemma dead_closed:
  assumes "prov_ok g c k p" and "\<not> alive p" and "a < length (in_list g k)"
  shows "in_fds p ! a = None"
proof -
  have "length (filter (\<lambda>x. x \<noteq> None) (in_fds p)) = 0" "a < length (in_fds p)"
    using assms unfolding prov_ok_def open_inputs_def by metis+
  then show ?thesis by (auto simp: filter_empty_conv)
qed

lemma next_input_sel [simp]:
  "in_fds (next_input keep p) = in_fds p" "out_fds (next_input keep p) = out_fds p"
  "last_char (next_input keep p) = last_char p" "sending (next_input keep p) = sending p"
  "active_inputs (next_input keep p) = active_inputs p"
  by (simp_all add: next_input_def)

lemma open_inputs_next [simp]: "open_inputs (next_input keep p) = open_inputs p"
  by (simp add: open_inputs_def)

lemma open_inputs_sending [simp]: "open_inputs (p\<lparr>sending := x\<rparr>) = open_inputs p"
  by (simp add: open_inputs_def)

lemma next_input_ok:
  assumes "prov_ok g c k p" and "sending p = None" and "alive p"
  shows "prov_ok g c k (next_input True p)"
proof -
  have "0 < length (in_fds p)" if "0 < open_inputs p"
    using that by (cases "in_fds p") (simp_all add: open_inputs_def)
  then have "alive (next_input True p) \<longrightarrow> poll_at (next_input True p) < length (in_fds p)"
    "\<not> alive (next_input True p) \<longrightarrow> active_inputs p = 0"
    using assms by (auto simp: next_input_def prov_ok_def)
  then show ?thesis using assms by (simp add: prov_ok_def)
qed

definition content :: "country \<Rightarrow> nat \<Rightarrow> src \<Rightarrow> char list" where
  "content s k source = (case source of From i \<Rightarrow> edges s i k | Government \<Rightarrow> gov_pipe s)"

lemma peek_Some: "peek s k source = Ok (Some x) \<longleftrightarrow> (\<exists>q. content s k source = x # q)"
  by (cases source; cases "content s k source") (auto simp: peek_def content_def)

lemma peek_None: "peek s k source = Ok None \<longleftrightarrow> finished s k source"
  by (cases source; cases "content s k source") (auto simp: peek_def content_def finished_def)

lemma content_only: "content_ok g c s \<Longrightarrow> content s k source = x # q \<Longrightarrow> x = c"
proof -
  assume h: "content_ok g c s" "content s k source = x # q"
  from h(1) have "set (content s k source) \<subseteq> {c}"
    unfolding content_ok_def content_def by (cases source) simp_all
  with h(2) show ?thesis by simp
qed

text \<open>A province that changes without taking in a directive.\<close>

lemma set_prov_inv:
  assumes I: "flood_inv g c s" and k: "k < gr_n g" "alive (provs s k)"
    and p: "prov_ok g c k p" "last_char p = last_char (provs s k)"
    and pend: "\<And>j. arc g k j \<Longrightarrow> j \<noteq> k \<Longrightarrow> pending g c k (provs s k) j \<Longrightarrow>
          pending g c k p j \<or> last_char (provs s j) = c \<or> c \<in> set (edges s k j)"
    and clo: "\<And>a. a < length (in_list g k) \<Longrightarrow> in_fds p ! a = None \<Longrightarrow> in_fds (provs s k) ! a \<noteq> None \<Longrightarrow>
          finished s k (in_list g k ! a)"
  shows "flood_inv g c (set_prov k p s)"
proof -
  let ?t = "set_prov k p s"
  have l: "last_char (provs ?t i) = last_char (provs s i)" for i using p(2) by (simp add: set_prov_def)
  have e: "edges ?t = edges s" "gov_pipe ?t = gov_pipe s" "fifo ?t = fifo s" "gov_open ?t = gov_open s" "log ?t = log s"
    by (simp_all add: set_prov_def)
  have fin: "finished ?t j source" if "finished s j source" for j source
    using that k(2) by (auto simp: finished_def set_prov_def split: src.splits)
  have "\<forall>i < gr_n g. prov_ok g c i (provs ?t i)" using I p(1) by (simp add: flood_inv_def set_prov_def)
  moreover have "content_ok g c ?t" using I by (simp add: flood_inv_def content_ok_def e l)
  moreover have "log_ok g c ?t" using I by (simp add: flood_inv_def log_ok_def e l)
  moreover have "flow_ok g c ?t"
  proof -
    have "last_char (provs s j) = c \<or> c \<in> set (edges s i j) \<or> pending g c i (provs ?t i) j"
      if "arc g i j" "i \<noteq> j" "last_char (provs s i) = c" for i j
    proof -
      have "last_char (provs s j) = c \<or> c \<in> set (edges s i j) \<or> pending g c i (provs s i) j"
        using I that by (auto simp: flood_inv_def flow_ok_def)
      then show ?thesis using pend [of j] that by (cases "i = k") (auto simp: set_prov_def)
    qed
    then show ?thesis using I by (simp add: flood_inv_def flow_ok_def e l)
  qed
  moreover have "closed_ok g ?t"
  proof -
    have "finished s i (in_list g i ! a)"
      if "i < gr_n g" "a < length (in_list g i)" "in_fds (provs ?t i) ! a = None" for i a
    proof (cases "i = k \<and> in_fds (provs s k) ! a \<noteq> None")
      case True
      then show ?thesis using clo that by (auto simp: set_prov_def)
    next
      case False
      then have "in_fds (provs s i) ! a = None" using that by (cases "i = k") (auto simp: set_prov_def)
      then show ?thesis using I that by (auto simp: flood_inv_def closed_ok_def)
    qed
    then show ?thesis using fin by (simp add: closed_ok_def)
  qed
  ultimately show ?thesis using I by (simp add: flood_inv_def)
qed

text \<open>A directive is taken from a pipe once its receiver has it.\<close>

lemma set_tl: "set (tl xs) \<subseteq> set xs"
  by (cases xs) auto

lemma pop_inv:
  assumes I: "flood_inv g c s" and k: "k < gr_n g" "last_char (provs s k) = c" and "source \<in> set (in_list g k)"
  shows "flood_inv g c (pop k source s)"
proof -
  let ?t = "pop k source s"
  have e: "provs ?t = provs s" "fifo ?t = fifo s" "gov_open ?t = gov_open s" "log ?t = log s"
    by (simp_all add: pop_def split: src.split)
  have d: "edges ?t i j = edges s i j \<or> j = k \<and> edges ?t i j = tl (edges s i j)" for i j
    by (auto simp: pop_def split: src.split)
  have v: "gov_pipe ?t = gov_pipe s \<or> k = 0 \<and> gov_pipe ?t = tl (gov_pipe s)"
    using assms(4) by (auto simp: pop_def in_list_Government split: src.split)
  have c1: "set (edges ?t i j) \<subseteq> set (edges s i j) \<and> (edges s i j = [] \<longrightarrow> edges ?t i j = [])" for i j
    using d [of i j] set_tl [of "edges s i j"] by auto
  have c2: "set (gov_pipe ?t) \<subseteq> set (gov_pipe s) \<and> (gov_pipe s = [] \<longrightarrow> gov_pipe ?t = [])"
    using v set_tl [of "gov_pipe s"] by auto
  have "content_ok g c ?t"
    using I c1 c2 unfolding flood_inv_def content_ok_def e by (meson subset_trans)
  moreover have "flow_ok g c ?t"
  proof -
    have "last_char (provs s j) = c \<or> c \<in> set (edges ?t i j) \<or> pending g c i (provs s i) j"
      if "arc g i j" "i \<noteq> j" "last_char (provs s i) = c" for i j
    proof -
      have "last_char (provs s j) = c \<or> c \<in> set (edges s i j) \<or> pending g c i (provs s i) j"
        using I that unfolding flood_inv_def flow_ok_def by blast
      then show ?thesis using k(2) d [of i j] by (cases "j = k") auto
    qed
    moreover have "last_char (provs s 0) = c \<or> c \<in> set (gov_pipe ?t) \<or> gov_open s \<and> c \<in> set (fifo s)"
      using I v k(2) by (auto simp: flood_inv_def flow_ok_def)
    ultimately show ?thesis by (simp add: flow_ok_def e)
  qed
  moreover have "log_ok g c ?t" using I by (simp add: flood_inv_def log_ok_def e)
  moreover have "closed_ok g ?t"
    using I c1 c2 by (fastforce simp: flood_inv_def closed_ok_def finished_def e split: src.splits)
  ultimately show ?thesis using I by (simp add: flood_inv_def e)
qed

text \<open>A province takes the directive in for the first time.\<close>

lemma receive_inv:
  assumes I: "flood_inv g c s" and k: "k < gr_n g" "alive (provs s k)" "last_char (provs s k) \<noteq> c"
    and src: "source \<in> set (in_list g k)" "peek s k source = Ok (Some c)"
    and P: "P = (provs s k)\<lparr>last_char := c, sending := Some (c, 0)\<rparr>"
  shows "flood_inv g c (set_prov k P (s\<lparr>log := log s @ [(k, c)]\<rparr>))"
proof -
  let ?t = "set_prov k P (s\<lparr>log := log s @ [(k, c)]\<rparr>)"
  have e: "edges ?t = edges s" "gov_pipe ?t = gov_pipe s" "fifo ?t = fifo s" "gov_open ?t = gov_open s"
      "log ?t = log s @ [(k, c)]" by (simp_all add: set_prov_def)
  have l: "last_char (provs ?t i) = (if i = k then c else last_char (provs s i))" for i
    by (simp add: set_prov_def P)
  have fin: "finished ?t j source = finished s j source" for j source
    by (auto simp: finished_def set_prov_def P split: src.splits)
  have "prov_ok g c k (provs s k)" using I k(1) by (simp add: flood_inv_def)
  then have "prov_ok g c k P" using k(2) by (simp add: prov_ok_def open_inputs_def P)
  then have "\<forall>i < gr_n g. prov_ok g c i (provs ?t i)" using I by (simp add: flood_inv_def set_prov_def)
  moreover have "content_ok g c ?t" using I by (auto simp: flood_inv_def content_ok_def e l)
  moreover have "flow_ok g c ?t"
  proof -
    have "pending g c k P j" if "arc g k j" for j
    proof -
      have "j \<in> set (out_list g k)" using that by (simp add: out_list_set)
      then show ?thesis by (auto simp: pending_def P in_set_conv_nth)
    qed
    then have "last_char (provs ?t j) = c \<or> c \<in> set (edges s i j) \<or> pending g c i (provs ?t i) j"
      if "arc g i j" "i \<noteq> j" "last_char (provs ?t i) = c" for i j
    proof (cases "i = k \<or> j = k")
      case True
      then show ?thesis using \<open>\<And>j. arc g k j \<Longrightarrow> pending g c k P j\<close> that by (auto simp: l set_prov_def P)
    next
      case False
      then have "last_char (provs s j) = c \<or> c \<in> set (edges s i j) \<or> pending g c i (provs s i) j"
        using I that unfolding flood_inv_def flow_ok_def l by (metis (full_types))
      then show ?thesis using False by (simp add: l set_prov_def)
    qed
    then show ?thesis using I by (auto simp: flood_inv_def flow_ok_def e l)
  qed
  moreover have "(0, k) \<in> (graph_rel g)\<^sup>*"
  proof (cases source)
    case Government
    then show ?thesis using src(1) by (simp add: in_list_Government)
  next
    case (From i)
    then have "edges s i k \<noteq> []" using src(2) by (auto simp: peek_Some content_def)
    then have "arc g i k" "last_char (provs s i) = c" using I by (auto simp: flood_inv_def content_ok_def)
    moreover have "(0, i) \<in> (graph_rel g)\<^sup>*"
      using I calculation arc_less by (auto simp: flood_inv_def log_ok_def)
    ultimately show ?thesis by (auto simp: graph_rel_def intro: rtrancl_into_rtrancl)
  qed
  then have "log_ok g c ?t"
    using I k by (auto simp: flood_inv_def log_ok_def e l)
  moreover have "closed_ok g ?t" using I by (auto simp: flood_inv_def closed_ok_def fin) (simp add: set_prov_def P split: if_splits)
  ultimately show ?thesis using I by (simp add: flood_inv_def)
qed

text \<open>A province writes the directive to a neighbour that is still there.\<close>

lemma append_inv:
  assumes I: "flood_inv g c s" and k: "alive (provs s k)" "last_char (provs s k) = c" "arc g k j"
  shows "flood_inv g c (s\<lparr>edges := (edges s)(k := (edges s k)(j := edges s k j @ [c]))\<rparr>)"
proof -
  let ?t = "s\<lparr>edges := (edges s)(k := (edges s k)(j := edges s k j @ [c]))\<rparr>"
  have d: "edges ?t i i' = (if i = k \<and> i' = j then edges s i i' @ [c] else edges s i i')" for i i' by simp
  have fin: "finished ?t i source" if "finished s i source" for i source
    using that k(1) by (auto simp: finished_def split: src.splits)
  have "content_ok g c ?t" using I k by (auto simp: flood_inv_def content_ok_def)
  moreover have "flow_ok g c ?t" using I by (auto simp: flood_inv_def flow_ok_def)
  moreover have "closed_ok g ?t" using I fin by (simp add: flood_inv_def closed_ok_def)
  ultimately show ?thesis using I by (simp add: flood_inv_def log_ok_def)
qed

lemma pop_set_prov: "set_prov k p (pop j source s) = pop j source (set_prov k p s)"
  by (simp add: set_prov_def pop_def split: src.split)

lemma pop_empty: "(\<And>y. peek s k source \<noteq> Ok (Some y)) \<Longrightarrow> pop k source s = s"
proof (cases source)
  case (From i)
  moreover assume "\<And>y. peek s k source \<noteq> Ok (Some y)"
  ultimately have "edges s i k = []" by (cases "edges s i k") (auto simp: peek_def)
  then have "(edges s)(i := (edges s i)(k := tl (edges s i k))) = edges s" by (simp add: fun_eq_iff)
  with From show ?thesis by (simp add: pop_def)
next
  case Government
  moreover assume "\<And>y. peek s k source \<noteq> Ok (Some y)"
  ultimately have "gov_pipe s = []" by (cases "gov_pipe s") (auto simp: peek_def)
  with Government show ?thesis by (simp add: pop_def)
qed

lemma flood_poll:
  assumes I: "flood_inv g c s" and k: "k < gr_n g" "alive (provs s k)" "sending (provs s k) = None"
  shows "flood_inv g c (poll_step k s)"
proof -
  define p where "p = provs s k"
  have ok: "prov_ok g c k p" using I k by (simp add: flood_inv_def p_def)
  have at: "poll_at p < length (in_list g k)" using ok k by (auto simp: prov_ok_def p_def)
  have stay: "flood_inv g c (set_prov k (next_input True p) s)"
    by (rule set_prov_inv [OF I k(1,2)])
       (use next_input_ok [OF ok] k in \<open>auto simp: p_def pending_def\<close>)
  show ?thesis
  proof (cases "in_fds p ! poll_at p")
    case None
    then show ?thesis using stay by (simp add: poll_step_def p_def [symmetric] poll_def)
  next
    case (Some source)
    then have "in_list g k ! poll_at p = source" using ok at unfolding prov_ok_def by auto
    then have src: "source \<in> set (in_list g k)" "in_list g k ! poll_at p = source" using at by auto
    show ?thesis
    proof (cases "\<exists>x. peek s k source = Ok (Some x)")
      case True
      then obtain x where x: "peek s k source = Ok (Some x)" by blast
      have "x = c" using x I content_only by (auto simp: peek_Some flood_inv_def)
      with x have x: "peek s k source = Ok (Some c)" by simp
      show ?thesis
      proof (cases "last_char p = c")
        case True
        then have "flood_inv g c (pop k source (set_prov k (next_input True p) s))"
          using src(1) by (intro pop_inv [OF stay k(1)]) (simp_all add: set_prov_def)
        then show ?thesis using True Some x
          by (simp add: poll_step_def p_def [symmetric] poll_def pop_set_prov)
      next
        case False
        have "flood_inv g c (pop k source (set_prov k (p\<lparr>last_char := c, sending := Some (c, 0)\<rparr>) (s\<lparr>log := log s @ [(k, c)]\<rparr>)))"
          using False src(1) by (intro pop_inv [OF receive_inv [OF I k(1,2) _ src(1) x] k(1)])
            (simp_all add: set_prov_def p_def)
        moreover have "(set_prov k q (pop k source s))\<lparr>log := log (set_prov k q (pop k source s)) @ [(k, c)]\<rparr>
            = pop k source (set_prov k q (s\<lparr>log := log s @ [(k, c)]\<rparr>))" for q
          by (simp add: set_prov_def pop_def split: src.split)
        ultimately show ?thesis using False Some x
          by (simp add: poll_step_def p_def [symmetric] poll_def Let_def)
      qed
    next
      case False
      then have e: "pop k source s = s" by (intro pop_empty) auto
      show ?thesis
      proof (cases "peek s k source = Ok None")
        case True
        define q where "q = p\<lparr>in_fds := (in_fds p)[poll_at p := None], active_inputs := active_inputs p - 1\<rparr>"
        have "open_inputs q = open_inputs p - 1"
          unfolding open_inputs_def q_def using open_after_close [of "poll_at p" "in_fds p"] at ok Some
          by (simp add: prov_ok_def)
        then have "prov_ok g c k q" using ok k by (auto simp: prov_ok_def q_def p_def nth_list_update)
        moreover have "finished s k (in_list g k ! a)"
          if "in_fds q ! a = None" "in_fds p ! a \<noteq> None" for a
        proof -
          have "a = poll_at p" using that by (cases "a = poll_at p") (auto simp: q_def)
          then show ?thesis using True src(2) by (simp add: peek_None)
        qed
        ultimately have "flood_inv g c (set_prov k (next_input True q) s)"
          using k next_input_ok [of g c k q]
          by (intro set_prov_inv [OF I k(1,2)])
             (auto simp: p_def [symmetric] pending_def, auto simp: q_def p_def)
        then show ?thesis using True Some e
          by (simp add: poll_step_def p_def [symmetric] poll_def q_def)
      next
        case no: False
        with False obtain er where "peek s k source = Fail er"
          by (metis not_Some_eq sysret.exhaust)
        then show ?thesis using stay Some e
          by (simp add: poll_step_def p_def [symmetric] poll_def)
      qed
    qed
  qed
qed

lemma close_out_ok:
  assumes "prov_ok g c k q" and "out_list g k ! out = k"
  shows "prov_ok g c k (q\<lparr>out_fds := (out_fds q)[out := None]\<rparr>)"
proof -
  have l: "length (out_fds q) = length (out_list g k)" using assms(1) by (simp add: prov_ok_def)
  have "(out_fds q)[out := None] ! b = Some (out_list g k ! b) \<or>
        (out_fds q)[out := None] ! b = None \<and> out_list g k ! b = k" if b: "b < length (out_list g k)" for b
  proof (cases "b = out")
    case True
    then show ?thesis using assms(2) b l by simp
  next
    case False
    then have "(out_fds q)[out := None] ! b = out_fds q ! b" by simp
    then show ?thesis using assms(1) b unfolding prov_ok_def by metis
  qed
  moreover have "open_inputs (q\<lparr>out_fds := (out_fds q)[out := None]\<rparr>) = open_inputs q" by (simp add: open_inputs_def)
  ultimately show ?thesis using assms(1) unfolding prov_ok_def by (elim conjE) simp
qed

lemma flood_forward:
  assumes I: "flood_inv g c s" and k: "k < gr_n g" "alive (provs s k)" "sending (provs s k) \<noteq> None"
  shows "flood_inv g c (forward_step k s)"
proof -
  define p where "p = provs s k"
  have ok: "prov_ok g c k p" using I k by (simp add: flood_inv_def p_def)
  from k(3) obtain x out where x: "sending p = Some (x, out)" by (auto simp: p_def)
  with ok have "x = c" "last_char p = c" unfolding prov_ok_def by blast+
  with x have out: "sending p = Some (c, out)" "last_char p = c" by simp_all
  have l: "length (out_fds p) = length (out_list g k)" using ok by (auto simp: prov_ok_def)
  define q where "q = p\<lparr>sending := Some (c, out + 1)\<rparr>"
  have okq: "prov_ok g c k q" using ok k(2) out(2) by (simp add: prov_ok_def q_def open_inputs_def p_def)
  have later: "pending g c k q j \<or> j = out_list g k ! out" if "pending g c k p j" for j
  proof -
    from that out(1) obtain b where b: "out \<le> b" "b < length (out_list g k)" "out_list g k ! b = j"
      by (auto simp: pending_def)
    then show ?thesis by (cases "b = out") (auto simp: pending_def q_def intro!: exI [of _ b])
  qed
  show ?thesis
  proof (cases "out < length (out_list g k)")
    case False
    have "prov_ok g c k (p\<lparr>sending := None\<rparr>)" using ok by (auto simp: prov_ok_def)
    from next_input_ok [OF this] k(2)
    have "prov_ok g c k (next_input True (p\<lparr>sending := None\<rparr>))" by (simp add: p_def)
    moreover have "\<not> pending g c k p j" for j using False out(1) by (auto simp: pending_def)
    ultimately have "flood_inv g c (set_prov k (next_input True (p\<lparr>sending := None\<rparr>)) s)"
      by (intro set_prov_inv [OF I k(1,2)]) (auto simp: p_def [symmetric])
    then show ?thesis using False out(1) l by (simp add: forward_step_def p_def [symmetric] forward_def)
  next
    case True
    note True' = True
    define j where "j = out_list g k ! out"
    have arc: "arc g k j" using True out_list_set [of g k] nth_mem unfolding j_def by blast
    have o: "out_fds p ! out = Some j \<or> out_fds p ! out = None \<and> j = k"
      using ok True by (auto simp: prov_ok_def j_def)
    have keep: "flood_inv g c (set_prov k q t)"
      if "flood_inv g c t" "provs t k = p" "j = k \<or> c \<in> set (edges t k j)" for t
      by (rule set_prov_inv [OF that(1) k(1)])
         (use k(2) okq later that(2,3) in \<open>auto simp: p_def [symmetric] j_def [symmetric] q_def\<close>)
    show ?thesis
    proof (cases "out_fds p ! out = None")
      case True
      with o have "flood_inv g c (set_prov k q s)" by (intro keep [OF I]) (auto simp: p_def)
      then show ?thesis using True \<open>out < length (out_list g k)\<close> out(1) l
        by (simp add: forward_step_def p_def [symmetric] forward_def q_def)
    next
      case some: False
      with o have j: "out_fds p ! out = Some j" by auto
      show ?thesis
      proof (cases "j \<noteq> k \<and> alive (provs s j)")
        case True
        let ?t = "s\<lparr>edges := (edges s)(k := (edges s k)(j := edges s k j @ [c]))\<rparr>"
        have "flood_inv g c (set_prov k q ?t)"
          by (rule keep [OF append_inv [OF I k(2) _ arc]]) (use out(2) in \<open>auto simp: p_def\<close>)
        then show ?thesis using True j \<open>out < length (out_list g k)\<close> out(1) l
          by (simp add: forward_step_def p_def [symmetric] forward_def q_def)
      next
        case False
        have "j = k"
        proof (rule ccontr)
          assume n: "j \<noteq> k"
          then have "From k \<in> set (in_list g j)" using arc by (simp add: in_list_From)
          then obtain a where a: "a < length (in_list g j)" "in_list g j ! a = From k" by (auto simp: in_set_conv_nth)
          have jl: "j < gr_n g" using arc arc_less by blast
          then have "prov_ok g c j (provs s j)" using I by (simp add: flood_inv_def)
          then have "in_fds (provs s j) ! a = None" using dead_closed a(1) False n by blast
          then have "finished s j (in_list g j ! a)"
            using I a(1) jl unfolding flood_inv_def closed_ok_def by blast
          then have "finished s j (From k)" using a(2) by simp
          then show False using k(2) by (simp add: finished_def)
        qed
        have "prov_ok g c k (q\<lparr>out_fds := (out_fds p)[out := None]\<rparr>)"
          using close_out_ok [OF okq, of out] \<open>j = k\<close> by (simp add: j_def q_def)
        then have "flood_inv g c (set_prov k (q\<lparr>out_fds := (out_fds p)[out := None]\<rparr>) s)"
          using later \<open>j = k\<close>
          by (intro set_prov_inv [OF I k(1,2)])
             (auto simp: p_def [symmetric] pending_def j_def [symmetric], auto simp: q_def)
        then show ?thesis using \<open>j = k\<close> j \<open>out < length (out_list g k)\<close> out(1) l
          by (simp add: forward_step_def p_def [symmetric] forward_def q_def)
      qed
    qed
  qed
qed

lemma flood_gov:
  assumes I: "flood_inv g c s" and "gov_open s"
  shows "flood_inv g c (gov_step s)"
proof -
  have alive0: "alive (provs s 0)"
  proof (rule ccontr)
    assume d: "\<not> alive (provs s 0)"
    have "Government \<in> set (in_list g 0)" by (simp add: in_list_Government)
    then obtain a where a: "a < length (in_list g 0)" "in_list g 0 ! a = Government" by (auto simp: in_set_conv_nth)
    have z: "0 < gr_n g" "prov_ok g c 0 (provs s 0)" using I by (simp_all add: flood_inv_def)
    then have "in_fds (provs s 0) ! a = None" using dead_closed a(1) d by blast
    then have "finished s 0 (in_list g 0 ! a)"
      using I a(1) z(1) unfolding flood_inv_def closed_ok_def by blast
    then have "finished s 0 Government" using a(2) by simp
    with assms(2) show False by (simp add: finished_def)
  qed
  have C: "closed_ok g t"
    if "provs t = provs s" "edges t = edges s" for t
  proof -
    have "finished t k source" if "finished s k source" for k source
      using that \<open>provs t = provs s\<close> \<open>edges t = edges s\<close> assms(2) by (cases source) (simp_all add: finished_def)
    then show ?thesis using I unfolding flood_inv_def closed_ok_def that(1) by blast
  qed
  show ?thesis
  proof (cases "fifo s")
    case Nil
    have "flow_ok g c (s\<lparr>gov_open := False\<rparr>)" using I Nil by (auto simp: flood_inv_def flow_ok_def)
    then show ?thesis
      using I C [of "s\<lparr>gov_open := False\<rparr>"] Nil by (simp add: gov_step_def flood_inv_def content_ok_def log_ok_def)
  next
    case (Cons x cs)
    have x: "letter x \<Longrightarrow> x = c" using I Cons by (auto simp: flood_inv_def content_ok_def)
    let ?t = "if letter x then s\<lparr>fifo := cs, gov_pipe := gov_pipe s @ [x]\<rparr> else s\<lparr>fifo := cs\<rparr>"
    have "content_ok g c ?t" using I Cons x
      by (cases "letter x") (simp_all add: flood_inv_def content_ok_def)
    moreover have "flow_ok g c ?t"
    proof -
      have f: "flow_ok g c s" "letter c" using I by (simp_all add: flood_inv_def)
      then have "last_char (provs s 0) = c \<or> c \<in> set (gov_pipe ?t) \<or> gov_open s \<and> c \<in> set (fifo ?t)"
        using Cons x assms(2) by (auto simp: flow_ok_def)
      with f(1) show ?thesis by (cases "letter x") (simp_all add: flow_ok_def)
    qed
    moreover have "log_ok g c ?t" using I by (auto simp: flood_inv_def log_ok_def)
    moreover have "closed_ok g ?t" by (rule C) simp_all
    moreover have "gov_step s = ?t" using Cons alive0 by (simp add: gov_step_def)
    ultimately show ?thesis using I by (simp add: flood_inv_def)
  qed
qed

lemma flood_start:
  assumes "0 < gr_n g" and "letter c" and "c \<in> set cs" and "\<forall>x \<in> set cs. letter x \<longrightarrow> x = c"
  shows "flood_inv g c (country_start g cs)"
proof -
  have "filter (\<lambda>x. x \<noteq> None) (map Some xs) = map Some xs" for xs :: "'x list" by (induction xs) auto
  then have "prov_ok g c k (province_start g k)" for k
    by (simp add: prov_ok_def province_start_def open_inputs_def Let_def)
  moreover have n: "last_char (province_start g k) \<noteq> c" for k
    using letter_not_NUL [OF assms(2)] by (simp add: province_start_def Let_def)
  have "in_fds (province_start g k) = map Some (in_list g k)" for k
    by (simp add: province_start_def Let_def)
  then have "closed_ok g (country_start g cs)" by (simp add: closed_ok_def country_start_def)
  moreover have "content_ok g c (country_start g cs)"
    using assms(4) by (simp add: content_ok_def country_start_def)
  moreover have "flow_ok g c (country_start g cs)"
    using n assms(3) by (simp add: flow_ok_def country_start_def)
  moreover have "log_ok g c (country_start g cs)"
    using n by (simp add: log_ok_def country_start_def)
  ultimately show ?thesis using assms(1,2) by (simp add: flood_inv_def) (simp add: country_start_def)
qed

definition one_directive :: "graph \<Rightarrow> char \<Rightarrow> country \<Rightarrow> bool" where
  "one_directive g c s \<longleftrightarrow> 0 < gr_n g \<and> letter c \<and>
     (\<exists>cs. c \<in> set cs \<and> (\<forall>x \<in> set cs. letter x \<longrightarrow> x = c) \<and> s = country_start g cs)"

interpretation flood: inv_system "one_directive g c" "country_step g" "flood_inv g c" for g c
proof
  show "one_directive g c s \<Longrightarrow> flood_inv g c s" for s
    unfolding one_directive_def by (elim conjE exE) (hypsubst, rule flood_start)
  show "flood_inv g c s \<Longrightarrow> country_step g s t \<Longrightarrow> flood_inv g c t" for s t
    by (erule country_stepE) (simp_all add: flood_gov flood_poll flood_forward)
qed

definition quiescent :: "graph \<Rightarrow> country \<Rightarrow> bool" where
  "quiescent g s \<longleftrightarrow> fifo s = [] \<and> gov_pipe s = [] \<and>
     (\<forall>i < gr_n g. \<forall>j < gr_n g. edges s i j = []) \<and> (\<forall>k < gr_n g. sending (provs s k) = None)"

text \<open>
  C12: When the lower-case letters typed are all the same one (once or repeatedly, with any other characters
  between them), no province acts on this directive twice and only provinces reachable from province 0 act on
  it, at any moment of any interleaving; and once nothing is under way, every reachable province has acted on
  it.  With two different letters this is not so: a province remembers only the last one it saw.
\<close>
theorem directive_floods:
  assumes "reach (one_directive g c) (country_step g) s"
  shows "distinct (log s) \<and> set (log s) \<subseteq> {(k, c) | k. (0, k) \<in> (graph_rel g)\<^sup>*} \<and>
         (quiescent g s \<longrightarrow> set (log s) = {(k, c) | k. (0, k) \<in> (graph_rel g)\<^sup>*})"
proof -
  from flood.reach_inv [OF assms] have I: "flood_inv g c s" .
  then have L: "log_ok g c s" "flow_ok g c s" "0 < gr_n g" by (simp_all add: flood_inv_def)
  have "k < gr_n g \<and> last_char (provs s k) = c" if "quiescent g s" "(0, k) \<in> (graph_rel g)\<^sup>*" for k
    using that(2)
  proof (induction rule: rtrancl_induct)
    case base
    then show ?case using L(2,3) that(1) by (auto simp: flow_ok_def quiescent_def)
  next
    case (step i j)
    then have a: "arc g i j" "i < gr_n g" "j < gr_n g" by (auto simp: graph_rel_def arc_def)
    then have "\<not> pending g c i (provs s i) j" "edges s i j = []"
      using that(1) by (auto simp: quiescent_def pending_def)
    moreover have "last_char (provs s j) = c \<or> c \<in> set (edges s i j) \<or> pending g c i (provs s i) j" if "i \<noteq> j"
      using L(2) a step.IH that unfolding flow_ok_def by blast
    ultimately show ?case using a step.IH by (cases "i = j") auto
  qed
  then show ?thesis using L(1) by (auto simp: log_ok_def)
qed

text \<open>Two provinces, the second reached from the first, and the directive \<^verbatim>\<open>k\<close>.\<close>

definition two_provinces :: graph where
  "two_provinces = \<lparr>gr_n = 2, matrix = [[0, 1], [0, 0]]\<rparr>"

definition flooded :: country where
  "flooded = forward_step 1 (poll_step 1 (forward_step 0 (forward_step 0 (poll_step 0
     (gov_step (gov_step (country_start two_provinces ''k'')))))))"

lemma reach_country:
  assumes "reach init (country_step g) s"
  shows "gov_open s \<Longrightarrow> reach init (country_step g) (gov_step s)"
    and "k < gr_n g \<Longrightarrow> alive (provs s k) \<Longrightarrow> sending (provs s k) = None \<Longrightarrow> reach init (country_step g) (poll_step k s)"
    and "k < gr_n g \<Longrightarrow> alive (provs s k) \<Longrightarrow> sending (provs s k) \<noteq> None \<Longrightarrow> reach init (country_step g) (forward_step k s)"
  by (rule reach_step [OF assms], rule country_gov, assumption, rule refl)
     (rule reach_step [OF assms], rule country_poll, assumption+, rule refl,
      rule reach_step [OF assms], rule country_forward, assumption+, rule refl)

lemma flooded_reach: "reach (one_directive two_provinces CHR ''k'') (country_step two_provinces) flooded"
  unfolding flooded_def
proof (intro reach_country)
  show "reach (one_directive two_provinces CHR ''k'') (country_step two_provinces) (country_start two_provinces ''k'')"
    by (rule reach_init) (auto simp: one_directive_def two_provinces_def letter_def intro!: exI [of _ "''k''"])
qed (code_simp+)

theorem directive_floods_witness:
  "quiescent two_provinces flooded \<and>
   set (log flooded) = {(k, CHR ''k'') | k. (0, k) \<in> (graph_rel two_provinces)\<^sup>*}"
proof -
  have "fifo flooded = []" "gov_pipe flooded = []" "edges flooded 0 0 = []" "edges flooded 0 1 = []"
    "edges flooded 1 0 = []" "edges flooded 1 1 = []" "sending (provs flooded 0) = None" "sending (provs flooded 1) = None"
    by code_simp+
  then have "quiescent two_provinces flooded"
    by (auto simp: quiescent_def two_provinces_def less_2_cases_iff)
  then show ?thesis using directive_floods [OF flooded_reach] by blast
qed

end
