(* ===== verification/Flood_End.thy ===== *)
theory Flood_End
  imports Flood
begin

text \<open>
  How \<^verbatim>\<open>lab05/generated/generated.c\<close> ends, for any input: the government closes its pipe, a
  province leaves its loop when all its inputs have ended, and provinces on a cycle of the graph hold each
  other's inputs open.
\<close>

section \<open>Who stays\<close>

definition roads :: "graph \<Rightarrow> (nat \<times> nat) set" where
  "roads g = {(i, j). arc g i j \<and> i \<noteq> j}"

text \<open>A province whose inputs from \<open>S\<close> are all open.\<close>

definition awake :: "graph \<Rightarrow> nat set \<Rightarrow> nat \<Rightarrow> prov \<Rightarrow> bool" where
  "awake g S k p \<longleftrightarrow> alive p \<and> active_inputs p = open_inputs p \<and> poll_at p < length (in_fds p) \<and>
     (\<forall>j \<in> S. (j, k) \<in> roads g \<longrightarrow> Some (From j) \<in> set (in_fds p))"

definition all_awake :: "graph \<Rightarrow> nat set \<Rightarrow> country \<Rightarrow> bool" where
  "all_awake g S s \<longleftrightarrow> (\<forall>k \<in> S. awake g S k (provs s k))"

lemma fed_open:
  assumes "fed (roads g) S" and "k \<in> S" and "\<And>j. j \<in> S \<Longrightarrow> (j, k) \<in> roads g \<Longrightarrow> Some (From j) \<in> set xs"
  shows "0 < length (filter (\<lambda>x. x \<noteq> None) xs)" and "0 < length xs"
proof -
  obtain j where "j \<in> S" "(j, k) \<in> roads g" using assms(1,2) by (auto simp: fed_def)
  then have j: "Some (From j) \<in> set xs" using assms(3) by blast
  then have "Some (From j) \<in> set (filter (\<lambda>x. x \<noteq> None) xs)" by simp
  then show "0 < length (filter (\<lambda>x. x \<noteq> None) xs)" by (rule length_pos_if_in_set)
  show "0 < length xs" using j by (rule length_pos_if_in_set)
qed

lemma next_awake:
  assumes "fed (roads g) S" and "k \<in> S" and "awake g S k p"
  shows "awake g S k (next_input True p)"
proof -
  have "0 < open_inputs p" "0 < length (in_fds p)"
    using fed_open [OF assms(1,2), of "in_fds p"] assms(3) by (auto simp: awake_def open_inputs_def)
  then show ?thesis using assms(3) by (auto simp: awake_def next_input_def open_inputs_def)
qed

lemma in_set_close: "x \<in> set xs \<Longrightarrow> xs ! i \<noteq> x \<Longrightarrow> x \<in> set (xs[i := y])"
  by (metis in_set_conv_nth length_list_update nth_list_update_neq)

lemma poll_awake:
  assumes f: "fed (roads g) S" "k \<in> S" and p: "awake g S k p"
    and eof: "\<And>j. a = Ok None \<Longrightarrow> in_fds p ! poll_at p = Some (From j) \<Longrightarrow> j \<notin> S"
  shows "awake g S k (poll True a p)"
proof (cases "a = Ok None \<and> in_fds p ! poll_at p \<noteq> None")
  case True
  let ?p = "p\<lparr>in_fds := (in_fds p)[poll_at p := None], active_inputs := active_inputs p - 1\<rparr>"
  have "Some (From j) \<in> set ((in_fds p)[poll_at p := None])" if "j \<in> S" "(j, k) \<in> roads g" for j
    using p that eof [of j] True by (intro in_set_close) (auto simp: awake_def)
  moreover have "poll_at p < length (in_fds p)" "active_inputs p = open_inputs p" "alive p" using p by (simp_all add: awake_def)
  ultimately have "awake g S k ?p"
    using open_after_close [of "poll_at p" "in_fds p"] True by (simp add: awake_def open_inputs_def)
  then show ?thesis using next_awake [OF f] True by (auto simp: poll_def)
next
  case False
  have "awake g S k (p\<lparr>last_char := c, sending := x\<rparr>)" for c x using p by (simp add: awake_def open_inputs_def)
  then show ?thesis using False next_awake [OF f p] p
    by (auto simp: poll_def split: option.split sysret.split)
qed

lemma forward_awake:
  assumes f: "fed (roads g) S" "k \<in> S" and p: "awake g S k p"
  shows "awake g S k (forward True a p)"
proof -
  have "awake g S k (p\<lparr>sending := x\<rparr>)" "awake g S k (p\<lparr>sending := x, out_fds := y\<rparr>)" for x y
    using p by (simp_all add: awake_def open_inputs_def)
  then show ?thesis using next_awake [OF f] p by (auto simp: forward_def Let_def split: option.split prod.split)
qed

lemma poll_step_provs:
  "\<exists>a. provs (poll_step k s) = (provs s)(k := poll True a (provs s k)) \<and>
     (\<forall>source. a = Ok None \<longrightarrow> in_fds (provs s k) ! poll_at (provs s k) = Some source \<longrightarrow> finished s k source)"
proof (cases "in_fds (provs s k) ! poll_at (provs s k)")
  case None
  then show ?thesis by (intro exI [of _ "Fail EAGAIN"]) (simp add: poll_step_def set_prov_def)
next
  case (Some source)
  then have "provs (poll_step k s) = (provs s)(k := poll True (peek s k source) (provs s k))"
    by (auto simp: poll_step_def set_prov_def pop_def Let_def split: sysret.split option.split src.split)
  with Some show ?thesis by (intro exI [of _ "peek s k source"]) (simp add: peek_None)
qed

lemma forward_step_provs: "\<exists>a. provs (forward_step k s) = (provs s)(k := forward True a (provs s k))"
proof (cases "sending (provs s k)")
  case None
  then have "forward True a (provs s k) = provs s k" for a by (simp add: forward_def)
  then show ?thesis using None by (simp add: forward_step_def)
next
  case (Some x)
  then show ?thesis by (auto simp: forward_step_def set_prov_def Let_def split: option.split prod.split)
qed

lemma gov_step_provs: "provs (gov_step s) = provs s"
  by (simp add: gov_step_def split: list.split)

lemma all_awake_step:
  assumes f: "fed (roads g) S" and s: "all_awake g S s" and st: "country_step g s t"
  shows "all_awake g S t"
  using st
proof (cases rule: country_step.cases)
  case country_gov
  then show ?thesis using s gov_step_provs by (simp add: all_awake_def)
next
  case (country_poll k)
  obtain a where a: "provs t = (provs s)(k := poll True a (provs s k))"
    "\<And>source. a = Ok None \<Longrightarrow> in_fds (provs s k) ! poll_at (provs s k) = Some source \<Longrightarrow> finished s k source"
    using poll_step_provs [of k s] country_poll(4) by blast
  have "j \<notin> S" if "a = Ok None" "in_fds (provs s k) ! poll_at (provs s k) = Some (From j)" for j
    using a(2) [OF that] s by (auto simp: finished_def all_awake_def awake_def)
  then have "awake g S k (poll True a (provs s k))" if "k \<in> S" using s that by (intro poll_awake [OF f]) (auto simp: all_awake_def)
  then show ?thesis using s a(1) by (simp add: all_awake_def)
next
  case (country_forward k)
  obtain a where a: "provs t = (provs s)(k := forward True a (provs s k))"
    using forward_step_provs [of k s] country_forward(4) by blast
  have "awake g S k (forward True a (provs s k))" if "k \<in> S" using s that by (intro forward_awake [OF f]) (auto simp: all_awake_def)
  then show ?thesis using s a by (simp add: all_awake_def)
qed

lemma start_awake: "fed (roads g) S \<Longrightarrow> all_awake g S (country_start g cs)"
  unfolding all_awake_def
proof
  fix k
  assume f: "fed (roads g) S" and k: "k \<in> S"
  let ?p = "province_start g k"
  have c: "Some (From j) \<in> set (in_fds ?p)" if "(j, k) \<in> roads g" for j
    using that by (auto simp: province_start_def Let_def roads_def in_list_From)
  have "0 < length (in_fds ?p)" by (rule fed_open(2) [OF f k]) (rule c)
  then show "awake g S k (provs (country_start g cs) k)"
    using c by (auto simp: awake_def country_start_def province_start_def Let_def open_inputs_def)
qed

interpretation awake: inv_system "\<lambda>s. fed (roads g) S \<and> (\<exists>cs. s = country_start g cs)" "country_step g"
  "\<lambda>s. fed (roads g) S \<and> all_awake g S s" for g S
  by unfold_locales (use start_awake all_awake_step in blast)+

text \<open>
  A cycle is never left.  Whatever is typed, and after the government has closed its pipe, a province on a cycle of the
  graph stays in its loop.
\<close>

theorem flood_cycle_stays:
  assumes "(k, k) \<in> (roads g)\<^sup>+" and "reach (\<lambda>s. s = country_start g cs) (country_step g) s"
  shows "alive (provs s k)"
proof -
  let ?S = "{j. (k, j) \<in> (roads g)\<^sup>+ \<and> (j, k) \<in> (roads g)\<^sup>*}"
  have "reach (\<lambda>s. fed (roads g) ?S \<and> (\<exists>cs. s = country_start g cs)) (country_step g) s"
    using assms(2) by (induction rule: reach.induct) (auto intro: reach.intros cycle_fed)
  then have "all_awake g ?S s" using awake.reach_inv by blast
  then show ?thesis using assms(1) by (auto simp: all_awake_def awake_def)
qed

end
