(* ===== verification/Routing.thy ===== *)
theory Routing
  imports Pipes
begin

text \<open>
  \<^verbatim>\<open>lab05/generated_harder/generated_harder.c\<close>: packets carry the list of provinces they are
  to visit; the government puts every packet of the configuration file into the pipe of province 0, and each
  province passes a packet to the next node of its path.  A packet is smaller than the atomic size of a
  pipe, so reads give whole packets.
\<close>

section \<open>The configuration\<close>

abbreviation MAX_NODES :: int where "MAX_NODES \<equiv> 10"
abbreviation MAX_PATH :: nat where "MAX_PATH \<equiv> 15"
abbreviation MAX_ROUTES :: nat where "MAX_ROUTES \<equiv> 20"

text \<open>\<open>None\<close>: the bytes of the message were never written.\<close>

record packet =
  path :: "int list"
  current_step :: nat
  message :: "string option"

record config =
  n_provinces :: int
  routes :: "packet list"
  links :: "(int \<times> int) set"

text \<open>
  The inner loop of \<^verbatim>\<open>load_config\<close>: the numbers before the colon, each an element of the path
  and, with the one before it, an entry of the matrix.
\<close>

function read_path :: "string \<Rightarrow> int list \<Rightarrow> (int \<times> int) set \<Rightarrow> (int list \<times> (int \<times> int) set) run" where
  "read_path ptr p m =
     (case scan_int ptr of
        None \<Rightarrow> Inr (p, m)
      | Some (node, rest) \<Rightarrow>
          if length p \<ge> MAX_PATH then Inl (Undefined ''path'')
          else if p = [] then read_path rest [node] m
          else if last p < 0 \<or> last p \<ge> MAX_NODES \<or> node < 0 \<or> node \<ge> MAX_NODES then Inl (Undefined ''matrix'')
          else read_path rest (p @ [node]) (insert (last p, node) m))"
  by auto
termination
  by (relation "measure (\<lambda>(ptr, p, m). length ptr)") (auto dest: scan_int_shorter)

declare read_path.simps [simp del]

definition read_message :: "string \<Rightarrow> string option" where
  "read_message s =
     (let w = takeWhile (\<lambda>c. \<not> isspace c) (dropWhile isspace s) in if w = [] then None else Some (take 63 w))"

text \<open>One line; lines without a colon are skipped.\<close>

definition read_line :: "string \<Rightarrow> config \<Rightarrow> config run" where
  "read_line line cfg =
     (if CHR '':'' \<notin> set line then Inr cfg
      else if length (routes cfg) \<ge> MAX_ROUTES then Inl (Undefined ''routes'')
      else bindr (read_path (takeWhile (\<lambda>c. c \<noteq> CHR '':'') line) [] (links cfg)) (\<lambda>(p, m).
           Inr (cfg\<lparr>routes := routes cfg @ [\<lparr>path = p, current_step = 0,
                       message = read_message (tl (dropWhile (\<lambda>c. c \<noteq> CHR '':'') line))\<rparr>],
                    links := m\<rparr>)))"

fun read_lines :: "string list \<Rightarrow> config \<Rightarrow> config run" where
  "read_lines [] cfg = Inr cfg"
| "read_lines (line # rest) cfg = bindr (read_line line cfg) (read_lines rest)"

text \<open>The argument holds what the calls of \<^verbatim>\<open>fgets\<close> return; \<open>None\<close> when the file cannot be opened.\<close>

definition load_config :: "string list option \<Rightarrow> config run" where
  "load_config contents =
     (case contents of
        None \<Rightarrow> Inl (ERR ''fopen'')
      | Some [] \<Rightarrow> Inl (ERR ''Blad N'')
      | Some (line # rest) \<Rightarrow>
          (case scan_int line of
             None \<Rightarrow> Inl (ERR ''Blad N'')
           | Some (n, _) \<Rightarrow> read_lines rest \<lparr>n_provinces = n, routes = [], links = {}\<rparr>))"

section \<open>The network\<close>

text \<open>
  What province \<open>k\<close> does with a packet: \<open>Some\<close> the next province and the packet for it, \<open>None\<close> at the end
  of the path.  A pipe exists for the links between the provinces.
\<close>

definition relay :: "config \<Rightarrow> int \<Rightarrow> packet \<Rightarrow> (int \<times> packet) option run" where
  "relay cfg k pkt =
     (if current_step pkt + 1 < length (path pkt)
      then let pkt' = pkt\<lparr>current_step := current_step pkt + 1\<rparr>; next_node = path pkt ! current_step pkt'
           in if 0 \<le> k \<and> k < n_provinces cfg \<and> 0 \<le> next_node \<and> next_node < n_provinces cfg \<and> (k, next_node) \<in> links cfg
              then Inr (Some (next_node, pkt')) else Inl (Undefined ''pipes'')
      else Inr None)"

record net =
  queue :: "int \<Rightarrow> int \<Rightarrow> packet list"
  boss_to_p0 :: "packet list"
  relayed :: "int \<Rightarrow> nat"
  lost :: "packet list"
  triggers :: nat

datatype inlet = Link int | Boss

definition waiting :: "net \<Rightarrow> int \<Rightarrow> inlet \<Rightarrow> packet list" where
  "waiting s k source = (case source of Link i \<Rightarrow> queue s i k | Boss \<Rightarrow> if k = 0 then boss_to_p0 s else [])"

definition take_packet :: "int \<Rightarrow> inlet \<Rightarrow> net \<Rightarrow> net" where
  "take_packet k source s =
     (case source of
        Link i \<Rightarrow> s\<lparr>queue := (queue s)(i := (queue s i)(k := tl (queue s i k)))\<rparr>
      | Boss \<Rightarrow> s\<lparr>boss_to_p0 := tl (boss_to_p0 s)\<rparr>)"

text \<open>
  A province reads a packet and handles it; \<open>b\<close> is the answer to its write, which fails with
  \<open>EPIPE\<close> when the reader has left.
\<close>

definition province_step :: "config \<Rightarrow> int \<Rightarrow> inlet \<Rightarrow> unit sysret \<Rightarrow> net \<Rightarrow> net run" where
  "province_step cfg k source b s =
     (case waiting s k source of
        [] \<Rightarrow> Inr s
      | pkt # _ \<Rightarrow>
          let s1 = (take_packet k source s)\<lparr>relayed := (relayed s)(k := relayed s k + 1)\<rparr> in
          bindr (relay cfg k pkt) (\<lambda>fwd.
          case fwd of
            None \<Rightarrow> Inr s1
          | Some (next_node, pkt') \<Rightarrow>
             (case b of
                Ok _ \<Rightarrow> Inr (s1\<lparr>queue := (queue s1)(k := (queue s1 k)(next_node := queue s1 k next_node @ [pkt']))\<rparr>)
              | Fail e \<Rightarrow> if e \<noteq> EPIPE then Inl (ERR ''write to next province'')
                          else Inr (s1\<lparr>lost := lost s1 @ [pkt']\<rparr>))))"

text \<open>A letter from the FIFO sends every route; the list holds the answers to the writes.\<close>

fun send_routes :: "packet list \<Rightarrow> unit sysret list \<Rightarrow> net \<Rightarrow> net run" where
  "send_routes (pkt # rs) (a # as) s =
     (case a of
        Ok _ \<Rightarrow> send_routes rs as (s\<lparr>boss_to_p0 := boss_to_p0 s @ [pkt]\<rparr>)
      | Fail e \<Rightarrow> if e \<noteq> EPIPE then Inl (ERR ''write packet to p0'') else send_routes rs as (s\<lparr>lost := lost s @ [pkt]\<rparr>))"
| "send_routes rs as s = Inr s"

definition on_trigger :: "config \<Rightarrow> char \<Rightarrow> unit sysret list \<Rightarrow> net \<Rightarrow> net run" where
  "on_trigger cfg c as s =
     (if 97 \<le> (of_char c :: nat) \<and> (of_char c :: nat) \<le> 122
      then send_routes (routes cfg) as (s\<lparr>triggers := triggers s + 1\<rparr>) else Inr s)"

inductive net_step :: "config \<Rightarrow> net \<Rightarrow> net \<Rightarrow> bool" for cfg where
  net_relay: "0 \<le> k \<Longrightarrow> k < n_provinces cfg \<Longrightarrow> waiting s k source \<noteq> [] \<Longrightarrow>
     province_step cfg k source b s = Inr t \<Longrightarrow> net_step cfg s t"
| net_trigger: "length as = length (routes cfg) \<Longrightarrow> on_trigger cfg c as s = Inr t \<Longrightarrow> net_step cfg s t"

inductive_cases net_stepE: "net_step cfg s t"

text \<open>
  \<^verbatim>\<open>main\<close> looks at the entries of the matrix, and makes pipes, for all numbers below
  \<^verbatim>\<open>n_provinces\<close>; both arrays have ten rows of ten.
\<close>

definition quiet_net :: net where
  "quiet_net = \<lparr>queue = (\<lambda>_ _. []), boss_to_p0 = [], relayed = (\<lambda>_. 0), lost = [], triggers = 0\<rparr>"

definition net_start :: "config \<Rightarrow> net run" where
  "net_start cfg = (if n_provinces cfg > MAX_NODES then Inl (Undefined ''matrix'') else Inr quiet_net)"

definition net_init :: "config \<Rightarrow> net \<Rightarrow> bool" where
  "net_init cfg s \<longleftrightarrow> net_start cfg = Inr s"

lemma net_init_iff: "net_init cfg s \<longleftrightarrow> n_provinces cfg \<le> MAX_NODES \<and> s = quiet_net"
  by (auto simp: net_init_def net_start_def)

section \<open>What the parser guarantees\<close>

definition linked :: "int list \<Rightarrow> (int \<times> int) set \<Rightarrow> bool" where
  "linked p m \<longleftrightarrow> (\<forall>i. i + 1 < length p \<longrightarrow> (p ! i, p ! (i + 1)) \<in> m)"

lemma linked_mono: "linked p m \<Longrightarrow> m \<subseteq> m' \<Longrightarrow> linked p m'"
  by (auto simp: linked_def)

lemma linked_snoc: "p \<noteq> [] \<Longrightarrow> linked p m \<Longrightarrow> linked (p @ [x]) (insert (last p, x) m)"
  unfolding linked_def
proof (intro allI impI)
  fix i
  assume h: "p \<noteq> []" "\<forall>i. i + 1 < length p \<longrightarrow> (p ! i, p ! (i + 1)) \<in> m" "i + 1 < length (p @ [x])"
  show "((p @ [x]) ! i, (p @ [x]) ! (i + 1)) \<in> insert (last p, x) m"
  proof (cases "i + 1 < length p")
    case True
    with h(2) show ?thesis by (simp add: nth_append)
  next
    case False
    with h(3) have i: "i + 1 = length p" by simp
    then have "i < length p" "i = length p - 1" by linarith+
    then have "i < length p" "last p = p ! i" using last_conv_nth [OF h(1)] by simp_all
    then have "(p @ [x]) ! i = last p" by (simp add: nth_append)
    moreover have "(p @ [x]) ! (i + 1) = x" unfolding i by (rule nth_append_length)
    ultimately show ?thesis by simp
  qed
qed

lemma read_path_spec:
  "read_path ptr p m = Inr (p', m') \<Longrightarrow> linked p m \<Longrightarrow> length p \<le> MAX_PATH \<Longrightarrow>
   linked p' m' \<and> m \<subseteq> m' \<and> length p' \<le> MAX_PATH"
proof (induction ptr p m rule: read_path.induct)
  case (1 ptr p m)
  show ?case
  proof (cases "scan_int ptr")
    case None
    with 1 show ?thesis by (simp add: read_path.simps [of ptr])
  next
    case (Some nr)
    then obtain node rest where s: "scan_int ptr = Some (node, rest)" by (cases nr) auto
    show ?thesis
    proof (cases "p = []")
      case True
      with s "1.prems" have "read_path rest [node] m = Inr (p', m')"
        by (simp add: read_path.simps [of ptr] split: if_splits)
      from "1.IH"(1) [OF s refl _ True this] True show ?thesis by (simp add: linked_def)
    next
      case False
      with s "1.prems" have "\<not> MAX_PATH \<le> length p"
        "\<not> (last p < 0 \<or> last p \<ge> MAX_NODES \<or> node < 0 \<or> node \<ge> MAX_NODES)"
        "read_path rest (p @ [node]) (insert (last p, node) m) = Inr (p', m')"
        by (auto simp: read_path.simps [of ptr] split: if_splits)
      from "1.IH"(2) [OF s refl this(1) False this(2,3)] linked_snoc [OF False "1.prems"(2)] this(1)
      show ?thesis by auto
    qed
  qed
qed

definition config_ok :: "config \<Rightarrow> bool" where
  "config_ok cfg \<longleftrightarrow> length (routes cfg) \<le> MAX_ROUTES \<and>
     (\<forall>r \<in> set (routes cfg). current_step r = 0 \<and> linked (path r) (links cfg) \<and> length (path r) \<le> MAX_PATH)"

lemma read_line_ok:
  assumes "read_line line cfg = Inr cfg'" and "config_ok cfg"
  shows "config_ok cfg'"
proof (cases "CHR '':'' \<in> set line")
  case False
  with assms show ?thesis by (simp add: read_line_def)
next
  case True
  with assms(1) obtain p m where p: "length (routes cfg) < MAX_ROUTES"
      "read_path (takeWhile (\<lambda>c. c \<noteq> CHR '':'') line) [] (links cfg) = Inr (p, m)"
    and c: "routes cfg' = routes cfg @ [\<lparr>path = p, current_step = 0,
                       message = read_message (tl (dropWhile (\<lambda>c. c \<noteq> CHR '':'') line))\<rparr>]" "links cfg' = m"
    by (auto simp: read_line_def bindr_eq_Inr_iff split: if_splits)
  have s: "linked p m \<and> links cfg \<subseteq> m \<and> length p \<le> MAX_PATH"
    by (rule read_path_spec [OF p(2)]) (simp_all add: linked_def)
  with assms(2) p(1) show ?thesis
    unfolding config_ok_def c by (auto intro: linked_mono)
qed

lemma read_lines_ok: "read_lines ls cfg = Inr cfg' \<Longrightarrow> config_ok cfg \<Longrightarrow> config_ok cfg'"
proof (induction ls arbitrary: cfg)
  case Nil
  then show ?case by simp
next
  case (Cons line ls)
  then obtain c where c: "read_line line cfg = Inr c" "read_lines ls c = Inr cfg'"
    by (auto simp: bindr_eq_Inr_iff)
  show ?case by (rule Cons.IH [OF c(2) read_line_ok [OF c(1) Cons.prems(2)]])
qed

lemma load_config_ok: "load_config contents = Inr cfg \<Longrightarrow> config_ok cfg"
  by (auto simp: load_config_def config_ok_def dest!: read_lines_ok split: option.splits list.splits)

section \<open>Where the packets are\<close>

definition work :: "packet \<Rightarrow> nat" where
  "work pkt = max 1 (length (path pkt) - current_step pkt)"

definition workload :: "packet list \<Rightarrow> nat" where
  "workload ps = sum_list (map work ps)"

lemma workload_simps [simp]:
  "workload [] = 0" "workload (p # ps) = work p + workload ps" "workload (ps @ qs) = workload ps + workload qs"
  by (simp_all add: workload_def)

abbreviation provinces :: "config \<Rightarrow> int set" where
  "provinces cfg \<equiv> {0..<n_provinces cfg}"

definition in_flight :: "config \<Rightarrow> net \<Rightarrow> nat" where
  "in_flight cfg s = (\<Sum>e \<in> provinces cfg \<times> provinces cfg. workload (queue s (fst e) (snd e))) + workload (boss_to_p0 s)"

definition relays :: "config \<Rightarrow> net \<Rightarrow> nat" where
  "relays cfg s = (\<Sum>k \<in> provinces cfg. relayed s k)"

definition balanced :: "config \<Rightarrow> net \<Rightarrow> bool" where
  "balanced cfg s \<longleftrightarrow> relays cfg s + in_flight cfg s + workload (lost s) = triggers s * workload (routes cfg)"

definition on_route :: "config \<Rightarrow> int \<Rightarrow> int \<Rightarrow> packet \<Rightarrow> bool" where
  "on_route cfg i j pkt \<longleftrightarrow>
     (\<exists>r \<in> set (routes cfg). \<exists>c. pkt = r\<lparr>current_step := c\<rparr> \<and> 0 < c \<and> c < length (path r) \<and> path r ! (c - 1) = i \<and> path r ! c = j)"

definition placed :: "config \<Rightarrow> net \<Rightarrow> bool" where
  "placed cfg s \<longleftrightarrow> set (boss_to_p0 s) \<subseteq> set (routes cfg) \<and>
     (\<forall>i j. \<forall>pkt \<in> set (queue s i j). on_route cfg i j pkt)"

text \<open>The routes the program is written for start at province 0 and stay among the provinces.\<close>

definition sound_routes :: "config \<Rightarrow> bool" where
  "sound_routes cfg \<longleftrightarrow> (\<forall>r \<in> set (routes cfg). path r \<noteq> [] \<and> hd (path r) = 0 \<and> set (path r) \<subseteq> provinces cfg)"

lemma sum_changed:
  fixes f g :: "'a \<Rightarrow> nat"
  assumes "finite A" and "a \<in> A" and "\<And>b. b \<in> A \<Longrightarrow> b \<noteq> a \<Longrightarrow> g b = f b"
  shows "sum g A + f a = sum f A + g a"
proof -
  have "sum g (A - {a}) = sum f (A - {a})" by (rule sum.cong) (use assms(3) in auto)
  then show ?thesis using sum.remove [OF assms(1,2), of f] sum.remove [OF assms(1,2), of g] by simp
qed

lemma in_flight_queue:
  assumes "i \<in> provinces cfg" "j \<in> provinces cfg"
  shows "in_flight cfg (s\<lparr>queue := (queue s)(i := (queue s i)(j := q))\<rparr>) + workload (queue s i j) = in_flight cfg s + workload q"
proof -
  let ?t = "s\<lparr>queue := (queue s)(i := (queue s i)(j := q))\<rparr>"
  have "(\<Sum>e \<in> provinces cfg \<times> provinces cfg. workload (queue ?t (fst e) (snd e))) + workload (queue s (fst (i, j)) (snd (i, j)))
      = (\<Sum>e \<in> provinces cfg \<times> provinces cfg. workload (queue s (fst e) (snd e))) + workload (queue ?t (fst (i, j)) (snd (i, j)))"
    by (rule sum_changed) (use assms in auto)
  then show ?thesis by (simp add: in_flight_def)
qed

lemma route_at:
  assumes "config_ok cfg" "sound_routes cfg" "placed cfg s" "waiting s k source = pkt # q"
  shows "\<exists>r \<in> set (routes cfg). \<exists>c. pkt = r\<lparr>current_step := c\<rparr> \<and> c < length (path r) \<and> path r ! c = k"
proof (cases source)
  case (Link i)
  then have "on_route cfg i k pkt" using assms(3,4) by (auto simp: placed_def waiting_def)
  then show ?thesis by (auto simp: on_route_def)
next
  case Boss
  then have "pkt \<in> set (routes cfg)" "k = 0" using assms(3,4) by (auto simp: placed_def waiting_def split: if_splits)
  then show ?thesis
    using assms(1,2) by (intro bexI [of _ pkt] exI [of _ 0]) (auto simp: config_ok_def sound_routes_def hd_conv_nth)
qed

lemma relay_defined:
  assumes "config_ok cfg" "sound_routes cfg" "placed cfg s" "waiting s k source = pkt # q"
  shows "relay cfg k pkt = Inr None \<and> work pkt = 1 \<or>
         (\<exists>j pkt'. relay cfg k pkt = Inr (Some (j, pkt')) \<and> work pkt = work pkt' + 1
                  \<and> j \<in> provinces cfg \<and> on_route cfg k j pkt')"
proof -
  from route_at [OF assms] obtain r c where
    r: "r \<in> set (routes cfg)" "pkt = r\<lparr>current_step := c\<rparr>" "c < length (path r)" "path r ! c = k" by blast
  show ?thesis
  proof (cases "c + 1 < length (path r)")
    case False
    then have "relay cfg k pkt = Inr None" "work pkt = 1" using r(2,3) by (auto simp: relay_def work_def)
    then show ?thesis by simp
  next
    case True
    have n: "path r ! c \<in> provinces cfg" "path r ! (c + 1) \<in> provinces cfg"
      using assms(2) r(1,3) True nth_mem unfolding sound_routes_def by blast+
    have "(path r ! c, path r ! (c + 1)) \<in> links cfg"
      using assms(1) r(1) True by (auto simp: config_ok_def linked_def)
    then have "relay cfg k pkt = Inr (Some (path r ! (c + 1), r\<lparr>current_step := c + 1\<rparr>))"
      using r(2,4) n True by (simp add: relay_def)
    moreover have "work pkt = work (r\<lparr>current_step := c + 1\<rparr>) + 1" using r(2) True by (simp add: work_def)
    moreover have "on_route cfg k (path r ! (c + 1)) (r\<lparr>current_step := c + 1\<rparr>)"
      using r(1,4) True unfolding on_route_def by (intro bexI [of _ r] exI [of _ "c + 1"]) simp_all
    ultimately show ?thesis using n(2) by blast
  qed
qed

lemma relays_upd:
  "k \<in> provinces cfg \<Longrightarrow> relays cfg (s\<lparr>relayed := (relayed s)(k := relayed s k + 1)\<rparr>) = relays cfg s + 1"
  using sum_changed [of "provinces cfg" k "(relayed s)(k := relayed s k + 1)" "relayed s"]
  by (simp add: relays_def)

lemma take_packet_flight:
  assumes "config_ok cfg" "sound_routes cfg" "placed cfg s" "waiting s k source = pkt # q" "k \<in> provinces cfg"
  shows "in_flight cfg (take_packet k source s) + work pkt = in_flight cfg s"
    and "placed cfg (take_packet k source s)"
    and "lost (take_packet k source s) = lost s" "triggers (take_packet k source s) = triggers s"
      "relayed (take_packet k source s) = relayed s"
proof -
  have "in_flight cfg (take_packet k source s) + work pkt = in_flight cfg s \<and> placed cfg (take_packet k source s)
      \<and> lost (take_packet k source s) = lost s \<and> triggers (take_packet k source s) = triggers s
      \<and> relayed (take_packet k source s) = relayed s"
  proof (cases source)
    case Boss
    then have b: "boss_to_p0 s = pkt # q" using assms(4) by (simp add: waiting_def split: if_splits)
    with assms(3) Boss show ?thesis
      by (auto simp: take_packet_def in_flight_def placed_def)
  next
    case (Link i)
    then have b: "queue s i k = pkt # q" using assms(4) by (simp add: waiting_def)
    then have "on_route cfg i k pkt" using assms(3) by (auto simp: placed_def)
    then obtain r c where "r \<in> set (routes cfg)" "0 < c" "c < length (path r)" "path r ! (c - 1) = i"
      by (auto simp: on_route_def)
    then have "i \<in> set (path r)" by auto
    with \<open>r \<in> set (routes cfg)\<close> have "i \<in> provinces cfg" using assms(2) unfolding sound_routes_def by blast
    from in_flight_queue [OF this assms(5), of s q] b
    have "in_flight cfg (take_packet k source s) + work pkt = in_flight cfg s"
      by (simp add: take_packet_def Link)
    moreover have "placed cfg (take_packet k source s)"
      using assms(3) b by (auto simp: take_packet_def Link placed_def)
    ultimately show ?thesis by (simp add: take_packet_def Link)
  qed
  then show "in_flight cfg (take_packet k source s) + work pkt = in_flight cfg s"
    and "placed cfg (take_packet k source s)"
    and "lost (take_packet k source s) = lost s" "triggers (take_packet k source s) = triggers s"
      "relayed (take_packet k source s) = relayed s" by simp_all
qed

lemma in_flight_frame [simp]:
  "in_flight cfg (s\<lparr>relayed := x\<rparr>) = in_flight cfg s" "in_flight cfg (s\<lparr>lost := y\<rparr>) = in_flight cfg s"
  "in_flight cfg (s\<lparr>triggers := z\<rparr>) = in_flight cfg s"
  "in_flight cfg (s\<lparr>boss_to_p0 := boss_to_p0 s @ [p]\<rparr>) = in_flight cfg s + work p"
  by (simp_all add: in_flight_def)

lemma relays_frame [simp]:
  "relays cfg (s\<lparr>queue := x\<rparr>) = relays cfg s" "relays cfg (s\<lparr>lost := y\<rparr>) = relays cfg s"
  "relays cfg (s\<lparr>triggers := z\<rparr>) = relays cfg s" "relays cfg (s\<lparr>boss_to_p0 := b\<rparr>) = relays cfg s"
  by (simp_all add: relays_def)

lemma province_step_inv:
  assumes C: "config_ok cfg" "sound_routes cfg" and P: "placed cfg s" "balanced cfg s"
    and k: "k \<in> provinces cfg" and "waiting s k source \<noteq> []"
    and t: "province_step cfg k source b s = Inr t"
  shows "placed cfg t \<and> balanced cfg t"
proof -
  obtain pkt q where w: "waiting s k source = pkt # q" using assms(6) by (cases "waiting s k source") auto
  define s1 where "s1 = (take_packet k source s)\<lparr>relayed := (relayed s)(k := relayed s k + 1)\<rparr>"
  note T = take_packet_flight [OF C P(1) w k]
  have "relays cfg s1 = relays cfg s + 1"
    using relays_upd [OF k, of s] by (simp add: s1_def relays_def)
  moreover have "in_flight cfg s1 + work pkt = in_flight cfg s" "lost s1 = lost s" "triggers s1 = triggers s"
    using T by (simp_all add: s1_def)
  ultimately have bal: "relays cfg s1 + in_flight cfg s1 + workload (lost s1) + work pkt = triggers s1 * workload (routes cfg) + 1"
    using P(2) by (simp add: balanced_def)
  have pl: "placed cfg s1" using T(2) by (simp add: s1_def placed_def)
  from relay_defined [OF C P(1) w] show ?thesis
  proof (elim disjE exE conjE)
    assume r: "relay cfg k pkt = Inr None" "work pkt = 1"
    then have "t = s1" using t w by (simp add: province_step_def s1_def T(5))
    with bal pl r(2) show ?thesis by (simp add: balanced_def)
  next
    fix j pkt'
    assume r: "relay cfg k pkt = Inr (Some (j, pkt'))" "work pkt = work pkt' + 1" "j \<in> provinces cfg" "on_route cfg k j pkt'"
    show ?thesis
    proof (cases b)
      case (Ok u)
      then have t: "t = s1\<lparr>queue := (queue s1)(k := (queue s1 k)(j := queue s1 k j @ [pkt']))\<rparr>"
        using t w r(1) by (simp add: province_step_def s1_def T(5))
      have "placed cfg t" using pl r(4) by (auto simp: placed_def t)
      moreover have "in_flight cfg t = in_flight cfg s1 + work pkt'"
        using in_flight_queue [OF k r(3), of s1 "queue s1 k j @ [pkt']"] by (simp add: t)
      ultimately show ?thesis using bal r(2) by (simp add: balanced_def t)
    next
      case (Fail e)
      then have t: "t = s1\<lparr>lost := lost s1 @ [pkt']\<rparr>"
        using t w r(1) by (simp add: province_step_def s1_def T(5) Let_def split: if_splits)
      show ?thesis using bal pl r(2) by (simp add: balanced_def t placed_def)
    qed
  qed
qed

lemma send_routes_inv:
  "send_routes rs as s = Inr t \<Longrightarrow> length as = length rs \<Longrightarrow> set rs \<subseteq> set (routes cfg) \<Longrightarrow> placed cfg s \<Longrightarrow>
   placed cfg t \<and> triggers t = triggers s \<and> relays cfg t = relays cfg s \<and>
   in_flight cfg t + workload (lost t) = in_flight cfg s + workload (lost s) + workload rs"
proof (induction rs as s rule: send_routes.induct)
  case (1 pkt rs a as s)
  show ?case
  proof (cases a)
    case (Ok u)
    have "placed cfg (s\<lparr>boss_to_p0 := boss_to_p0 s @ [pkt]\<rparr>)" using 1 by (auto simp: placed_def)
    with 1 Ok show ?thesis by simp
  next
    case (Fail e)
    have "placed cfg (s\<lparr>lost := lost s @ [pkt]\<rparr>)" using 1 by (simp add: placed_def)
    with 1 Fail show ?thesis by (simp split: if_splits)
  qed
qed simp_all

lemma trigger_inv:
  assumes "placed cfg s \<and> balanced cfg s" and "length as = length (routes cfg)" and "on_trigger cfg c as s = Inr t"
  shows "placed cfg t \<and> balanced cfg t"
proof (cases "97 \<le> (of_char c :: nat) \<and> (of_char c :: nat) \<le> 122")
  case True
  with assms(3) have "send_routes (routes cfg) as (s\<lparr>triggers := triggers s + 1\<rparr>) = Inr t" by (simp add: on_trigger_def)
  from send_routes_inv [OF this assms(2) subset_refl] assms(1) show ?thesis
    by (simp add: balanced_def placed_def)
next
  case False
  with assms show ?thesis by (simp add: on_trigger_def split: if_splits)
qed

definition net_inv :: "config \<Rightarrow> net \<Rightarrow> bool" where
  "net_inv cfg s \<longleftrightarrow> (config_ok cfg \<and> sound_routes cfg \<longrightarrow> placed cfg s \<and> balanced cfg s)"

interpretation network: inv_system "net_init cfg" "net_step cfg" "net_inv cfg" for cfg
proof
  show "net_init cfg s \<Longrightarrow> net_inv cfg s" for s
    by (simp add: net_init_iff quiet_net_def net_inv_def placed_def balanced_def relays_def in_flight_def)
  show "net_inv cfg s \<Longrightarrow> net_step cfg s t \<Longrightarrow> net_inv cfg t" for s t
    unfolding net_inv_def
  proof (erule net_stepE)
    fix k source b
    assume h: "config_ok cfg \<and> sound_routes cfg \<longrightarrow> placed cfg s \<and> balanced cfg s" "0 \<le> k" "k < n_provinces cfg"
      "waiting s k source \<noteq> []" "province_step cfg k source b s = Inr t"
    then have "k \<in> provinces cfg" by simp
    with h province_step_inv [OF _ _ _ _ this h(4,5)]
    show "config_ok cfg \<and> sound_routes cfg \<longrightarrow> placed cfg t \<and> balanced cfg t" by blast
  next
    fix as c
    assume "config_ok cfg \<and> sound_routes cfg \<longrightarrow> placed cfg s \<and> balanced cfg s"
      "length as = length (routes cfg)" "on_trigger cfg c as s = Inr t"
    with trigger_inv [of cfg s as c t]
    show "config_ok cfg \<and> sound_routes cfg \<longrightarrow> placed cfg t \<and> balanced cfg t" by blast
  qed
qed

text \<open>
  C15: For every configuration file of at most ten provinces that the parser accepts and whose routes start at
  province 0 and stay among the provinces (with more than ten, which the parser accepts too, the program has no
  defined start): however the provinces' work interleaves, a packet under way is always between two
  consecutive nodes of its path, its next hop always has a pipe, and the hops made, those still to be made
  and those of packets lost to a broken pipe add up to those of the routes sent, so that every packet
  arrives after as many hops as its path is long.
\<close>
theorem packets_follow_routes:
  assumes "load_config contents = Inr cfg" and "sound_routes cfg" and "reach (net_init cfg) (net_step cfg) s"
  shows "(\<forall>i j. \<forall>pkt \<in> set (queue s i j). on_route cfg i j pkt) \<and>
         (\<forall>k source. waiting s k source \<noteq> [] \<longrightarrow> \<not> errored (relay cfg k (hd (waiting s k source)))) \<and>
         relays cfg s + in_flight cfg s + workload (lost s) = triggers s * workload (routes cfg)"
proof -
  have C: "config_ok cfg" by (rule load_config_ok [OF assms(1)])
  with network.reach_inv [OF assms(3)] assms(2) have I: "placed cfg s" "balanced cfg s" by (auto simp: net_inv_def)
  have "\<not> errored (relay cfg k pkt)" if "waiting s k source = pkt # q" for k source pkt q
    using relay_defined [OF C assms(2) I(1) that] by auto
  then have "\<not> errored (relay cfg k (hd (waiting s k source)))" if "waiting s k source \<noteq> []" for k source
    using that by (cases "waiting s k source") auto
  with I show ?thesis by (auto simp: placed_def balanced_def)
qed

text \<open>A file of one route over two provinces, loaded, triggered once and relayed once.\<close>

definition two_hops :: config where
  "two_hops = \<lparr>n_provinces = 2, routes = [\<lparr>path = [0, 1], current_step = 0, message = Some ''x''\<rparr>], links = {(0, 1)}\<rparr>"

lemma two_hops_load: "load_config (Some [''2'', ''0 1: x'']) = Inr two_hops"
proof -
  have a: "scan_int ''2'' = Some (2, [])" "scan_int ''0 1'' = Some (0, '' 1'')" "scan_int '' 1'' = Some (1, [])" "scan_int [] = None"
    "takeWhile (\<lambda>c. c \<noteq> CHR '':'') ''0 1: x'' = ''0 1''" "tl (dropWhile (\<lambda>c. c \<noteq> CHR '':'') ''0 1: x'') = '' x''"
    "read_message '' x'' = Some ''x''" by code_simp+
  then have "read_path ''0 1'' [] {} = Inr ([0, 1], {(0, 1)})"
    by (simp add: read_path.simps)
  with a show ?thesis by (simp add: load_config_def read_line_def two_hops_def)
qed

definition one_hop :: net where
  "one_hop = \<lparr>queue = (\<lambda>_ _. [])(0 := (\<lambda>_. [])(1 := [\<lparr>path = [0, 1], current_step = 1, message = Some ''x''\<rparr>])),
     boss_to_p0 = [], relayed = (\<lambda>_. 0)(0 := 1), lost = [], triggers = 1\<rparr>"

lemma one_hop_reach: "reach (net_init two_hops) (net_step two_hops) one_hop"
proof -
  let ?p = "\<lparr>path = [0, 1], current_step = 0, message = Some ''x''\<rparr>"
  let ?s = "quiet_net\<lparr>boss_to_p0 := [?p], triggers := 1\<rparr>"
  have 0: "reach (net_init two_hops) (net_step two_hops) quiet_net" by (rule reach_init) (simp add: net_init_iff two_hops_def)
  have "on_trigger two_hops CHR ''a'' [Ok ()] quiet_net = Inr ?s"
    by (simp add: on_trigger_def two_hops_def quiet_net_def)
  then have 1: "reach (net_init two_hops) (net_step two_hops) ?s"
    by (intro reach_step [OF 0] net_trigger [where as = "[Ok ()]" and c = "CHR ''a''"]) (simp_all add: two_hops_def)
  have "province_step two_hops 0 Boss (Ok ()) ?s = Inr one_hop"
    by (simp add: province_step_def waiting_def take_packet_def relay_def two_hops_def one_hop_def quiet_net_def)
  then show ?thesis
    by (intro reach_step [OF 1] net_relay [where k = 0 and source = Boss and b = "Ok ()"])
       (simp_all add: two_hops_def waiting_def)
qed

theorem packets_follow_routes_witness:
  "relays two_hops one_hop + in_flight two_hops one_hop + workload (lost one_hop) = triggers one_hop * workload (routes two_hops)"
proof -
  have "sound_routes two_hops" by (simp add: sound_routes_def two_hops_def)
  from packets_follow_routes [OF two_hops_load this one_hop_reach] show ?thesis by blast
qed

end
