(* ===== verification/Cascade.thy ===== *)
theory Cascade
  imports Routing
begin

text \<open>
  The end of \<^verbatim>\<open>lab05/generated_harder/generated_harder.c\<close>: when the input is over the
  government closes its pipe to province 0, a province leaves when all its inputs have ended, and its leaving
  ends the inputs of its neighbours.  Here every province keeps its open inputs and the packet it has read and
  not yet written, pipes hold a bounded number of packets, and the answers to the writes are those the kernel gives.
  The processes start when each has closed the ends it does not use; there are no signals.
\<close>

text \<open>65536 bytes, 132 for a packet.\<close>

abbreviation PIPE_PACKETS :: nat where "PIPE_PACKETS \<equiv> 496"

section \<open>The processes\<close>

text \<open>
  \<open>traffic\<close>: the contents of the pipes and the counters of the reports; \<open>held\<close>: the packet a province has read and
  the province it is to write it to; \<open>unsent\<close>: how many packets at the end of \<open>boss_to_p0\<close> the government has still
  to write; \<open>fifo\<close>: what will be typed; \<open>reports\<close>: the pipe of the reports, in the order of the writes.
\<close>

record cascade =
  traffic :: net
  held :: "int \<Rightarrow> (int \<times> packet) option"
  unsent :: nat
  fifo :: string
  boss_open :: bool
  inlets :: "int \<Rightarrow> inlet set"
  gone :: "int set"
  reports :: "(int \<times> nat) list"

text \<open>A province closes the pipe from itself to itself; its inputs are the others that lead to it.\<close>

definition neighbours :: "config \<Rightarrow> (int \<times> int) set" where
  "neighbours cfg = {(i, j) \<in> links cfg. i \<in> provinces cfg \<and> j \<in> provinces cfg \<and> i \<noteq> j}"

definition in_pipes :: "config \<Rightarrow> int \<Rightarrow> inlet set" where
  "in_pipes cfg k = Link ` {i \<in> provinces cfg. (i, k) \<in> links cfg \<and> i \<noteq> k} \<union> (if k = 0 then {Boss} else {})"

definition ready :: "cascade \<Rightarrow> int \<Rightarrow> inlet \<Rightarrow> packet list" where
  "ready s k l =
     (case l of
        Link i \<Rightarrow> queue (traffic s) i k
      | Boss \<Rightarrow> take (length (boss_to_p0 (traffic s)) - unsent s) (waiting (traffic s) k Boss))"

definition writer_gone :: "cascade \<Rightarrow> inlet \<Rightarrow> bool" where
  "writer_gone s l = (case l of Link i \<Rightarrow> i \<in> gone s | Boss \<Rightarrow> \<not> boss_open s)"

text \<open>
  Province \<open>k\<close> polls an input: it closes it at its end, or reads a packet, counts it and looks where it goes;
  \<open>None\<close>: there is nothing to read.
\<close>

definition serve :: "config \<Rightarrow> int \<Rightarrow> inlet \<Rightarrow> cascade \<Rightarrow> cascade run option" where
  "serve cfg k l s =
     (case ready s k l of
        [] \<Rightarrow> if writer_gone s l then Some (Inr (s\<lparr>inlets := (inlets s)(k := inlets s k - {l})\<rparr>)) else None
      | pkt # _ \<Rightarrow> Some (
          let u = take_packet k l (traffic s) in
          bindr (relay cfg k pkt) (\<lambda>fwd.
          Inr (s\<lparr>traffic := u\<lparr>relayed := (relayed u)(k := relayed u k + 1)\<rparr>, held := (held s)(k := fwd)\<rparr>))))"

text \<open>
  The write of a packet: it fails with \<^verbatim>\<open>EPIPE\<close> when nobody has the read end (\<open>k\<close> has closed that of the pipe to
  itself), which is not an error here, and waits (\<open>None\<close>) when the pipe is full.
\<close>

definition forward :: "int \<Rightarrow> int \<times> packet \<Rightarrow> cascade \<Rightarrow> cascade option" where
  "forward k jp s =
     (let (j, pkt) = jp; u = traffic s in
      if j = k \<or> j \<in> gone s then Some (s\<lparr>traffic := u\<lparr>lost := lost u @ [pkt]\<rparr>, held := (held s)(k := None)\<rparr>)
      else if length (queue u k j) < PIPE_PACKETS
      then Some (s\<lparr>traffic := u\<lparr>queue := (queue u)(k := (queue u k)(j := queue u k j @ [pkt]))\<rparr>, held := (held s)(k := None)\<rparr>)
      else None)"

definition leave :: "int \<Rightarrow> cascade \<Rightarrow> cascade" where
  "leave k s = s\<lparr>reports := reports s @ [(k, relayed (traffic s) k)], gone := insert k (gone s)\<rparr>"

text \<open>
  The government reads a character, writes one of the packets of \<^verbatim>\<open>boss_to_p0\<close> (the next is the one at
  \<open>length - unsent\<close>), which is dropped when province 0 has left, or closes its pipe at the end of the input.
\<close>

definition boss_reads :: "config \<Rightarrow> cascade \<Rightarrow> cascade run" where
  "boss_reads cfg s =
     bindr (on_trigger cfg (hd (fifo s)) (replicate (length (routes cfg)) (Ok ())) (traffic s)) (\<lambda>t.
     Inr (s\<lparr>traffic := t, fifo := tl (fifo s), unsent := length (boss_to_p0 t) - length (boss_to_p0 (traffic s))\<rparr>))"

definition boss_refused :: "cascade \<Rightarrow> cascade" where
  "boss_refused s =
     (let q = boss_to_p0 (traffic s); i = length q - unsent s
      in s\<lparr>unsent := unsent s - 1, traffic := (traffic s)\<lparr>boss_to_p0 := take i q @ drop (Suc i) q, lost := lost (traffic s) @ [q ! i]\<rparr>\<rparr>)"

definition boss_writes :: "config \<Rightarrow> cascade \<Rightarrow> cascade option" where
  "boss_writes cfg s =
     (if 0 \<in> gone s \<or> n_provinces cfg \<le> 0 then Some (boss_refused s)
      else if length (boss_to_p0 (traffic s)) - unsent s < PIPE_PACKETS then Some (s\<lparr>unsent := unsent s - 1\<rparr>) else None)"

inductive cascade_step :: "config \<Rightarrow> cascade \<Rightarrow> cascade \<Rightarrow> bool" for cfg where
  province_reads: "k \<in> provinces cfg \<Longrightarrow> k \<notin> gone s \<Longrightarrow> held s k = None \<Longrightarrow> l \<in> inlets s k \<Longrightarrow>
     serve cfg k l s = Some (Inr t) \<Longrightarrow> cascade_step cfg s t"
| province_writes: "k \<in> provinces cfg \<Longrightarrow> k \<notin> gone s \<Longrightarrow> held s k = Some jp \<Longrightarrow> forward k jp s = Some t \<Longrightarrow> cascade_step cfg s t"
| province_leaves: "k \<in> provinces cfg \<Longrightarrow> k \<notin> gone s \<Longrightarrow> held s k = None \<Longrightarrow> inlets s k = {} \<Longrightarrow> cascade_step cfg s (leave k s)"
| letter_read: "boss_open s \<Longrightarrow> unsent s = 0 \<Longrightarrow> fifo s \<noteq> [] \<Longrightarrow> boss_reads cfg s = Inr t \<Longrightarrow> cascade_step cfg s t"
| packet_sent: "0 < unsent s \<Longrightarrow> boss_writes cfg s = Some t \<Longrightarrow> cascade_step cfg s t"
| boss_closes: "boss_open s \<Longrightarrow> unsent s = 0 \<Longrightarrow> fifo s = [] \<Longrightarrow> cascade_step cfg s (s\<lparr>boss_open := False\<rparr>)"

inductive_cases cascade_stepE: "cascade_step cfg s t"

text \<open>The arrays of \<^verbatim>\<open>main\<close> have room for ten provinces.\<close>

definition cascade_start :: "config \<Rightarrow> string \<Rightarrow> cascade run" where
  "cascade_start cfg letters =
     bindr (net_start cfg) (\<lambda>u.
     Inr \<lparr>traffic = u, held = (\<lambda>_. None), unsent = 0, fifo = letters, boss_open = True, inlets = in_pipes cfg, gone = {}, reports = []\<rparr>)"

lemma cascade_start_iff:
  "cascade_start cfg letters = Inr s \<longleftrightarrow> n_provinces cfg \<le> MAX_NODES \<and>
     s = \<lparr>traffic = quiet_net, held = (\<lambda>_. None), unsent = 0, fifo = letters, boss_open = True, inlets = in_pipes cfg, gone = {}, reports = []\<rparr>"
  by (auto simp: cascade_start_def net_start_def)

section \<open>A cycle keeps itself alive\<close>

text \<open>Provinces that all have a neighbour among themselves hold each other's pipes open.\<close>

definition kept :: "config \<Rightarrow> int set \<Rightarrow> cascade \<Rightarrow> bool" where
  "kept cfg S s \<longleftrightarrow> S \<inter> gone s = {} \<and> (\<forall>k \<in> S. \<forall>j \<in> S. (j, k) \<in> neighbours cfg \<longrightarrow> Link j \<in> inlets s k)"

text \<open>What a poll does: it closes an input, or a packet is read.\<close>

definition after_read :: "int \<Rightarrow> inlet \<Rightarrow> (int \<times> packet) option \<Rightarrow> cascade \<Rightarrow> cascade" where
  "after_read k l fwd s =
     s\<lparr>traffic := (take_packet k l (traffic s))\<lparr>relayed := (relayed (traffic s))(k := relayed (traffic s) k + 1)\<rparr>,
       held := (held s)(k := fwd)\<rparr>"

lemma take_packet_frame [simp]:
  "relayed (take_packet k l u) = relayed u" "lost (take_packet k l u) = lost u" "triggers (take_packet k l u) = triggers u"
  by (simp_all add: take_packet_def split: inlet.split)

lemma serve_cases:
  assumes "serve cfg k l s = Some (Inr t)"
  shows "(ready s k l = [] \<and> writer_gone s l \<and> t = s\<lparr>inlets := (inlets s)(k := inlets s k - {l})\<rparr>) \<or>
    (\<exists>fwd. ready s k l \<noteq> [] \<and> relay cfg k (hd (ready s k l)) = Inr fwd \<and> t = after_read k l fwd s)"
  using assms by (cases "ready s k l") (auto simp: serve_def Let_def bindr_eq_Inr_iff after_read_def split: if_splits)

lemma forward_frame:
  "forward k jp s = Some t \<Longrightarrow> gone t = gone s \<and> inlets t = inlets s \<and> boss_open t = boss_open s \<and> reports t = reports s \<and>
     unsent t = unsent s \<and> fifo t = fifo s \<and> boss_to_p0 (traffic t) = boss_to_p0 (traffic s) \<and>
     relayed (traffic t) = relayed (traffic s) \<and> triggers (traffic t) = triggers (traffic s) \<and> held t = (held s)(k := None)"
  by (auto simp: forward_def Let_def split: prod.splits if_splits)

lemma boss_reads_frame:
  "boss_reads cfg s = Inr t \<Longrightarrow> gone t = gone s \<and> inlets t = inlets s \<and> boss_open t = boss_open s \<and> reports t = reports s"
  by (auto simp: boss_reads_def bindr_eq_Inr_iff)

lemma boss_writes_frame:
  "boss_writes cfg s = Some t \<Longrightarrow> gone t = gone s \<and> inlets t = inlets s \<and> boss_open t = boss_open s \<and> reports t = reports s \<and>
     relayed (traffic t) = relayed (traffic s) \<and> unsent t = unsent s - 1"
  by (auto simp: boss_writes_def boss_refused_def Let_def split: if_splits)

lemma kept_step:
  assumes S: "fed (neighbours cfg) S" and k: "kept cfg S s" and st: "cascade_step cfg s t"
  shows "kept cfg S t"
  using st
proof (cases rule: cascade_step.cases)
  case (province_reads k l)
  from serve_cases [OF province_reads(5)] show ?thesis
  proof (elim disjE exE conjE)
    assume w: "writer_gone s l" and t: "t = s\<lparr>inlets := (inlets s)(k := inlets s k - {l})\<rparr>"
    have "l \<noteq> Link j" if "j \<in> S" for j using w that k by (auto simp: writer_gone_def kept_def)
    then show ?thesis using k by (auto simp: kept_def t)
  next
    fix fwd
    assume "t = after_read k l fwd s"
    then show ?thesis using k by (simp add: kept_def after_read_def)
  qed
next
  case (province_writes k jp)
  with forward_frame k show ?thesis by (simp add: kept_def)
next
  case (province_leaves k)
  have "k \<notin> S"
  proof
    assume "k \<in> S"
    then obtain j where "j \<in> S" "(j, k) \<in> neighbours cfg" using S by (auto simp: fed_def)
    then have "Link j \<in> inlets s k" using k \<open>k \<in> S\<close> by (simp add: kept_def)
    then show False using province_leaves(5) by simp
  qed
  then show ?thesis using k province_leaves(1) by (simp add: kept_def leave_def)
next
  case letter_read
  with boss_reads_frame k show ?thesis by (simp add: kept_def)
next
  case packet_sent
  with boss_writes_frame [of cfg s t] k show ?thesis by (simp add: kept_def)
next
  case boss_closes
  with k show ?thesis by (simp add: kept_def)
qed

lemma start_kept: "cascade_start cfg letters = Inr s \<Longrightarrow> kept cfg S s"
  by (auto simp: kept_def cascade_start_iff in_pipes_def neighbours_def)

interpretation cycle: inv_system "\<lambda>s. \<exists>letters. cascade_start cfg letters = Inr s \<and> fed (neighbours cfg) S" "cascade_step cfg"
  "\<lambda>s. fed (neighbours cfg) S \<and> kept cfg S s" for cfg S
  by unfold_locales (use start_kept kept_step in blast)+

text \<open>
  C35: A cycle is never left.  With at most ten provinces (otherwise there is no defined start), a province on a cycle of
  the graph never ends without a signal, whatever is typed and even when the input is over, so the program does not end
  (a route that leaves the provinces takes it out of its defined behaviour).
\<close>

theorem cycle_stays:
  assumes "(k, k) \<in> (neighbours cfg)\<^sup>+" and "reach (\<lambda>s. cascade_start cfg letters = Inr s) (cascade_step cfg) s"
  shows "k \<notin> gone s"
proof -
  let ?S = "{j. (k, j) \<in> (neighbours cfg)\<^sup>+ \<and> (j, k) \<in> (neighbours cfg)\<^sup>*}"
  have "reach (\<lambda>s. \<exists>letters. cascade_start cfg letters = Inr s \<and> fed (neighbours cfg) ?S) (cascade_step cfg) s"
    using assms(2) by (induction rule: reach.induct) (auto intro: reach.intros cycle_fed)
  then have "kept cfg ?S s" using cycle.reach_inv by blast
  then show ?thesis using assms(1) by (auto simp: kept_def)
qed

section \<open>A network that loses nothing\<close>

text \<open>
  The same provinces with pipes that are never full and readers that never leave: every write succeeds, and only what is
  written to the pipe from a province to itself, which nobody reads, falls out of it.
\<close>

inductive reliable_step :: "config \<Rightarrow> net \<Rightarrow> net \<Rightarrow> bool" for cfg where
  reliable_hop: "k \<in> provinces cfg \<Longrightarrow> source \<noteq> Link k \<Longrightarrow> waiting s k source \<noteq> [] \<Longrightarrow>
     province_step cfg k source (Ok ()) s = Inr t \<Longrightarrow> reliable_step cfg s t"
| reliable_send: "on_trigger cfg c (replicate (length (routes cfg)) (Ok ())) s = Inr t \<Longrightarrow> reliable_step cfg s t"
| self_loop: "k \<in> provinces cfg \<Longrightarrow> queue s k k = pkt # q \<Longrightarrow>
     reliable_step cfg s (s\<lparr>queue := (queue s)(k := (queue s k)(k := q)), lost := lost s @ [pkt]\<rparr>)"

inductive_cases reliable_stepE: "reliable_step cfg s t"

lemma reliable_inv_step:
  assumes C: "config_ok cfg" "sound_routes cfg" and P: "placed cfg s" "balanced cfg s" and st: "reliable_step cfg s t"
  shows "placed cfg t \<and> balanced cfg t"
  using st
proof (cases rule: reliable_step.cases)
  case (reliable_hop k source)
  with province_step_inv [OF C P] show ?thesis by blast
next
  case (reliable_send c)
  show ?thesis by (rule trigger_inv [OF conjI [OF P] _ reliable_send]) simp
next
  case (self_loop k pkt q)
  from in_flight_queue [OF self_loop(2,2), of s q] self_loop(3)
  have "in_flight cfg t + work pkt = in_flight cfg s" by (simp add: self_loop(1) in_flight_def)
  moreover have "workload (lost t) = workload (lost s) + work pkt" "relays cfg t = relays cfg s" "triggers t = triggers s"
    by (simp_all add: self_loop(1) relays_def)
  moreover have "placed cfg t" using P(1) self_loop(3) by (auto simp: self_loop(1) placed_def)
  ultimately show ?thesis using P(2) by (simp add: balanced_def)
qed

interpretation reliable: inv_system "net_init cfg" "reliable_step cfg" "net_inv cfg" for cfg
proof
  show "net_init cfg s \<Longrightarrow> net_inv cfg s" for s
    by (simp add: net_init_iff quiet_net_def net_inv_def placed_def balanced_def relays_def in_flight_def)
  show "net_inv cfg s \<Longrightarrow> reliable_step cfg s t \<Longrightarrow> net_inv cfg t" for s t
    using reliable_inv_step unfolding net_inv_def by blast
qed

text \<open>What the program's state shows of that network: a packet that has been read is on its way already.\<close>

definition on_the_way :: "cascade \<Rightarrow> int \<Rightarrow> int \<Rightarrow> packet list" where
  "on_the_way s i j = (case held s i of Some (j', pkt) \<Rightarrow> if j' = j then [pkt] else [] | None \<Rightarrow> [])"

definition view :: "cascade \<Rightarrow> net" where
  "view s = (traffic s)\<lparr>queue := (\<lambda>i j. queue (traffic s) i j @ on_the_way s i j)\<rparr>"

lemma view_simps [simp]:
  "queue (view s) i j = queue (traffic s) i j @ on_the_way s i j" "boss_to_p0 (view s) = boss_to_p0 (traffic s)"
  "relayed (view s) = relayed (traffic s)" "lost (view s) = lost (traffic s)" "triggers (view s) = triggers (traffic s)"
  by (simp_all add: view_def)

lemma view_frame [simp]:
  "view (s\<lparr>inlets := x\<rparr>) = view s" "view (s\<lparr>unsent := n\<rparr>) = view s" "view (s\<lparr>boss_open := b\<rparr>) = view s"
  "view (s\<lparr>fifo := f\<rparr>) = view s" "view (s\<lparr>gone := g\<rparr>) = view s" "view (s\<lparr>reports := r\<rparr>) = view s" "view (leave k s) = view s"
  by (simp_all add: view_def on_the_way_def leave_def fun_eq_iff)

lemma ready_waiting:
  "ready s k l \<noteq> [] \<Longrightarrow> waiting (traffic s) k l \<noteq> [] \<and> hd (ready s k l) = hd (waiting (traffic s) k l)"
  by (cases l; cases "waiting (traffic s) k l") (auto simp: ready_def waiting_def take_Cons' split: if_splits)

lemma ready_view: "ready s k l \<noteq> [] \<Longrightarrow> waiting (view s) k l \<noteq> [] \<and> hd (waiting (view s) k l) = hd (ready s k l)"
  using ready_waiting [of s k l] by (auto simp: waiting_def split: inlet.splits if_splits)

lemma ready_boss: "ready s k Boss \<noteq> [] \<Longrightarrow> unsent s < length (boss_to_p0 (traffic s))"
  by (auto simp: ready_def waiting_def split: if_splits)

text \<open>Reading a packet is the hop of the network.\<close>

lemma view_after_read:
  assumes r: "ready s k l \<noteq> []" and h: "held s k = None" and f: "relay cfg k (hd (ready s k l)) = Inr fwd"
  shows "province_step cfg k l (Ok ()) (view s) = Inr (view (after_read k l fwd s))"
proof -
  obtain pkt q where w: "waiting (view s) k l = pkt # q" "hd (ready s k l) = pkt"
    using ready_view [OF r] by (cases "waiting (view s) k l") auto
  have n: "waiting (traffic s) k l \<noteq> []" using ready_waiting [OF r] by simp
  define u where "u = take_packet k l (traffic s)"
  have tk: "take_packet k l (view s) = u\<lparr>queue := (\<lambda>i j. queue u i j @ on_the_way s i j)\<rparr>"
    using n by (cases l) (auto simp: u_def take_packet_def view_def waiting_def fun_eq_iff)
  have hw: "on_the_way s k j = []" for j using h by (simp add: on_the_way_def)
  have ow: "on_the_way (after_read k l g s) i j =
      (if i = k then (case g of Some (j', pkt) \<Rightarrow> if j' = j then [pkt] else [] | None \<Rightarrow> []) else on_the_way s i j)" for g i j
    by (simp add: on_the_way_def after_read_def)
  have q: "(\<lambda>i j. queue u i j @ on_the_way (after_read k l fwd s) i j) =
      (case fwd of None \<Rightarrow> (\<lambda>i j. queue u i j @ on_the_way s i j)
       | Some (j, p) \<Rightarrow> (\<lambda>i j. queue u i j @ on_the_way s i j)(k := (\<lambda>j. queue u k j @ on_the_way s k j)(j := queue u k j @ [p])))"
    by (cases fwd) (auto simp: ow hw fun_eq_iff)
  have v: "view (after_read k l fwd s) = u\<lparr>queue := (\<lambda>i j. queue u i j @ on_the_way (after_read k l fwd s) i j),
      relayed := (relayed (traffic s))(k := relayed (traffic s) k + 1)\<rparr>"
    unfolding view_def by (simp add: u_def after_read_def)
  have ur: "relayed u = relayed (traffic s)" by (simp add: u_def)
  show ?thesis
    using f unfolding v q
    by (cases fwd) (auto simp: province_step_def Let_def w tk hw ur)
qed

section \<open>Open ends, held packets and full pipes\<close>

text \<open>A closed input has ended and is empty; who is gone has closed all inputs.\<close>

definition ends_ok :: "config \<Rightarrow> cascade \<Rightarrow> bool" where
  "ends_ok cfg s \<longleftrightarrow> (\<forall>k. inlets s k \<subseteq> in_pipes cfg k) \<and> gone s \<subseteq> provinces cfg \<and> (\<forall>k \<in> gone s. inlets s k = {}) \<and>
     (\<forall>k l. l \<in> in_pipes cfg k \<longrightarrow> l \<notin> inlets s k \<longrightarrow> writer_gone s l \<and> waiting (view s) k l = [])"

lemma ends_okI:
  assumes "\<And>k. inlets s k \<subseteq> in_pipes cfg k" and "gone s \<subseteq> provinces cfg" and "\<And>k. k \<in> gone s \<Longrightarrow> inlets s k = {}"
    and "\<And>k l. l \<in> in_pipes cfg k \<Longrightarrow> l \<notin> inlets s k \<Longrightarrow> writer_gone s l \<and> waiting (view s) k l = []"
  shows "ends_ok cfg s"
  using assms unfolding ends_ok_def by blast

lemma ends_okD:
  assumes "ends_ok cfg s"
  shows "inlets s k \<subseteq> in_pipes cfg k" and "gone s \<subseteq> provinces cfg" and "k \<in> gone s \<Longrightarrow> inlets s k = {}"
    and "l \<in> in_pipes cfg k \<Longrightarrow> l \<notin> inlets s k \<Longrightarrow> writer_gone s l \<and> waiting (view s) k l = []"
  using assms unfolding ends_ok_def by blast+

lemma writer_gone_frame [simp]:
  "writer_gone (s\<lparr>traffic := u\<rparr>) l = writer_gone s l" "writer_gone (s\<lparr>inlets := i\<rparr>) l = writer_gone s l"
  "writer_gone (s\<lparr>unsent := n\<rparr>) l = writer_gone s l" "writer_gone (s\<lparr>held := h\<rparr>) l = writer_gone s l"
  "writer_gone (after_read k l' fwd s) l = writer_gone s l"
  by (simp_all add: writer_gone_def after_read_def split: inlet.split)

text \<open>A held packet has a pipe to go to, its holder is there, no pipe holds more than it can, and the pipes from a province to itself are empty.\<close>

definition held_ok :: "config \<Rightarrow> cascade \<Rightarrow> bool" where
  "held_ok cfg s \<longleftrightarrow> (\<forall>k j pkt. held s k = Some (j, pkt) \<longrightarrow>
     k \<in> provinces cfg \<and> k \<notin> gone s \<and> j \<in> provinces cfg \<and> (k, j) \<in> links cfg)"

lemma held_okD:
  "held_ok cfg s \<Longrightarrow> held s k = Some (j, pkt) \<Longrightarrow> k \<in> provinces cfg \<and> k \<notin> gone s \<and> j \<in> provinces cfg \<and> (k, j) \<in> links cfg"
  unfolding held_ok_def by blast

definition room_ok :: "cascade \<Rightarrow> bool" where
  "room_ok s \<longleftrightarrow> (\<forall>i j. length (queue (traffic s) i j) \<le> PIPE_PACKETS) \<and> (\<forall>k. queue (traffic s) k k = []) \<and>
     length (boss_to_p0 (traffic s)) - unsent s \<le> PIPE_PACKETS"

definition boss_ok :: "cascade \<Rightarrow> bool" where
  "boss_ok s \<longleftrightarrow> unsent s \<le> length (boss_to_p0 (traffic s)) \<and> (\<not> boss_open s \<longrightarrow> unsent s = 0 \<and> fifo s = [])"

definition wired :: "config \<Rightarrow> cascade \<Rightarrow> bool" where
  "wired cfg s \<longleftrightarrow> 0 < n_provinces cfg \<and> ends_ok cfg s \<and> held_ok cfg s \<and> room_ok s \<and> boss_ok s"

lemma wiredD:
  assumes "wired cfg s"
  shows "0 < n_provinces cfg" "ends_ok cfg s" "held_ok cfg s" "room_ok s" "boss_ok s"
  using assms by (simp_all add: wired_def)

lemma relay_linked: "relay cfg k pkt = Inr (Some (j, pkt')) \<Longrightarrow> k \<in> provinces cfg \<and> j \<in> provinces cfg \<and> (k, j) \<in> links cfg"
  by (auto simp: relay_def Let_def split: if_splits)

text \<open>A neighbour is there as long as somebody who writes to it is, and province 0 while the government is.\<close>

lemma reader_there:
  assumes e: "ends_ok cfg s" and k: "k \<in> provinces cfg" "k \<notin> gone s" and j: "(k, j) \<in> links cfg" "j \<noteq> k"
  shows "Link k \<in> inlets s j" "j \<notin> gone s"
proof -
  have "Link k \<in> in_pipes cfg j" using k j by (simp add: in_pipes_def)
  then show i: "Link k \<in> inlets s j" using ends_okD(4) [OF e, of "Link k" j] k(2) by (auto simp: writer_gone_def)
  show "j \<notin> gone s" using i ends_okD(3) [OF e] by blast
qed

lemma boss_reader_there:
  assumes e: "ends_ok cfg s" and o: "boss_open s"
  shows "Boss \<in> inlets s 0" "0 \<notin> gone s"
proof -
  show i: "Boss \<in> inlets s 0" using ends_okD(4) [OF e, of Boss 0] o by (auto simp: in_pipes_def writer_gone_def)
  show "0 \<notin> gone s" using i ends_okD(3) [OF e] by blast
qed

lemma boss_writes_eq:
  assumes w: "wired cfg s" and u: "0 < unsent s" and t: "boss_writes cfg s = Some t"
  shows "t = s\<lparr>unsent := unsent s - 1\<rparr> \<and> length (boss_to_p0 (traffic s)) - unsent s < PIPE_PACKETS"
proof -
  have "boss_open s" using wiredD(5) [OF w] u by (auto simp: boss_ok_def)
  then have "0 \<notin> gone s" by (rule boss_reader_there(2) [OF wiredD(2) [OF w]])
  then show ?thesis using t wiredD(1) [OF w] by (simp add: boss_writes_def split: if_splits)
qed

section \<open>What every step keeps\<close>

text \<open>What a hop of the network does to everything but the place of the packet.\<close>

lemma province_effect:
  assumes t: "province_step cfg k l (Ok ()) s = Inr t" and w: "waiting s k l \<noteq> []"
  shows "relayed t = (relayed s)(k := relayed s k + 1)" and "triggers t = triggers s" and "lost t = lost s"
    and "waiting s k' l' = [] \<Longrightarrow> l' \<noteq> Link k \<Longrightarrow> waiting t k' l' = []"
proof -
  obtain pkt q where p: "waiting s k l = pkt # q" using w by (cases "waiting s k l") auto
  define s1 where "s1 = (take_packet k l s)\<lparr>relayed := (relayed s)(k := relayed s k + 1)\<rparr>"
  have s1: "relayed s1 = (relayed s)(k := relayed s k + 1)" "triggers s1 = triggers s" "lost s1 = lost s"
    by (simp_all add: s1_def)
  have e: "waiting s k' l' = [] \<Longrightarrow> waiting s1 k' l' = []"
    by (auto simp: s1_def take_packet_def waiting_def split: inlet.splits if_splits)
  obtain fwd where f: "relay cfg k pkt = Inr fwd" using t by (auto simp: province_step_def p bindr_eq_Inr_iff Let_def)
  have T: "t = s1 \<or> (\<exists>j pkt'. t = s1\<lparr>queue := (queue s1)(k := (queue s1 k)(j := queue s1 k j @ [pkt']))\<rparr>)"
    using t f unfolding s1_def by (cases fwd) (auto simp: province_step_def p)
  show "relayed t = (relayed s)(k := relayed s k + 1)" "triggers t = triggers s" "lost t = lost s"
    using T s1 by auto
  show "waiting s k' l' = [] \<Longrightarrow> l' \<noteq> Link k \<Longrightarrow> waiting t k' l' = []"
    using T e by (auto simp: waiting_def split: inlet.splits)
qed

lemma after_read_frame [simp]:
  "inlets (after_read k l fwd s) = inlets s" "gone (after_read k l fwd s) = gone s" "unsent (after_read k l fwd s) = unsent s"
  "boss_open (after_read k l fwd s) = boss_open s" "fifo (after_read k l fwd s) = fifo s" "reports (after_read k l fwd s) = reports s"
  "held (after_read k l fwd s) = (held s)(k := fwd)"
  "relayed (traffic (after_read k l fwd s)) = (relayed (traffic s))(k := relayed (traffic s) k + 1)"
  by (simp_all add: after_read_def)

lemma read_wired:
  assumes w: "wired cfg s" and k: "k \<in> provinces cfg" "k \<notin> gone s" "held s k = None"
    and r: "ready s k l \<noteq> []" and f: "relay cfg k (hd (ready s k l)) = Inr fwd"
  shows "wired cfg (after_read k l fwd s)"
proof -
  let ?t = "after_read k l fwd s"
  note e = wiredD(2) [OF w]
  have "writer_gone ?t l' \<and> waiting (view ?t) k' l' = []" if "l' \<in> in_pipes cfg k'" "l' \<notin> inlets ?t k'" for k' l'
  proof -
    have c: "writer_gone s l' \<and> waiting (view s) k' l' = []" using that by (intro ends_okD(4) [OF e]) simp_all
    then have "l' \<noteq> Link k" using k(2) by (auto simp: writer_gone_def)
    with c province_effect(4) [OF view_after_read [OF r k(3) f] ready_view [OF r, THEN conjunct1]]
    show ?thesis by simp
  qed
  then have "ends_ok cfg ?t" using ends_okD(1-3) [OF e] by (intro ends_okI) simp_all
  moreover have "held_ok cfg ?t"
    using wiredD(3) [OF w] k(2) relay_linked [of cfg k] f by (auto simp: held_ok_def split: if_splits)
  moreover have "room_ok ?t"
  proof -
    have "length (queue (traffic ?t) i j) \<le> length (queue (traffic s) i j)" for i j
      by (auto simp: after_read_def take_packet_def split: inlet.split)
    note le = this
    have "length (queue (traffic ?t) i j) \<le> PIPE_PACKETS" for i j
      using wiredD(4) [OF w] le order_trans unfolding room_ok_def by blast
    moreover have "queue (traffic ?t) i i = []" for i
      using wiredD(4) [OF w] le [of i i] by (simp add: room_ok_def)
    moreover have "length (boss_to_p0 (traffic ?t)) - unsent ?t \<le> PIPE_PACKETS"
    proof -
      have "length (boss_to_p0 (traffic ?t)) \<le> length (boss_to_p0 (traffic s))"
        by (auto simp: after_read_def take_packet_def split: inlet.split)
      moreover have "length (boss_to_p0 (traffic s)) - unsent s \<le> PIPE_PACKETS"
        using wiredD(4) [OF w] by (simp add: room_ok_def)
      ultimately show ?thesis unfolding after_read_frame by linarith
    qed
    ultimately show ?thesis by (simp add: room_ok_def)
  qed
  moreover have "boss_ok ?t"
    using wiredD(5) [OF w] ready_boss [of s k] r by (cases l) (auto simp: boss_ok_def after_read_def take_packet_def)
  ultimately show ?thesis using wiredD(1) [OF w] by (simp add: wired_def)
qed

lemma close_wired:
  assumes w: "wired cfg s" and r: "ready s k l = []" "writer_gone s l"
  shows "wired cfg (s\<lparr>inlets := (inlets s)(k := inlets s k - {l})\<rparr>)" (is "wired cfg ?t")
proof -
  note e = wiredD(2) [OF w]
  have "waiting (view s) k l = []"
  proof (cases l)
    case (Link i)
    then have "held s i = None" using r(2) held_okD [OF wiredD(3) [OF w], of i] by (cases "held s i") (auto simp: writer_gone_def)
    then show ?thesis using r(1) by (simp add: Link ready_def waiting_def on_the_way_def)
  next
    case Boss
    then show ?thesis using r wiredD(5) [OF w] by (auto simp: ready_def writer_gone_def boss_ok_def waiting_def split: if_splits)
  qed
  then have c: "writer_gone s l' \<and> waiting (view s) k' l' = []"
    if "l' \<in> in_pipes cfg k'" "l' \<notin> inlets s k' \<or> k' = k \<and> l' = l" for k' l'
    using ends_okD(4) [OF e] r(2) that by blast
  have "ends_ok cfg ?t"
  proof (rule ends_okI)
    show "inlets ?t k' \<subseteq> in_pipes cfg k'" for k' using ends_okD(1) [OF e, of k'] by auto
    show "inlets ?t k' = {}" if "k' \<in> gone ?t" for k' using ends_okD(3) [OF e, of k'] that by (cases "k' = k") simp_all
    show "writer_gone ?t l' \<and> waiting (view ?t) k' l' = []" if "l' \<in> in_pipes cfg k'" "l' \<notin> inlets ?t k'" for k' l'
    proof -
      have "l' \<notin> inlets s k' \<or> k' = k \<and> l' = l" using that(2) by (cases "k' = k") auto
      from c [OF that(1) this] show ?thesis by simp
    qed
  qed (use ends_okD(2) [OF e] in simp)
  then show ?thesis using w by (simp add: wired_def held_ok_def room_ok_def boss_ok_def)
qed

text \<open>The write of a held packet: only what goes to oneself is refused.\<close>

lemma forward_cases:
  assumes w: "wired cfg s" and h: "held s k = Some (j, pkt)" and t: "forward k (j, pkt) s = Some t"
  shows "(j = k \<and> t = s\<lparr>traffic := (traffic s)\<lparr>lost := lost (traffic s) @ [pkt]\<rparr>, held := (held s)(k := None)\<rparr>) \<or>
    (j \<noteq> k \<and> length (queue (traffic s) k j) < PIPE_PACKETS \<and>
       t = s\<lparr>traffic := (traffic s)\<lparr>queue := (queue (traffic s))(k := (queue (traffic s) k)(j := queue (traffic s) k j @ [pkt]))\<rparr>,
             held := (held s)(k := None)\<rparr>)"
proof -
  have "j \<notin> gone s" if "j \<noteq> k"
    using reader_there(2) [OF wiredD(2) [OF w]] held_okD [OF wiredD(3) [OF w] h] that by blast
  then show ?thesis using t by (auto simp: forward_def Let_def split: if_splits)
qed

lemma forward_view:
  assumes w: "wired cfg s" and h: "held s k = Some (j, pkt)" and t: "forward k (j, pkt) s = Some t"
  shows "if j = k then queue (view s) k k = [pkt] \<and>
             view t = (view s)\<lparr>queue := (queue (view s))(k := (queue (view s) k)(k := [])), lost := lost (view s) @ [pkt]\<rparr>
           else view t = view s"
proof -
  have q: "queue (traffic s) k k = []" using wiredD(4) [OF w] by (simp add: room_ok_def)
  have o: "on_the_way s k i = (if i = j then [pkt] else [])" for i using h by (simp add: on_the_way_def)
  from forward_cases [OF assms] show ?thesis
  proof (elim disjE conjE)
    assume t: "j = k" "t = s\<lparr>traffic := (traffic s)\<lparr>lost := lost (traffic s) @ [pkt]\<rparr>, held := (held s)(k := None)\<rparr>"
    have "on_the_way t i = (if i = k then (\<lambda>_. []) else on_the_way s i)" for i by (simp add: t on_the_way_def fun_eq_iff)
    then show ?thesis using q o t(1) by (auto simp: view_def t(2) fun_eq_iff)
  next
    assume t: "j \<noteq> k" "t = s\<lparr>traffic := (traffic s)\<lparr>queue := (queue (traffic s))(k := (queue (traffic s) k)(j := queue (traffic s) k j @ [pkt]))\<rparr>,
             held := (held s)(k := None)\<rparr>"
    have "on_the_way t i = (if i = k then (\<lambda>_. []) else on_the_way s i)" for i by (simp add: t(2) on_the_way_def fun_eq_iff)
    then show ?thesis using o t(1) by (auto simp: view_def t(2) fun_eq_iff)
  qed
qed

lemma forward_wired:
  assumes w: "wired cfg s" and h: "held s k = Some (j, pkt)" and t: "forward k (j, pkt) s = Some t"
  shows "wired cfg t"
proof -
  note e = wiredD(2) [OF w] and F = forward_frame [OF t] and V = forward_view [OF assms]
  have "waiting (view s) k' l = [] \<Longrightarrow> waiting (view t) k' l = []" for k' l
    using V by (cases "j = k") (auto simp: waiting_def split: inlet.splits if_splits)
  moreover have "writer_gone t l = writer_gone s l" for l using F by (simp add: writer_gone_def split: inlet.split)
  ultimately have "ends_ok cfg t"
    using ends_okD [OF e] F by (intro ends_okI) simp_all
  moreover have "held_ok cfg t" using wiredD(3) [OF w] F by (simp add: held_ok_def)
  moreover have "room_ok t"
    using forward_cases [OF assms] wiredD(4) [OF w] by (auto simp: room_ok_def)
  moreover have "boss_ok t" using wiredD(5) [OF w] F by (simp add: boss_ok_def)
  ultimately show ?thesis using wiredD(1) [OF w] by (simp add: wired_def)
qed

lemma left_wired:
  assumes w: "wired cfg s" and k: "k \<in> provinces cfg" "k \<notin> gone s" "held s k = None" "inlets s k = {}"
  shows "wired cfg (leave k s)"
proof -
  note e = wiredD(2) [OF w]
  have "ends_ok cfg (leave k s)"
  proof (rule ends_okI)
    show "writer_gone (leave k s) l \<and> waiting (view (leave k s)) k' l = []"
      if "l \<in> in_pipes cfg k'" "l \<notin> inlets (leave k s) k'" for k' l
    proof -
      have "writer_gone s l \<and> waiting (view s) k' l = []" using that by (intro ends_okD(4) [OF e]) (simp_all add: leave_def)
      then show ?thesis by (auto simp: writer_gone_def leave_def split: inlet.splits)
    qed
  qed (use ends_okD(1-3) [OF e] k in \<open>auto simp: leave_def\<close>)
  moreover have "held_ok cfg (leave k s)" using wiredD(3) [OF w] k(3) by (auto simp: held_ok_def leave_def)
  ultimately show ?thesis using w by (simp add: wired_def leave_def room_ok_def boss_ok_def)
qed

definition lower :: "char \<Rightarrow> bool" where
  "lower c \<longleftrightarrow> 97 \<le> (of_char c :: nat) \<and> (of_char c :: nat) \<le> 122"

lemma send_all:
  "send_routes rs (replicate (length rs) (Ok ())) s = Inr (s\<lparr>boss_to_p0 := boss_to_p0 s @ rs\<rparr>)"
  by (induction rs arbitrary: s) simp_all

lemma boss_reads_eq:
  "boss_reads cfg s =
     Inr (if lower (hd (fifo s))
          then s\<lparr>traffic := (traffic s)\<lparr>triggers := triggers (traffic s) + 1, boss_to_p0 := boss_to_p0 (traffic s) @ routes cfg\<rparr>,
                 fifo := tl (fifo s), unsent := length (routes cfg)\<rparr>
          else s\<lparr>fifo := tl (fifo s), unsent := 0\<rparr>)"
  by (simp add: boss_reads_def on_trigger_def lower_def send_all)

lemma letter_wired:
  assumes w: "wired cfg s" and b: "boss_open s" "unsent s = 0" and t: "boss_reads cfg s = Inr t"
  shows "wired cfg t"
proof -
  note e = wiredD(2) [OF w]
  have q: "queue (traffic t) = queue (traffic s)" "gone t = gone s" "inlets t = inlets s" "boss_open t = boss_open s" "held t = held s"
    using t by (cases "lower (hd (fifo s))"; auto simp: boss_reads_eq)+
  have o: "on_the_way t = on_the_way s" by (simp add: on_the_way_def fun_eq_iff q)
  have "writer_gone t l \<and> waiting (view t) k l = []" if "l \<in> in_pipes cfg k" "l \<notin> inlets t k" for k l
  proof -
    have "writer_gone s l \<and> waiting (view s) k l = []" using that unfolding q by (rule ends_okD(4) [OF e])
    then show ?thesis using b(1) q o by (auto simp: writer_gone_def waiting_def split: inlet.splits)
  qed
  then have "ends_ok cfg t" using ends_okD(1-3) [OF e] by (intro ends_okI) (simp_all add: q)
  moreover have "held_ok cfg t" using wiredD(3) [OF w] by (simp add: held_ok_def q)
  moreover have "room_ok t"
    using wiredD(4) [OF w] t b(2) by (cases "lower (hd (fifo s))") (auto simp: room_ok_def boss_reads_eq)
  moreover have "boss_ok t" using t b wiredD(5) [OF w] by (cases "lower (hd (fifo s))") (auto simp: boss_ok_def boss_reads_eq)
  ultimately show ?thesis using wiredD(1) [OF w] by (simp add: wired_def)
qed

lemma sent_wired:
  assumes w: "wired cfg s" and u: "0 < unsent s" and t: "boss_writes cfg s = Some t"
  shows "wired cfg t"
proof -
  have T: "t = s\<lparr>unsent := unsent s - 1\<rparr>" "length (boss_to_p0 (traffic s)) - unsent s < PIPE_PACKETS"
    using boss_writes_eq [OF assms] by simp_all
  have "ends_ok cfg t" using ends_okD [OF wiredD(2) [OF w]] by (intro ends_okI) (simp_all add: T(1))
  moreover have "held_ok cfg t" using wiredD(3) [OF w] by (simp add: held_ok_def T(1))
  moreover have "length (boss_to_p0 (traffic s)) - (unsent s - 1) \<le> PIPE_PACKETS" using T(2) by linarith
  then have "room_ok t" using wiredD(4) [OF w] unfolding room_ok_def T(1) by simp
  moreover have "boss_ok t" using wiredD(5) [OF w] by (auto simp: boss_ok_def T(1))
  ultimately show ?thesis using wiredD(1) [OF w] by (simp add: wired_def)
qed

lemma closed_wired:
  assumes w: "wired cfg s" and b: "unsent s = 0" "fifo s = []"
  shows "wired cfg (s\<lparr>boss_open := False\<rparr>)" (is "wired cfg ?t")
proof -
  note e = wiredD(2) [OF w]
  have "ends_ok cfg ?t"
  proof (rule ends_okI)
    show "writer_gone ?t l \<and> waiting (view ?t) k l = []" if "l \<in> in_pipes cfg k" "l \<notin> inlets ?t k" for k l
    proof -
      have "writer_gone s l \<and> waiting (view s) k l = []" using that by (intro ends_okD(4) [OF e]) simp_all
      then show ?thesis by (auto simp: writer_gone_def split: inlet.splits)
    qed
  qed (use ends_okD(1-3) [OF e] in simp_all)
  then show ?thesis using w b by (simp add: wired_def held_ok_def room_ok_def boss_ok_def)
qed

text \<open>Every step of the program is a step of the network that loses nothing, or does not show there.\<close>

lemma cascade_step_view:
  assumes w: "wired cfg s" and st: "cascade_step cfg s t"
  shows "wired cfg t \<and> (reliable_step cfg (view s) (view t) \<or> view t = view s)"
  using st
proof (cases rule: cascade_step.cases)
  case (province_reads k l)
  from serve_cases [OF province_reads(5)] show ?thesis
  proof (elim disjE exE conjE)
    assume "ready s k l = []" "writer_gone s l" "t = s\<lparr>inlets := (inlets s)(k := inlets s k - {l})\<rparr>"
    then show ?thesis using close_wired [OF w] by simp
  next
    fix fwd
    assume r: "ready s k l \<noteq> []" "relay cfg k (hd (ready s k l)) = Inr fwd" and t: "t = after_read k l fwd s"
    have "l \<noteq> Link k" using ends_okD(1) [OF wiredD(2) [OF w], of k] province_reads(4) by (auto simp: in_pipes_def split: if_splits)
    then have "reliable_step cfg (view s) (view t)"
      using reliable_hop [OF province_reads(1) _ ready_view [OF r(1), THEN conjunct1] view_after_read [OF r(1) province_reads(3) r(2)]] t
      by simp
    then show ?thesis using read_wired [OF w province_reads(1-3) r] t by simp
  qed
next
  case (province_writes k jp)
  obtain j pkt where jp: "jp = (j, pkt)" by (cases jp)
  note F = forward_view [OF w, of k j pkt t] forward_wired [OF w, of k j pkt t]
  show ?thesis
  proof (cases "j = k")
    case True
    then have "queue (view s) k k = pkt # []"
      and v: "view t = (view s)\<lparr>queue := (queue (view s))(k := (queue (view s) k)(k := [])), lost := lost (view s) @ [pkt]\<rparr>"
      using F(1) province_writes jp by simp_all
    from reliable_step.self_loop [OF province_writes(1) this(1)] show ?thesis
      using F(2) province_writes jp unfolding v by simp
  next
    case False
    then show ?thesis using F province_writes jp by simp
  qed
next
  case (province_leaves k)
  then show ?thesis using left_wired [OF w] by simp
next
  case letter_read
  have "\<exists>u. on_trigger cfg (hd (fifo s)) (replicate (length (routes cfg)) (Ok ())) (view s) = Inr u"
    by (cases "lower (hd (fifo s))") (auto simp: on_trigger_def send_all lower_def)
  then obtain u where u: "on_trigger cfg (hd (fifo s)) (replicate (length (routes cfg)) (Ok ())) (view s) = Inr u" ..
  have "queue (traffic t) = queue (traffic s) \<and> held t = held s"
    using letter_read(4) by (cases "lower (hd (fifo s))") (auto simp: boss_reads_eq)
  then have "u = view t"
    using u letter_read(4) by (cases "lower (hd (fifo s))")
      (auto simp: boss_reads_eq on_trigger_def send_all view_def lower_def on_the_way_def fun_eq_iff)
  then show ?thesis using letter_wired [OF w letter_read(1,2,4)] reliable_send [OF u] by simp
next
  case packet_sent
  with sent_wired [OF w] boss_writes_eq [OF w, of t] show ?thesis by simp
next
  case boss_closes
  with closed_wired [OF w] show ?thesis by simp
qed

lemma start_wired: "0 < n_provinces cfg \<Longrightarrow> cascade_start cfg letters = Inr s \<Longrightarrow> wired cfg s"
  by (auto simp: cascade_start_iff wired_def ends_ok_def held_ok_def room_ok_def boss_ok_def quiet_net_def)

interpretation wires: inv_system "\<lambda>s. 0 < n_provinces cfg \<and> cascade_start cfg letters = Inr s" "cascade_step cfg" "wired cfg" for cfg letters
  by unfold_locales (use start_wired cascade_step_view in blast)+

section \<open>Without a cycle everybody leaves\<close>

definition good :: "config \<Rightarrow> bool" where
  "good cfg \<longleftrightarrow> config_ok cfg \<and> sound_routes cfg \<and> 0 < n_provinces cfg \<and> acyclic (neighbours cfg)"

definition no_loops :: "config \<Rightarrow> bool" where
  "no_loops cfg \<longleftrightarrow> (\<forall>i. (i, i) \<notin> links cfg)"

definition reports_ok :: "cascade \<Rightarrow> bool" where
  "reports_ok s \<longleftrightarrow> distinct (map fst (reports s)) \<and> set (map fst (reports s)) = gone s \<and>
     (\<forall>r \<in> set (reports s). snd r = relayed (traffic s) (fst r))"

definition cascade_inv :: "config \<Rightarrow> nat \<Rightarrow> cascade \<Rightarrow> bool" where
  "cascade_inv cfg n s \<longleftrightarrow> good cfg \<and> wired cfg s \<and> placed cfg (view s) \<and> balanced cfg (view s) \<and> reports_ok s \<and>
     (no_loops cfg \<longrightarrow> lost (traffic s) = []) \<and> triggers (traffic s) + length (filter lower (fifo s)) = n"

text \<open>The reports and the counters do not rest on the wiring: they hold with signals too.\<close>

lemma reports_step:
  assumes r: "reports_ok s" and st: "cascade_step cfg s t"
  shows "reports_ok t"
  using st
proof (cases rule: cascade_step.cases)
  case (province_reads k l)
  have "fst r \<noteq> k" if "r \<in> set (reports s)" for r using r province_reads(2) that by (auto simp: reports_ok_def)
  note k = this
  from serve_cases [OF province_reads(5)] show ?thesis
  proof (elim disjE exE conjE)
    fix fwd
    assume "t = after_read k l fwd s"
    then show ?thesis using r k by (simp add: reports_ok_def)
  qed (use r in \<open>simp add: reports_ok_def\<close>)
next
  case (province_writes k jp)
  with forward_frame r show ?thesis by (simp add: reports_ok_def)
next
  case (province_leaves k)
  then show ?thesis using r by (auto simp: reports_ok_def leave_def)
next
  case letter_read
  then have "relayed (traffic t) = relayed (traffic s)" by (cases "lower (hd (fifo s))") (auto simp: boss_reads_eq)
  then show ?thesis using boss_reads_frame [OF letter_read(4)] r by (simp add: reports_ok_def)
next
  case packet_sent
  with boss_writes_frame [of cfg s t] r show ?thesis by (simp add: reports_ok_def)
next
  case boss_closes
  then show ?thesis using r by (simp add: reports_ok_def)
qed

lemma letters_step:
  assumes w: "wired cfg s" and st: "cascade_step cfg s t"
  shows "triggers (traffic t) + length (filter lower (fifo t)) = triggers (traffic s) + length (filter lower (fifo s)) \<and>
    (no_loops cfg \<longrightarrow> lost (traffic t) = lost (traffic s))"
  using st
proof (cases rule: cascade_step.cases)
  case (province_reads k l)
  then show ?thesis using serve_cases [OF province_reads(5)] by (auto simp: after_read_def)
next
  case (province_writes k jp)
  obtain j pkt where jp: "jp = (j, pkt)" by (cases jp)
  have "(k, j) \<in> links cfg" using held_okD [OF wiredD(3) [OF w]] province_writes(3) jp by blast
  then show ?thesis using forward_frame [OF province_writes(4)] forward_cases [OF w, of k j pkt t] province_writes jp
    by (auto simp: no_loops_def)
next
  case letter_read
  then obtain c cs where f: "fifo s = c # cs" by (cases "fifo s") auto
  then show ?thesis using letter_read(4) by (cases "lower c") (auto simp: boss_reads_eq)
next
  case packet_sent
  with boss_writes_eq [OF w, of t] show ?thesis by simp
qed (simp_all add: leave_def)

lemma cascade_inv_step:
  assumes i: "cascade_inv cfg n s" and st: "cascade_step cfg s t"
  shows "cascade_inv cfg n t"
proof -
  have g: "good cfg" "wired cfg s" "placed cfg (view s)" "balanced cfg (view s)" "reports_ok s" using i by (simp_all add: cascade_inv_def)
  note V = cascade_step_view [OF g(2) st]
  have "placed cfg (view t) \<and> balanced cfg (view t)"
    using V reliable_inv_step [OF _ _ g(3,4)] g(1,3,4) by (auto simp: good_def)
  then show ?thesis
    using i V reports_step [OF g(5) st] letters_step [OF g(2) st] by (simp add: cascade_inv_def)
qed

section \<open>The cascade stops\<close>

definition busy :: "config \<Rightarrow> cascade \<Rightarrow> int set" where
  "busy cfg s = {k \<in> provinces cfg. held s k \<noteq> None}"

definition steps_left :: "config \<Rightarrow> cascade \<Rightarrow> nat" where
  "steps_left cfg s = length (fifo s) * (2 * workload (routes cfg) + length (routes cfg) + 1) + unsent s + 2 * in_flight cfg (view s) +
     card (busy cfg s) + (\<Sum>k \<in> provinces cfg. card (inlets s k)) + card (provinces cfg - gone s) + (if boss_open s then 1 else 0)"

lemma finite_busy: "finite (busy cfg s)"
  by (rule finite_subset [of _ "provinces cfg"]) (auto simp: busy_def)

lemma read_flight:
  assumes i: "cascade_inv cfg n s" and i': "cascade_inv cfg n (after_read k l fwd s)" and k: "k \<in> provinces cfg" "held s k = None"
    and r: "ready s k l \<noteq> []" "relay cfg k (hd (ready s k l)) = Inr fwd"
  shows "in_flight cfg (view (after_read k l fwd s)) < in_flight cfg (view s)"
proof -
  let ?u = "view (after_read k l fwd s)"
  note E = province_effect [OF view_after_read [OF r(1) k(2) r(2)] ready_view [OF r(1), THEN conjunct1]]
  have "relays cfg ?u = relays cfg (view s) + 1"
    using relays_upd [OF k(1), of "view s"] E(1) by (simp add: relays_def)
  moreover have "balanced cfg (view s)" "balanced cfg ?u" using i i' by (simp_all add: cascade_inv_def)
  ultimately show ?thesis using E(2,3) by (simp add: balanced_def)
qed

lemma write_flight:
  assumes i: "cascade_inv cfg n s" and st: "held s k = Some jp" "forward k jp s = Some t" and k: "k \<in> provinces cfg"
  shows "in_flight cfg (view t) \<le> in_flight cfg (view s)"
proof -
  obtain j pkt where jp: "jp = (j, pkt)" by (cases jp)
  have w: "wired cfg s" using i by (simp add: cascade_inv_def)
  show ?thesis
  proof (cases "j = k")
    case True
    then have "view t = (view s)\<lparr>queue := (queue (view s))(k := (queue (view s) k)(k := [])), lost := lost (view s) @ [pkt]\<rparr>"
      using forward_view [OF w, of k j pkt t] st jp by simp
    moreover have "in_flight cfg ((view s)\<lparr>queue := (queue (view s))(k := (queue (view s) k)(k := []))\<rparr>) \<le> in_flight cfg (view s)"
      using in_flight_queue [OF k k, of "view s" "[]"] by simp
    ultimately show ?thesis by (simp add: in_flight_def)
  next
    case False
    then show ?thesis using forward_view [OF w, of k j pkt t] st jp by simp
  qed
qed

lemma finite_in_pipes: "finite (in_pipes cfg k)"
  by (rule finite_subset [of _ "insert Boss (Link ` provinces cfg)"]) (auto simp: in_pipes_def)

lemma inlet_less:
  assumes e: "ends_ok cfg s" and k: "k \<in> provinces cfg" and l: "l \<in> inlets s k"
  shows "(\<Sum>j \<in> provinces cfg. card (((inlets s)(k := inlets s k - {l})) j)) < (\<Sum>j \<in> provinces cfg. card (inlets s j))"
proof -
  have "finite (inlets s k)" using finite_subset [OF ends_okD(1) [OF e] finite_in_pipes] .
  then have "card (inlets s k - {l}) < card (inlets s k)" using l by (rule card_Diff1_less)
  then show ?thesis
    using sum_changed [of "provinces cfg" k "\<lambda>j. card (((inlets s)(k := inlets s k - {l})) j)" "\<lambda>j. card (inlets s j)"] k by simp
qed

lemma steps_left_less:
  assumes i: "cascade_inv cfg n s" and st: "cascade_step cfg s t"
  shows "steps_left cfg t < steps_left cfg s"
  using st
proof (cases rule: cascade_step.cases)
  case (province_reads k l)
  have i': "cascade_inv cfg n t" by (rule cascade_inv_step [OF i st])
  from serve_cases [OF province_reads(5)] show ?thesis
  proof (elim disjE exE conjE)
    assume "t = s\<lparr>inlets := (inlets s)(k := inlets s k - {l})\<rparr>"
    moreover have "ends_ok cfg s" using i by (simp add: cascade_inv_def wired_def)
    ultimately show ?thesis using inlet_less [of cfg s k l] province_reads(1,4) by (simp add: steps_left_def busy_def)
  next
    fix fwd
    assume r: "ready s k l \<noteq> []" "relay cfg k (hd (ready s k l)) = Inr fwd" and t: "t = after_read k l fwd s"
    have "busy cfg t \<subseteq> insert k (busy cfg s)" by (auto simp: busy_def t)
    then have "card (busy cfg t) \<le> card (busy cfg s) + 1"
      using card_mono [of "insert k (busy cfg s)" "busy cfg t"] card_insert_le_m1 [of _ "busy cfg s"] finite_busy
      by (metis Suc_eq_plus1 card_insert_if finite_insert le_SucI le_trans order_refl)
    then show ?thesis
      using read_flight [OF i _ province_reads(1,3) r] i' by (simp add: steps_left_def t)
  qed
next
  case (province_writes k jp)
  note F = forward_frame [OF province_writes(4)]
  have "busy cfg t = busy cfg s - {k}" "k \<in> busy cfg s" using F province_writes by (auto simp: busy_def)
  then have "card (busy cfg t) < card (busy cfg s)" using card_Diff1_less [OF finite_busy] by metis
  then show ?thesis using write_flight [OF i province_writes(3,4,1)] F by (simp add: steps_left_def)
next
  case (province_leaves k)
  then have "provinces cfg - gone (leave k s) = provinces cfg - gone s - {k}" by (auto simp: leave_def)
  moreover have "card (provinces cfg - gone s - {k}) < card (provinces cfg - gone s)"
    using province_leaves by (intro card_Diff1_less) auto
  moreover have "busy cfg (leave k s) = busy cfg s" by (simp add: busy_def leave_def)
  ultimately show ?thesis using province_leaves(1) by (simp add: steps_left_def) (simp add: leave_def)
next
  case letter_read
  then obtain c cs where f: "fifo s = c # cs" by (cases "fifo s") auto
  have "in_flight cfg (view t) = in_flight cfg (view s) + (if lower c then workload (routes cfg) else 0)"
    using letter_read(4) f by (cases "lower c") (auto simp: boss_reads_eq in_flight_def on_the_way_def)
  then show ?thesis using letter_read(2,4) f by (cases "lower c") (auto simp: boss_reads_eq steps_left_def busy_def)
next
  case packet_sent
  then have "t = s\<lparr>unsent := unsent s - 1\<rparr>" using boss_writes_eq [of cfg s t] i by (simp add: cascade_inv_def)
  then show ?thesis using packet_sent(1) by (simp add: steps_left_def busy_def)
next
  case boss_closes
  then show ?thesis by (simp add: steps_left_def busy_def)
qed

section \<open>Nobody waits for ever\<close>

definition all_out :: "config \<Rightarrow> cascade \<Rightarrow> bool" where
  "all_out cfg s \<longleftrightarrow> gone s = provinces cfg \<and> \<not> boss_open s"

lemma finite_neighbours: "finite (neighbours cfg)"
  by (rule finite_subset [of _ "provinces cfg \<times> provinces cfg"]) (auto simp: neighbours_def)

text \<open>The last provinces with something to read or to write can do it.\<close>

lemma worker_can:
  assumes i: "cascade_inv cfg n s" and ne: "k0 \<in> provinces cfg" "k0 \<notin> gone s" "held s k0 \<noteq> None \<or> (\<exists>l \<in> inlets s k0. ready s k0 l \<noteq> [])"
  shows "\<exists>t. cascade_step cfg s t"
proof -
  let ?W = "{k \<in> provinces cfg. k \<notin> gone s \<and> (held s k \<noteq> None \<or> (\<exists>l \<in> inlets s k. ready s k l \<noteq> []))}"
  have g: "good cfg" and w: "wired cfg s" and p: "placed cfg (view s)" using i by (simp_all add: cascade_inv_def)
  have "wf ((neighbours cfg)\<inverse>)"
    using finite_acyclic_wf_converse [OF finite_neighbours] g by (simp add: good_def)
  moreover have "k0 \<in> ?W" using ne by blast
  ultimately obtain k where k: "k \<in> ?W" "\<And>j. (k, j) \<in> neighbours cfg \<Longrightarrow> j \<notin> ?W"
    by (rule wfE_min) blast
  then have K: "k \<in> provinces cfg" "k \<notin> gone s" by blast+
  show ?thesis
  proof (cases "held s k")
    case (Some jp)
    obtain j pkt where jp: "jp = (j, pkt)" by (cases jp)
    have h: "j \<in> provinces cfg" "(k, j) \<in> links cfg" using held_okD [OF wiredD(3) [OF w]] Some jp by blast+
    have "\<exists>t. forward k jp s = Some t"
    proof (cases "j = k \<or> j \<in> gone s")
      case True
      then show ?thesis by (auto simp: forward_def jp Let_def)
    next
      case False
      then have "(k, j) \<in> neighbours cfg" using K h by (auto simp: neighbours_def)
      then have "j \<notin> ?W" by (rule k(2))
      moreover have "Link k \<in> inlets s j" using reader_there(1) [OF wiredD(2) [OF w] K h(2)] False by blast
      ultimately have "ready s j (Link k) = []" using h(1) False by blast
      then show ?thesis using False by (simp add: forward_def jp Let_def ready_def)
    qed
    then show ?thesis using province_writes [OF K Some] by blast
  next
    case None
    then obtain l where l: "l \<in> inlets s k" "ready s k l \<noteq> []" using k(1) by blast
    obtain q where q: "waiting (view s) k l = hd (ready s k l) # q" using ready_view [OF l(2)] by (cases "waiting (view s) k l") auto
    have "config_ok cfg" "sound_routes cfg" using g by (simp_all add: good_def)
    from relay_defined [OF this p q] obtain fwd where "relay cfg k (hd (ready s k l)) = Inr fwd" by blast
    then have "\<exists>t. serve cfg k l s = Some (Inr t)" using l(2) by (cases "ready s k l") (simp_all add: serve_def Let_def)
    then show ?thesis using province_reads [OF K None l(1)] by blast
  qed
qed

text \<open>When nobody has anything to read or to write, the first provinces see the end of their inputs.\<close>

lemma anybody_can:
  assumes i: "cascade_inv cfg n s" and out: "\<not> all_out cfg s"
  shows "\<exists>t. cascade_step cfg s t"
proof (rule ccontr)
  assume no: "\<nexists>t. cascade_step cfg s t"
  have g: "good cfg" and w: "wired cfg s" using i by (simp_all add: cascade_inv_def)
  note e = wiredD(2) [OF w]
  have quiet: "held s k = None \<and> (l \<in> inlets s k \<longrightarrow> ready s k l = [])" if "k \<in> provinces cfg" "k \<notin> gone s" for k l
    using worker_can [OF i that] no by blast
  have "\<not> boss_open s"
  proof
    assume o: "boss_open s"
    have zero: "0 \<in> provinces cfg" using g by (simp add: good_def)
    note B = boss_reader_there [OF e o]
    have "ready s 0 Boss = []" using quiet [OF zero B(2)] B(1) by blast
    then have "length (boss_to_p0 (traffic s)) \<le> unsent s" by (auto simp: ready_def waiting_def)
    then have "boss_writes cfg s = Some (s\<lparr>unsent := unsent s - 1\<rparr>)"
      using B(2) wiredD(1) [OF w] by (simp add: boss_writes_def)
    then have "unsent s = 0" using no packet_sent [of s cfg] by blast
    then show False
      using no o letter_read [of s cfg] boss_closes [of s cfg] boss_reads_eq [of cfg s] by (cases "fifo s = []") blast+
  qed
  then obtain k0 where k0: "k0 \<in> provinces cfg - gone s"
    using out ends_okD(2) [OF e] unfolding all_out_def by blast
  have "wf (neighbours cfg)" using finite_acyclic_wf [OF finite_neighbours] g by (simp add: good_def)
  from wfE_min [OF this k0] obtain k where k: "k \<in> provinces cfg - gone s"
    "\<And>j. (j, k) \<in> neighbours cfg \<Longrightarrow> j \<notin> provinces cfg - gone s" by blast
  have h: "held s k = None" using quiet k(1) by blast
  then have "inlets s k \<noteq> {}" using no k(1) province_leaves [of k cfg s] by blast
  then obtain l where l: "l \<in> inlets s k" by blast
  have "ready s k l = []" using quiet k(1) l by blast
  moreover have "writer_gone s l"
  proof (cases l)
    case (Link j)
    then have "j \<in> provinces cfg" "(j, k) \<in> links cfg" "j \<noteq> k"
      using l ends_okD(1) [OF e, of k] by (auto simp: in_pipes_def split: if_splits)
    then have "j \<in> gone s" using k by (auto simp: neighbours_def)
    then show ?thesis by (simp add: writer_gone_def Link)
  qed (use \<open>\<not> boss_open s\<close> in \<open>simp add: writer_gone_def\<close>)
  ultimately have "serve cfg k l s = Some (Inr (s\<lparr>inlets := (inlets s)(k := inlets s k - {l})\<rparr>))" by (simp add: serve_def)
  then show False using no k(1) h l province_reads [of k cfg s l] by blast
qed

lemma out_stuck: "all_out cfg s \<Longrightarrow> boss_ok s \<Longrightarrow> \<not> cascade_step cfg s t"
  by (auto simp: all_out_def boss_ok_def elim!: cascade_stepE)

lemma cascade_start_inv:
  "good cfg \<Longrightarrow> cascade_start cfg letters = Inr s \<Longrightarrow> cascade_inv cfg (length (filter lower letters)) s"
  using start_wired [of cfg letters s]
  by (auto simp: cascade_inv_def good_def cascade_start_iff quiet_net_def placed_def balanced_def relays_def in_flight_def reports_ok_def
      on_the_way_def)

interpretation cascade: stopping_system "cascade_inv cfg n" "\<lambda>s t. cascade_inv cfg n s \<and> cascade_step cfg s t"
  "cascade_inv cfg n" "all_out cfg" "steps_left cfg" for cfg n
proof
  show "cascade_inv cfg n t" if "cascade_inv cfg n s \<and> cascade_step cfg s t" for s t
    using that cascade_inv_step by blast
  show "steps_left cfg t < steps_left cfg s" if "cascade_inv cfg n s \<and> cascade_step cfg s t" for s t
    using that steps_left_less by blast
  show "\<exists>t. cascade_inv cfg n s \<and> cascade_step cfg s t" if "cascade_inv cfg n s" "\<not> all_out cfg s" for s
    using that anybody_can by blast
  show "\<not> (cascade_inv cfg n s \<and> cascade_step cfg s t)" if "all_out cfg s" for s t
    using that out_stuck by (auto simp: cascade_inv_def wired_def)
qed

lemma reach_cascade_inv:
  assumes "good cfg" and "reach (\<lambda>s. cascade_start cfg letters = Inr s) (cascade_step cfg) s"
  shows "cascade_inv cfg (length (filter lower letters)) s"
  using assms(2) by (induction rule: reach.induct) (use assms(1) cascade_start_inv cascade_inv_step in blast)+

lemma no_endless_cascade:
  assumes "cascade_inv cfg n s"
  shows "\<nexists>f. f 0 = s \<and> (\<forall>k. cascade_step cfg (f k) (f (Suc k)))"
proof
  assume "\<exists>f. f 0 = s \<and> (\<forall>k. cascade_step cfg (f k) (f (Suc k)))"
  then obtain f where f: "f 0 = s" "\<And>k. cascade_step cfg (f k) (f (Suc k))" by blast
  have "cascade_inv cfg n (f k)" for k by (induction k) (use f assms cascade_inv_step in auto)
  then show False using f(2) cascade.no_endless_run [of cfg n f] by blast
qed

lemma all_out_reports:
  assumes i: "cascade_inv cfg n s" and out: "all_out cfg s" and l: "no_loops cfg"
  shows "sum_list (map snd (reports s)) = n * workload (routes cfg)"
proof -
  note g = i [unfolded cascade_inv_def]
  have w: "wired cfg s" and p: "placed cfg (view s)" and r: "reports_ok s" using g by simp_all
  note e = wiredD(2) [OF w] and b = wiredD(5) [OF w]
  have "waiting (view s) k l = []" if "k \<in> provinces cfg" "l \<in> in_pipes cfg k" for k l
    using ends_okD(3) [OF e, of k] ends_okD(4) [OF e, of l k] that out by (auto simp: all_out_def)
  note empties = this
  have "queue (view s) i j = []" for i j
  proof (rule ccontr)
    assume ne: "queue (view s) i j \<noteq> []"
    then have "hd (queue (view s) i j) \<in> set (queue (view s) i j)" by (rule hd_in_set)
    then have "on_route cfg i j (hd (queue (view s) i j))" using p unfolding placed_def by blast
    then obtain q c where q: "q \<in> set (routes cfg)" "0 < c" "c < length (path q)" "path q ! (c - 1) = i" "path q ! c = j"
      by (auto simp: on_route_def)
    have sr: "set (path q) \<subseteq> provinces cfg" and lk: "linked (path q) (links cfg)"
      using g q(1) by (simp_all add: good_def sound_routes_def config_ok_def)
    obtain c' where "c = Suc c'" using q(2) by (cases c) auto
    then have "(i, j) \<in> links cfg" using lk q by (auto simp: linked_def)
    moreover have "i \<in> set (path q)" "j \<in> set (path q)" using q by auto
    then have "i \<in> provinces cfg" "j \<in> provinces cfg" using sr by blast+
    moreover have "i \<noteq> j" using l calculation(1) by (auto simp: no_loops_def)
    ultimately have "waiting (view s) j (Link i) = []" by (intro empties) (auto simp: in_pipes_def)
    then show False using ne unfolding waiting_def by simp
  qed
  moreover have "boss_to_p0 (view s) = []"
    using empties [of 0 Boss] g by (simp add: in_pipes_def waiting_def good_def)
  ultimately have "in_flight cfg (view s) = 0" by (simp add: in_flight_def del: view_simps)
  moreover have "fifo s = []" using b out by (simp add: all_out_def boss_ok_def)
  then have "triggers (traffic s) = n" using g by simp
  ultimately have tot: "relays cfg (traffic s) = n * workload (routes cfg)" using g l by (auto simp: balanced_def relays_def)
  have "sum_list (map snd (reports s)) = sum_list (map (relayed (traffic s)) (map fst (reports s)))"
    using r unfolding map_map by (intro arg_cong [where f = sum_list] map_cong) (simp_all add: reports_ok_def)
  also have "\<dots> = relays cfg (traffic s)"
    using r out unfolding reports_ok_def all_out_def relays_def
    by (metis sum_list_distinct_conv_sum_set)
  finally show ?thesis by (simp only: tot)
qed


text \<open>
  C7: The end of the campaign.  For at most ten provinces, when the graph has no cycle, every run of the program on a
  finite input is finite and nobody waits for ever: the program can go on until all provinces have ended and the
  government has closed its pipe.  Then every province has reported once, and, if no path stays in a province, no packet
  was lost: the reports add up to the hops of all routes, for every letter typed.
\<close>

theorem cascade_ends:
  assumes "load_config contents = Inr cfg" and "sound_routes cfg" and "0 < n_provinces cfg" and "acyclic (neighbours cfg)"
    and "reach (\<lambda>s. cascade_start cfg letters = Inr s) (cascade_step cfg) s"
  shows "(\<nexists>f. f 0 = s \<and> (\<forall>k. cascade_step cfg (f k) (f (Suc k)))) \<and> ((\<nexists>t. cascade_step cfg s t) \<longleftrightarrow> all_out cfg s) \<and>
    (all_out cfg s \<longrightarrow> distinct (map fst (reports s)) \<and> set (map fst (reports s)) = provinces cfg \<and>
      (no_loops cfg \<longrightarrow> lost (traffic s) = [] \<and>
        sum_list (map snd (reports s)) = length (filter lower letters) * workload (routes cfg)))"
proof -
  have "good cfg" using assms(2-4) load_config_ok [OF assms(1)] by (simp add: good_def)
  then have i: "cascade_inv cfg (length (filter lower letters)) s" by (rule reach_cascade_inv [OF _ assms(5)])
  have "(\<nexists>t. cascade_step cfg s t) \<longleftrightarrow> all_out cfg s"
    using cascade.stuck_iff_final [OF reach_init, OF i] i by blast
  moreover have "distinct (map fst (reports s)) \<and> set (map fst (reports s)) = gone s"
    using i by (simp add: cascade_inv_def reports_ok_def)
  moreover have "no_loops cfg \<longrightarrow> lost (traffic s) = []" using i by (simp add: cascade_inv_def)
  ultimately show ?thesis using no_endless_cascade [OF i] all_out_reports [OF i] by (simp add: all_out_def)
qed

section \<open>Witnesses\<close>

lemma cascade_finishes:
  assumes "good cfg" and "n_provinces cfg \<le> MAX_NODES"
  shows "\<exists>s. reach (\<lambda>s. cascade_start cfg letters = Inr s) (cascade_step cfg) s \<and> all_out cfg s"
proof -
  let ?n = "length (filter lower letters)"
  obtain s0 where s0: "cascade_start cfg letters = Inr s0" using assms(2) by (simp add: cascade_start_def net_start_def)
  obtain t where t: "(\<lambda>s t. cascade_inv cfg ?n s \<and> cascade_step cfg s t)\<^sup>*\<^sup>* s0 t" "all_out cfg t"
    using cascade.final_reachable [OF reach_init, OF cascade_start_inv [OF assms(1) s0]] by blast
  from t(1) have "reach (\<lambda>s. cascade_start cfg letters = Inr s) (cascade_step cfg) t"
    by (induction rule: rtranclp_induct) (use s0 in \<open>auto intro: reach.intros\<close>)
  with t(2) show ?thesis by blast
qed

lemma two_hops_good:
  "sound_routes two_hops" "0 < n_provinces two_hops" "acyclic (neighbours two_hops)" "no_loops two_hops" "workload (routes two_hops) = 2"
  "n_provinces two_hops \<le> MAX_NODES"
proof -
  have "neighbours two_hops = {(0, 1)}" by (auto simp: neighbours_def two_hops_def)
  then show "acyclic (neighbours two_hops)" by (auto intro!: acyclicI dest!: tranclD elim: converse_rtranclE)
qed (simp_all add: sound_routes_def two_hops_def no_loops_def work_def)

lemma two_hops_finishes: "\<exists>s. reach (\<lambda>s. cascade_start two_hops ''ab'' = Inr s) (cascade_step two_hops) s \<and> all_out two_hops s"
  using cascade_finishes two_hops_good load_config_ok [OF two_hops_load] by (simp add: good_def)

theorem cascade_ends_witness:
  "\<exists>s. reach (\<lambda>s. cascade_start two_hops ''ab'' = Inr s) (cascade_step two_hops) s \<and> all_out two_hops s \<and>
     set (map fst (reports s)) = {0, 1} \<and> sum_list (map snd (reports s)) = 4"
proof -
  obtain s where s: "reach (\<lambda>s. cascade_start two_hops ''ab'' = Inr s) (cascade_step two_hops) s" "all_out two_hops s"
    using two_hops_finishes by blast
  have "length (filter lower ''ab'') = 2" by (simp add: lower_def)
  with cascade_ends [OF two_hops_load two_hops_good(1-3) s(1)] s(2) two_hops_good(4,5)
  have "set (map fst (reports s)) = provinces two_hops" "sum_list (map snd (reports s)) = 4" by auto
  moreover have "provinces two_hops = {0, 1}" by (auto simp: two_hops_def)
  ultimately show ?thesis using s by metis
qed

definition round_trip :: config where
  "round_trip = \<lparr>n_provinces = 2, routes = [], links = {(0, 1), (1, 0)}\<rparr>"

theorem cycle_stays_witness:
  "\<exists>s. reach (\<lambda>s. cascade_start round_trip [] = Inr s) (cascade_step round_trip) s \<and> \<not> boss_open s \<and> 0 \<notin> gone s"
proof -
  obtain s0 where s0: "cascade_start round_trip [] = Inr s0" "boss_open s0" "unsent s0 = 0" "fifo s0 = []"
    by (simp add: cascade_start_def net_start_def round_trip_def)
  let ?s = "s0\<lparr>boss_open := False\<rparr>"
  have "cascade_step round_trip s0 ?s" by (rule boss_closes) (use s0 in simp_all)
  then have r: "reach (\<lambda>s. cascade_start round_trip [] = Inr s) (cascade_step round_trip) ?s"
    by (intro reach_step [OF reach_init]) (use s0 in auto)
  have "(0, 1) \<in> neighbours round_trip" "(1, 0) \<in> neighbours round_trip" by (simp_all add: neighbours_def round_trip_def)
  then have "(0, 0) \<in> (neighbours round_trip)\<^sup>+" by (rule trancl_trans [OF r_into_trancl r_into_trancl])
  from cycle_stays [OF this r] r show ?thesis by (intro exI [of _ ?s]) simp
qed

end
