(* ===== verification/Route_File.thy ===== *)
theory Route_File
  imports Cascade
begin

text \<open>
  What \<^verbatim>\<open>load_config\<close> of \<^verbatim>\<open>lab05/generated_harder/generated_harder.c\<close> accepts, against a
  description of the file: one route for every line with a colon, its path all the numbers before the colon, and
  a link between any two that follow one another.  And the whole program of \<open>Cascade\<close> as a run of its network that loses nothing.
\<close>

section \<open>The description of a file\<close>

function numbers :: "string \<Rightarrow> int list" where
  "numbers s = (case scan_int s of None \<Rightarrow> [] | Some (n, rest) \<Rightarrow> n # numbers rest)"
  by auto
termination
  by (relation "measure length") (auto dest: scan_int_shorter)

declare numbers.simps [simp del]

definition has_colon :: "string \<Rightarrow> bool" where
  "has_colon l \<longleftrightarrow> CHR '':'' \<in> set l"

definition stops :: "string \<Rightarrow> int list" where
  "stops l = numbers (takeWhile (\<lambda>c. c \<noteq> CHR '':'') l)"

definition steps_of :: "int list \<Rightarrow> (int \<times> int) set" where
  "steps_of p = set (zip p (tl p))"

definition route_of :: "string \<Rightarrow> packet" where
  "route_of l = \<lparr>path = stops l, current_step = 0, message = read_message (tl (dropWhile (\<lambda>c. c \<noteq> CHR '':'') l))\<rparr>"

text \<open>A path that fits the packet and whose nodes fit the matrix; a single node is not put there.\<close>

definition fits :: "int list \<Rightarrow> bool" where
  "fits p \<longleftrightarrow> length p \<le> MAX_PATH \<and> (2 \<le> length p \<longrightarrow> (\<forall>x \<in> set p. 0 \<le> x \<and> x < MAX_NODES))"

section \<open>One line\<close>

lemma zip_snoc: "p \<noteq> [] \<Longrightarrow> steps_of (p @ [x]) = insert (last p, x) (steps_of p)"
proof (induction p)
  case (Cons y p)
  then show ?case by (cases p) (auto simp: steps_of_def)
qed simp

lemma fits_prefix: "fits (p @ q) \<Longrightarrow> fits p"
  by (auto simp: fits_def)

text \<open>The loop with \<open>p\<close> read so far.\<close>

lemma read_path_spec_from:
  "fits p \<Longrightarrow> steps_of p \<subseteq> m \<Longrightarrow>
     (if fits (p @ numbers s) then read_path s p m = Inr (p @ numbers s, m \<union> steps_of (p @ numbers s)) else errored (read_path s p m))"
proof (induction s p m rule: read_path.induct)
  case (1 s p m)
  show ?case
  proof (cases "scan_int s")
    case None
    then show ?thesis using "1.prems" by (auto simp: read_path.simps [of s] numbers.simps [of s])
  next
    case (Some x)
    then obtain node rest where sc: "scan_int s = Some (node, rest)" by (cases x) auto
    then have n: "numbers s = node # numbers rest" by (simp add: numbers.simps [of s])
    consider "length p \<ge> MAX_PATH" | "length p < MAX_PATH" "p = []"
      | "length p < MAX_PATH" "p \<noteq> []" "last p < 0 \<or> last p \<ge> MAX_NODES \<or> node < 0 \<or> node \<ge> MAX_NODES"
      | "length p < MAX_PATH" "p \<noteq> []" "\<not> (last p < 0 \<or> last p \<ge> MAX_NODES \<or> node < 0 \<or> node \<ge> MAX_NODES)"
      by linarith
    then show ?thesis
    proof cases
      case 1
      then show ?thesis using sc n by (simp add: read_path.simps [of s] fits_def)
    next
      case 2
      have "fits [node]" "steps_of [node] \<subseteq> m" by (simp_all add: fits_def steps_of_def)
      from "1.IH"(1) [OF sc refl _ 2(2) this] 2 show ?thesis
        using sc n by (simp add: read_path.simps [of s])
    next
      case 3
      then have "last p \<in> set (p @ numbers s)" "node \<in> set (p @ numbers s)" "2 \<le> length (p @ numbers s)"
        using n by (cases p; simp)+
      then have "\<not> fits (p @ numbers s)" using 3(3) unfolding fits_def by (meson linorder_not_le)
      then show ?thesis using sc 3 by (simp add: read_path.simps [of s])
    next
      case 4
      have "fits (p @ [node])"
        using "1.prems"(1) 4 by (cases p; cases "tl p") (auto simp: fits_def)
      moreover have "steps_of (p @ [node]) \<subseteq> insert (last p, node) m" using "1.prems"(2) zip_snoc [OF 4(2)] by auto
      moreover have "read_path s p m = read_path rest (p @ [node]) (insert (last p, node) m)"
        using sc 4 by (simp add: read_path.simps [of s])
      moreover have "(last p, node) \<in> steps_of ((p @ [node]) @ numbers rest)"
      proof -
        have "steps_of q \<subseteq> steps_of (q @ r)" for q r :: "int list" by (induction q rule: induct_list012) (auto simp: steps_of_def)
        then show ?thesis using zip_snoc [OF 4(2), of node] by blast
      qed
      ultimately show ?thesis using "1.IH"(2) [OF sc refl _ 4(2,3)] 4(1) n by (auto split: if_splits)
    qed
  qed
qed

lemma read_line_eq:
  "if \<not> has_colon l then read_line l cfg = Inr cfg
   else if length (routes cfg) < MAX_ROUTES \<and> fits (stops l)
   then read_line l cfg = Inr (cfg\<lparr>routes := routes cfg @ [route_of l], links := links cfg \<union> steps_of (stops l)\<rparr>)
   else errored (read_line l cfg)"
  using read_path_spec_from [of "[]" "links cfg" "takeWhile (\<lambda>c. c \<noteq> CHR '':'') l"]
  by (auto simp: has_colon_def read_line_def stops_def route_of_def fits_def steps_of_def errored_def split: if_splits sum.splits)

definition accepted :: "string list \<Rightarrow> bool" where
  "accepted ls \<longleftrightarrow> length (filter has_colon ls) \<le> MAX_ROUTES \<and> (\<forall>l \<in> set ls. has_colon l \<longrightarrow> fits (stops l))"

lemma read_lines_eq:
  "length (routes cfg) + length (filter has_colon ls) \<le> MAX_ROUTES \<and> (\<forall>l \<in> set ls. has_colon l \<longrightarrow> fits (stops l)) \<Longrightarrow>
   read_lines ls cfg = Inr (cfg\<lparr>routes := routes cfg @ map route_of (filter has_colon ls),
     links := links cfg \<union> (\<Union>l \<in> set (filter has_colon ls). steps_of (stops l))\<rparr>)"
proof (induction ls arbitrary: cfg)
  case (Cons l ls)
  then show ?case using read_line_eq [of l cfg] by (cases "has_colon l") (auto simp: Un_assoc)
qed simp

lemma read_lines_refused:
  "length (routes cfg) \<le> MAX_ROUTES \<Longrightarrow>
   \<not> (length (routes cfg) + length (filter has_colon ls) \<le> MAX_ROUTES \<and> (\<forall>l \<in> set ls. has_colon l \<longrightarrow> fits (stops l))) \<Longrightarrow>
   errored (read_lines ls cfg)"
proof (induction ls arbitrary: cfg)
  case (Cons l ls)
  show ?case
  proof (cases "has_colon l \<and> \<not> (length (routes cfg) < MAX_ROUTES \<and> fits (stops l))")
    case True
    then show ?thesis using read_line_eq [of l cfg] by (cases "read_line l cfg") auto
  next
    case False
    then obtain c where c: "read_line l cfg = Inr c" "length (routes c) = length (routes cfg) + (if has_colon l then 1 else 0)"
      using read_line_eq [of l cfg] by (cases "has_colon l") auto
    moreover have "errored (read_lines ls c)"
      using Cons.prems False c(2) by (intro Cons.IH) (auto split: if_splits)
    ultimately show ?thesis by simp
  qed
qed simp

section \<open>The file\<close>

text \<open>
  C25: What a configuration file means.  A file whose first line starts with a number is read exactly if it has at most 20
  lines with a colon and the path of each has at most 15 nodes, from 0 to 9 if it has two or more; then there is
  one route for each such line, in their order, and a link for any two nodes that follow one another, and no other.
  Any other file leaves the defined behaviour or ends the program.
\<close>

theorem load_config_meaning:
  "case load_config (Some (line # rest)) of
     Inr cfg \<Rightarrow> accepted rest \<and> (\<exists>text. scan_int line = Some (n_provinces cfg, text)) \<and>
       routes cfg = map route_of (filter has_colon rest) \<and>
       links cfg = {(i, j). \<exists>r \<in> set (routes cfg). (i, j) \<in> steps_of (path r)}
   | Inl e \<Rightarrow> if scan_int line = None then e = ERR ''Blad N'' else \<not> accepted rest"
proof (cases "scan_int line")
  case None
  then show ?thesis by (simp add: load_config_def)
next
  case (Some x)
  then obtain n t where s: "scan_int line = Some (n, t)" by (cases x) auto
  let ?c = "\<lparr>n_provinces = n, routes = [], links = {}\<rparr>"
  have l: "load_config (Some (line # rest)) = read_lines rest ?c" using s by (simp add: load_config_def)
  show ?thesis
  proof (cases "accepted rest")
    case True
    then have "read_lines rest ?c = Inr (?c\<lparr>routes := map route_of (filter has_colon rest),
        links := \<Union>l \<in> set (filter has_colon rest). steps_of (stops l)\<rparr>)"
      using read_lines_eq [of ?c rest] by (simp add: accepted_def)
    then show ?thesis using s True unfolding l by (auto simp: route_of_def)
  next
    case False
    then have "errored (read_lines rest ?c)" using read_lines_refused [of ?c rest] by (simp add: accepted_def)
    then show ?thesis using s False unfolding l by (auto simp: errored_def split: sum.splits)
  qed
qed

theorem load_config_meaning_witness:
  "accepted [''0 1: x''] \<and> links two_hops = {(i, j). \<exists>r \<in> set (routes two_hops). (i, j) \<in> steps_of (path r)}"
  using load_config_meaning [of "''2''" "[''0 1: x'']"] by (simp add: two_hops_load)

section \<open>The program is a run of a network that loses nothing\<close>

text \<open>
  C13: The whole program refines a network that loses nothing.  For at most ten provinces, in every run of the program, with
  its reads and writes in separate steps, bounded pipes, ends of file and leaving provinces, what happens to the packets is a
  run of the network in which every write succeeds, nobody ever leaves and a packet counts as passed on when it is read;
  only what is sent from a province to itself is lost.  And no pipe holds more than it has room for.
\<close>

theorem cascade_refines_net:
  assumes "0 < n_provinces cfg" and "reach (\<lambda>s. cascade_start cfg letters = Inr s) (cascade_step cfg) s"
  shows "reach (net_init cfg) (reliable_step cfg) (view s) \<and> (\<forall>i j. length (queue (traffic s) i j) \<le> PIPE_PACKETS) \<and>
    length (boss_to_p0 (traffic s)) - unsent s \<le> PIPE_PACKETS"
proof -
  have w: "wired cfg s"
    using assms(2) by (induction rule: reach.induct) (use assms(1) start_wired cascade_step_view in blast)+
  have "wired cfg s \<and> reach (net_init cfg) (reliable_step cfg) (view s)"
    using assms(2)
  proof (induction rule: reach.induct)
    case (reach_init s)
    then have "net_init cfg (view s)" by (simp add: cascade_start_iff net_init_iff view_def on_the_way_def quiet_net_def)
    then show ?case using reach_init start_wired [OF assms(1)] by (blast intro: reach.reach_init)
  next
    case (reach_step s t)
    then show ?case using cascade_step_view [of cfg s t] by (metis reach.reach_step)
  qed
  then show ?thesis using wiredD(4) [OF w] by (simp add: room_ok_def)
qed

theorem cascade_refines_net_witness:
  "\<exists>s. reach (net_init two_hops) (reliable_step two_hops) (view s) \<and> all_out two_hops s"
  using two_hops_finishes cascade_refines_net [OF two_hops_good(2)] by blast

end
