(* ===== verification/Interrupts.thy ===== *)
theory Interrupts
  imports Cascade
begin

text \<open>
  \<^verbatim>\<open>SIGINT\<close> in \<^verbatim>\<open>lab05/generated_harder/generated_harder.c\<close>: the handler clears
  \<^verbatim>\<open>keep_running\<close> of each process.  A province then leaves its loop, whatever its inputs are, and still
  writes its report, but not before it has written the packet it has read: an interrupted write is tried again.  The read
  of the government fails with \<open>EINTR\<close>, which ends its loop, and once province 0 has left, what the government writes
  to it fails with \<open>EPIPE\<close> and is dropped.
\<close>

section \<open>The steps\<close>

definition province_interrupted :: "int \<Rightarrow> cascade \<Rightarrow> cascade" where
  "province_interrupted k s = leave k (s\<lparr>inlets := (inlets s)(k := {})\<rparr>)"

definition boss_interrupted :: "cascade \<Rightarrow> cascade" where
  "boss_interrupted s = s\<lparr>boss_open := False\<rparr>"

inductive signalled_step :: "config \<Rightarrow> cascade \<Rightarrow> cascade \<Rightarrow> bool" for cfg where
  undisturbed: "cascade_step cfg s t \<Longrightarrow> signalled_step cfg s t"
| interrupted: "k \<in> provinces cfg \<Longrightarrow> k \<notin> gone s \<Longrightarrow> held s k = None \<Longrightarrow> signalled_step cfg s (province_interrupted k s)"
| read_interrupted: "boss_open s \<Longrightarrow> unsent s = 0 \<Longrightarrow> signalled_step cfg s (boss_interrupted s)"

section \<open>Everybody reports once, and writes what it has read\<close>

definition sig_inv :: "config \<Rightarrow> cascade \<Rightarrow> bool" where
  "sig_inv cfg s \<longleftrightarrow> gone s \<subseteq> provinces cfg \<and> reports_ok s \<and> (\<forall>k \<in> gone s. held s k = None)"

lemma left_sig_inv: "sig_inv cfg s \<Longrightarrow> k \<in> provinces cfg \<Longrightarrow> k \<notin> gone s \<Longrightarrow> held s k = None \<Longrightarrow> sig_inv cfg (leave k s)"
  by (auto simp: sig_inv_def reports_ok_def leave_def)

lemma cascade_sig_inv:
  assumes i: "sig_inv cfg s" and st: "cascade_step cfg s t"
  shows "sig_inv cfg t"
proof -
  have "reports_ok t" using i reports_step [OF _ st] by (simp add: sig_inv_def)
  moreover have "gone t \<subseteq> provinces cfg \<and> (\<forall>k \<in> gone t. held t k = None)"
    using st
  proof (cases rule: cascade_step.cases)
    case (province_reads k l)
    then show ?thesis using serve_cases [OF province_reads(5)] i by (auto simp: sig_inv_def)
  next
    case (province_writes k jp)
    with forward_frame i show ?thesis by (simp add: sig_inv_def)
  next
    case (province_leaves k)
    with i show ?thesis by (auto simp: sig_inv_def leave_def)
  next
    case letter_read
    then show ?thesis using i by (cases "lower (hd (fifo s))") (auto simp: boss_reads_eq sig_inv_def)
  next
    case packet_sent
    then have "held t = held s \<and> gone t = gone s" by (auto simp: boss_writes_def boss_refused_def Let_def split: if_splits)
    then show ?thesis using i by (simp add: sig_inv_def)
  next
    case boss_closes
    with i show ?thesis by (simp add: sig_inv_def)
  qed
  ultimately show ?thesis by (simp add: sig_inv_def)
qed

lemma signalled_sig_inv: "signalled_step cfg s t \<Longrightarrow> sig_inv cfg s \<Longrightarrow> sig_inv cfg t"
proof (induction rule: signalled_step.induct)
  case (interrupted k s)
  then show ?case unfolding province_interrupted_def
    by (intro left_sig_inv) (simp_all add: sig_inv_def reports_ok_def)
next
  case (read_interrupted s)
  then show ?case by (simp add: sig_inv_def reports_ok_def boss_interrupted_def)
qed (rule cascade_sig_inv)

interpretation signalled: inv_system "\<lambda>s. \<exists>letters. cascade_start cfg letters = Inr s" "signalled_step cfg" "sig_inv cfg" for cfg
proof
  show "sig_inv cfg s" if "\<exists>letters. cascade_start cfg letters = Inr s" for s
    using that by (auto simp: sig_inv_def reports_ok_def cascade_start_iff)
qed (rule signalled_sig_inv)

text \<open>
  With signals at any moments, a province has written one report when it has left, with the packets it read, and none
  before, and it leaves no packet unwritten.
\<close>

theorem interrupted_reports:
  assumes "reach (\<lambda>s. \<exists>letters. cascade_start cfg letters = Inr s) (signalled_step cfg) s"
  shows "distinct (map fst (reports s)) \<and> set (map fst (reports s)) = gone s \<and> gone s \<subseteq> provinces cfg \<and>
    (\<forall>r \<in> set (reports s). snd r = relayed (traffic s) (fst r)) \<and> (\<forall>k \<in> gone s. held s k = None)"
  using signalled.reach_inv [OF assms] by (simp add: sig_inv_def reports_ok_def)

end
