(* ===== verification/Roncevaux.thy ===== *)
theory Roncevaux
  imports Pipes "HOL-Library.Word"
begin

text \<open>
  \<^verbatim>\<open>lab05/prelab/sop-roncevaux.c\<close>: every knight is a process that reads blows, one byte each,
  from its own pipe and strikes random enemies through theirs.  The kernel is a script: the answers to
  the reads and to the writes of each turn of the loop.
\<close>

section \<open>Knights\<close>

abbreviation MAX_KNIGHT_NAME_LENGTH :: nat where "MAX_KNIGHT_NAME_LENGTH \<equiv> 20"

record knight =
  name :: string
  HP :: int
  attack :: int

text \<open>
  Reading an army: the number, then for each knight what \<^verbatim>\<open>fscanf(f, "%s %d %d", ...)\<close>
  stored.  A name must leave room for its terminator; a knight that was not read has no values.
\<close>

fun read_knights :: "nat \<Rightarrow> (string \<times> int \<times> int) option list \<Rightarrow> knight list run" where
  "read_knights 0 xs = Inr []"
| "read_knights (Suc n) xs =
     (case xs of
        Some (s, h, a) # xs' \<Rightarrow>
          if length s \<ge> MAX_KNIGHT_NAME_LENGTH then Inl (Undefined ''name'')
          else bindr (read_knights n xs') (\<lambda>ks. Inr (\<lparr>name = s, HP = h, attack = a\<rparr> # ks))
      | _ \<Rightarrow> Inl (Undefined ''knight''))"

definition read_army :: "(int option \<times> (string \<times> int \<times> int) option list) option \<Rightarrow> knight list run" where
  "read_army f =
     (case f of
        None \<Rightarrow> Inl (ERR ''fopen'')
      | Some (None, _) \<Rightarrow> Inl (Undefined ''franciNo'')
      | Some (Some n, xs) \<Rightarrow> if n < 0 then Inl (ERR ''malloc'') else read_knights (nat n) xs)"

section \<open>The fight of one knight\<close>

datatype blow =
    Took "8 word" | Dies string | Strikes int "8 word" | FoundDead int

text \<open>\<open>enemies\<close> are the write ends in \<^verbatim>\<open>enemyPipes\<close>, \<open>alive_enemies\<close> how many of them are in use.\<close>

record fighter =
  hp :: int
  is_alive :: bool
  enemies :: "int list"
  alive_enemies :: nat
  fds :: "int set"

text \<open>
  The inner loop of reads; an answer is a byte, the end of file, or an error (nothing there ends the
  loop, as does the end of the script).  A plain \<^verbatim>\<open>char\<close> is signed.
\<close>

fun read_blows :: "string \<Rightarrow> 8 word option sysret list \<Rightarrow> fighter \<Rightarrow> (blow, fighter) io" where
  "read_blows nm [] s = ret s"
| "read_blows nm (a # as) s =
     (case a of
        Fail e \<Rightarrow> if e = EAGAIN then ret s else die (ERR ''read'')
      | Ok None \<Rightarrow> ret (s\<lparr>alive_enemies := 0\<rparr>)
      | Ok (Some buf) \<Rightarrow>
          seq (emit [Took buf]) (\<lambda>_.
          let s' = s\<lparr>hp := hp s - sint buf\<rparr> in
          if \<not> in_int (hp s') then die (Undefined ''HP'')
          else if hp s' < 0 then seq (emit [Dies nm]) (\<lambda>_. ret (s'\<lparr>is_alive := False\<rparr>))
          else read_blows nm as s'))"

text \<open>An enemy that is gone is closed and swapped behind those in use.\<close>

definition forget_enemy :: "nat \<Rightarrow> fighter \<Rightarrow> fighter" where
  "forget_enemy enemy s =
     (let last = alive_enemies s - 1
      in s\<lparr>fds := close_quietly (enemies s ! enemy) (fds s), alive_enemies := last,
           enemies := swap_at enemy last (enemies s)\<rparr>)"

text \<open>
  The loop of writes; the first strike that is not refused ends it.  The remainder of a non-negative
  number has its sign in C.
\<close>

function strike :: "int \<Rightarrow> rng \<Rightarrow> unit sysret list \<Rightarrow> fighter \<Rightarrow> (blow, fighter \<times> rng) io" where
  "strike att r as s =
     (if alive_enemies s = 0 then ret (s, r)
      else
        let enemy = fst (rand r) mod alive_enemies s; r1 = snd (rand r)
        in if \<not> in_int (att + 1) then die (Undefined ''attack + 1'')
           else if att + 1 = 0 then die (Undefined ''rand() % 0'')
           else
             let damage = word_of_int (int (fst (rand r1)) mod \<bar>att + 1\<bar>) :: 8 word; r2 = snd (rand r1);
                 fd = enemies s ! enemy
             in (case as of
                   Fail e # as' \<Rightarrow>
                     if e = EPIPE then seq (emit [FoundDead fd]) (\<lambda>_. strike att r2 as' (forget_enemy enemy s))
                     else die (ERR ''write'')
                 | _ \<Rightarrow> seq (emit [Strikes fd damage]) (\<lambda>_. ret (s, snd (rand r2)))))"
  by auto
termination
  by (relation "measure (\<lambda>(att, r, as, s). alive_enemies s)") (auto simp: forget_enemy_def Let_def)

declare strike.simps [simp del]

record turn =
  t_reads :: "8 word option sysret list"
  t_writes :: "unit sysret list"

fun fight :: "knight \<Rightarrow> rng \<Rightarrow> turn list \<Rightarrow> fighter \<Rightarrow> (blow, fighter) io" where
  "fight k r [] s = ret s"
| "fight k r (t # ts) s =
     (if is_alive s \<and> alive_enemies s > 0
      then seq (read_blows (name k) (t_reads t) s) (\<lambda>s1.
           if \<not> is_alive s1 \<or> alive_enemies s1 = 0 then ret s1
           else seq (strike (attack k) r (t_writes t) s1) (\<lambda>(s2, r'). fight k r' ts s2))
      else ret s)"

definition close_enemies :: "fighter \<Rightarrow> fighter" where
  "close_enemies s = s\<lparr>fds := fold close_quietly (take (alive_enemies s) (enemies s)) (fds s)\<rparr>"

definition child_work :: "knight \<Rightarrow> int \<Rightarrow> int list \<Rightarrow> rng \<Rightarrow> turn list \<Rightarrow> int set \<Rightarrow> (blow, fighter) io" where
  "child_work k readEnd enemyPipes r ts open_fds =
     seq (fight k r ts \<lparr>hp = HP k, is_alive = True, enemies = enemyPipes, alive_enemies = length enemyPipes, fds = open_fds\<rparr>)
       (\<lambda>s. ret (close_enemies (s\<lparr>fds := close_quietly readEnd (fds s)\<rparr>)))"

section \<open>The processes\<close>

text \<open>
  The child of knight \<open>i\<close> of one side: \<open>own\<close> and \<open>other\<close> are the pipes of the two sides.
\<close>

definition knight_fds :: "pipe list \<Rightarrow> pipe list \<Rightarrow> nat \<Rightarrow> int set \<Rightarrow> int set" where
  "knight_fds own other i open_fds =
     fold (\<lambda>p f. close_quietly (pend READ p) f) other
       (fold (\<lambda>j f. close_quietly (pend WRITE (own ! j)) (if i \<noteq> j then close_quietly (pend READ (own ! j)) f else f))
          [0..<length own] open_fds)"

definition knight_process ::
  "knight \<Rightarrow> pipe list \<Rightarrow> pipe list \<Rightarrow> nat \<Rightarrow> rng \<Rightarrow> turn list \<Rightarrow> int set \<Rightarrow> (blow, int set) io" where
  "knight_process k own other i r ts open_fds =
     seq (child_work k (pend READ (own ! i)) (map (pend WRITE) other) r ts (knight_fds own other i open_fds)) (\<lambda>s.
     ret (fold (\<lambda>p f. close_quietly (pend WRITE p) f) other (close_quietly (pend READ (own ! i)) (fds s))))"

definition parent_fds :: "pipe list \<Rightarrow> pipe list \<Rightarrow> int set \<Rightarrow> int set" where
  "parent_fds franci saraceni open_fds =
     fold (\<lambda>p f. close_quietly (pend WRITE p) (close_quietly (pend READ p) f)) (franci @ saraceni) open_fds"

section \<open>What a knight does to the others\<close>

definition targets :: "blow list \<Rightarrow> int set" where
  "targets es = {fd. FoundDead fd \<in> set es \<or> (\<exists>d. Strikes fd d \<in> set es)}"

definition gone :: "blow list \<Rightarrow> int set" where
  "gone es = {fd. FoundDead fd \<in> set es}"

text \<open>Nobody found dead is aimed at again.\<close>

fun no_reuse :: "blow list \<Rightarrow> bool" where
  "no_reuse [] = True"
| "no_reuse (e # es) = ((case e of FoundDead fd \<Rightarrow> fd \<notin> targets es | _ \<Rightarrow> True) \<and> no_reuse es)"

definition taken :: "blow list \<Rightarrow> int" where
  "taken es = sum_list (map (\<lambda>e. case e of Took b \<Rightarrow> sint b | _ \<Rightarrow> 0) es)"

definition usable :: "fighter \<Rightarrow> int set" where
  "usable s = set (take (alive_enemies s) (enemies s))"

lemma targets_simps [simp]:
  "targets [] = {}" "targets (es @ es') = targets es \<union> targets es'"
  "targets (Took b # es) = targets es" "targets (Dies n # es) = targets es"
  "targets (Strikes fd d # es) = insert fd (targets es)" "targets (FoundDead fd # es) = insert fd (targets es)"
  by (auto simp: targets_def)

lemma gone_simps [simp]:
  "gone [] = {}" "gone (es @ es') = gone es \<union> gone es'"
  "gone (Took b # es) = gone es" "gone (Dies n # es) = gone es"
  "gone (Strikes fd d # es) = gone es" "gone (FoundDead fd # es) = insert fd (gone es)"
  by (auto simp: gone_def)

lemma taken_simps [simp]:
  "taken [] = 0" "taken (es @ es') = taken es + taken es'"
  "taken (Took b # es) = sint b + taken es" "taken (Dies n # es) = taken es"
  "taken (Strikes fd d # es) = taken es" "taken (FoundDead fd # es) = taken es"
  by (simp_all add: taken_def)

lemma no_reuse_append [simp]:
  "no_reuse (es @ es') \<longleftrightarrow> no_reuse es \<and> no_reuse es' \<and> gone es \<inter> targets es' = {}"
  by (induction es) (auto split: blow.split)

definition fair_blow :: "int \<Rightarrow> blow \<Rightarrow> bool" where
  "fair_blow att e = (case e of Strikes fd d \<Rightarrow> 0 \<le> sint d \<and> sint d \<le> att | _ \<Rightarrow> True)"

text \<open>The knight at \<open>s\<close>, the enemies it may aim at, and a piece of the fight from there.\<close>

definition sound :: "int \<Rightarrow> fighter \<Rightarrow> blow list \<Rightarrow> fighter \<Rightarrow> bool" where
  "sound att s es s' \<longleftrightarrow> (\<forall>e \<in> set es. fair_blow att e) \<and> no_reuse es \<and> targets es \<subseteq> usable s \<and>
     usable s' \<subseteq> usable s - gone es \<and> distinct (enemies s') \<and> alive_enemies s' \<le> length (enemies s') \<and>
     hp s' = hp s - taken es \<and> (is_alive s' \<longrightarrow> is_alive s \<and> (0 \<le> hp s \<longrightarrow> 0 \<le> hp s')) \<and>
     (is_alive s \<and> \<not> is_alive s' \<longrightarrow> hp s' < 0)"

definition ready :: "fighter \<Rightarrow> bool" where
  "ready s \<longleftrightarrow> distinct (enemies s) \<and> alive_enemies s \<le> length (enemies s)"

lemma sound_refl: "ready s \<Longrightarrow> sound att s [] s"
  by (simp add: sound_def ready_def)

lemma sound_ready: "sound att s es t \<Longrightarrow> ready t"
  by (simp add: sound_def ready_def)

lemma sound_trans: "sound att s es t \<Longrightarrow> is_alive t \<Longrightarrow> sound att t es' u \<Longrightarrow> sound att s (es @ es') u"
proof -
  assume a: "sound att s es t" and al: "is_alive t" and b: "sound att t es' u"
  have t: "targets es' \<subseteq> usable s - gone es" "usable u \<subseteq> usable s - (gone es \<union> gone es')"
    using a b unfolding sound_def by blast+
  have e: "\<forall>e \<in> set (es @ es'). fair_blow att e" using a b unfolding sound_def by auto
  have n: "no_reuse (es @ es')" "targets (es @ es') \<subseteq> usable s" using a b t(1) by (auto simp: sound_def)
  have h: "hp u = hp s - taken (es @ es')" using a b by (simp add: sound_def)
  have l: "(is_alive u \<longrightarrow> is_alive s \<and> (0 \<le> hp s \<longrightarrow> 0 \<le> hp u)) \<and> (is_alive s \<and> \<not> is_alive u \<longrightarrow> hp u < 0)"
    using a b al unfolding sound_def by blast
  show ?thesis unfolding sound_def using e n t(2) h l b by (simp add: sound_def)
qed

lemma usable_forget:
  assumes "ready s" and "e < alive_enemies s"
  shows "usable (forget_enemy e s) = usable s - {enemies s ! e}" and "ready (forget_enemy e s)"
proof -
  let ?n = "alive_enemies s" and ?xs = "enemies s"
  have l: "?n \<le> length ?xs" "distinct ?xs" "?n - 1 < length ?xs" "e < length ?xs"
    using assms by (auto simp: ready_def)
  have "last (take ?n ?xs) = ?xs ! (?n - 1)" using assms l(1) by (subst last_conv_nth) (auto simp: min_def)
  then have t: "take (?n - 1) (swap_at e (?n - 1) ?xs) = butlast ((take ?n ?xs)[e := last (take ?n ?xs)])"
    using l(1) assms(2) by (simp add: swap_at_def take_update_swap butlast_list_update butlast_take list_update_beyond)
  show "usable (forget_enemy e s) = usable s - {enemies s ! e}"
    using set_take_out(1) [of e "take ?n ?xs"] assms(2) l(1,2) t
    by (simp add: usable_def forget_enemy_def Let_def)
  show "ready (forget_enemy e s)" using l by (simp add: ready_def forget_enemy_def Let_def)
qed

lemma aim_usable: "ready s \<Longrightarrow> alive_enemies s \<noteq> 0 \<Longrightarrow> enemies s ! (v mod alive_enemies s) \<in> usable s"
  unfolding usable_def ready_def by (auto simp: in_set_conv_nth intro!: exI [of _ "v mod alive_enemies s"])

lemma sint_byte: "0 \<le> x \<Longrightarrow> x < 128 \<Longrightarrow> sint (word_of_int x :: 8 word) = x"
  using signed_take_bit_int_eq_self [of 7 x] by (simp add: sint_sbintrunc')

lemma damage_range:
  assumes "0 \<le> att" and "att \<le> 127"
  shows "0 \<le> sint (word_of_int (v mod \<bar>att + 1\<bar>) :: 8 word)" and "sint (word_of_int (v mod \<bar>att + 1\<bar>) :: 8 word) \<le> att"
proof -
  let ?x = "v mod \<bar>att + 1\<bar>"
  have x: "0 \<le> ?x" "?x < att + 1" using assms pos_mod_bound [of "att + 1" v] by simp_all
  then have "sint (word_of_int ?x :: 8 word) = ?x" by (intro sint_byte) (use assms in linarith)+
  with x show "0 \<le> sint (word_of_int ?x :: 8 word)" "sint (word_of_int ?x :: 8 word) \<le> att" by simp_all
qed

text \<open>A piece of the fight that starts at \<open>s\<close>, also when the process leaves early.\<close>

definition sound_run :: "int \<Rightarrow> fighter \<Rightarrow> (blow, fighter) io \<Rightarrow> bool" where
  "sound_run att s m \<longleftrightarrow> (case snd m of
      Inr s' \<Rightarrow> sound att s (fst m) s'
    | Inl _ \<Rightarrow> (\<forall>e \<in> set (fst m). fair_blow att e) \<and> no_reuse (fst m) \<and> targets (fst m) \<subseteq> usable s)"

lemma sound_run_die: "sound_run att s (die e)"
  by (simp add: sound_run_def)

lemma sound_run_ret: "ready s \<Longrightarrow> sound_run att s (ret s)"
  by (simp add: sound_run_def sound_refl)

text \<open>Going on after a piece that the knight survived.\<close>

lemma sound_run_more:
  assumes "sound att s es t" and "is_alive t" and "sound_run att t m"
  shows "sound_run att s (es @ fst m, snd m)"
proof (cases "snd m")
  case (Inr u)
  with assms show ?thesis by (auto simp: sound_run_def intro: sound_trans)
next
  case (Inl e)
  have "targets (fst m) \<subseteq> usable t" "usable t \<subseteq> usable s - gone es" "no_reuse es" "no_reuse (fst m)" "targets es \<subseteq> usable s"
    "\<forall>e \<in> set (es @ fst m). fair_blow att e"
    using assms Inl by (auto simp: sound_run_def sound_def)
  with Inl show ?thesis by (auto simp: sound_run_def)
qed

lemma read_blows_sound: "ready s \<Longrightarrow> is_alive s \<Longrightarrow> sound_run att s (read_blows nm as s)"
proof (induction as arbitrary: s)
  case Nil
  then show ?case by (simp add: sound_run_ret)
next
  case (Cons a as)
  show ?case
  proof (cases a)
    case (Fail e)
    with Cons.prems show ?thesis by (simp add: sound_run_die sound_run_ret)
  next
    case (Ok got)
    show ?thesis
    proof (cases got)
      case None
      have "sound att s [] (s\<lparr>alive_enemies := 0\<rparr>)" using Cons.prems by (simp add: sound_def ready_def usable_def)
      with Ok None show ?thesis by (simp add: sound_run_def)
    next
      case (Some b)
      let ?s = "s\<lparr>hp := hp s - sint b\<rparr>"
      have r: "ready ?s" "is_alive ?s" using Cons.prems by (simp_all add: ready_def)
      show ?thesis
      proof (cases "in_int (hp ?s)")
        case False
        with Ok Some Cons.prems show ?thesis by (simp add: sound_run_def sound_def fair_blow_def)
      next
        case in_range: True
        show ?thesis
        proof (cases "hp ?s < 0")
          case True
          then have "sound att s [Took b, Dies nm] (?s\<lparr>is_alive := False\<rparr>)"
            using Cons.prems by (simp add: sound_def ready_def usable_def fair_blow_def)
          with Ok Some True in_range show ?thesis by (simp add: sound_run_def)
        next
          case False
          then have "sound att s [Took b] ?s"
            using Cons.prems by (simp add: sound_def ready_def usable_def fair_blow_def)
          from sound_run_more [OF this r(2) Cons.IH [OF r]] False Ok Some in_range show ?thesis by simp
        qed
      qed
    qed
  qed
qed

definition forget_run :: "(blow, fighter \<times> rng) io \<Rightarrow> (blow, fighter) io" where
  "forget_run m = (fst m, map_sum id fst (snd m))"

lemma strike_sound:
  "0 \<le> att \<Longrightarrow> att \<le> 127 \<Longrightarrow> ready s \<Longrightarrow> is_alive s \<Longrightarrow> sound_run att s (forget_run (strike att r as s))"
proof (induction att r as s rule: strike.induct)
  case (1 att r as s)
  define enemy where "enemy = fst (rand r) mod alive_enemies s"
  let ?fd = "enemies s ! enemy"
  show ?case
  proof (cases "alive_enemies s = 0")
    case True
    with "1.prems" sound_run_ret [of s att] show ?thesis
      by (simp add: strike.simps [of att r as s] forget_run_def ret_def)
  next
    case n: False
    have att: "in_int (att + 1)" "att + 1 \<noteq> 0" using "1.prems"(1,2) by (simp_all add: in_int_def)
    have aim: "?fd \<in> usable s" "enemy < alive_enemies s"
      using aim_usable [OF "1.prems"(3) n] n by (simp_all add: enemy_def)
    have "sound att s [Strikes ?fd d] s" if "0 \<le> sint d" "sint d \<le> att" for d
      using "1.prems" that aim(1) by (simp add: sound_def fair_blow_def ready_def)
    from this [OF damage_range [OF "1.prems"(1,2)]]
    have hit: "sound att s [Strikes ?fd (word_of_int (v mod \<bar>att + 1\<bar>))] s" for v .
    show ?thesis
    proof (cases "\<exists>e as'. as = Fail e # as'")
      case False
      then have "strike att r as s = seq (emit [Strikes ?fd (word_of_int (int (fst (rand (snd (rand r)))) mod \<bar>att + 1\<bar>))])
          (\<lambda>_. ret (s, snd (rand (snd (rand (snd (rand r)))))))"
        using n att by (auto simp: strike.simps [of att r as s] enemy_def Let_def split: list.split sysret.split)
      then show ?thesis using hit by (simp add: forget_run_def sound_run_def)
    next
      case True
      then obtain e as' where a: "as = Fail e # as'" by blast
      show ?thesis
      proof (cases "e = EPIPE")
        case False
        then have "strike att r as s = die (ERR ''write'')" using n att
          unfolding a by (subst strike.simps) (simp add: Let_def)
        then show ?thesis by (simp add: forget_run_def sound_run_def)
      next
        case True
        let ?s = "forget_enemy enemy s"
        note f = usable_forget [OF "1.prems"(3) aim(2)]
        have "sound att s [FoundDead ?fd] ?s"
          using f aim(1) "1.prems"(4) by (auto simp: sound_def fair_blow_def ready_def forget_enemy_def Let_def)
        moreover have "is_alive ?s" using "1.prems"(4) by (simp add: forget_enemy_def Let_def)
        moreover have "sound_run att ?s (forget_run (strike att (snd (rand (snd (rand r)))) as' ?s))"
          using "1.IH" [OF n enemy_def refl _ _ refl refl refl a refl True "1.prems"(1,2) f(2)] att calculation(2) by simp
        ultimately have "sound_run att s ([FoundDead ?fd] @ fst (forget_run (strike att (snd (rand (snd (rand r)))) as' ?s)),
             snd (forget_run (strike att (snd (rand (snd (rand r)))) as' ?s)))"
          by (rule sound_run_more)
        moreover have "strike att r as s = seq (emit [FoundDead ?fd]) (\<lambda>_. strike att (snd (rand (snd (rand r)))) as' ?s)"
          using n att True unfolding a by (subst strike.simps) (simp add: enemy_def Let_def)
        ultimately show ?thesis by (simp add: forget_run_def)
      qed
    qed
  qed
qed

lemma forget_run_Inr: "snd m = Inr (s2, r') \<Longrightarrow> snd (forget_run m) = Inr s2"
  by (simp add: forget_run_def)

lemma forget_run_Inl: "snd m = Inl e \<Longrightarrow> snd (forget_run m) = Inl e"
  by (simp add: forget_run_def)

lemma fst_forget_run [simp]: "fst (forget_run m) = fst m"
  by (simp add: forget_run_def)

lemma seq_cases:
  "(\<exists>e. snd m = Inl e \<and> seq m f = (fst m, Inl e)) \<or>
   (\<exists>x. snd m = Inr x \<and> seq m f = (fst m @ fst (f x), snd (f x)))"
  by (cases m; cases "snd m") (auto simp: seq_def split: prod.splits)

lemma fight_sound:
  "0 \<le> attack k \<Longrightarrow> attack k \<le> 127 \<Longrightarrow> ready s \<Longrightarrow> is_alive s \<Longrightarrow> sound_run (attack k) s (fight k r ts s)"
proof (induction ts arbitrary: r s)
  case Nil
  then show ?case by (simp add: sound_run_ret)
next
  case (Cons t ts)
  let ?rb = "read_blows (name k) (t_reads t) s"
  have R: "sound_run (attack k) s ?rb" by (rule read_blows_sound [OF Cons.prems(3,4)])
  let ?g = "\<lambda>(s2, r'). fight k r' ts s2"
  let ?f = "\<lambda>s1. if \<not> is_alive s1 \<or> alive_enemies s1 = 0 then ret s1 else seq (strike (attack k) r (t_writes t) s1) ?g"
  show ?case
  proof (cases "alive_enemies s > 0")
    case False
    with Cons.prems show ?thesis by (simp add: sound_run_ret)
  next
    case True
    then have F: "fight k r (t # ts) s = seq ?rb ?f" using Cons.prems(4) by simp
    from seq_cases [of ?rb ?f] show ?thesis
    proof (elim disjE exE conjE)
      fix e
      assume "snd ?rb = Inl e" "seq ?rb ?f = (fst ?rb, Inl e)"
      with R show ?thesis unfolding F by (simp add: sound_run_def)
    next
      fix s1
      assume s1: "snd ?rb = Inr s1" "seq ?rb ?f = (fst ?rb @ fst (?f s1), snd (?f s1))"
      then have S: "sound (attack k) s (fst ?rb) s1" using R by (simp add: sound_run_def)
      show ?thesis
      proof (cases "\<not> is_alive s1 \<or> alive_enemies s1 = 0")
        case True
        then show ?thesis unfolding F s1(2) using S by (simp add: sound_run_def)
      next
        case False
        let ?st = "strike (attack k) r (t_writes t) s1"
        have T: "sound_run (attack k) s1 (forget_run ?st)"
          using strike_sound Cons.prems(1,2) sound_ready [OF S] False by simp
        have M: "sound_run (attack k) s1 (seq ?st ?g)"
          using seq_cases [of ?st ?g]
        proof (elim disjE exE conjE)
          fix e
          assume "snd ?st = Inl e" "seq ?st ?g = (fst ?st, Inl e)"
          with T show ?thesis by (simp add: sound_run_def forget_run_Inl)
        next
          fix x
          assume x: "snd ?st = Inr x" "seq ?st ?g = (fst ?st @ fst (?g x), snd (?g x))"
          obtain s2 r' where s2: "x = (s2, r')" by (cases x)
          have S2: "sound (attack k) s1 (fst ?st) s2" using T x(1) s2 by (simp add: sound_run_def forget_run_def)
          show ?thesis
          proof (cases "is_alive s2")
            case True
            have "sound_run (attack k) s2 (fight k r' ts s2)"
              by (rule Cons.IH [OF Cons.prems(1,2) sound_ready [OF S2] True])
            from sound_run_more [OF S2 True this] show ?thesis unfolding x(2) s2 by simp
          next
            case False
            then have "fight k r' ts s2 = ret s2" by (cases ts) simp_all
            then show ?thesis unfolding x(2) s2 using S2 by (simp add: sound_run_def)
          qed
        qed
        have "is_alive s1" using False by simp
        from sound_run_more [OF S this M] False show ?thesis unfolding F s1(2) by simp
      qed
    qed
  qed
qed

text \<open>
  C37: A knight whose life is not negative and whose attack is between 0 and 127 deals blows between 0 and its attack, only through the
  pipes of its enemies and never through one it has found broken; its life is what it had less the blows
  it took, and it dies exactly when that is negative.
\<close>
theorem knight_fights_fair:
  assumes "0 \<le> attack k" and "attack k \<le> 127" and "0 \<le> HP k" and "distinct pipes"
  shows "case child_work k rd pipes r ts open_fds of (es, res) \<Rightarrow>
           (\<forall>fd d. Strikes fd d \<in> set es \<longrightarrow> fd \<in> set pipes \<and> 0 \<le> sint d \<and> sint d \<le> attack k) \<and> no_reuse es \<and>
           (\<forall>s. res = Inr s \<longrightarrow> hp s = HP k - taken es \<and> (is_alive s \<longleftrightarrow> 0 \<le> hp s))"
proof -
  let ?s = "\<lparr>hp = HP k, is_alive = True, enemies = pipes, alive_enemies = length pipes, fds = open_fds\<rparr>"
  have "sound_run (attack k) ?s (fight k r ts ?s)"
    using assms by (intro fight_sound) (simp_all add: ready_def)
  moreover have "usable ?s = set pipes" by (simp add: usable_def)
  ultimately show ?thesis using assms(3)
    by (cases "fight k r ts ?s"; cases "snd (fight k r ts ?s)")
       (fastforce simp: child_work_def close_enemies_def sound_run_def sound_def fair_blow_def targets_def)+
qed

text \<open>A stronger knight can heal: an attack of 255 and a draw of 254 make a blow of -2.\<close>

lemma strong_knight_heals: "sint (word_of_int (int 254 mod \<bar>255 + 1\<bar>) :: 8 word) = -2"
  by simp

theorem knight_fights_fair_witness:
  "no_reuse (fst (child_work \<lparr>name = ''Roland'', HP = 50, attack = 10\<rparr> 3 [5, 7] (\<lambda>_. 4)
      [\<lparr>t_reads = [Ok (Some 9), Fail EAGAIN], t_writes = [Fail EPIPE, Ok ()]\<rparr>] {}))"
  using knight_fights_fair [of "\<lparr>name = ''Roland'', HP = 50, attack = 10\<rparr>" "[5, 7]" 3 "\<lambda>_. 4"
      "[\<lparr>t_reads = [Ok (Some 9), Fail EAGAIN], t_writes = [Fail EPIPE, Ok ()]\<rparr>]" "{}"]
  by (simp add: case_prod_beta)

end
