(* ===== verification/Battle.thy ===== *)
theory Battle
  imports Roncevaux
begin

text \<open>
  The whole battle of \<^verbatim>\<open>lab05/prelab/sop-roncevaux.c\<close>: all knights of both armies as
  processes that read from their pipes and strike the enemies through theirs, one system call a step.
  An enemy's descriptor is his place in his army, as in \<^verbatim>\<open>enemyPipes\<close>; what happens on an enemy who
  is gone is \<open>forget_enemy\<close> of \<open>Roncevaux\<close>.  The knights start when all have closed the ends they do not use.
\<close>

abbreviation PIPE_SIZE :: nat where "PIPE_SIZE \<equiv> 65536"

datatype wpos = Reading | Striking | Ended

text \<open>\<open>inbox\<close>: the bytes in the pipe of the knight; \<open>dealt\<close>: the sum of the blows he has struck.\<close>

record warrior =
  who :: knight
  body :: fighter
  wpos :: wpos
  inbox :: "8 word list"
  dealt :: int

text \<open>The armies: \<open>True\<close> the Franks, \<open>False\<close> the Saracens.\<close>

type_synonym battle = "bool \<Rightarrow> warrior list"

section \<open>The steps\<close>

definition set_warrior :: "bool \<Rightarrow> nat \<Rightarrow> warrior \<Rightarrow> battle \<Rightarrow> battle" where
  "set_warrior b i w s = s(b := (s b)[i := w])"

definition all_ended :: "warrior list \<Rightarrow> bool" where
  "all_ended ws \<longleftrightarrow> (\<forall>w \<in> set ws. wpos w = Ended)"

text \<open>A read without waiting.  There is no step where the life would leave the range of \<^verbatim>\<open>int\<close>.\<close>

definition read_step :: "bool \<Rightarrow> nat \<Rightarrow> battle \<Rightarrow> warrior option" where
  "read_step b i s =
     (let w = s b ! i in
      case inbox w of
        c # cs \<Rightarrow>
          let h = hp (body w) - sint c in
          if \<not> in_int h then None
          else if h < 0 then Some (w\<lparr>inbox := cs, body := (body w)\<lparr>hp := h, is_alive := False\<rparr>, wpos := Ended\<rparr>)
          else Some (w\<lparr>inbox := cs, body := (body w)\<lparr>hp := h\<rparr>\<rparr>)
      | [] \<Rightarrow>
          if all_ended (s (\<not> b)) then Some (w\<lparr>body := (body w)\<lparr>alive_enemies := 0\<rparr>, wpos := Ended\<rparr>)
          else Some (w\<lparr>wpos := Striking\<rparr>))"

text \<open>
  A write; \<open>r1\<close> and \<open>r2\<close> are what \<^verbatim>\<open>rand\<close> returns.  There is no step while the pipe is full, and none
  where C has no meaning for \<^verbatim>\<open>rand() % (attack + 1)\<close>.
\<close>

definition strike_step :: "nat \<Rightarrow> nat \<Rightarrow> bool \<Rightarrow> nat \<Rightarrow> battle \<Rightarrow> battle option" where
  "strike_step r1 r2 b i s =
     (let w = s b ! i; enemy = r1 mod alive_enemies (body w); k = nat (enemies (body w) ! enemy);
          damage = word_of_int (int r2 mod \<bar>attack (who w) + 1\<bar>) :: 8 word; t = s (\<not> b) ! k in
      if \<not> in_int (attack (who w) + 1) \<or> attack (who w) + 1 = 0 then None
      else if wpos t = Ended
      then let f = forget_enemy enemy (body w) in
        Some (set_warrior b i (w\<lparr>body := f, wpos := (if alive_enemies f = 0 then Ended else Striking)\<rparr>) s)
      else if length (inbox t) < PIPE_SIZE
      then Some (set_warrior b i (w\<lparr>wpos := Reading, dealt := dealt w + sint damage\<rparr>)
             (set_warrior (\<not> b) k (t\<lparr>inbox := inbox t @ [damage]\<rparr>) s))
      else None)"

inductive battle_step :: "battle \<Rightarrow> battle \<Rightarrow> bool" where
  reads: "i < length (s b) \<Longrightarrow> wpos (s b ! i) = Reading \<Longrightarrow> read_step b i s = Some w \<Longrightarrow> battle_step s (set_warrior b i w s)"
| strikes: "i < length (s b) \<Longrightarrow> wpos (s b ! i) = Striking \<Longrightarrow> strike_step r1 r2 b i s = Some t \<Longrightarrow> battle_step s t"

text \<open>A knight at the start, against \<open>m\<close> enemies.\<close>

definition new_warrior :: "nat \<Rightarrow> knight \<Rightarrow> warrior" where
  "new_warrior m k =
     \<lparr>who = k, body = \<lparr>hp = HP k, is_alive = True, enemies = map int [0..<m], alive_enemies = m, fds = int ` {0..<m}\<rparr>,
      wpos = (if 0 < m then Reading else Ended), inbox = [], dealt = 0\<rparr>"

definition battle_start :: "knight list \<Rightarrow> knight list \<Rightarrow> battle" where
  "battle_start franci saraceni =
     (\<lambda>b. if b then map (new_warrior (length saraceni)) franci else map (new_warrior (length franci)) saraceni)"

section \<open>One army wins\<close>

text \<open>Who ends alive has found every enemy gone.\<close>

definition victor :: "warrior \<Rightarrow> bool" where
  "victor w \<longleftrightarrow> wpos w = Ended \<and> is_alive (body w)"

definition dead :: "warrior \<Rightarrow> bool" where
  "dead w \<longleftrightarrow> wpos w = Ended \<and> \<not> is_alive (body w)"

text \<open>The enemies a knight still aims at, and the others, who are gone.\<close>

definition knows :: "battle \<Rightarrow> bool \<Rightarrow> warrior \<Rightarrow> bool" where
  "knows s b w \<longleftrightarrow> ready (body w) \<and> set (enemies (body w)) = int ` {0..<length (s (\<not> b))} \<and>
     (\<forall>k < length (s (\<not> b)). int k \<notin> usable (body w) \<longrightarrow> wpos (s (\<not> b) ! k) = Ended) \<and>
     (wpos w = Striking \<longrightarrow> 0 < alive_enemies (body w)) \<and> (is_alive (body w) \<longleftrightarrow> 0 \<le> hp (body w)) \<and>
     (\<not> is_alive (body w) \<longrightarrow> wpos w = Ended) \<and> (wpos w = Reading \<longrightarrow> 0 < alive_enemies (body w))"

definition one_side :: "battle \<Rightarrow> bool" where
  "one_side s \<longleftrightarrow> (\<forall>b. (\<exists>w \<in> set (s b). victor w) \<longrightarrow> (\<forall>v \<in> set (s (\<not> b)). dead v))"

text \<open>The blood of an army, spilt or still on its way, and the blows of the other.\<close>

definition blood :: "warrior \<Rightarrow> int" where
  "blood w = HP (who w) - hp (body w) + sum_list (map sint (inbox w))"

lemma set_warrior_simps [simp]:
  "set_warrior b i w s b = (s b)[i := w]" "set_warrior b i w s (\<not> b) = s (\<not> b)" "length (set_warrior b i w s c) = length (s c)"
  by (simp_all add: set_warrior_def)

text \<open>When nobody comes back, what the others know stays true.\<close>

lemma knows_mono:
  assumes "knows s b w" and "length (t (\<not> b)) = length (s (\<not> b))"
    and "\<And>k. k < length (s (\<not> b)) \<Longrightarrow> wpos (s (\<not> b) ! k) = Ended \<Longrightarrow> wpos (t (\<not> b) ! k) = Ended"
  shows "knows t b w"
  using assms by (simp add: knows_def)

text \<open>A knight who was not at his end changes.\<close>

lemma all_know:
  assumes inv: "\<And>c w. w \<in> set (s c) \<Longrightarrow> knows s c w" and i: "i < length (s b)" and n: "wpos (s b ! i) \<noteq> Ended"
    and w: "knows s b w" and c: "v \<in> set (set_warrior b i w s c)"
  shows "knows (set_warrior b i w s) c v"
proof -
  have same: "wpos (set_warrior b i w s (\<not> c) ! k) = Ended" if "wpos (s (\<not> c) ! k) = Ended" for k
    using that n i by (cases "(\<not> c) = b"; cases "k = i") (auto simp: set_warrior_def)
  have "v = w \<and> c = b \<or> v \<in> set (s c)"
    using c set_update_subset_insert [of "s b" i w] by (cases "c = b") (auto simp: set_warrior_def)
  then have "knows s c v" using w inv by blast
  then show ?thesis by (rule knows_mono) (use same in simp_all)
qed

lemma one_side_step:
  assumes o: "one_side s" and i: "i < length (s b)" and n: "wpos (s b ! i) \<noteq> Ended"
    and v: "victor w \<Longrightarrow> all_ended (s (\<not> b))"
  shows "one_side (set_warrior b i w s)"
proof -
  let ?x = "s b ! i"
  have x: "?x \<in> set (s b)" "\<not> dead ?x" using i n by (simp_all add: dead_def)
  have no: "\<not> victor v" if m: "v \<in> set (s (\<not> b))" for v
    using o [unfolded one_side_def, THEN spec, of "\<not> b"] x m by auto
  have old: "\<forall>u \<in> set (s (\<not> b)). dead u" if "v \<in> set (s b)" "victor v" for v
    using o that unfolding one_side_def by blast
  have new: "\<forall>u \<in> set (s (\<not> b)). dead u" if "victor w"
    using v [OF that] no by (auto simp: all_ended_def dead_def victor_def)
  have "\<forall>v \<in> set (set_warrior b i w s (\<not> c)). dead v" if u: "u \<in> set (set_warrior b i w s c)" "victor u" for c u
  proof (cases "c = b")
    case True
    then have "u = w \<or> u \<in> set (s b)" using u(1) set_update_subset_insert [of "s b" i w] by auto
    then show ?thesis using True new old u(2) by auto
  next
    case False
    then have "u \<in> set (s (\<not> b))" using u(1) by (cases b; cases c) (auto simp: set_warrior_def)
    then show ?thesis using no u(2) by blast
  qed
  then show ?thesis unfolding one_side_def by blast
qed

definition in_order :: "battle \<Rightarrow> bool" where
  "in_order s \<longleftrightarrow> (\<forall>b. \<forall>w \<in> set (s b). knows s b w) \<and> one_side s"

lemma in_orderD:
  assumes "in_order s"
  shows "w \<in> set (s b) \<Longrightarrow> knows s b w" and "one_side s"
  using assms by (simp_all add: in_order_def)

lemma in_order_step:
  assumes s: "in_order s" and i: "i < length (s b)" and n: "wpos (s b ! i) \<noteq> Ended"
    and w: "knows s b w" and v: "victor w \<Longrightarrow> all_ended (s (\<not> b))"
  shows "in_order (set_warrior b i w s)"
  using all_know [OF in_orderD(1) [OF s] i n w] one_side_step [OF in_orderD(2) [OF s] i n v]
  unfolding in_order_def by blast

text \<open>A knight who has no enemy to aim at knows that all are gone.\<close>

lemma none_usable: "knows s b w \<Longrightarrow> alive_enemies (body w) = 0 \<Longrightarrow> all_ended (s (\<not> b))"
  by (auto simp: knows_def usable_def all_ended_def in_set_conv_nth)

lemma read_in_order:
  assumes s: "in_order s" and i: "i < length (s b)" and r: "wpos (s b ! i) = Reading" and v: "read_step b i s = Some v"
  shows "in_order (set_warrior b i v s)"
proof (rule in_order_step [OF s i])
  let ?w = "s b ! i"
  have k: "knows s b ?w" using i by (intro in_orderD(1) [OF s]) simp
  have e: "wpos (s (\<not> b) ! j) = Ended" if "all_ended (s (\<not> b))" "j < length (s (\<not> b))" for j
    using that by (simp add: all_ended_def)
  show "wpos ?w \<noteq> Ended" using r by simp
  show "knows s b v"
    using v k r e by (auto simp: knows_def read_step_def Let_def ready_def usable_def split: list.splits if_splits)
  show "all_ended (s (\<not> b))" if "victor v"
    using that v k r by (auto simp: victor_def read_step_def Let_def knows_def split: list.splits if_splits)
qed

text \<open>The place an unrefused or refused blow is aimed at.\<close>

lemma aimed_at:
  assumes "knows s b w" and "wpos w = Striking"
  shows "nat (enemies (body w) ! (r mod alive_enemies (body w))) < length (s (\<not> b))"
    and "int (nat (enemies (body w) ! (r mod alive_enemies (body w)))) = enemies (body w) ! (r mod alive_enemies (body w))"
    and "r mod alive_enemies (body w) < alive_enemies (body w)"
proof -
  let ?e = "r mod alive_enemies (body w)"
  have a: "ready (body w)" "alive_enemies (body w) \<noteq> 0" "set (enemies (body w)) = int ` {0..<length (s (\<not> b))}"
    using assms by (simp_all add: knows_def)
  have "enemies (body w) ! ?e \<in> set (enemies (body w))"
    using aim_usable [OF a(1,2), of r] set_take_subset [of "alive_enemies (body w)" "enemies (body w)"] by (auto simp: usable_def)
  then have "enemies (body w) ! ?e \<in> int ` {0..<length (s (\<not> b))}" by (simp only: a(3))
  then show "nat (enemies (body w) ! ?e) < length (s (\<not> b))" "int (nat (enemies (body w) ! ?e)) = enemies (body w) ! ?e"
    by auto
  show "?e < alive_enemies (body w)" using a(2) by simp
qed

lemma knows_forget:
  assumes k: "knows s b w" and e: "e < alive_enemies (body w)"
    and gone: "wpos (s (\<not> b) ! nat (enemies (body w) ! e)) = Ended" and a: "is_alive (body w)"
  defines "f \<equiv> forget_enemy e (body w)"
  shows "knows s b (w\<lparr>body := f, wpos := (if alive_enemies f = 0 then Ended else Striking)\<rparr>)"
proof -
  have r: "ready (body w)" using k by (simp add: knows_def)
  note u = usable_forget [OF r e, folded f_def]
  have l: "e < length (enemies (body w))" "alive_enemies (body w) - 1 < length (enemies (body w))"
    using r e by (auto simp: ready_def)
  have same: "set (enemies f) = set (enemies (body w))" "hp f = hp (body w)" "is_alive f = is_alive (body w)"
    using l by (simp_all add: f_def forget_enemy_def Let_def swap_at_def)
  have "wpos (s (\<not> b) ! j) = Ended" if "j < length (s (\<not> b))" "int j \<notin> usable f" for j
  proof (cases "int j \<in> usable (body w)")
    case True
    then have "int j = enemies (body w) ! e" using that(2) u(1) by blast
    then have "nat (enemies (body w) ! e) = j" by simp
    then show ?thesis using gone by simp
  next
    case False
    then show ?thesis using k that(1) by (simp add: knows_def)
  qed
  then show ?thesis using k u(2) same a by (simp add: knows_def)
qed

lemma knows_cong:
  "knows s b w \<Longrightarrow> body v = body w \<Longrightarrow> wpos w \<noteq> Ended \<Longrightarrow> wpos v = wpos w \<or> (wpos v = Reading \<and> wpos w = Striking) \<Longrightarrow> knows s b v"
  by (auto simp: knows_def)

text \<open>The two outcomes of a write.\<close>

lemma strike_cases:
  assumes "strike_step r1 r2 b i s = Some t"
  defines "w \<equiv> s b ! i"
  defines "e \<equiv> r1 mod alive_enemies (body w)"
  defines "k \<equiv> nat (enemies (body w) ! e)"
  defines "f \<equiv> forget_enemy e (body w)"
  shows "(wpos (s (\<not> b) ! k) = Ended \<and>
       t = set_warrior b i (w\<lparr>body := f, wpos := (if alive_enemies f = 0 then Ended else Striking)\<rparr>) s) \<or>
    (\<exists>d. wpos (s (\<not> b) ! k) \<noteq> Ended \<and>
       t = set_warrior b i (w\<lparr>wpos := Reading, dealt := dealt w + sint d\<rparr>)
             (set_warrior (\<not> b) k ((s (\<not> b) ! k)\<lparr>inbox := inbox (s (\<not> b) ! k) @ [d]\<rparr>) s))"
  using assms(1) unfolding strike_step_def Let_def w_def e_def k_def f_def by (simp split: if_splits) blast

lemma set_warrior_other [simp]: "set_warrior (\<not> b) i w s b = s b"
  by (simp add: set_warrior_def)

lemma strike_in_order:
  assumes s: "in_order s" and i: "i < length (s b)" and w: "wpos (s b ! i) = Striking"
    and t: "strike_step r1 r2 b i s = Some t"
  shows "in_order t"
proof -
  let ?w = "s b ! i"
  let ?e = "r1 mod alive_enemies (body ?w)"
  let ?k = "nat (enemies (body ?w) ! ?e)"
  let ?f = "forget_enemy ?e (body ?w)"
  let ?v = "s (\<not> b) ! ?k"
  have kn: "knows s b ?w" using i by (intro in_orderD(1) [OF s]) simp
  have al: "is_alive (body ?w)" using kn w unfolding knows_def by fastforce
  note aim = aimed_at [OF kn w, of r1]
  show ?thesis using strike_cases [OF t]
  proof (elim disjE exE conjE)
    let ?n = "?w\<lparr>body := ?f, wpos := (if alive_enemies ?f = 0 then Ended else Striking)\<rparr>"
    assume g: "wpos ?v = Ended" and t: "t = set_warrior b i ?n s"
    have n: "knows s b ?n" by (rule knows_forget [OF kn aim(3) g al])
    have "all_ended (s (\<not> b))" if "victor ?n"
      using that none_usable [OF n] by (simp add: victor_def split: if_splits)
    then show ?thesis unfolding t using w by (intro in_order_step [OF s i _ n]) auto
  next
    fix d
    let ?m = "?v\<lparr>inbox := inbox ?v @ [d]\<rparr>"
    let ?u = "set_warrior (\<not> b) ?k ?m s"
    let ?n = "?w\<lparr>wpos := Reading, dealt := dealt ?w + sint d\<rparr>"
    assume g: "wpos ?v \<noteq> Ended" and t: "t = set_warrior b i ?n ?u"
    have "knows s (\<not> b) ?v" using aim(1) by (intro in_orderD(1) [OF s]) simp
    then have m: "knows s (\<not> b) ?m" by (rule knows_cong) (use g in simp_all)
    have u: "in_order ?u" using in_order_step [OF s aim(1) g m] g by (simp add: victor_def)
    have i': "i < length (?u b)" "wpos (?u b ! i) \<noteq> Ended" using i w by simp_all
    have "knows ?u b ?w" using i by (intro in_orderD(1) [OF u]) simp
    then have n: "knows ?u b ?n" by (rule knows_cong) (use w in simp_all)
    show ?thesis unfolding t by (rule in_order_step [OF u i' n]) (simp add: victor_def)
  qed
qed

section \<open>Blood is what was dealt\<close>

definition balanced :: "battle \<Rightarrow> bool" where
  "balanced s \<longleftrightarrow> (\<forall>b. sum_list (map blood (s b)) = sum_list (map dealt (s (\<not> b))))"

lemma sums_set_warrior:
  fixes g :: "warrior \<Rightarrow> int"
  shows "i < length (s b) \<Longrightarrow> sum_list (map g (set_warrior b i w s c)) =
    (if c = b then sum_list (map g (s b)) + g w - g (s b ! i) else sum_list (map g (s c)))"
  by (simp add: set_warrior_def sum_list_replace_int)

lemma read_balanced:
  assumes "balanced s" and "i < length (s b)" and v: "read_step b i s = Some v"
  shows "balanced (set_warrior b i v s)"
proof -
  have "blood v = blood (s b ! i)" "dealt v = dealt (s b ! i)"
    using v by (auto simp: read_step_def blood_def Let_def split: list.splits if_splits)
  with assms show ?thesis by (simp add: balanced_def sums_set_warrior)
qed

lemma strike_balanced:
  assumes s: "in_order s" "balanced s" and i: "i < length (s b)" and w: "wpos (s b ! i) = Striking"
    and t: "strike_step r1 r2 b i s = Some t"
  shows "balanced t"
proof -
  let ?w = "s b ! i"
  let ?k = "nat (enemies (body ?w) ! (r1 mod alive_enemies (body ?w)))"
  let ?v = "s (\<not> b) ! ?k"
  have "knows s b ?w" using i by (intro in_orderD(1) [OF s(1)]) simp
  then have k: "?k < length (s (\<not> b))" by (rule aimed_at(1) [OF _ w])
  have bal: "sum_list (map blood (s c)) = sum_list (map dealt (s (\<not> c)))" for c
    using s(2) by (simp add: balanced_def)
  show ?thesis using strike_cases [OF t]
  proof (elim disjE exE conjE)
    let ?f = "forget_enemy (r1 mod alive_enemies (body ?w)) (body ?w)"
    assume t: "t = set_warrior b i (?w\<lparr>body := ?f, wpos := (if alive_enemies ?f = 0 then Ended else Striking)\<rparr>) s"
    have "hp ?f = hp (body ?w)" by (simp add: forget_enemy_def Let_def)
    then show ?thesis unfolding t balanced_def using bal i by (simp add: sums_set_warrior blood_def)
  next
    fix d
    let ?u = "set_warrior (\<not> b) ?k (?v\<lparr>inbox := inbox ?v @ [d]\<rparr>) s"
    assume t: "t = set_warrior b i (?w\<lparr>wpos := Reading, dealt := dealt ?w + sint d\<rparr>) ?u"
    have u: "?u b = s b" by simp
    have "sum_list (map blood (t c)) = sum_list (map blood (s c)) + (if c = b then 0 else sint d)"
      "sum_list (map dealt (t c)) = sum_list (map dealt (s c)) + (if c = b then sint d else 0)" for c
      unfolding t using i k by (simp_all add: sums_set_warrior sum_list_replace_int blood_def)
    then show ?thesis using bal by (auto simp: balanced_def)
  qed
qed

section \<open>The battle\<close>

text \<open>Nobody starts with a negative life.\<close>

definition battle_init :: "battle \<Rightarrow> bool" where
  "battle_init s \<longleftrightarrow> (\<exists>franci saraceni. (\<forall>k \<in> set (franci @ saraceni). 0 \<le> HP k) \<and> s = battle_start franci saraceni)"

definition battle_inv :: "battle \<Rightarrow> bool" where
  "battle_inv s \<longleftrightarrow> in_order s \<and> balanced s"

lemma knows_new: "0 \<le> HP k \<Longrightarrow> length (s (\<not> b)) = m \<Longrightarrow> knows s b (new_warrior m k)"
  by (auto simp: knows_def new_warrior_def ready_def usable_def distinct_map)

lemma battle_start_inv: "battle_init s \<Longrightarrow> battle_inv s"
proof -
  assume "battle_init s"
  then obtain F S where hp: "\<forall>k \<in> set F. 0 \<le> HP k" "\<forall>k \<in> set S. 0 \<le> HP k" and s: "s = battle_start F S"
    by (auto simp: battle_init_def)
  have "knows s b w" if w: "w \<in> set (s b)" for b w
    using w hp by (cases b) (auto simp: s battle_start_def intro!: knows_new)
  moreover have "one_side s" by (auto simp: one_side_def s battle_start_def victor_def new_warrior_def split: if_splits)
  moreover have "sum_list (map g (s b)) = 0" if "\<And>m k. g (new_warrior m k) = (0::int)" for g b
    by (simp add: s battle_start_def o_def that)
  then have "balanced s" by (simp add: balanced_def blood_def new_warrior_def)
  ultimately show ?thesis by (simp add: battle_inv_def in_order_def)
qed

lemma battle_inv_step: "battle_inv s \<Longrightarrow> battle_step s t \<Longrightarrow> battle_inv t"
  unfolding battle_inv_def using read_in_order read_balanced strike_in_order strike_balanced
  by (elim battle_step.cases conjE) (simp, blast)

interpretation battle: inv_system battle_init battle_step battle_inv
  by unfold_locales (rule battle_start_inv, assumption, rule battle_inv_step)

text \<open>
  C22: One army wins.  Whatever blows are drawn and however the knights of both armies interleave, the knights
  that end alive are of one army only: all their enemies have died, with a negative life; a knight lives as long
  as his life is not negative; and what an army has lost, with what is still in its pipes, is what the other has dealt.
\<close>

theorem battle_one_side:
  assumes "reach battle_init battle_step s"
  shows "(\<forall>b. (\<exists>w \<in> set (s b). victor w) \<longrightarrow> (\<forall>v \<in> set (s (\<not> b)). dead v \<and> hp (body v) < 0)) \<and>
    (\<forall>b. \<forall>w \<in> set (s b). is_alive (body w) \<longleftrightarrow> 0 \<le> hp (body w)) \<and>
    (\<forall>b. sum_list (map blood (s b)) = sum_list (map dealt (s (\<not> b))))"
proof -
  have i: "in_order s" "balanced s" using battle.reach_inv [OF assms] by (simp_all add: battle_inv_def)
  have a: "is_alive (body w) \<longleftrightarrow> 0 \<le> hp (body w)" if "w \<in> set (s b)" for w b
    using in_orderD(1) [OF i(1) that] by (simp add: knows_def)
  have "hp (body v) < 0" if "dead v" "v \<in> set (s b)" for v b
    using a [OF that(2)] that(1) by (simp add: dead_def)
  then show ?thesis using in_orderD(2) [OF i(1)] a i(2) unfolding one_side_def balanced_def by blast
qed

section \<open>A duel\<close>

definition one_blow :: "bool \<times> nat \<times> nat \<times> nat \<Rightarrow> battle \<Rightarrow> battle option" where
  "one_blow = (\<lambda>(b, i, r1, r2) s.
     if length (s b) \<le> i then None
     else case wpos (s b ! i) of
       Reading \<Rightarrow> map_option (\<lambda>w. set_warrior b i w s) (read_step b i s)
     | Striking \<Rightarrow> strike_step r1 r2 b i s
     | Ended \<Rightarrow> None)"

lemma one_blow_step: "one_blow x s = Some t \<Longrightarrow> battle_step s t"
  by (cases x) (auto simp: one_blow_def not_le intro: reads strikes [OF _ _, of _ s] split: if_splits wpos.splits)

lemma run_blows: "reach I battle_step s \<Longrightarrow> run_steps one_blow xs s = Some t \<Longrightarrow> reach I battle_step t"
  by (rule run_steps_reach [where f = one_blow]) (rule one_blow_step)

definition duel :: battle where
  "duel = battle_start [\<lparr>name = ''Roland'', HP = 5, attack = 3\<rparr>] [\<lparr>name = ''Marsile'', HP = 1, attack = 9\<rparr>]"

text \<open>Roland finds no blow, strikes with 2, Marsile dies of it and Roland finds his pipe at its end.\<close>

definition duel_schedule :: "(bool \<times> nat \<times> nat \<times> nat) list" where
  "duel_schedule = [(True, 0, 0, 0), (True, 0, 7, 2), (False, 0, 0, 0), (True, 0, 0, 0)]"

definition after :: "warrior \<Rightarrow> wpos \<times> int \<times> bool" where
  "after w = (wpos w, hp (body w), is_alive (body w))"

lemma duel_run:
  "map_option (\<lambda>s. (map after (s True), map after (s False))) (run_steps one_blow duel_schedule duel)
   = Some ([(Ended, 5, True)], [(Ended, -1, False)])"
  by (simp add: duel_schedule_def duel_def battle_start_def new_warrior_def one_blow_def read_step_def strike_step_def
      set_warrior_def all_ended_def in_int_def Let_def after_def)

lemma duel_init: "battle_init duel"
  unfolding battle_init_def duel_def by (rule exI, rule exI, rule conjI [OF _ refl]) simp

theorem battle_one_side_witness:
  "\<exists>s. reach battle_init battle_step s \<and> map after (s True) = [(Ended, 5, True)] \<and>
     (\<forall>v \<in> set (s False). dead v \<and> hp (body v) < 0) \<and> sum_list (map blood (s False)) = sum_list (map dealt (s True))"
proof -
  obtain s where s: "run_steps one_blow duel_schedule duel = Some s" "map after (s True) = [(Ended, 5, True)]"
    using duel_run by auto
  have r: "reach battle_init battle_step s" by (rule run_blows [OF reach_init s(1)]) (rule duel_init)
  have "\<exists>w \<in> set (s True). victor w" using s(2) by (auto simp: after_def victor_def)
  with battle_one_side [OF r] have "\<forall>v \<in> set (s (\<not> True)). dead v \<and> hp (body v) < 0" by blast
  moreover have "sum_list (map blood (s False)) = sum_list (map dealt (s (\<not> False)))" using battle_one_side [OF r] by blast
  ultimately show ?thesis using r s(2) by auto
qed

end
