(* ===== verification/Factory.thy ===== *)
theory Factory
  imports Prelude
begin

text \<open>
  \<^verbatim>\<open>lab05/sop-factory/sop-factory.c\<close>: three brigades of worker processes.  The first takes
  letters from a FIFO, the second copies them, the third makes words of five; the brigades are joined by
  two pipes, and every worker reports to the boss when it ends.  The workers have opened the FIFO and
  closed the ends they do not use (\<open>first_closes\<close> and so on), and
  \<open>fifo\<close> is all that will still be written to it before its writers close it.  A pipe holds 65536 bytes;
  a read or write that the kernel cannot do yet is a step that is not enabled.  Reads and writes repeated
  after \<^verbatim>\<open>EINTR\<close> appear with their last answer, and fail only with \<^verbatim>\<open>EPIPE\<close>.
\<close>

abbreviation PIPE_SIZE :: nat where "PIPE_SIZE \<equiv> 65536"

text \<open>Where a worker is: at the test of its loop, at the read, with a letter to write \<open>n\<close> times, at its report.\<close>

datatype pos = Test | Reading | Writing char nat | Reporting | Gone

record worker =
  at :: pos
  keep_running :: bool
  items_processed :: nat
  word :: string

record factory =
  fifo :: string
  pipe12 :: string
  pipe23 :: string
  brigade1 :: "worker list"
  brigade2 :: "worker list"
  brigade3 :: "worker list"
  printed :: "string list"

definition new_worker :: worker where
  "new_worker = \<lparr>at = Test, keep_running = True, items_processed = 0, word = []\<rparr>"

definition is_letter :: "char \<Rightarrow> bool" where
  "is_letter c \<longleftrightarrow> 97 \<le> (of_char c :: nat) \<and> (of_char c :: nat) \<le> 122"

definition all_gone :: "worker list \<Rightarrow> bool" where
  "all_gone ws \<longleftrightarrow> (\<forall>w \<in> set ws. at w = Gone)"

text \<open>The steps all workers share.\<close>

definition test :: "worker \<Rightarrow> worker" where
  "test w = w\<lparr>at := (if keep_running w then Reading else Reporting)\<rparr>"

text \<open>\<open>done w\<close>: one more item, back to the test of the loop.\<close>

definition one_more :: "worker \<Rightarrow> worker" where
  "one_more w = w\<lparr>at := Test, items_processed := items_processed w + 1\<rparr>"

definition first_brigade_work :: "nat \<Rightarrow> factory \<Rightarrow> factory option" where
  "first_brigade_work i s =
     (let w = brigade1 s ! i; put = (\<lambda>w' s'. Some (s'\<lparr>brigade1 := (brigade1 s)[i := w']\<rparr>)) in
      case at w of
        Test \<Rightarrow> put (test w) s
      | Reading \<Rightarrow>
          (case fifo s of
             [] \<Rightarrow> put (w\<lparr>at := Reporting\<rparr>) s
           | c # cs \<Rightarrow> put (w\<lparr>at := (if is_letter c then Writing c 1 else Test)\<rparr>) (s\<lparr>fifo := cs\<rparr>))
      | Writing c n \<Rightarrow>
          if all_gone (brigade2 s) then put (w\<lparr>at := Reporting\<rparr>) s
          else if length (pipe12 s) < PIPE_SIZE then put (one_more w) (s\<lparr>pipe12 := pipe12 s @ [c]\<rparr>)
          else None
      | Reporting \<Rightarrow> put (w\<lparr>at := Gone\<rparr>) s
      | Gone \<Rightarrow> None)"

text \<open>\<open>r\<close> is what \<^verbatim>\<open>rand\<close> returns for the number of copies.\<close>

definition second_brigade_work :: "nat \<Rightarrow> nat \<Rightarrow> factory \<Rightarrow> factory option" where
  "second_brigade_work r i s =
     (let w = brigade2 s ! i; put = (\<lambda>w' s'. Some (s'\<lparr>brigade2 := (brigade2 s)[i := w']\<rparr>)) in
      case at w of
        Test \<Rightarrow> put (test w) s
      | Reading \<Rightarrow>
          (case pipe12 s of
             [] \<Rightarrow> if all_gone (brigade1 s) then put (w\<lparr>at := Reporting\<rparr>) s else None
           | c # cs \<Rightarrow> put (w\<lparr>at := Writing c (r mod 4 + 1)\<rparr>) (s\<lparr>pipe12 := cs\<rparr>))
      | Writing c n \<Rightarrow>
          if all_gone (brigade3 s) then put (one_more (w\<lparr>keep_running := False\<rparr>)) s
          else if length (pipe23 s) < PIPE_SIZE
          then put (if n \<le> 1 then one_more w else w\<lparr>at := Writing c (n - 1)\<rparr>) (s\<lparr>pipe23 := pipe23 s @ [c]\<rparr>)
          else None
      | Reporting \<Rightarrow> put (w\<lparr>at := Gone\<rparr>) s
      | Gone \<Rightarrow> None)"

definition third_brigade_work :: "nat \<Rightarrow> factory \<Rightarrow> factory option" where
  "third_brigade_work i s =
     (let w = brigade3 s ! i; put = (\<lambda>w' s'. Some (s'\<lparr>brigade3 := (brigade3 s)[i := w']\<rparr>)) in
      case at w of
        Test \<Rightarrow> put (test w) s
      | Reading \<Rightarrow>
          (case pipe23 s of
             [] \<Rightarrow> if all_gone (brigade2 s) then put (w\<lparr>at := Reporting\<rparr>) s else None
           | c # cs \<Rightarrow>
               let wd = word w @ [c] in
               if length wd = 5
               then put (one_more (w\<lparr>word := []\<rparr>)) (s\<lparr>pipe23 := cs, printed := printed s @ [wd]\<rparr>)
               else put (w\<lparr>at := Test, word := wd\<rparr>) (s\<lparr>pipe23 := cs\<rparr>))
      | Writing c n \<Rightarrow> None
      | Reporting \<Rightarrow> put (w\<lparr>at := Gone\<rparr>) s
      | Gone \<Rightarrow> None)"

inductive work_step :: "factory \<Rightarrow> factory \<Rightarrow> bool" where
  brigade1_step: "i < length (brigade1 s) \<Longrightarrow> first_brigade_work i s = Some t \<Longrightarrow> work_step s t"
| brigade2_step: "i < length (brigade2 s) \<Longrightarrow> second_brigade_work r i s = Some t \<Longrightarrow> work_step s t"
| brigade3_step: "i < length (brigade3 s) \<Longrightarrow> third_brigade_work i s = Some t \<Longrightarrow> work_step s t"

text \<open>The signal handler, in any living worker at any time.\<close>

inductive interrupt :: "factory \<Rightarrow> factory \<Rightarrow> bool" where
  "i < length (brigade1 s) \<Longrightarrow> keep_running (brigade1 s ! i) \<Longrightarrow> at (brigade1 s ! i) \<noteq> Gone \<Longrightarrow>
     interrupt s (s\<lparr>brigade1 := (brigade1 s)[i := (brigade1 s ! i)\<lparr>keep_running := False\<rparr>]\<rparr>)"
| "i < length (brigade2 s) \<Longrightarrow> keep_running (brigade2 s ! i) \<Longrightarrow> at (brigade2 s ! i) \<noteq> Gone \<Longrightarrow>
     interrupt s (s\<lparr>brigade2 := (brigade2 s)[i := (brigade2 s ! i)\<lparr>keep_running := False\<rparr>]\<rparr>)"
| "i < length (brigade3 s) \<Longrightarrow> keep_running (brigade3 s ! i) \<Longrightarrow> at (brigade3 s ! i) \<noteq> Gone \<Longrightarrow>
     interrupt s (s\<lparr>brigade3 := (brigade3 s)[i := (brigade3 s ! i)\<lparr>keep_running := False\<rparr>]\<rparr>)"

definition factory_step :: "factory \<Rightarrow> factory \<Rightarrow> bool" where
  "factory_step s t \<longleftrightarrow> work_step s t \<or> interrupt s t"

definition factory_args :: "int \<Rightarrow> int \<Rightarrow> int \<Rightarrow> bool" where
  "factory_args w1 w2 w3 \<longleftrightarrow> \<not> (w1 < 1 \<or> w1 > 10 \<or> w2 < 1 \<or> w2 > 10 \<or> w3 < 1 \<or> w3 > 10)"

definition factory_start :: "int \<Rightarrow> int \<Rightarrow> int \<Rightarrow> string \<Rightarrow> factory run" where
  "factory_start w1 w2 w3 letters =
     (if \<not> factory_args w1 w2 w3 then Inl Usage
      else Inr \<lparr>fifo = letters, pipe12 = [], pipe23 = [], brigade1 = replicate (nat w1) new_worker,
                brigade2 = replicate (nat w2) new_worker, brigade3 = replicate (nat w3) new_worker, printed = []\<rparr>)"

definition finished :: "factory \<Rightarrow> bool" where
  "finished s \<longleftrightarrow> all_gone (brigade1 s) \<and> all_gone (brigade2 s) \<and> all_gone (brigade3 s)"

text \<open>What the boss prints from the reports when all workers have ended.\<close>

definition summary :: "factory \<Rightarrow> (nat \<times> nat) list" where
  "summary s = map (\<lambda>w. (1, items_processed w)) (brigade1 s) @ map (\<lambda>w. (2, items_processed w)) (brigade2 s) @
     map (\<lambda>w. (3, items_processed w)) (brigade3 s)"

section \<open>The pipes each process keeps\<close>

text \<open>\<open>Report b j\<close> is the pipe on which worker \<open>j\<close> of brigade \<open>b\<close> reports.\<close>

datatype side = Rd | Wr

datatype fd = Pipe12 side | Pipe23 side | Report nat nat side

definition both :: "nat \<Rightarrow> nat \<Rightarrow> fd list" where
  "both b j = [Report b j Rd, Report b j Wr]"

definition own :: "nat \<Rightarrow> nat \<Rightarrow> nat \<Rightarrow> fd list" where
  "own b i j = Report b j Rd # (if j \<noteq> i then [Report b j Wr] else [])"

definition pipes_opened :: "nat \<Rightarrow> nat \<Rightarrow> nat \<Rightarrow> fd list" where
  "pipes_opened w1 w2 w3 = [Pipe12 Rd, Pipe12 Wr, Pipe23 Rd, Pipe23 Wr] @
     concat (map (both 1) [0..<w1]) @ concat (map (both 2) [0..<w2]) @ concat (map (both 3) [0..<w3])"

text \<open>What the children and the boss close, in the order of the source.\<close>

definition first_closes :: "nat \<Rightarrow> nat \<Rightarrow> nat \<Rightarrow> nat \<Rightarrow> fd list" where
  "first_closes w1 w2 w3 i = [Pipe12 Rd, Pipe23 Rd, Pipe23 Wr] @
     concat (map (own 1 i) [0..<w1]) @ concat (map (both 2) [0..<w2]) @ concat (map (both 3) [0..<w3])"

definition second_closes :: "nat \<Rightarrow> nat \<Rightarrow> nat \<Rightarrow> nat \<Rightarrow> fd list" where
  "second_closes w1 w2 w3 i = [Pipe12 Wr, Pipe23 Rd] @
     concat (map (both 1) [0..<w1]) @ concat (map (own 2 i) [0..<w2]) @ concat (map (both 3) [0..<w3])"

definition third_closes :: "nat \<Rightarrow> nat \<Rightarrow> nat \<Rightarrow> nat \<Rightarrow> fd list" where
  "third_closes w1 w2 w3 i = [Pipe12 Rd, Pipe12 Wr, Pipe23 Wr] @
     concat (map (both 1) [0..<w1]) @ concat (map (both 2) [0..<w2]) @ concat (map (own 3 i) [0..<w3])"

definition boss_closes :: "nat \<Rightarrow> nat \<Rightarrow> nat \<Rightarrow> fd list" where
  "boss_closes w1 w2 w3 = [Pipe12 Rd, Pipe12 Wr, Pipe23 Rd, Pipe23 Wr] @
     map (\<lambda>j. Report 1 j Wr) [0..<w1] @ map (\<lambda>j. Report 2 j Wr) [0..<w2] @ map (\<lambda>j. Report 3 j Wr) [0..<w3]"

lemmas closes_defs = pipes_opened_def first_closes_def second_closes_def third_closes_def boss_closes_def both_def own_def

text \<open>
  A worker is left with its ends of the pipes between the brigades and its report pipe, so the readers of a
  pipe see its end exactly when the brigade before them is gone, and the writers \<^verbatim>\<open>EPIPE\<close>
  exactly when the brigade behind them is gone; the boss keeps the reading ends of the reports.
\<close>

lemma first_keeps: "i < w1 \<Longrightarrow> set (pipes_opened w1 w2 w3) - set (first_closes w1 w2 w3 i) = {Pipe12 Wr, Report 1 i Wr}"
  by (auto simp: closes_defs split: if_splits)

lemma second_keeps:
  "i < w2 \<Longrightarrow> set (pipes_opened w1 w2 w3) - set (second_closes w1 w2 w3 i) = {Pipe12 Rd, Pipe23 Wr, Report 2 i Wr}"
  by (auto simp: closes_defs split: if_splits)

lemma third_keeps: "i < w3 \<Longrightarrow> set (pipes_opened w1 w2 w3) - set (third_closes w1 w2 w3 i) = {Pipe23 Rd, Report 3 i Wr}"
  by (auto simp: closes_defs split: if_splits)

lemma boss_keeps:
  "set (pipes_opened w1 w2 w3) - set (boss_closes w1 w2 w3) =
     {Report 1 j Rd |j. j < w1} \<union> {Report 2 j Rd |j. j < w2} \<union> {Report 3 j Rd |j. j < w3}"
  by (auto simp: closes_defs)

lemma closes_open:
  "set (first_closes w1 w2 w3 i) \<subseteq> set (pipes_opened w1 w2 w3)"
  "set (second_closes w1 w2 w3 i) \<subseteq> set (pipes_opened w1 w2 w3)"
  "set (third_closes w1 w2 w3 i) \<subseteq> set (pipes_opened w1 w2 w3)"
  "set (boss_closes w1 w2 w3) \<subseteq> set (pipes_opened w1 w2 w3)"
  by (auto simp: closes_defs split: if_splits)

section \<open>The factory stops\<close>

fun weight1 :: "pos \<Rightarrow> nat" where
  "weight1 Gone = 0" | "weight1 Reporting = 1" | "weight1 Reading = 2" | "weight1 Test = 3"
| "weight1 (Writing c n) = 18"

fun weight2 :: "pos \<Rightarrow> nat" where
  "weight2 Gone = 0" | "weight2 Reporting = 1" | "weight2 Reading = 2" | "weight2 Test = 3"
| "weight2 (Writing c n) = 3 + 3 * (if n = 0 then 1 else n)"

definition load :: "(pos \<Rightarrow> nat) \<Rightarrow> worker \<Rightarrow> nat" where
  "load f w = f (at w) + (if keep_running w then 1 else 0)"

definition work_left :: "factory \<Rightarrow> nat" where
  "work_left s = 17 * length (fifo s) + 14 * length (pipe12 s) + 2 * length (pipe23 s) +
     sum_list (map (load weight1) (brigade1 s)) + sum_list (map (load weight2) (brigade2 s)) +
     sum_list (map (load weight2) (brigade3 s))"

lemma first_brigade_less:
  assumes i: "i < length (brigade1 s)" and t: "first_brigade_work i s = Some t"
  shows "work_left t < work_left s"
proof -
  note S = sum_list_replace [OF i, of "load weight1"]
  show ?thesis
    using t S [of "brigade1 t ! i"]
    by (cases "at (brigade1 s ! i)"; cases "fifo s")
      (auto simp: first_brigade_work_def Let_def work_left_def load_def test_def one_more_def i split: if_splits)
qed

lemma second_brigade_less:
  assumes i: "i < length (brigade2 s)" and t: "second_brigade_work r i s = Some t"
  shows "work_left t < work_left s"
proof -
  note S = sum_list_replace [OF i, of "load weight2"]
  have "r mod 4 + 1 \<le> 4" by simp
  then show ?thesis
    using t S [of "brigade2 t ! i"]
    by (cases "at (brigade2 s ! i)"; cases "pipe12 s")
      (auto simp: second_brigade_work_def Let_def work_left_def load_def test_def one_more_def i split: if_splits)
qed

lemma third_brigade_less:
  assumes i: "i < length (brigade3 s)" and t: "third_brigade_work i s = Some t"
  shows "work_left t < work_left s"
proof -
  note S = sum_list_replace [OF i, of "load weight2"]
  show ?thesis
    using t S [of "brigade3 t ! i"]
    by (cases "at (brigade3 s ! i)"; cases "pipe23 s")
      (auto simp: third_brigade_work_def Let_def work_left_def load_def test_def one_more_def i split: if_splits)
qed

lemma load_interrupted: "keep_running w \<Longrightarrow> load f (w\<lparr>keep_running := False\<rparr>) < load f w"
  by (simp add: load_def)

lemma interrupt_less: "interrupt s t \<Longrightarrow> work_left t < work_left s"
proof (induction rule: interrupt.induct)
  case (1 i s)
  then show ?case
    using sum_list_replace [of i "brigade1 s" "load weight1" "(brigade1 s ! i)\<lparr>keep_running := False\<rparr>"]
      load_interrupted [of "brigade1 s ! i" weight1] by (simp add: work_left_def)
next
  case (2 i s)
  then show ?case
    using sum_list_replace [of i "brigade2 s" "load weight2" "(brigade2 s ! i)\<lparr>keep_running := False\<rparr>"]
      load_interrupted [of "brigade2 s ! i" weight2] by (simp add: work_left_def)
next
  case (3 i s)
  then show ?case
    using sum_list_replace [of i "brigade3 s" "load weight2" "(brigade3 s ! i)\<lparr>keep_running := False\<rparr>"]
      load_interrupted [of "brigade3 s ! i" weight2] by (simp add: work_left_def)
qed

lemma factory_step_less: "factory_step s t \<Longrightarrow> work_left t < work_left s"
  by (auto simp: factory_step_def interrupt_less elim!: work_step.cases
      intro: first_brigade_less second_brigade_less third_brigade_less)

text \<open>Somebody can go on: the last brigade first, as its pipe is the one that must be emptied.\<close>

definition no_writing :: "worker list \<Rightarrow> bool" where
  "no_writing ws \<longleftrightarrow> (\<forall>w \<in> set ws. \<forall>c n. at w \<noteq> Writing c n)"

lemma third_can_go:
  assumes "no_writing (brigade3 s)" and "\<not> all_gone (brigade3 s)" and "\<not> (\<exists>t. work_step s t)"
  shows "pipe23 s = [] \<and> \<not> all_gone (brigade2 s)"
proof -
  from assms(2) obtain i where i: "i < length (brigade3 s)" "at (brigade3 s ! i) \<noteq> Gone"
    by (auto simp: all_gone_def in_set_conv_nth)
  from assms(3) i(1) have n: "third_brigade_work i s = None"
    by (metis brigade3_step not_None_eq)
  have "at (brigade3 s ! i) \<noteq> Writing c k" for c k using assms(1) i(1) by (simp add: no_writing_def)
  with n i(2) show ?thesis
    by (cases "at (brigade3 s ! i)"; cases "pipe23 s") (auto simp: third_brigade_work_def Let_def split: if_splits)
qed

lemma second_can_go:
  assumes "\<not> all_gone (brigade2 s)" and "\<not> (\<exists>t. work_step s t)" and "all_gone (brigade3 s) \<or> pipe23 s = []"
  shows "pipe12 s = [] \<and> \<not> all_gone (brigade1 s)"
proof -
  from assms(1) obtain i where i: "i < length (brigade2 s)" "at (brigade2 s ! i) \<noteq> Gone"
    by (auto simp: all_gone_def in_set_conv_nth)
  from assms(2) i(1) have n: "second_brigade_work 0 i s = None"
    by (metis brigade2_step not_None_eq)
  with assms(3) i(2) show ?thesis
    by (cases "at (brigade2 s ! i)"; cases "pipe12 s") (auto simp: second_brigade_work_def Let_def split: if_splits)
qed

lemma first_can_go:
  assumes "\<not> all_gone (brigade1 s)" and "all_gone (brigade2 s) \<or> pipe12 s = []"
  shows "\<exists>t. work_step s t"
proof -
  from assms(1) obtain i where i: "i < length (brigade1 s)" "at (brigade1 s ! i) \<noteq> Gone"
    by (auto simp: all_gone_def in_set_conv_nth)
  have "first_brigade_work i s \<noteq> None"
    using assms(2) i(2)
    by (cases "at (brigade1 s ! i)"; cases "fifo s") (auto simp: first_brigade_work_def Let_def)
  with i(1) show ?thesis by (metis brigade1_step not_None_eq)
qed

lemma somebody_goes_on:
  assumes "no_writing (brigade3 s)" and "\<not> finished s"
  shows "\<exists>t. work_step s t"
proof (rule ccontr)
  assume n: "\<not> ?thesis"
  have 3: "all_gone (brigade3 s) \<or> pipe23 s = [] \<and> \<not> all_gone (brigade2 s)"
    using third_can_go [OF assms(1) _ n] by blast
  have 2: "all_gone (brigade2 s) \<or> pipe12 s = [] \<and> \<not> all_gone (brigade1 s)"
    using second_can_go [OF _ n] 3 by blast
  have "all_gone (brigade1 s)" using first_can_go [of s] 2 n by blast
  with 2 3 assms(2) show False by (auto simp: finished_def)
qed

lemma gone_no_step: "all_gone ws \<Longrightarrow> i < length ws \<Longrightarrow> at (ws ! i) = Gone"
  by (simp add: all_gone_def)

lemma finished_no_work: "finished s \<Longrightarrow> \<not> work_step s t"
  by (auto simp: finished_def first_brigade_work_def second_brigade_work_def third_brigade_work_def gone_no_step Let_def
      elim!: work_step.cases)

section \<open>Where the letters are\<close>

definition is_writing :: "worker \<Rightarrow> bool" where
  "is_writing w \<longleftrightarrow> (case at w of Writing c n \<Rightarrow> True | _ \<Rightarrow> False)"

text \<open>Items begun, and copies still to be written.\<close>

definition taken :: "worker \<Rightarrow> nat" where
  "taken w = items_processed w + (if is_writing w then 1 else 0)"

definition owed :: "worker \<Rightarrow> nat" where
  "owed w = (case at w of Writing c n \<Rightarrow> n | _ \<Rightarrow> 0)"

definition good :: "char set \<Rightarrow> worker \<Rightarrow> bool" where
  "good L w \<longleftrightarrow> (case at w of Writing c n \<Rightarrow> c \<in> L \<and> 1 \<le> n \<and> n \<le> 4 | _ \<Rightarrow> True) \<and>
     set (word w) \<subseteq> L \<and> length (word w) \<le> 4"

abbreviation total :: "(worker \<Rightarrow> nat) \<Rightarrow> worker list \<Rightarrow> nat" where
  "total f ws \<equiv> sum_list (map f ws)"

definition letters_ok :: "char set \<Rightarrow> factory \<Rightarrow> bool" where
  "letters_ok L s \<longleftrightarrow> (\<forall>w \<in> set (brigade1 s). good L w) \<and> (\<forall>w \<in> set (brigade2 s). good L w) \<and>
     (\<forall>w \<in> set (brigade3 s). good L w \<and> \<not> is_writing w) \<and>
     {c \<in> set (fifo s). is_letter c} \<subseteq> L \<and> set (pipe12 s) \<subseteq> L \<and> set (pipe23 s) \<subseteq> L \<and>
     (\<forall>x \<in> set (printed s). length x = 5 \<and> set x \<subseteq> L)"

definition accounts :: "nat \<Rightarrow> factory \<Rightarrow> bool" where
  "accounts n s \<longleftrightarrow>
     total items_processed (brigade1 s) = length (pipe12 s) + total taken (brigade2 s) \<and>
     length (filter is_letter (fifo s)) + total taken (brigade1 s) \<le> n \<and>
     length (pipe23 s) + 5 * total items_processed (brigade3 s) + total (length \<circ> word) (brigade3 s) +
       total owed (brigade2 s) \<le> 4 * total taken (brigade2 s) \<and>
     length (printed s) = total items_processed (brigade3 s)"

lemmas worker_defs = good_def is_writing_def test_def one_more_def taken_def owed_def

lemma first_letters:
  assumes L: "letters_ok L s" and i: "i < length (brigade1 s)" and t: "first_brigade_work i s = Some t"
  shows "letters_ok L t"
proof -
  have g: "good L (brigade1 s ! i)" using L i by (simp add: letters_ok_def)
  have F: "{c \<in> set (fifo s). is_letter c} \<subseteq> L" "set (pipe12 s) \<subseteq> L" using L by (simp_all add: letters_ok_def)
  have "good L (brigade1 t ! i) \<and> brigade1 t = (brigade1 s)[i := brigade1 t ! i] \<and> brigade2 t = brigade2 s \<and>
      brigade3 t = brigade3 s \<and> pipe23 t = pipe23 s \<and> printed t = printed s \<and>
      set (pipe12 t) \<subseteq> L \<and> {c \<in> set (fifo t). is_letter c} \<subseteq> L"
    using t g i F
    by (cases "at (brigade1 s ! i)"; cases "fifo s")
      (auto simp: first_brigade_work_def Let_def worker_defs split: if_splits)
  then show ?thesis using L all_replace [of "brigade1 s" "good L" "brigade1 t ! i" i] unfolding letters_ok_def by metis
qed

lemma second_letters:
  assumes L: "letters_ok L s" and i: "i < length (brigade2 s)" and t: "second_brigade_work r i s = Some t"
  shows "letters_ok L t"
proof -
  have g: "good L (brigade2 s ! i)" using L i by (simp add: letters_ok_def)
  have F: "set (pipe12 s) \<subseteq> L" "set (pipe23 s) \<subseteq> L" using L by (simp_all add: letters_ok_def)
  have "r mod 4 + 1 \<le> 4" by simp
  then have "good L (brigade2 t ! i) \<and> brigade2 t = (brigade2 s)[i := brigade2 t ! i] \<and> brigade1 t = brigade1 s \<and>
      brigade3 t = brigade3 s \<and> fifo t = fifo s \<and> printed t = printed s \<and>
      set (pipe12 t) \<subseteq> L \<and> set (pipe23 t) \<subseteq> L"
    using t g i F
    by (cases "at (brigade2 s ! i)"; cases "pipe12 s")
      (auto simp: second_brigade_work_def Let_def worker_defs split: if_splits)
  then show ?thesis using L all_replace [of "brigade2 s" "good L" "brigade2 t ! i" i] unfolding letters_ok_def by metis
qed

lemma third_letters:
  assumes L: "letters_ok L s" and i: "i < length (brigade3 s)" and t: "third_brigade_work i s = Some t"
  shows "letters_ok L t"
proof -
  have g: "good L (brigade3 s ! i)" "\<not> is_writing (brigade3 s ! i)" using L i by (simp_all add: letters_ok_def)
  have F: "set (pipe23 s) \<subseteq> L" "\<forall>x \<in> set (printed s). length x = 5 \<and> set x \<subseteq> L"
    using L by (simp_all add: letters_ok_def)
  have "good L (brigade3 t ! i) \<and> \<not> is_writing (brigade3 t ! i) \<and> brigade3 t = (brigade3 s)[i := brigade3 t ! i] \<and>
      brigade1 t = brigade1 s \<and> brigade2 t = brigade2 s \<and> fifo t = fifo s \<and> pipe12 t = pipe12 s \<and>
      set (pipe23 t) \<subseteq> L \<and> (\<forall>x \<in> set (printed t). length x = 5 \<and> set x \<subseteq> L)"
    using t g i F
    by (cases "at (brigade3 s ! i)"; cases "pipe23 s")
      (auto simp: third_brigade_work_def Let_def worker_defs split: if_splits, blast+)
  then show ?thesis
    using L all_replace [of "brigade3 s" "\<lambda>w. good L w \<and> \<not> is_writing w" "brigade3 t ! i" i]
    unfolding letters_ok_def by metis
qed

lemma first_accounts:
  assumes A: "accounts n s" and L: "letters_ok L s" and i: "i < length (brigade1 s)" and t: "first_brigade_work i s = Some t"
  shows "accounts n t"
proof -
  note S = sum_list_replace [OF i, of items_processed "brigade1 t ! i"] sum_list_replace [OF i, of taken "brigade1 t ! i"]
  show ?thesis
    using t S A i
    by (cases "at (brigade1 s ! i)"; cases "fifo s")
      (auto simp: first_brigade_work_def Let_def accounts_def worker_defs split: if_splits)
qed

lemma second_accounts:
  assumes A: "accounts n s" and L: "letters_ok L s" and i: "i < length (brigade2 s)" and t: "second_brigade_work r i s = Some t"
  shows "accounts n t"
proof -
  note S = sum_list_replace [OF i, of taken "brigade2 t ! i"] sum_list_replace [OF i, of owed "brigade2 t ! i"]
  have g: "good L (brigade2 s ! i)" using L i by (simp add: letters_ok_def)
  have "r mod 4 + 1 \<le> 4" by simp
  then show ?thesis
    using t S A i g
    by (cases "at (brigade2 s ! i)"; cases "pipe12 s")
      (auto simp: second_brigade_work_def Let_def accounts_def worker_defs split: if_splits)
qed

lemma third_accounts:
  assumes A: "accounts n s" and L: "letters_ok L s" and i: "i < length (brigade3 s)" and t: "third_brigade_work i s = Some t"
  shows "accounts n t"
proof -
  note S = sum_list_replace [OF i, of items_processed "brigade3 t ! i"]
    sum_list_replace [OF i, of "length \<circ> word" "brigade3 t ! i"]
  show ?thesis
    using t S A i
    by (cases "at (brigade3 s ! i)"; cases "pipe23 s")
      (auto simp: third_brigade_work_def Let_def accounts_def worker_defs split: if_splits)
qed

text \<open>A signal changes none of this.\<close>

lemma interrupted_worker:
  "good L (w\<lparr>keep_running := False\<rparr>) = good L w" "is_writing (w\<lparr>keep_running := False\<rparr>) = is_writing w"
  "taken (w\<lparr>keep_running := False\<rparr>) = taken w" "owed (w\<lparr>keep_running := False\<rparr>) = owed w"
  by (simp_all add: worker_defs)

lemma interrupt_accounts:
  assumes "interrupt s t" and "letters_ok L s" and "accounts n s"
  shows "letters_ok L t \<and> accounts n t"
proof -
  have same: "map f (ws[i := (ws ! i)\<lparr>keep_running := False\<rparr>]) = map f ws"
    if "\<And>w. f (w\<lparr>keep_running := False\<rparr>) = f w" for f :: "worker \<Rightarrow> nat" and ws i
    using that by (metis list_update_id map_update)
  note M = same [of items_processed] same [of taken] same [of owed] same [of "length \<circ> word"]
  have g: "\<forall>w \<in> set (ws[i := (ws ! i)\<lparr>keep_running := False\<rparr>]). P w"
    if "\<forall>w \<in> set ws. P w" "i < length ws" "\<And>w. P (w\<lparr>keep_running := False\<rparr>) = P w" for P ws i
    using that all_replace [of ws P "(ws ! i)\<lparr>keep_running := False\<rparr>" i] by simp
  from assms show ?thesis
  proof cases
    case (1 i)
    with assms(2,3) g [of "brigade1 s" "good L" i] M show ?thesis
      by (simp add: letters_ok_def accounts_def interrupted_worker)
  next
    case (2 i)
    with assms(2,3) g [of "brigade2 s" "good L" i] M show ?thesis
      by (simp add: letters_ok_def accounts_def interrupted_worker)
  next
    case (3 i)
    have "\<forall>w \<in> set (brigade3 s). good L w \<and> \<not> is_writing w" using assms(2) unfolding letters_ok_def by blast
    then have "\<forall>w \<in> set ((brigade3 s)[i := (brigade3 s ! i)\<lparr>keep_running := False\<rparr>]). good L w \<and> \<not> is_writing w"
      by (rule g) (use 3(2) in \<open>simp_all only: interrupted_worker\<close>)
    then have "\<forall>w \<in> set (brigade3 t). good L w \<and> \<not> is_writing w" unfolding 3(1) by simp
    then have "letters_ok L t" using assms(2) 3(1) by (simp add: letters_ok_def)
    moreover have "total items_processed (brigade3 t) = total items_processed (brigade3 s)"
      "total (length \<circ> word) (brigade3 t) = total (length \<circ> word) (brigade3 s)"
      using M(1,4) 3(1) by simp_all
    then have "accounts n t" using assms(3) 3(1) by (simp add: accounts_def)
    ultimately show ?thesis by blast
  qed
qed

lemma work_accounts:
  assumes "work_step s t" and "letters_ok L s" and "accounts n s"
  shows "letters_ok L t \<and> accounts n t"
  using assms by cases
    (blast intro: first_letters first_accounts second_letters second_accounts third_letters third_accounts)+

section \<open>Without an interrupt\<close>

definition leaving :: "worker list \<Rightarrow> bool" where
  "leaving ws \<longleftrightarrow> (\<exists>w \<in> set ws. at w = Reporting \<or> at w = Gone)"

text \<open>The brigades end one after the other, and each only when it has nothing left to read.\<close>

definition orderly :: "nat \<Rightarrow> factory \<Rightarrow> bool" where
  "orderly n s \<longleftrightarrow> brigade1 s \<noteq> [] \<and> brigade2 s \<noteq> [] \<and> brigade3 s \<noteq> [] \<and>
     (\<forall>w \<in> set (brigade1 s). keep_running w) \<and> (\<forall>w \<in> set (brigade2 s). keep_running w) \<and>
     (\<forall>w \<in> set (brigade3 s). keep_running w) \<and>
     (leaving (brigade1 s) \<longrightarrow> fifo s = []) \<and>
     (leaving (brigade2 s) \<longrightarrow> all_gone (brigade1 s) \<and> pipe12 s = []) \<and>
     (leaving (brigade3 s) \<longrightarrow> all_gone (brigade2 s) \<and> pipe23 s = []) \<and>
     length (filter is_letter (fifo s)) + total taken (brigade1 s) = n \<and>
     total taken (brigade2 s) \<le>
       length (pipe23 s) + 5 * total items_processed (brigade3 s) + total (length \<circ> word) (brigade3 s) + total owed (brigade2 s)"

lemma leaving_replace:
  "leaving (ws[i := w]) \<Longrightarrow> leaving ws \<or> at w = Reporting \<or> at w = Gone"
  using set_update_subset_insert [of ws i w] by (auto simp: leaving_def)

lemma gone_leaving: "all_gone ws \<Longrightarrow> ws \<noteq> [] \<Longrightarrow> leaving ws"
  by (cases ws) (auto simp: all_gone_def leaving_def)

lemma not_all_gone: "i < length ws \<Longrightarrow> at (ws ! i) \<noteq> Gone \<Longrightarrow> \<not> all_gone ws"
  by (auto simp: all_gone_def)

lemma leavingI: "i < length ws \<Longrightarrow> at (ws ! i) = Reporting \<Longrightarrow> leaving ws"
  by (auto simp: leaving_def)

lemma first_orderly:
  assumes O: "orderly n s" and i: "i < length (brigade1 s)" and t: "first_brigade_work i s = Some t"
  shows "orderly n t"
proof -
  let ?w = "brigade1 t ! i"
  have "at (brigade1 s ! i) \<noteq> Gone" using t by (auto simp: first_brigade_work_def Let_def)
  then have "\<not> all_gone (brigade1 s)" using not_all_gone i by blast
  then have l2: "\<not> leaving (brigade2 s)" using O by (simp add: orderly_def)
  then have g2: "\<not> all_gone (brigade2 s)" using O gone_leaving by (auto simp: orderly_def)
  then have l3: "\<not> leaving (brigade3 s)" using O by (simp add: orderly_def)
  have k: "keep_running (brigade1 s ! i)" using O i by (simp add: orderly_def)
  have f: "at (brigade1 s ! i) = Reporting \<Longrightarrow> fifo s = []" using O leavingI [OF i] by (simp add: orderly_def)
  note S = sum_list_replace [OF i, of taken ?w]
  have T: "brigade1 t = (brigade1 s)[i := ?w] \<and> brigade2 t = brigade2 s \<and> brigade3 t = brigade3 s \<and>
      pipe23 t = pipe23 s \<and> keep_running ?w \<and> (at ?w = Reporting \<or> at ?w = Gone \<longrightarrow> fifo t = []) \<and>
      (fifo s = [] \<longrightarrow> fifo t = []) \<and>
      length (filter is_letter (fifo t)) + total taken (brigade1 t) = length (filter is_letter (fifo s)) + total taken (brigade1 s)"
    using t S k f g2 i
    by (cases "at (brigade1 s ! i)"; cases "fifo s")
      (auto simp: first_brigade_work_def Let_def worker_defs split: if_splits)
  have "\<forall>w \<in> set ((brigade1 s)[i := ?w]). keep_running w"
    using O T all_replace [of "brigade1 s" keep_running ?w i] by (simp add: orderly_def)
  moreover have "leaving ((brigade1 s)[i := ?w]) \<longrightarrow> fifo t = []"
    using T leaving_replace [of "brigade1 s" i ?w] O unfolding orderly_def by blast
  moreover have "brigade1 t \<noteq> []" using O T list_update_nonempty unfolding orderly_def by metis
  ultimately show ?thesis using O T l2 l3 by (simp add: orderly_def)
qed

lemma second_orderly:
  assumes O: "orderly n s" and L: "letters_ok L s" and i: "i < length (brigade2 s)" and t: "second_brigade_work r i s = Some t"
  shows "orderly n t"
proof -
  let ?w = "brigade2 t ! i"
  have "at (brigade2 s ! i) \<noteq> Gone" using t by (auto simp: second_brigade_work_def Let_def)
  then have "\<not> all_gone (brigade2 s)" using not_all_gone i by blast
  then have l3: "\<not> leaving (brigade3 s)" using O by (simp add: orderly_def)
  then have g3: "\<not> all_gone (brigade3 s)" using O gone_leaving by (auto simp: orderly_def)
  have k: "keep_running (brigade2 s ! i)" using O i by (simp add: orderly_def)
  have f: "at (brigade2 s ! i) = Reporting \<Longrightarrow> pipe12 s = [] \<and> all_gone (brigade1 s)"
    using O leavingI [OF i] by (simp add: orderly_def)
  have g: "good L (brigade2 s ! i)" using L i by (simp add: letters_ok_def)
  note S = sum_list_replace [OF i, of taken ?w] sum_list_replace [OF i, of owed ?w]
  have T: "brigade2 t = (brigade2 s)[i := ?w] \<and> brigade1 t = brigade1 s \<and> brigade3 t = brigade3 s \<and>
      fifo t = fifo s \<and> keep_running ?w \<and>
      (at ?w = Reporting \<or> at ?w = Gone \<longrightarrow> pipe12 t = [] \<and> all_gone (brigade1 s)) \<and>
      (pipe12 s = [] \<longrightarrow> pipe12 t = [])"
    using t k f g3 i
    by (cases "at (brigade2 s ! i)"; cases "pipe12 s")
      (auto simp: second_brigade_work_def Let_def worker_defs split: if_splits)
  have C: "total taken (brigade2 t) + length (pipe23 s) + total owed (brigade2 s) \<le>
      total taken (brigade2 s) + length (pipe23 t) + total owed (brigade2 t)"
    using t S g3 g i
    by (cases "at (brigade2 s ! i)"; cases "pipe12 s")
      (auto simp: second_brigade_work_def Let_def worker_defs split: if_splits)
  have "\<forall>w \<in> set ((brigade2 s)[i := ?w]). keep_running w"
    using O T all_replace [of "brigade2 s" keep_running ?w i] by (simp add: orderly_def)
  moreover have "leaving ((brigade2 s)[i := ?w]) \<longrightarrow> all_gone (brigade1 s) \<and> pipe12 t = []"
    using T leaving_replace [of "brigade2 s" i ?w] O unfolding orderly_def by blast
  moreover have "brigade2 t \<noteq> []" using O T list_update_nonempty unfolding orderly_def by metis
  ultimately show ?thesis using O T C l3 by (simp add: orderly_def)
qed

lemma third_orderly:
  assumes O: "orderly n s" and L: "letters_ok L s" and i: "i < length (brigade3 s)" and t: "third_brigade_work i s = Some t"
  shows "orderly n t"
proof -
  let ?w = "brigade3 t ! i"
  have k: "keep_running (brigade3 s ! i)" using O i by (simp add: orderly_def)
  have f: "at (brigade3 s ! i) = Reporting \<Longrightarrow> pipe23 s = [] \<and> all_gone (brigade2 s)"
    using O leavingI [OF i] by (simp add: orderly_def)
  note S = sum_list_replace [OF i, of items_processed ?w] sum_list_replace [OF i, of "length \<circ> word" ?w]
  have T: "brigade3 t = (brigade3 s)[i := ?w] \<and> brigade1 t = brigade1 s \<and> brigade2 t = brigade2 s \<and>
      fifo t = fifo s \<and> pipe12 t = pipe12 s \<and> keep_running ?w \<and>
      (at ?w = Reporting \<or> at ?w = Gone \<longrightarrow> pipe23 t = [] \<and> all_gone (brigade2 s)) \<and>
      (pipe23 s = [] \<longrightarrow> pipe23 t = [])"
    using t k f i
    by (cases "at (brigade3 s ! i)"; cases "pipe23 s")
      (auto simp: third_brigade_work_def Let_def worker_defs split: if_splits)
  have C: "length (pipe23 t) + 5 * total items_processed (brigade3 t) + total (length \<circ> word) (brigade3 t) =
      length (pipe23 s) + 5 * total items_processed (brigade3 s) + total (length \<circ> word) (brigade3 s)"
    using t S i
    by (cases "at (brigade3 s ! i)"; cases "pipe23 s")
      (auto simp: third_brigade_work_def Let_def worker_defs split: if_splits)
  have "\<forall>w \<in> set ((brigade3 s)[i := ?w]). keep_running w"
    using O T all_replace [of "brigade3 s" keep_running ?w i] by (simp add: orderly_def)
  moreover have "leaving ((brigade3 s)[i := ?w]) \<longrightarrow> all_gone (brigade2 s) \<and> pipe23 t = []"
    using T leaving_replace [of "brigade3 s" i ?w] O unfolding orderly_def by blast
  moreover have "brigade3 t \<noteq> []" using O T list_update_nonempty unfolding orderly_def by metis
  ultimately show ?thesis using O T C by (simp add: orderly_def)
qed

lemma work_orderly: "work_step s t \<Longrightarrow> letters_ok L s \<Longrightarrow> orderly n s \<Longrightarrow> orderly n t"
  by (erule work_step.cases) (blast intro: first_orderly second_orderly third_orderly)+

section \<open>Every letter on its own\<close>

text \<open>
  How often the letter \<open>c\<close> is still before the second brigade, and how often it is behind it or will be
  written by it: in the second pipe, in words, printed or not, and in the hands of a worker.
\<close>

definition in_hand :: "char \<Rightarrow> worker \<Rightarrow> nat" where
  "in_hand c w = (case at w of Writing d n \<Rightarrow> if d = c then n else 0 | _ \<Rightarrow> 0)"

definition single :: "worker \<Rightarrow> bool" where
  "single w \<longleftrightarrow> (case at w of Writing d n \<Rightarrow> n = 1 | _ \<Rightarrow> True)"

definition before :: "char \<Rightarrow> factory \<Rightarrow> nat" where
  "before c s = count_list (filter is_letter (fifo s)) c + total (in_hand c) (brigade1 s) + count_list (pipe12 s) c"

definition in_words :: "char \<Rightarrow> factory \<Rightarrow> nat" where
  "in_words c s = count_list (concat (printed s)) c + total (\<lambda>w. count_list (word w) c) (brigade3 s)"

definition behind :: "char \<Rightarrow> factory \<Rightarrow> nat" where
  "behind c s = total (in_hand c) (brigade2 s) + count_list (pipe23 s) c + in_words c s"

text \<open>Of the \<open>n\<close> times that \<open>c\<close> came, each is still before the second brigade or one to four times behind it.\<close>

definition spread :: "char \<Rightarrow> nat \<Rightarrow> factory \<Rightarrow> bool" where
  "spread c n s \<longleftrightarrow> (\<forall>w \<in> set (brigade1 s). single w) \<and>
     n \<le> before c s + behind c s \<and> behind c s + 4 * before c s \<le> 4 * n"

lemmas spread_defs = spread_def before_def behind_def in_words_def in_hand_def single_def

lemma first_spread:
  assumes S: "spread c n s" and O: "orderly m s" and i: "i < length (brigade1 s)" and t: "first_brigade_work i s = Some t"
  shows "spread c n t"
proof -
  let ?w = "brigade1 t ! i"
  have "at (brigade1 s ! i) \<noteq> Gone" using t by (auto simp: first_brigade_work_def Let_def)
  then have "\<not> all_gone (brigade1 s)" using not_all_gone i by blast
  then have g2: "\<not> all_gone (brigade2 s)" using O gone_leaving by (auto simp: orderly_def)
  have one: "single (brigade1 s ! i)" using S i by (simp add: spread_def)
  note R = sum_list_replace [OF i, of "in_hand c" ?w]
  have "brigade2 t = brigade2 s \<and> pipe23 t = pipe23 s \<and> brigade3 t = brigade3 s \<and> printed t = printed s \<and>
      brigade1 t = (brigade1 s)[i := ?w]"
    using t i by (cases "at (brigade1 s ! i)"; cases "fifo s") (auto simp: first_brigade_work_def Let_def split: if_splits)
  then have same: "behind c t = behind c s" "brigade1 t = (brigade1 s)[i := ?w]"
    by (simp_all add: behind_def in_words_def)
  have "single ?w \<and> count_list (filter is_letter (fifo t)) c + in_hand c ?w + count_list (pipe12 t) c =
      count_list (filter is_letter (fifo s)) c + in_hand c (brigade1 s ! i) + count_list (pipe12 s) c"
  proof (cases "at (brigade1 s ! i)")
    case Reading
    with t i show ?thesis
      by (cases "fifo s") (auto simp: first_brigade_work_def Let_def in_hand_def single_def split: if_splits)
  next
    case (Writing d n)
    with t i g2 one show ?thesis
      by (auto simp: first_brigade_work_def Let_def in_hand_def one_more_def single_def split: if_splits)
  qed (use t i in \<open>auto simp: first_brigade_work_def Let_def in_hand_def test_def single_def split: if_splits\<close>)
  then have T: "single ?w \<and> brigade1 t = (brigade1 s)[i := ?w] \<and> behind c t = behind c s \<and> before c t = before c s"
    using R same by (simp add: before_def)
  then show ?thesis using S all_replace [of "brigade1 s" single ?w i] unfolding spread_def by metis
qed

lemma second_spread:
  assumes S: "spread c n s" and L: "letters_ok L s" and O: "orderly m s"
    and i: "i < length (brigade2 s)" and t: "second_brigade_work r i s = Some t"
  shows "spread c n t"
proof -
  let ?w = "brigade2 t ! i"
  have "at (brigade2 s ! i) \<noteq> Gone" using t by (auto simp: second_brigade_work_def Let_def)
  then have "\<not> all_gone (brigade2 s)" using not_all_gone i by blast
  then have g3: "\<not> all_gone (brigade3 s)" using O gone_leaving by (auto simp: orderly_def)
  have g: "good L (brigade2 s ! i)" using L i by (simp add: letters_ok_def)
  note R = sum_list_replace [OF i, of "in_hand c" ?w]
  have "brigade1 t = brigade1 s \<and> fifo t = fifo s \<and> brigade3 t = brigade3 s \<and> printed t = printed s \<and>
      brigade2 t = (brigade2 s)[i := ?w]"
    using t i by (cases "at (brigade2 s ! i)"; cases "pipe12 s") (auto simp: second_brigade_work_def Let_def split: if_splits)
  then have same: "brigade1 t = brigade1 s" "fifo t = fifo s" "in_words c t = in_words c s" "brigade2 t = (brigade2 s)[i := ?w]"
    by (simp_all add: in_words_def)
  have B: "before c t + count_list (pipe12 s) c = before c s + count_list (pipe12 t) c"
    using same by (simp add: before_def)
  have H: "behind c t + in_hand c (brigade2 s ! i) + count_list (pipe23 s) c =
      behind c s + in_hand c ?w + count_list (pipe23 t) c"
    using same R by (simp add: behind_def)
  have four: "1 \<le> r mod 4 + 1" "r mod 4 + 1 \<le> 4" by simp_all
  have "in_hand c ?w + count_list (pipe23 t) c + count_list (pipe12 t) c \<ge>
      in_hand c (brigade2 s ! i) + count_list (pipe23 s) c + count_list (pipe12 s) c \<and>
      in_hand c ?w + count_list (pipe23 t) c + 4 * count_list (pipe12 t) c \<le>
      in_hand c (brigade2 s ! i) + count_list (pipe23 s) c + 4 * count_list (pipe12 s) c"
  proof (cases "at (brigade2 s ! i)")
    case Reading
    with t i four show ?thesis
      by (cases "pipe12 s") (auto simp: second_brigade_work_def Let_def in_hand_def split: if_splits)
  next
    case (Writing d n)
    with t i g3 g show ?thesis
      by (auto simp: second_brigade_work_def Let_def in_hand_def one_more_def good_def split: if_splits)
  qed (use t i in \<open>auto simp: second_brigade_work_def Let_def in_hand_def test_def split: if_splits\<close>)
  with B H S show ?thesis using same(1) unfolding spread_def by (simp only: same(1)) linarith
qed

lemma third_spread:
  assumes S: "spread c n s" and i: "i < length (brigade3 s)" and t: "third_brigade_work i s = Some t"
  shows "spread c n t"
proof -
  let ?w = "brigade3 t ! i"
  note R = sum_list_replace [OF i, of "\<lambda>w. count_list (word w) c" ?w]
  have "brigade1 t = brigade1 s \<and> fifo t = fifo s \<and> pipe12 t = pipe12 s \<and> brigade2 t = brigade2 s \<and>
      brigade3 t = (brigade3 s)[i := ?w]"
    using t i by (cases "at (brigade3 s ! i)"; cases "pipe23 s") (auto simp: third_brigade_work_def Let_def split: if_splits)
  then have same: "brigade1 t = brigade1 s" "before c t = before c s" "brigade2 t = brigade2 s" "brigade3 t = (brigade3 s)[i := ?w]"
    by (simp_all add: before_def)
  have "count_list (pipe23 t) c + count_list (concat (printed t)) c + count_list (word ?w) c =
      count_list (pipe23 s) c + count_list (concat (printed s)) c + count_list (word (brigade3 s ! i)) c"
    using t i by (cases "at (brigade3 s ! i)"; cases "pipe23 s")
      (auto simp: third_brigade_work_def Let_def test_def one_more_def split: if_splits)
  then have "behind c t = behind c s" using R same by (simp add: behind_def in_words_def)
  then show ?thesis using S same unfolding spread_def by simp
qed

lemma work_spread: "work_step s t \<Longrightarrow> letters_ok L s \<Longrightarrow> orderly m s \<Longrightarrow> spread c n s \<Longrightarrow> spread c n t"
  by (erule work_step.cases) (blast intro: first_spread second_spread third_spread)+

section \<open>From the start\<close>

definition letters_of :: "string \<Rightarrow> char set" where
  "letters_of ls = {c \<in> set ls. is_letter c}"

definition valid_letters :: "string \<Rightarrow> nat" where
  "valid_letters ls = length (filter is_letter ls)"

lemma new_worker_facts: "good L new_worker" "\<not> is_writing new_worker" "taken new_worker = 0" "owed new_worker = 0"
  "items_processed new_worker = 0" "word new_worker = []" "keep_running new_worker" "at new_worker = Test"
  by (simp_all add: new_worker_def worker_defs)

lemma start_factory:
  assumes "factory_start w1 w2 w3 ls = Inr s"
  shows "letters_ok (letters_of ls) s \<and> accounts (valid_letters ls) s \<and> orderly (valid_letters ls) s \<and>
    (\<forall>c. spread c (count_list (filter is_letter ls) c) s)"
proof -
  have p: "0 < nat w1" "0 < nat w2" "0 < nat w3"
    and s: "s = \<lparr>fifo = ls, pipe12 = [], pipe23 = [], brigade1 = replicate (nat w1) new_worker,
      brigade2 = replicate (nat w2) new_worker, brigade3 = replicate (nat w3) new_worker, printed = []\<rparr>"
    using assms by (auto simp: factory_start_def factory_args_def split: if_splits)
  show ?thesis
    using p by (simp add: s letters_ok_def accounts_def orderly_def leaving_def letters_of_def valid_letters_def
        new_worker_facts spread_defs sum_list_replicate)
qed

abbreviation starts_with :: "string \<Rightarrow> factory \<Rightarrow> bool" where
  "starts_with ls s \<equiv> \<exists>w1 w2 w3. factory_start w1 w2 w3 ls = Inr s"

lemma step_accounts: "factory_step s t \<Longrightarrow> letters_ok L s \<and> accounts n s \<Longrightarrow> letters_ok L t \<and> accounts n t"
  unfolding factory_step_def by (meson work_accounts interrupt_accounts)

lemma letters_no_writing: "letters_ok L s \<Longrightarrow> no_writing (brigade3 s)"
  by (auto simp: letters_ok_def no_writing_def is_writing_def)

lemma finished_no_step: "finished s \<Longrightarrow> \<not> factory_step s t"
proof
  assume f: "finished s" and "factory_step s t"
  then have "interrupt s t" using finished_no_work by (auto simp: factory_step_def)
  then show False using f by cases (auto simp: finished_def dest: gone_no_step)
qed

interpretation factory: stopping_system "starts_with ls" factory_step
  "\<lambda>s. letters_ok (letters_of ls) s \<and> accounts (valid_letters ls) s" finished work_left for ls
proof
  show "letters_ok (letters_of ls) s \<and> accounts (valid_letters ls) s" if "starts_with ls s" for s
    using that start_factory by blast
  show "letters_ok (letters_of ls) t \<and> accounts (valid_letters ls) t"
    if "letters_ok (letters_of ls) s \<and> accounts (valid_letters ls) s" "factory_step s t" for s t
    using that step_accounts by blast
  show "work_left t < work_left s" if "factory_step s t" for s t using that by (rule factory_step_less)
  show "\<exists>t. factory_step s t" if "letters_ok (letters_of ls) s \<and> accounts (valid_letters ls) s" "\<not> finished s" for s
    using that somebody_goes_on letters_no_writing unfolding factory_step_def by blast
  show "\<not> factory_step s t" if "finished s" for s t using that by (rule finished_no_step)
qed

interpretation uninterrupted: inv_system "starts_with ls" work_step
  "\<lambda>s. (letters_ok (letters_of ls) s \<and> accounts (valid_letters ls) s) \<and> orderly (valid_letters ls) s \<and>
     (\<forall>c. spread c (count_list (filter is_letter ls) c) s)" for ls
proof
  show "(letters_ok (letters_of ls) s \<and> accounts (valid_letters ls) s) \<and> orderly (valid_letters ls) s \<and>
      (\<forall>c. spread c (count_list (filter is_letter ls) c) s)"
    if "starts_with ls s" for s using that start_factory by blast
  show "(letters_ok (letters_of ls) t \<and> accounts (valid_letters ls) t) \<and> orderly (valid_letters ls) t \<and>
      (\<forall>c. spread c (count_list (filter is_letter ls) c) t)"
    if "(letters_ok (letters_of ls) s \<and> accounts (valid_letters ls) s) \<and> orderly (valid_letters ls) s \<and>
      (\<forall>c. spread c (count_list (filter is_letter ls) c) s)" "work_step s t" for s t
    using that work_accounts work_orderly work_spread by meson
qed

text \<open>One step of the worker \<open>i\<close> of a brigade, \<open>r\<close> the answer of \<^verbatim>\<open>rand\<close>.\<close>

definition one_step :: "nat \<times> nat \<times> nat \<Rightarrow> factory \<Rightarrow> factory option" where
  "one_step = (\<lambda>(b, i, r) s.
     if b = 1 \<and> i < length (brigade1 s) then first_brigade_work i s
     else if b = 2 \<and> i < length (brigade2 s) then second_brigade_work r i s
     else if b = 3 \<and> i < length (brigade3 s) then third_brigade_work i s
     else None)"

lemma one_step_work: "one_step x s = Some t \<Longrightarrow> work_step s t"
  by (cases x) (auto simp: one_step_def intro: work_step.intros split: if_splits)

lemma schedule_reach: "reach I work_step s \<Longrightarrow> run_steps one_step xs s = Some t \<Longrightarrow> reach I work_step t"
  by (rule run_steps_reach [where f = one_step]) (rule one_step_work)

lemmas factory_eval = factory_start_def factory_args_def one_step_def new_worker_def test_def one_more_def is_letter_def
  first_brigade_work_def second_brigade_work_def third_brigade_work_def all_gone_def finished_def

text \<open>
  C6: The factory stops.  For every input and however the workers are scheduled, wait for one another at
  full and empty pipes, draw their numbers of copies and are interrupted, it makes only finitely many steps;
  and in every reachable state the workers can go on exactly as long as one of them has not ended, so that no
  deadlock remains between the brigades and the boss is not left waiting.
\<close>

theorem factory_stops:
  assumes "reach (starts_with ls) factory_step s"
  shows "wfp (\<lambda>t s. factory_step s t) \<and> ((\<exists>t. work_step s t) \<longleftrightarrow> \<not> finished s) \<and>
    (\<exists>t. factory_step\<^sup>*\<^sup>* s t \<and> finished t)"
  using factory.no_infinite_run factory.final_reachable [OF assms] factory.reach_inv [OF assms]
    somebody_goes_on letters_no_writing finished_no_work by blast

definition demo_factory :: factory where
  "demo_factory = \<lparr>fifo = ''a7b'', pipe12 = [], pipe23 = [], brigade1 = [new_worker], brigade2 = [new_worker],
     brigade3 = [new_worker], printed = []\<rparr>"

lemma demo_start: "factory_start 1 1 1 ''a7b'' = Inr demo_factory"
  by (simp add: factory_start_def factory_args_def demo_factory_def)

theorem factory_stops_witness:
  "(\<exists>t. work_step demo_factory t) \<and> (\<exists>t. factory_step\<^sup>*\<^sup>* demo_factory t \<and> finished t)"
proof -
  have "reach (starts_with ''a7b'') factory_step demo_factory"
    by (rule reach_init) (use demo_start in blast)
  from factory_stops [OF this] show ?thesis
    by (simp add: finished_def all_gone_def demo_factory_def new_worker_def)
qed

text \<open>When all have ended without a signal, every letter has been through both pipes.\<close>

lemma gone_total: "all_gone ws \<Longrightarrow> total taken ws = total items_processed ws \<and> total owed ws = 0"
  by (induction ws) (auto simp: all_gone_def taken_def owed_def is_writing_def)

lemma gone_in_hand: "all_gone ws \<Longrightarrow> total (in_hand c) ws = 0"
  by (induction ws) (auto simp: all_gone_def in_hand_def)

text \<open>
  C19: What the factory makes.  When no signal comes and all workers have ended, the first and the second
  brigade report together exactly the letters between a and z of the input; the third brigade reports the
  words printed, each five letters of the input, and the words left unfinished have at most four letters.
  Every letter, however often it comes, is in these words, printed and unfinished, at least as often as in the input and
  at most four times as often, and no other character is; so they hold one to four copies of all the letters together, too.
\<close>

theorem factory_output:
  assumes "reach (starts_with ls) work_step s" and "finished s"
  shows "total items_processed (brigade1 s) = valid_letters ls \<and>
    total items_processed (brigade2 s) = valid_letters ls \<and>
    total items_processed (brigade3 s) = length (printed s) \<and>
    (\<forall>x \<in> set (printed s). length x = 5 \<and> set x \<subseteq> letters_of ls) \<and>
    (\<forall>w \<in> set (brigade3 s). length (word w) \<le> 4) \<and>
    (\<forall>c. count_list (filter is_letter ls) c \<le> in_words c s \<and> in_words c s \<le> 4 * count_list (filter is_letter ls) c) \<and>
    valid_letters ls \<le> 5 * length (printed s) + total (length \<circ> word) (brigade3 s) \<and>
    5 * length (printed s) + total (length \<circ> word) (brigade3 s) \<le> 4 * valid_letters ls"
proof -
  from uninterrupted.reach_inv [OF assms(1)]
  have L: "letters_ok (letters_of ls) s" and A: "accounts (valid_letters ls) s" and O: "orderly (valid_letters ls) s"
    and S: "spread c (count_list (filter is_letter ls) c) s" for c
    by blast+
  have g: "all_gone (brigade1 s)" "all_gone (brigade2 s)" "all_gone (brigade3 s)"
    using assms(2) by (simp_all add: finished_def)
  have e: "fifo s = []" "pipe12 s = []" "pipe23 s = []"
    using O g gone_leaving by (auto simp: orderly_def)
  have w: "\<forall>w \<in> set (brigade3 s). length (word w) \<le> 4" using L by (simp add: letters_ok_def good_def)
  have p: "\<forall>x \<in> set (printed s). length x = 5 \<and> set x \<subseteq> letters_of ls" using L by (simp add: letters_ok_def)
  have "total items_processed (brigade1 s) = valid_letters ls" using O e gone_total [OF g(1)] by (simp add: orderly_def)
  moreover have "total items_processed (brigade2 s) = total items_processed (brigade1 s)"
    using A e gone_total [OF g(2)] by (simp add: accounts_def)
  moreover have "total items_processed (brigade3 s) = length (printed s)" using A by (simp add: accounts_def)
  moreover have "count_list (filter is_letter ls) c \<le> in_words c s" "in_words c s \<le> 4 * count_list (filter is_letter ls) c" for c
    using S [of c] e gone_in_hand [OF g(1), of c] gone_in_hand [OF g(2), of c]
    by (simp_all add: spread_def before_def behind_def)
  ultimately show ?thesis
    using A O e w p gone_total [OF g(2)] by (simp add: accounts_def orderly_def)
qed

abbreviation demo_schedule :: "(nat \<times> nat \<times> nat) list" where
  "demo_schedule \<equiv> replicate 11 (1, 0, 0) @ replicate 15 (2, 0, 3) @ replicate 19 (3, 0, 0)"

definition demo_end :: factory where
  "demo_end = \<lparr>fifo = [], pipe12 = [], pipe23 = [],
     brigade1 = [\<lparr>at = Gone, keep_running = True, items_processed = 2, word = []\<rparr>],
     brigade2 = [\<lparr>at = Gone, keep_running = True, items_processed = 2, word = []\<rparr>],
     brigade3 = [\<lparr>at = Gone, keep_running = True, items_processed = 1, word = ''bbb''\<rparr>], printed = [''aaaab'']\<rparr>"

lemma demo_run: "run_steps one_step demo_schedule demo_factory = Some demo_end"
  by (simp add: factory_eval demo_factory_def demo_end_def Let_def replicate_numeral_Cons)

theorem factory_output_witness:
  "valid_letters ''a7b'' = 2 \<and> summary demo_end = [(1, 2), (2, 2), (3, 1)] \<and>
    total items_processed (brigade2 demo_end) = valid_letters ''a7b'' \<and>
    5 * length (printed demo_end) + total (length \<circ> word) (brigade3 demo_end) \<le> 4 * valid_letters ''a7b'' \<and>
    in_words (CHR ''a'') demo_end = 4 \<and> in_words (CHR ''7'') demo_end = 0"
proof -
  have "reach (starts_with ''a7b'') work_step demo_factory"
    by (rule reach_init) (use demo_start in blast)
  then have "reach (starts_with ''a7b'') work_step demo_end"
    using demo_run by (rule schedule_reach)
  moreover have "finished demo_end" by (simp add: finished_def all_gone_def demo_end_def)
  ultimately have made: "total items_processed (brigade2 demo_end) = valid_letters ''a7b''"
    "5 * length (printed demo_end) + total (length \<circ> word) (brigade3 demo_end) \<le> 4 * valid_letters ''a7b''"
    "in_words (CHR ''7'') demo_end \<le> 4 * count_list (filter is_letter ''a7b'') (CHR ''7'')"
    using factory_output [of "''a7b''" demo_end] by simp_all
  have "valid_letters ''a7b'' = 2" by code_simp
  moreover have "summary demo_end = [(1, 2), (2, 2), (3, 1)]" by code_simp
  moreover have "in_words (CHR ''a'') demo_end = 4" by code_simp
  moreover have "count_list (filter is_letter ''a7b'') (CHR ''7'') = 0" by code_simp
  then have "in_words (CHR ''7'') demo_end = 0" using made(3) by simp
  ultimately show ?thesis using made(1,2) by blast
qed

end
