(* ===== verification/Cycle.thy ===== *)
theory Cycle
  imports Pipes Ctext
begin

text \<open>
  \<^verbatim>\<open>lab05/sop-cycle/sop-cycle.c\<close>: a ring of processes.  Process 0 sends the number 1; whoever
  reads a number prints it, changes it by at most 10 and passes it on, until it is 0 or a process is
  interrupted.  Pipe \<open>i\<close> leads from process \<open>i\<close> to its successor and holds messages of 12 bytes; the runs
  start when every process has closed the ends it does not use.
\<close>

abbreviation BUFSIZE :: nat where "BUFSIZE \<equiv> 12"

text \<open>
  \<open>Initial\<close>: process 0 before its first write; \<open>Passing b\<close>: asleep before the write of \<open>b\<close>; \<open>Gone\<close>: ended;
  \<open>Undef\<close>: the number left the range of \<^verbatim>\<open>int\<close>.
\<close>

datatype npos = Initial | Test | Reading | Passing string | Gone | Undef

record node =
  at :: npos
  last_signal :: bool

record ring =
  nodes :: "node list"
  pipes :: "string list list"
  heard :: "(nat \<times> int) list"

section \<open>The operations\<close>

definition readid :: "nat \<Rightarrow> nat \<Rightarrow> nat" where
  "readid n i = (i + n - 1) mod n"

definition reader_of :: "nat \<Rightarrow> nat \<Rightarrow> nat" where
  "reader_of n i = (i + 1) mod n"

text \<open>The text that fits into a buffer with its terminating zero.\<close>

definition buffer_text :: "int \<Rightarrow> string" where
  "buffer_text v = take (BUFSIZE - 1) (show_int v)"

definition set_node :: "nat \<Rightarrow> npos \<Rightarrow> ring \<Rightarrow> ring" where
  "set_node i c s = s\<lparr>nodes := (nodes s)[i := (nodes s ! i)\<lparr>at := c\<rparr>]\<rparr>"

definition gone :: "ring \<Rightarrow> nat \<Rightarrow> bool" where
  "gone s i \<longleftrightarrow> at (nodes s ! i) = Gone"

text \<open>\<^verbatim>\<open>ERR\<close> kills the whole group.\<close>

definition kill_all :: "ring \<Rightarrow> ring" where
  "kill_all s = s\<lparr>nodes := map (\<lambda>p. p\<lparr>at := Gone\<rparr>) (nodes s)\<rparr>"

definition put_message :: "nat \<Rightarrow> string \<Rightarrow> ring \<Rightarrow> ring" where
  "put_message i b s = s\<lparr>pipes := (pipes s)[i := pipes s ! i @ [b]]\<rparr>"

definition send_initial_message :: "nat \<Rightarrow> ring \<Rightarrow> ring" where
  "send_initial_message i s =
     (if gone s (reader_of (length (nodes s)) i) then kill_all s
      else set_node i Test (put_message i (buffer_text 1) s))"

text \<open>\<open>buf\<close> has been read, \<open>r\<close> is what \<^verbatim>\<open>rand\<close> returns.\<close>

definition take_number :: "nat \<Rightarrow> nat \<Rightarrow> string \<Rightarrow> ring \<Rightarrow> ring" where
  "take_number i r buf s =
     (if atoi buf = 0 then set_node i Gone s
      else let val = atoi buf + int (r mod 21) - 10; t = s\<lparr>heard := heard s @ [(i, atoi buf)]\<rparr> in
        if in_int val then set_node i (Passing (buffer_text val)) t else set_node i Undef t)"

text \<open>The next step of process \<open>i\<close>; \<open>None\<close>: it waits for a message, or has ended.\<close>

definition work :: "nat \<Rightarrow> nat \<Rightarrow> ring \<Rightarrow> ring option" where
  "work i r s =
     (let n = length (nodes s); p = nodes s ! i in
      case at p of
        Initial \<Rightarrow> Some (send_initial_message i s)
      | Test \<Rightarrow> Some (set_node i (if last_signal p then Gone else Reading) s)
      | Reading \<Rightarrow>
          (case pipes s ! readid n i of
             b # bs \<Rightarrow> Some (take_number i r b (s\<lparr>pipes := (pipes s)[readid n i := bs]\<rparr>))
           | [] \<Rightarrow> if gone s (readid n i) then Some (set_node i Gone s) else None)
      | Passing b \<Rightarrow>
          if gone s (reader_of n i) then Some (set_node i Gone s)
          else Some (set_node i Test (put_message i b s))
      | _ \<Rightarrow> None)"

text \<open>A signal is noted, and it interrupts a read that waits; the loop then sees an empty buffer.\<close>

definition signalled :: "nat \<Rightarrow> ring \<Rightarrow> ring" where
  "signalled i s = s\<lparr>nodes := (nodes s)[i := (nodes s ! i)\<lparr>last_signal := True\<rparr>]\<rparr>"

inductive ring_step :: "ring \<Rightarrow> ring \<Rightarrow> bool" where
  works: "i < length (nodes s) \<Longrightarrow> work i r s = Some t \<Longrightarrow> ring_step s t"
| signal: "i < length (nodes s) \<Longrightarrow> \<not> last_signal (nodes s ! i) \<Longrightarrow> \<not> gone s i \<Longrightarrow> ring_step s (signalled i s)"
| eintr: "i < length (nodes s) \<Longrightarrow> at (nodes s ! i) = Reading \<Longrightarrow> pipes s ! readid (length (nodes s)) i = [] \<Longrightarrow>
     ring_step s (set_node i Gone (signalled i s))"

definition ring_start :: "nat \<Rightarrow> ring" where
  "ring_start n = \<lparr>nodes = map (\<lambda>i. \<lparr>at = (if i = 0 then Initial else Test), last_signal = False\<rparr>) [0..<n],
     pipes = replicate n [], heard = []\<rparr>"

section \<open>The ends each process keeps\<close>

text \<open>Descriptors are numbered as in the array: \<open>2 * i\<close> reads from pipe \<open>i\<close>, \<open>2 * i + 1\<close> writes to it.\<close>

definition ring_closes :: "nat \<Rightarrow> nat \<Rightarrow> nat list" where
  "ring_closes n i = concat (map (\<lambda>j. (if j \<noteq> readid n i then [2 * j] else []) @ (if j \<noteq> i then [2 * j + 1] else [])) [0..<n])"

lemma readid_if: "i < n \<Longrightarrow> readid n i = (if i = 0 then n - 1 else i - 1)"
proof (cases i)
  case (Suc j)
  assume "i < n"
  then have "(j + n) mod n = j" using Suc by simp
  with Suc show ?thesis by (simp add: readid_def)
qed (simp add: readid_def)

lemma reader_of_if: "i < n \<Longrightarrow> reader_of n i = (if i + 1 = n then 0 else i + 1)"
  by (auto simp: reader_of_def)

lemma ring_neighbours:
  assumes "i < n"
  shows "readid n (reader_of n i) = i" "reader_of n (readid n i) = i" "readid n i < n" "reader_of n i < n"
proof -
  show l: "readid n i < n" "reader_of n i < n" using assms by (auto simp: readid_def reader_of_def)
  show "readid n (reader_of n i) = i"
    unfolding readid_if [OF l(2)] using assms by (auto simp: reader_of_if)
  show "reader_of n (readid n i) = i"
    unfolding reader_of_if [OF l(1)] using assms by (auto simp: readid_if)
qed

lemma in_ring_closes:
  "x \<in> set (ring_closes n i) \<longleftrightarrow> (\<exists>j < n. j \<noteq> readid n i \<and> x = 2 * j) \<or> (\<exists>j < n. j \<noteq> i \<and> x = 2 * j + 1)"
  by (auto simp: ring_closes_def split: if_splits)

lemma ring_keeps:
  assumes "i < n"
  shows "{0..<2 * n} - set (ring_closes n i) = {2 * readid n i, 2 * i + 1}"
proof (rule set_eqI)
  fix x
  have "readid n i < n" by (rule ring_neighbours(3) [OF assms])
  moreover have "(\<exists>j < n. j \<noteq> k \<and> 2 * y = 2 * j) \<longleftrightarrow> y < n \<and> y \<noteq> k" for k y by auto
  moreover have "2 * y \<noteq> 2 * j + 1" "2 * y + 1 \<noteq> 2 * j" for y j :: nat by presburger+
  ultimately show "x \<in> {0..<2 * n} - set (ring_closes n i) \<longleftrightarrow> x \<in> {2 * readid n i, 2 * i + 1}"
    using assms by (cases "even x"; elim evenE oddE; simp add: in_ring_closes) auto
qed

section \<open>The numbers that are heard\<close>

definition next_ok :: "(nat \<times> int) list \<Rightarrow> int \<Rightarrow> bool" where
  "next_ok h v \<longleftrightarrow> (if h = [] then v = 1 else \<bar>v - snd (last h)\<bar> \<le> 10)"

text \<open>Round the ring, from process 1, each number at most 10 from the one before and none of them 0.\<close>

definition chain :: "nat \<Rightarrow> (nat \<times> int) list \<Rightarrow> bool" where
  "chain n h \<longleftrightarrow> (\<forall>k < length h. fst (h ! k) = (k + 1) mod n \<and> snd (h ! k) \<noteq> 0 \<and> next_ok (take k h) (snd (h ! k)))"

lemma chain_Nil: "chain n []"
  by (simp add: chain_def)

lemma chain_snoc:
  "chain n h \<Longrightarrow> i = (length h + 1) mod n \<Longrightarrow> v \<noteq> 0 \<Longrightarrow> next_ok h v \<Longrightarrow> chain n (h @ [(i, v)])"
  by (auto simp: chain_def nth_append less_Suc_eq)

lemma chain_bound: "chain n h \<Longrightarrow> k < length h \<Longrightarrow> \<bar>snd (h ! k)\<bar> \<le> 1 + 10 * int k"
proof (induction k)
  case (Suc k)
  then have "next_ok (take (Suc k) h) (snd (h ! Suc k))" by (simp add: chain_def)
  moreover have "take (Suc k) h \<noteq> []" "last (take (Suc k) h) = h ! k"
    using Suc.prems(2) by (auto simp: take_Suc_conv_app_nth)
  ultimately have "\<bar>snd (h ! Suc k) - snd (h ! k)\<bar> \<le> 10" by (simp add: next_ok_def)
  with Suc show ?case by (simp add: algebra_simps)
qed (force simp: chain_def next_ok_def)

lemma buffer_text_read:
  assumes "in_int v"
  shows "atoi (buffer_text v) = v"
proof -
  have "nat v < 10 ^ 10" using assms by (cases "0 \<le> v") (simp_all add: in_int_def nat_less_iff)
  moreover have "nat (- v) < 10 ^ 10" using assms by (cases "0 \<le> - v") (simp_all add: in_int_def nat_less_iff)
  ultimately have "length (show_nat (nat v)) \<le> 10" "length (show_nat (nat (- v))) \<le> 10" by (simp_all add: length_show_nat)
  then have "length (show_int v) \<le> 11" by (simp add: show_int_def)
  then show ?thesis by (simp add: buffer_text_def)
qed

section \<open>One number goes round\<close>

definition quiet_pipes :: "ring \<Rightarrow> bool" where
  "quiet_pipes s \<longleftrightarrow> (\<forall>b \<in> set (pipes s). b = [])"

definition token_at :: "ring \<Rightarrow> nat" where
  "token_at s = length (heard s) mod length (nodes s)"

text \<open>What the position of process \<open>i\<close> says of the number.\<close>

definition node_ok :: "ring \<Rightarrow> nat \<Rightarrow> npos \<Rightarrow> bool" where
  "node_ok s i c \<longleftrightarrow> (case c of
     Initial \<Rightarrow> i = 0 \<and> heard s = [] \<and> quiet_pipes s
   | Passing b \<Rightarrow> i = token_at s \<and> heard s \<noteq> [] \<and> quiet_pipes s \<and> next_ok (heard s) (atoi b)
   | Undef \<Rightarrow> i = token_at s \<and> heard s \<noteq> [] \<and> quiet_pipes s \<and> 2147483600 < \<bar>snd (last (heard s))\<bar>
   | _ \<Rightarrow> True)"

definition pipe_ok :: "ring \<Rightarrow> bool" where
  "pipe_ok s \<longleftrightarrow> quiet_pipes s \<or>
     (\<exists>b. pipes s = (replicate (length (nodes s)) [])[token_at s := [b]] \<and> next_ok (heard s) (atoi b))"

definition holding :: "npos \<Rightarrow> bool" where
  "holding c \<longleftrightarrow> (case c of Initial \<Rightarrow> True | Passing b \<Rightarrow> True | Undef \<Rightarrow> True | _ \<Rightarrow> False)"

text \<open>As long as nobody has ended the number is somewhere.\<close>

definition ring_inv :: "ring \<Rightarrow> bool" where
  "ring_inv s \<longleftrightarrow> nodes s \<noteq> [] \<and> length (pipes s) = length (nodes s) \<and> chain (length (nodes s)) (heard s) \<and>
     pipe_ok s \<and> (\<forall>i < length (nodes s). node_ok s i (at (nodes s ! i))) \<and>
     ((\<exists>p \<in> set (nodes s). at p = Gone \<or> holding (at p)) \<or> \<not> quiet_pipes s)"

lemma set_node_fields [simp]:
  "pipes (set_node i c s) = pipes s" "heard (set_node i c s) = heard s" "length (nodes (set_node i c s)) = length (nodes s)"
  "quiet_pipes (set_node i c s) = quiet_pipes s" "token_at (set_node i c s) = token_at s"
  by (simp_all add: set_node_def quiet_pipes_def token_at_def)

lemma set_node_frame [simp]: "pipe_ok (set_node i c s) = pipe_ok s" "node_ok (set_node j c s) = node_ok s"
  by (simp_all add: pipe_ok_def node_ok_def fun_eq_iff cong: npos.case_cong)

lemma set_node_at: "i < length (nodes s) \<Longrightarrow> j < length (nodes s) \<Longrightarrow>
    at (nodes (set_node i c s) ! j) = (if j = i then c else at (nodes s ! j))"
  by (simp add: set_node_def nth_list_update)

lemma set_node_in: "i < length (nodes s) \<Longrightarrow> \<exists>p \<in> set (nodes (set_node i c s)). at p = c"
  by (force simp: set_node_def intro: set_update_memI)

text \<open>A process moves, the number stays where it is or is given up.\<close>

lemma inv_set_node:
  assumes inv: "ring_inv s" and i: "i < length (nodes s)" and c: "node_ok s i c"
    and h: "c = Gone \<or> holding c \<or> \<not> holding (at (nodes s ! i)) \<and> at (nodes s ! i) \<noteq> Gone"
  shows "ring_inv (set_node i c s)"
proof -
  have "(\<exists>p \<in> set (nodes (set_node i c s)). at p = Gone \<or> holding (at p)) \<or> \<not> quiet_pipes s"
  proof (cases "c = Gone \<or> holding c")
    case True
    then show ?thesis using set_node_in [OF i, of c] by auto
  next
    case False
    have "\<exists>j < length (nodes s). at (nodes s ! j) = Gone \<or> holding (at (nodes s ! j))" if "quiet_pipes s"
      using inv that by (auto simp: ring_inv_def in_set_conv_nth)
    moreover have "\<exists>p \<in> set (nodes (set_node i c s)). at p = Gone \<or> holding (at p)"
      if "j < length (nodes s)" "at (nodes s ! j) = Gone \<or> holding (at (nodes s ! j))" for j
    proof -
      have "j \<noteq> i" using that(2) h False by auto
      then have "at (nodes (set_node i c s) ! j) = at (nodes s ! j)" using set_node_at [OF i that(1)] by simp
      with that show ?thesis by (metis nth_mem set_node_fields(3))
    qed
    ultimately show ?thesis by blast
  qed
  moreover have "nodes (set_node i c s) \<noteq> []" using i by (auto simp: set_node_def)
  moreover have "\<forall>j < length (nodes s). node_ok s j (at (nodes (set_node i c s) ! j))"
    using inv c set_node_at [OF i] by (simp add: ring_inv_def)
  ultimately show ?thesis using inv by (simp add: ring_inv_def)
qed

lemma holder:
  assumes "node_ok s i c" and "holding c"
  shows "i = token_at s \<and> quiet_pipes s"
  using assms by (cases c) (auto simp: node_ok_def holding_def token_at_def)

lemma no_holder: "\<not> holding c \<Longrightarrow> node_ok s i c"
  by (cases c) (simp_all add: node_ok_def holding_def)

lemma others_rest:
  assumes "ring_inv s" and "i = token_at s \<or> \<not> quiet_pipes s" and "j < length (nodes s)" "j \<noteq> i"
  shows "\<not> holding (at (nodes s ! j))"
  using assms holder [of s j "at (nodes s ! j)"] by (auto simp: ring_inv_def)

lemma replicate_update_quiet: "b \<in> set ((replicate n [])[i := xs]) \<Longrightarrow> b = [] \<or> b = xs"
  using set_update_subset_insert [of "replicate n []" i xs] by auto

lemma quiet_replicate:
  assumes "quiet_pipes s" shows "pipes s = replicate (length (pipes s)) []"
  using assms by (intro replicate_eqI) (auto simp: quiet_pipes_def)

text \<open>Process \<open>i\<close>, which has the number, writes it.\<close>

lemma inv_put:
  assumes inv: "ring_inv s" and i: "i < length (nodes s)" and h: "holding (at (nodes s ! i))" and b: "next_ok (heard s) (atoi b)"
  shows "ring_inv (set_node i Test (put_message i b s))"
proof -
  let ?t = "set_node i Test (put_message i b s)"
  have tok: "i = token_at s" "quiet_pipes s" using holder [OF _ h, of s i] inv i by (auto simp: ring_inv_def)
  have l: "length (pipes s) = length (nodes s)" using inv by (simp add: ring_inv_def)
  have q: "pipes s = replicate (length (nodes s)) []" using quiet_replicate [OF tok(2)] l by simp
  then have p: "pipes ?t = (replicate (length (nodes s)) [])[i := [b]]"
    using i by (simp add: put_message_def)
  then have nq: "\<not> quiet_pipes ?t" using i by (auto simp: quiet_pipes_def set_update_memI intro!: bexI [of _ "[b]"])
  have n: "length (nodes ?t) = length (nodes s)" "heard ?t = heard s" "token_at ?t = i"
    using tok(1) by (simp_all add: put_message_def token_at_def set_node_def)
  have "node_ok ?t j (at (nodes ?t ! j))" if "j < length (nodes s)" for j
  proof (rule no_holder)
    have "at (nodes ?t ! j) = (if j = i then Test else at (nodes s ! j))"
      using i that by (simp add: set_node_def put_message_def nth_list_update)
    then show "\<not> holding (at (nodes ?t ! j))"
      using others_rest [OF inv _ that, of i] tok(1) by (cases "j = i") (simp_all add: holding_def)
  qed
  moreover have "pipe_ok ?t" using p n b by (auto simp: pipe_ok_def)
  moreover have "nodes ?t \<noteq> []" using i n(1) by (metis length_0_conv not_less0)
  ultimately show ?thesis using inv n p nq by (simp add: ring_inv_def)
qed

text \<open>Process \<open>i\<close> finds the number in its pipe.\<close>

lemma token_read:
  assumes inv: "ring_inv s" and i: "i < length (nodes s)" and b: "pipes s ! readid (length (nodes s)) i = b # bs"
  shows "bs = []" "readid (length (nodes s)) i = token_at s" "next_ok (heard s) (atoi b)"
    "pipes s = (replicate (length (nodes s)) [])[token_at s := [b]]" "\<not> quiet_pipes s"
    "i = (length (heard s) + 1) mod length (nodes s)"
proof -
  let ?k = "readid (length (nodes s)) i"
  have k: "?k < length (nodes s)" by (rule ring_neighbours(3) [OF i])
  have l: "length (pipes s) = length (nodes s)" using inv by (simp add: ring_inv_def)
  show nq: "\<not> quiet_pipes s" using b k l nth_mem [of ?k "pipes s"] by (auto simp: quiet_pipes_def)
  then obtain c where c: "pipes s = (replicate (length (nodes s)) [])[token_at s := [c]]" "next_ok (heard s) (atoi c)"
    using inv by (auto simp: ring_inv_def pipe_ok_def)
  have "token_at s < length (nodes s)" using i by (cases "nodes s") (simp_all add: token_at_def)
  with c(1) b k have e: "?k = token_at s" "c = b" "bs = []" by (auto simp: nth_list_update split: if_splits)
  with c show "bs = []" "?k = token_at s" "next_ok (heard s) (atoi b)"
    "pipes s = (replicate (length (nodes s)) [])[token_at s := [b]]" by simp_all
  have "reader_of (length (nodes s)) (token_at s) = i" using e(1) ring_neighbours(2) [OF i] by simp
  then show "i = (length (heard s) + 1) mod length (nodes s)"
    by (simp add: reader_of_def token_at_def mod_Suc_eq)
qed

lemma token_lt: "i < length (nodes s) \<Longrightarrow> token_at s < length (nodes s)"
  by (cases "nodes s") (simp_all add: token_at_def)

lemma inv_take:
  assumes inv: "ring_inv s" and i: "i < length (nodes s)" and b: "pipes s ! readid (length (nodes s)) i = b # bs"
  shows "ring_inv (take_number i r b (s\<lparr>pipes := (pipes s)[readid (length (nodes s)) i := bs]\<rparr>))"
proof -
  note T = token_read [OF inv i b]
  let ?n = "length (nodes s)" and ?q = "replicate (length (nodes s)) []" and ?v = "atoi b"
  let ?h = "heard s @ [(i, ?v)]"
  have rest: "\<not> holding (at (nodes s ! j))" if "j < ?n" "j \<noteq> i" for j using others_rest [OF inv _ that] T(5) by blast
  have e: "(pipes s)[readid ?n i := bs] = ?q"
    using T token_lt [OF i] by (auto intro!: nth_equalityI simp: nth_list_update)
  have ne: "nodes s \<noteq> []" using i by auto
  have ch: "chain ?n (heard s)" using inv by (simp add: ring_inv_def)
  have i': "i = length ?h mod ?n" using T(6) by simp
  have new: "ring_inv u"
    if u: "u = set_node i c (s\<lparr>pipes := ?q, heard := h\<rparr>)" and c: "c = Gone \<or> holding c" and h: "h = heard s \<or> h = ?h \<and> ?v \<noteq> 0"
      and ok: "node_ok (s\<lparr>pipes := ?q, heard := h\<rparr>) i c" for u c h
  proof -
    have f: "length (nodes u) = ?n" "pipes u = ?q" "heard u = h" using u by simp_all
    have qu: "quiet_pipes u" using f(2) by (simp add: quiet_pipes_def)
    have "node_ok u j (at (nodes u ! j))" if j: "j < ?n" for j
    proof (cases "j = i")
      case True
      have "node_ok u = node_ok (s\<lparr>pipes := ?q, heard := h\<rparr>)" by (simp add: u)
      with True ok i u show ?thesis by (simp add: set_node_def)
    next
      case False
      then have "at (nodes u ! j) = at (nodes s ! j)" using u by (simp add: set_node_def)
      with rest [OF j False] show ?thesis by (simp add: no_holder)
    qed
    moreover have "\<exists>p \<in> set (nodes u). at p = Gone \<or> holding (at p)"
      using set_node_in [of i "s\<lparr>pipes := ?q, heard := h\<rparr>" c] i c u by auto
    moreover have "chain ?n h" using h ch chain_snoc [OF ch T(6) _ T(3)] by auto
    ultimately show ?thesis using f qu ne by (auto simp: ring_inv_def pipe_ok_def)
  qed
  show ?thesis
  proof (cases "?v = 0")
    case True
    have "node_ok (s\<lparr>pipes := ?q\<rparr>) i Gone" by (simp add: node_ok_def)
    with True e show ?thesis by (intro new [of _ Gone "heard s"]) (simp_all add: take_number_def)
  next
    case False
    let ?w = "?v + int (r mod 21) - 10" and ?t = "s\<lparr>pipes := ?q, heard := ?h\<rparr>"
    have q: "quiet_pipes ?t" by (simp add: quiet_pipes_def)
    have tok: "i = token_at ?t" using i' by (simp add: token_at_def)
    have r: "int (r mod 21) \<le> 20" by simp
    show ?thesis
    proof (cases "in_int ?w")
      case True
      have "node_ok ?t i (Passing (buffer_text ?w))"
        using q tok r buffer_text_read [OF True] by (simp add: node_ok_def next_ok_def)
      with False True e show ?thesis
        by (intro new [of _ "Passing (buffer_text ?w)" ?h]) (simp_all add: take_number_def Let_def holding_def)
    next
      case u: False
      have "node_ok ?t i Undef" using q tok r u by (auto simp: node_ok_def in_int_def)
      with False u e show ?thesis
        by (intro new [of _ Undef ?h]) (simp_all add: take_number_def Let_def holding_def)
    qed
  qed
qed

lemma inv_kill_all:
  assumes "ring_inv s"
  shows "ring_inv (kill_all s)"
proof -
  let ?t = "kill_all s"
  have f: "length (nodes ?t) = length (nodes s)" "pipes ?t = pipes s" "heard ?t = heard s" by (simp_all add: kill_all_def)
  have "node_ok ?t i (at (nodes ?t ! i))" if "i < length (nodes s)" for i
    using that by (intro no_holder) (simp add: kill_all_def holding_def)
  moreover have "\<exists>p \<in> set (nodes ?t). at p = Gone" using assms by (cases "nodes s") (auto simp: ring_inv_def kill_all_def)
  moreover have "pipe_ok ?t" using assms f by (simp add: ring_inv_def pipe_ok_def quiet_pipes_def token_at_def)
  moreover have "nodes ?t \<noteq> []" using assms by (simp add: ring_inv_def kill_all_def)
  ultimately show ?thesis using assms f by (auto simp: ring_inv_def)
qed

lemma inv_work:
  assumes inv: "ring_inv s" and i: "i < length (nodes s)" and t: "work i r s = Some t"
  shows "ring_inv t"
proof (cases "at (nodes s ! i)")
  case Initial
  then have "node_ok s i Initial" using inv i by (auto simp: ring_inv_def)
  then have "next_ok (heard s) (atoi (buffer_text 1))"
    using buffer_text_read [of 1] by (simp add: node_ok_def next_ok_def in_int_def)
  with inv_put [OF inv i _ this] Initial t inv_kill_all [OF inv] show ?thesis
    by (auto simp: work_def send_initial_message_def holding_def)
next
  case Test
  then show ?thesis
    using t by (auto simp: work_def Let_def node_ok_def holding_def intro!: inv_set_node [OF inv i])
next
  case Reading
  then show ?thesis
    using t inv_take [OF inv i]
    by (auto simp: work_def Let_def node_ok_def split: list.splits if_splits intro!: inv_set_node [OF inv i])
next
  case (Passing b)
  then have "next_ok (heard s) (atoi b)" using inv i by (auto simp: ring_inv_def node_ok_def)
  with inv_put [OF inv i _ this] Passing t show ?thesis
    by (auto simp: work_def Let_def holding_def node_ok_def split: if_splits intro!: inv_set_node [OF inv i])
qed (use t in \<open>simp_all add: work_def Let_def\<close>)

lemma inv_signalled:
  assumes "ring_inv s" and i: "i < length (nodes s)"
  shows "ring_inv (signalled i s)"
proof -
  let ?t = "signalled i s"
  have f: "length (nodes ?t) = length (nodes s)" "pipes ?t = pipes s" "heard ?t = heard s" "map at (nodes ?t) = map at (nodes s)"
    by (simp_all add: signalled_def map_update list_update_same_conv i)
  have a: "at (nodes ?t ! j) = at (nodes s ! j)" if "j < length (nodes s)" for j
    using f(1,4) that by (metis nth_map)
  have "at ` set (nodes ?t) = at ` set (nodes s)" using f(4) by (metis set_map)
  then have "(\<exists>p \<in> set (nodes ?t). at p = Gone \<or> holding (at p)) \<longleftrightarrow> (\<exists>p \<in> set (nodes s). at p = Gone \<or> holding (at p))"
    by (metis (mono_tags, lifting) image_iff)
  moreover have "node_ok ?t = node_ok s" "pipe_ok ?t = pipe_ok s" "quiet_pipes ?t = quiet_pipes s"
    using f by (simp_all add: node_ok_def pipe_ok_def quiet_pipes_def token_at_def fun_eq_iff cong: npos.case_cong)
  moreover have "nodes ?t \<noteq> []" using i f(1) by (metis length_0_conv not_less0)
  ultimately show ?thesis using assms(1) f a by (simp add: ring_inv_def)
qed

lemma inv_step:
  assumes "ring_inv s" and "ring_step s t"
  shows "ring_inv t"
  using assms(2)
proof cases
  case (works i r)
  then show ?thesis using inv_work assms(1) by blast
next
  case (signal i)
  then show ?thesis using inv_signalled assms(1) by blast
next
  case (eintr i)
  have "i < length (nodes (signalled i s))" using eintr by (simp add: signalled_def)
  with inv_signalled [OF assms(1) eintr(2)] eintr(1) show ?thesis
    by (auto simp: node_ok_def intro!: inv_set_node)
qed

lemma inv_start: "0 < n \<Longrightarrow> ring_inv (ring_start n)"
  by (auto simp: ring_inv_def ring_start_def chain_def pipe_ok_def quiet_pipes_def node_ok_def token_at_def holding_def
      intro!: bexI [of _ 0])

interpretation ring: inv_system "\<lambda>s. s = ring_start n \<and> 0 < n" ring_step ring_inv for n
  by unfold_locales (auto intro: inv_start inv_step)

section \<open>Who can go on\<close>

definition all_gone :: "ring \<Rightarrow> bool" where
  "all_gone s \<longleftrightarrow> (\<forall>i < length (nodes s). gone s i)"

text \<open>Some process is alive behind one that has ended.\<close>

lemma alive_after_gone:
  assumes "a < n" "P a" and "b < n" "\<not> P b"
  shows "\<exists>i < n. \<not> P i \<and> P (readid n i)"
proof (rule ccontr)
  assume "\<not> ?thesis"
  then have N: "P (readid n i) \<Longrightarrow> P i" if "i < n" for i using that by blast
  have "P ((a + k) mod n)" for k
  proof (induction k)
    case 0
    then show ?case using assms(1,2) by simp
  next
    case (Suc k)
    have m: "(a + k) mod n < n" using assms(1) by simp
    have "P (readid n (reader_of n ((a + k) mod n)))" using ring_neighbours(1) [OF m] Suc by simp
    then have "P (reader_of n ((a + k) mod n))" by (rule N [OF ring_neighbours(4) [OF m]])
    then show ?case by (simp add: reader_of_def mod_Suc_eq)
  qed
  from this [of "n - a + b"] assms show False by simp
qed

definition undefined_node :: "ring \<Rightarrow> bool" where
  "undefined_node s \<longleftrightarrow> (\<exists>p \<in> set (nodes s). at p = Undef)"

lemma undefined_far:
  assumes "ring_inv s" and "undefined_node s"
  shows "2147483590 < 10 * length (heard s)"
proof -
  obtain i where i: "i < length (nodes s)" "at (nodes s ! i) = Undef"
    using assms(2) by (auto simp: undefined_node_def in_set_conv_nth)
  then have "node_ok s i Undef" using assms(1) by (auto simp: ring_inv_def)
  then have h: "heard s \<noteq> []" "2147483600 < \<bar>snd (last (heard s))\<bar>" by (simp_all add: node_ok_def)
  have "\<bar>snd (heard s ! (length (heard s) - 1))\<bar> \<le> 1 + 10 * int (length (heard s) - 1)"
    using assms(1) h(1) by (intro chain_bound [of "length (nodes s)"]) (simp_all add: ring_inv_def)
  with h show ?thesis by (simp add: last_conv_nth)
qed

text \<open>A process can work on, without any signal.\<close>

definition can_work :: "ring \<Rightarrow> bool" where
  "can_work s \<longleftrightarrow> (\<exists>i < length (nodes s). \<exists>r t. work i r s = Some t)"

lemma moving_can:
  assumes "i < length (nodes s)" and "at (nodes s ! i) = Test \<or> holding (at (nodes s ! i)) \<and> at (nodes s ! i) \<noteq> Undef"
  shows "can_work s"
proof -
  have "\<exists>t. work i 0 s = Some t"
    using assms(2) by (cases "at (nodes s ! i)") (auto simp: work_def Let_def holding_def)
  with assms(1) show ?thesis by (auto simp: can_work_def)
qed

lemma reading_can:
  assumes "i < length (nodes s)" and "at (nodes s ! i) = Reading"
    and "gone s (readid (length (nodes s)) i) \<or> pipes s ! readid (length (nodes s)) i \<noteq> []"
  shows "can_work s"
proof -
  have "\<exists>t. work i 0 s = Some t"
    using assms(2,3) by (auto simp: work_def Let_def split: list.splits)
  with assms(1) show ?thesis by (auto simp: can_work_def)
qed

lemma position_cases: "c = Gone \<or> c = Undef \<or> c = Reading \<or> c = Test \<or> holding c \<and> c \<noteq> Undef"
  by (cases c) (simp_all add: holding_def)

lemma ring_progress:
  assumes inv: "ring_inv s" and u: "\<not> undefined_node s" and "\<not> all_gone s"
  shows "can_work s"
proof -
  let ?n = "length (nodes s)"
  have nu: "at (nodes s ! i) \<noteq> Undef" if "i < ?n" for i using u that by (auto simp: undefined_node_def)
  obtain b where b: "b < ?n" "\<not> gone s b" using assms(3) by (auto simp: all_gone_def)
  show ?thesis
  proof (cases "\<exists>a < ?n. gone s a")
    case True
    then obtain a where "a < ?n" "gone s a" by blast
    from alive_after_gone [of a ?n "gone s", OF this b] obtain i where
      i: "i < ?n" "\<not> gone s i" "gone s (readid ?n i)" by blast
    then show ?thesis
      using position_cases [of "at (nodes s ! i)"] nu [OF i(1)] moving_can [OF i(1)] reading_can [OF i(1)]
      by (auto simp: gone_def)
  next
    case alive: False
    then have na: "\<forall>p \<in> set (nodes s). at p \<noteq> Gone" by (auto simp: gone_def in_set_conv_nth)
    show ?thesis
    proof (cases "quiet_pipes s")
      case True
      with inv na obtain p where "p \<in> set (nodes s)" "holding (at p)" by (auto simp: ring_inv_def)
      then obtain i where "i < ?n" "holding (at (nodes s ! i))" by (auto simp: in_set_conv_nth)
      with moving_can nu show ?thesis by blast
    next
      case False
      then obtain j where j: "j < ?n" "pipes s ! j \<noteq> []"
        using inv by (auto simp: quiet_pipes_def ring_inv_def in_set_conv_nth)
      let ?i = "reader_of ?n j"
      have i: "?i < ?n" "readid ?n ?i = j" using ring_neighbours [OF j(1)] by simp_all
      then show ?thesis
        using position_cases [of "at (nodes s ! ?i)"] nu [OF i(1)] moving_can [OF i(1)] reading_can [OF i(1)] alive j
        by (auto simp: gone_def)
    qed
  qed
qed

section \<open>After the first end\<close>

definition some_gone :: "ring \<Rightarrow> bool" where
  "some_gone s \<longleftrightarrow> (\<exists>i < length (nodes s). gone s i)"

text \<open>How far the number can still go: it cannot pass a process that has ended.\<close>

definition dist :: "ring \<Rightarrow> nat" where
  "dist s = (LEAST d. 0 < d \<and> gone s ((length (heard s) + d) mod length (nodes s)))"

fun local_work :: "npos \<Rightarrow> nat" where
  "local_work Initial = 3" | "local_work (Passing b) = 3" | "local_work Test = 2" | "local_work Reading = 1" | "local_work c = 0"

definition node_work :: "node \<Rightarrow> nat" where
  "node_work p = local_work (at p) + of_bool (\<not> last_signal p)"

definition work_left :: "ring \<Rightarrow> nat" where
  "work_left s = 4 * dist s + sum_list (map node_work (nodes s))"

lemma dist_exists:
  assumes "some_gone s"
  shows "\<exists>d. 0 < d \<and> d \<le> length (nodes s) \<and> gone s ((length (heard s) + d) mod length (nodes s))"
proof -
  let ?n = "length (nodes s)" and ?k = "length (heard s) mod length (nodes s)"
  obtain a where a: "a < ?n" "gone s a" using assms by (auto simp: some_gone_def)
  define d where "d = (if ?k < a then a - ?k else a + ?n - ?k)"
  have k: "?k < ?n" by (rule mod_less_divisor, rule le_less_trans [OF _ a(1)]) simp
  have "?k + d = a \<or> ?k + d = a + ?n" using k by (auto simp: d_def)
  then have "(?k + d) mod ?n = a" using a(1) by auto
  then have "(length (heard s) + d) mod ?n = a" by (simp add: mod_add_left_eq)
  moreover have "0 < d \<and> d \<le> ?n" using a(1) k by (auto simp: d_def)
  ultimately show ?thesis using a(2) by blast
qed

lemma dist_gone:
  assumes "some_gone s"
  shows "0 < dist s \<and> gone s ((length (heard s) + dist s) mod length (nodes s))"
proof -
  obtain d where "0 < d \<and> gone s ((length (heard s) + d) mod length (nodes s))" using dist_exists [OF assms] by blast
  then show ?thesis unfolding dist_def by (rule LeastI)
qed

lemma dist_le: "0 < d \<Longrightarrow> gone s ((length (heard s) + d) mod length (nodes s)) \<Longrightarrow> dist s \<le> d"
  unfolding dist_def by (rule Least_le) simp

lemma dist_bound: "some_gone s \<Longrightarrow> dist s \<le> length (nodes s)"
  using dist_exists [of s] dist_le by (meson order_trans)

text \<open>The ended stay ended, and the number comes no further away from them.\<close>

lemma dist_mono:
  assumes "some_gone s" and "length (nodes t) = length (nodes s)" and "heard t = heard s"
    and "\<And>i. i < length (nodes s) \<Longrightarrow> gone s i \<Longrightarrow> gone t i"
  shows "dist t \<le> dist s"
proof -
  have "0 < length (nodes s)" using assms(1) by (auto simp: some_gone_def)
  with dist_gone [OF assms(1)] assms(2-4) show ?thesis by (intro dist_le) simp_all
qed

lemma dist_heard:
  assumes "some_gone s" and "length (nodes t) = length (nodes s)" and "heard t = heard s @ [x]"
    and "\<And>i. i < length (nodes s) \<Longrightarrow> gone s i \<Longrightarrow> gone t i"
    and "\<not> gone s ((length (heard s) + 1) mod length (nodes s))"
  shows "dist t < dist s"
proof -
  have n: "0 < length (nodes s)" using assms(1) by (auto simp: some_gone_def)
  have d: "0 < dist s" "gone s ((length (heard s) + dist s) mod length (nodes s))" using dist_gone [OF assms(1)] by auto
  then have "dist s \<noteq> 1" using assms(5) by auto
  with d have "dist t \<le> dist s - 1" using assms(2-4) n by (intro dist_le) simp_all
  with d show ?thesis by simp
qed

text \<open>A process goes down, the number stays.\<close>

lemma less_local:
  assumes g: "some_gone s" and i: "i < length (nodes s)" and a: "at (nodes s ! i) \<noteq> Gone"
    and t: "nodes t = (nodes s)[i := p]" "heard t = heard s" and p: "node_work p < node_work (nodes s ! i)"
  shows "work_left t < work_left s"
proof -
  have "dist t \<le> dist s"
    by (rule dist_mono [OF g]) (use t a i in \<open>auto simp: gone_def nth_list_update\<close>)
  with sum_list_replace [OF i, of node_work p] p t(1) show ?thesis by (simp add: work_left_def)
qed

lemma less_set_node:
  assumes "some_gone s" and "i < length (nodes s)" and "nodes u = nodes s" "heard u = heard s"
    and "local_work c < local_work (at (nodes s ! i))"
  shows "work_left (set_node i c u) < work_left s"
  by (rule less_local [where i = i and p = "(nodes s ! i)\<lparr>at := c\<rparr>"]) (use assms in \<open>auto simp: set_node_def node_work_def\<close>)

lemma less_kill:
  assumes "some_gone s" and "i < length (nodes s)" and "at (nodes s ! i) = Initial"
  shows "work_left (kill_all s) < work_left s"
proof -
  have "dist (kill_all s) \<le> dist s" by (rule dist_mono [OF assms(1)]) (auto simp: kill_all_def gone_def)
  moreover have "(\<Sum>p\<leftarrow>ps. node_work (p\<lparr>at := Gone\<rparr>)) < sum_list (map node_work ps)"
    if "i < length ps" "at (ps ! i) = Initial" for ps i
  proof -
    have l: "node_work (p\<lparr>at := Gone\<rparr>) \<le> node_work p" for p by (simp add: node_work_def)
    have "node_work ((ps ! i)\<lparr>at := Gone\<rparr>) < node_work (ps ! i)" using that(2) by (simp add: node_work_def)
    then show ?thesis
      unfolding sum_list_sum_nth length_map using that(1) l
      by (intro sum_strict_mono_ex1) (auto intro!: bexI [of _ i])
  qed
  from this [OF assms(2,3)] calculation show ?thesis by (simp add: work_left_def kill_all_def comp_def)
qed

lemma gone_update: "at (ps ! i) \<noteq> Gone \<Longrightarrow> at (ps ! j) = Gone \<Longrightarrow> at (ps[i := p] ! j) = Gone"
  by (cases "i = j") auto

lemma less_take:
  assumes inv: "ring_inv s" and g: "some_gone s" and i: "i < length (nodes s)" and r: "at (nodes s ! i) = Reading"
    and b: "pipes s ! readid (length (nodes s)) i = b # bs"
  shows "work_left (take_number i x b (s\<lparr>pipes := q\<rparr>)) < work_left s"
proof -
  have i': "i = (length (heard s) + 1) mod length (nodes s)" by (rule token_read(6) [OF inv i b])
  have heard: "work_left (set_node i c (s\<lparr>pipes := q, heard := heard s @ [y]\<rparr>)) < work_left s" if c: "local_work c \<le> 3" for c y
  proof -
    let ?t = "set_node i c (s\<lparr>pipes := q, heard := heard s @ [y]\<rparr>)" and ?p = "(nodes s ! i)\<lparr>at := c\<rparr>"
    have ps: "nodes ?t = (nodes s)[i := ?p]" by (simp add: set_node_def)
    have "dist ?t < dist s"
    proof (rule dist_heard [OF g])
      show "gone ?t j" if "j < length (nodes s)" "gone s j" for j
        using that r gone_update [of "nodes s" i j ?p] by (simp add: gone_def ps)
      show "\<not> gone s ((length (heard s) + 1) mod length (nodes s))" using r by (simp only: i' [symmetric] gone_def) simp
    qed (simp_all add: ps)
    moreover have "node_work ?p \<le> 2 + node_work (nodes s ! i)" using c r by (simp add: node_work_def)
    then have "sum_list (map node_work (nodes ?t)) \<le> 2 + sum_list (map node_work (nodes s))"
      using sum_list_replace [OF i, of node_work ?p] ps by simp
    ultimately show ?thesis by (simp add: work_left_def)
  qed
  have "work_left (set_node i Gone (s\<lparr>pipes := q\<rparr>)) < work_left s"
    by (rule less_set_node [OF g i]) (use r in simp_all)
  with heard [of "Passing (buffer_text (atoi b + int (x mod 21) - 10))" "(i, atoi b)"] heard [of Undef "(i, atoi b)"]
  show ?thesis by (simp add: take_number_def Let_def)
qed

lemma less_work:
  assumes inv: "ring_inv s" and g: "some_gone s" and i: "i < length (nodes s)" and t: "work i r s = Some t"
  shows "work_left t < work_left s"
proof (cases "at (nodes s ! i)")
  case Initial
  have "work_left (set_node i Test (put_message i b s)) < work_left s" for b
    by (rule less_set_node [OF g i]) (use Initial in \<open>simp_all add: put_message_def\<close>)
  with t Initial less_kill [OF g i Initial] show ?thesis by (auto simp: work_def Let_def send_initial_message_def)
next
  case Test
  with t less_set_node [OF g i refl refl] show ?thesis by (auto simp: work_def Let_def)
next
  case Reading
  with t less_set_node [OF g i refl refl] less_take [OF inv g i Reading] show ?thesis
    by (auto simp: work_def Let_def split: list.splits if_splits)
next
  case (Passing b)
  have "work_left (set_node i Test (put_message i b s)) < work_left s"
    by (rule less_set_node [OF g i]) (use Passing in \<open>simp_all add: put_message_def\<close>)
  with t Passing less_set_node [OF g i refl refl] show ?thesis by (auto simp: work_def Let_def split: if_splits)
qed (use t in \<open>simp_all add: work_def Let_def\<close>)

lemma less_step:
  assumes inv: "ring_inv s" and g: "some_gone s" and st: "ring_step s t"
  shows "work_left t < work_left s"
  using st
proof cases
  case (works i r)
  then show ?thesis using less_work [OF inv g] by blast
next
  case (signal i)
  let ?p = "(nodes s ! i)\<lparr>last_signal := True\<rparr>"
  show ?thesis
    by (rule less_local [OF g signal(2), of _ ?p]) (use signal in \<open>auto simp: gone_def signalled_def node_work_def\<close>)
next
  case (eintr i)
  let ?p = "(nodes s ! i)\<lparr>last_signal := True, at := Gone\<rparr>"
  show ?thesis
    by (rule less_local [OF g eintr(2), of _ ?p]) (use eintr in \<open>auto simp: signalled_def set_node_def node_work_def\<close>)
qed

text \<open>Nobody comes back, and the number is heard only as far as the first who has ended.\<close>

lemma work_gone:
  assumes "work i r s = Some t" and "i < length (nodes s)"
  shows "length (nodes t) = length (nodes s) \<and> (\<forall>j < length (nodes s). gone s j \<longrightarrow> gone t j)"
proof -
  have a: "at (nodes s ! i) \<noteq> Gone" using assms(1) by (auto simp: work_def Let_def)
  have "length (nodes t) = length (nodes s) \<and> ((\<exists>p. nodes t = (nodes s)[i := p]) \<or> t = kill_all s)"
    using assms(1) by (cases "at (nodes s ! i)")
      (auto simp: work_def Let_def send_initial_message_def take_number_def set_node_def put_message_def kill_all_def
        split: list.splits if_splits)
  with a gone_update [OF a] show ?thesis by (auto simp: gone_def kill_all_def)
qed

lemma step_gone:
  assumes "ring_step s t"
  shows "length (nodes t) = length (nodes s) \<and> (\<forall>j < length (nodes s). gone s j \<longrightarrow> gone t j)"
  using assms by cases (use work_gone in \<open>auto simp: gone_def signalled_def set_node_def nth_list_update\<close>)

lemma step_some_gone: "ring_step s t \<Longrightarrow> some_gone s \<Longrightarrow> some_gone t"
  using step_gone by (fastforce simp: some_gone_def)

lemma step_heard:
  assumes inv: "ring_inv s" and "ring_step s t"
  shows "heard t = heard s \<or> (\<exists>x. heard t = heard s @ [x] \<and> \<not> gone s ((length (heard s) + 1) mod length (nodes s)))"
  using assms(2)
proof cases
  case (works i r)
  show ?thesis
  proof (cases "at (nodes s ! i) = Reading \<and> pipes s ! readid (length (nodes s)) i \<noteq> []")
    case True
    then obtain b bs where b: "pipes s ! readid (length (nodes s)) i = b # bs" by (auto simp: neq_Nil_conv)
    have "\<not> gone s ((length (heard s) + 1) mod length (nodes s))"
      using True by (simp only: token_read(6) [OF inv works(1) b, symmetric] gone_def) simp
    moreover have "heard t = heard s \<or> heard t = heard s @ [(i, atoi b)]"
      using works(2) True b by (auto simp: work_def Let_def take_number_def split: if_splits)
    ultimately show ?thesis by blast
  next
    case False
    then show ?thesis
      using works(2) by (cases "at (nodes s ! i)")
        (auto simp: work_def Let_def send_initial_message_def put_message_def kill_all_def split: list.splits if_splits)
  qed
qed (simp_all add: signalled_def)

lemma step_reach_of:
  assumes "ring_inv s" and "some_gone s" and "ring_step s t"
  shows "length (heard t) + dist t \<le> length (heard s) + dist s"
  using step_heard [OF assms(1,3)] step_gone [OF assms(3)] dist_mono [OF assms(2)] dist_heard [OF assms(2)]
  by (metis Suc_leI add_Suc_right add_Suc_shift length_append_singleton nat_add_left_cancel_le)

text \<open>From the first end on; the bound keeps the number inside \<^verbatim>\<open>int\<close>.\<close>

definition ending :: "ring \<Rightarrow> bool" where
  "ending s \<longleftrightarrow> ring_inv s \<and> some_gone s \<and> 10 * (length (heard s) + dist s) \<le> 2147483590"

lemma all_gone_stuck: "all_gone s \<Longrightarrow> \<not> ring_step s t"
  by (auto simp: all_gone_def gone_def work_def Let_def elim!: ring_step.cases)

interpretation last_rounds: stopping_system ending "\<lambda>s t. ending s \<and> ring_step s t" ending all_gone work_left
proof
  show "ending t" if "ending s" "ending s \<and> ring_step s t" for s t
    using that inv_step step_some_gone step_reach_of [of s t] by (auto simp: ending_def)
  show "work_left t < work_left s" if "ending s \<and> ring_step s t" for s t
    using that less_step by (auto simp: ending_def)
  show "\<exists>t. ending s \<and> ring_step s t" if "ending s" "\<not> all_gone s" for s
  proof -
    have "\<not> undefined_node s" using that(1) undefined_far [of s] by (auto simp: ending_def)
    with that have "can_work s" using ring_progress by (simp add: ending_def)
    then show ?thesis using that(1) works unfolding can_work_def by blast
  qed
  show "\<not> (ending s \<and> ring_step s t)" if "all_gone s" for s t using all_gone_stuck [OF that] by blast
qed

text \<open>
  C20: What goes round the ring.  However the processes run and whichever of them are interrupted, the numbers
  printed are printed in the order of the ring, from process 1 on: the first is 1, each differs by at most 10
  from the one before, none is 0; and there is never more than one number on its way, in a pipe or with a process.
\<close>

theorem ring_numbers:
  assumes "reach (\<lambda>s. s = ring_start n \<and> 0 < n) ring_step s"
  shows "(\<forall>k < length (heard s). fst (heard s ! k) = (k + 1) mod length (nodes s) \<and> snd (heard s ! k) \<noteq> 0 \<and>
      (if k = 0 then snd (heard s ! k) = 1 else \<bar>snd (heard s ! k) - snd (heard s ! (k - 1))\<bar> \<le> 10)) \<and>
    (\<forall>i < length (nodes s). holding (at (nodes s ! i)) \<longrightarrow> quiet_pipes s \<and>
      (\<forall>j < length (nodes s). holding (at (nodes s ! j)) \<longrightarrow> i = j)) \<and>
    length (concat (pipes s)) \<le> 1"
proof -
  have inv: "ring_inv s" using ring.reach_inv [OF assms] .
  have "snd (heard s ! k) = 1" if "k = 0" "next_ok (take k (heard s)) (snd (heard s ! k))" for k
    using that by (simp add: next_ok_def)
  moreover have "\<bar>snd (heard s ! k) - snd (heard s ! (k - 1))\<bar> \<le> 10"
    if k: "k < length (heard s)" "k \<noteq> 0" "next_ok (take k (heard s)) (snd (heard s ! k))" for k
  proof -
    obtain m where "k = Suc m" using k(2) by (cases k) auto
    with k show ?thesis by (simp add: next_ok_def take_Suc_conv_app_nth split: if_splits)
  qed
  moreover have "length (concat (pipes s)) \<le> 1"
  proof -
    have r: "concat (replicate m []) = ([] :: string list)" for m by (induction m) auto
    have "length (concat ((replicate m [])[i := [b :: string]])) \<le> 1" for m i b
      by (induction m arbitrary: i) (auto simp: r split: nat.splits)
    moreover have "length (concat (pipes s)) \<le> 1" if "quiet_pipes s"
    proof -
      have "concat (pipes s) = []" using that by (simp add: quiet_pipes_def)
      then have "length (concat (pipes s)) = 0" by (simp only: list.size(3))
      then show ?thesis by linarith
    qed
    moreover have "pipe_ok s" using inv by (simp add: ring_inv_def)
    ultimately show ?thesis unfolding pipe_ok_def by metis
  qed
  moreover have "\<forall>i < length (nodes s). holding (at (nodes s ! i)) \<longrightarrow> i = token_at s \<and> quiet_pipes s"
    using inv holder by (auto simp: ring_inv_def)
  moreover have "chain (length (nodes s)) (heard s)" using inv by (simp add: ring_inv_def)
  ultimately show ?thesis unfolding chain_def by metis
qed

text \<open>
  C21: The ring stops.  Without any signal, as long as a process has not ended some process can work on
  (nobody waits for ever), up to 200000000 numbers; and once a process has ended, by reading 0, by a signal
  or by a broken pipe, no run is infinite and all processes end.
\<close>

theorem ring_stops:
  assumes "reach (\<lambda>s. s = ring_start n \<and> 0 < n) ring_step s" and "length (heard s) + length (nodes s) \<le> 200000000"
  shows "(can_work s \<longleftrightarrow> \<not> all_gone s) \<and>
    (some_gone s \<longrightarrow> (\<nexists>f. f 0 = s \<and> (\<forall>k. ring_step (f k) (f (Suc k)))) \<and> (\<exists>t. ring_step\<^sup>*\<^sup>* s t \<and> all_gone t))"
proof -
  have inv: "ring_inv s" using ring.reach_inv [OF assms(1)] .
  have u: "\<not> undefined_node s" using undefined_far [OF inv] assms(2) by auto
  have w: "can_work s \<longleftrightarrow> \<not> all_gone s"
    using ring_progress [OF inv u] all_gone_stuck works by (fastforce simp: can_work_def)
  have "(\<nexists>f. f 0 = s \<and> (\<forall>k. ring_step (f k) (f (Suc k)))) \<and> (\<exists>t. ring_step\<^sup>*\<^sup>* s t \<and> all_gone t)" if g: "some_gone s"
  proof
    have e: "ending s" using inv g dist_bound [OF g] assms(2) by (simp add: ending_def)
    show "\<nexists>f. f 0 = s \<and> (\<forall>k. ring_step (f k) (f (Suc k)))"
    proof
      assume "\<exists>f. f 0 = s \<and> (\<forall>k. ring_step (f k) (f (Suc k)))"
      then obtain f where f: "f 0 = s" "\<And>k. ring_step (f k) (f (Suc k))" by blast
      have i: "ring_inv (f k) \<and> some_gone (f k)" for k
        by (induction k) (use f inv g inv_step step_some_gone in \<open>auto, metis+\<close>)
      have "work_left (f k) + k \<le> work_left (f 0)" for k
      proof (induction k)
        case (Suc k)
        then show ?case using less_step [of "f k" "f (Suc k)"] i [of k] f(2) [of k] by simp
      qed simp
      from this [of "work_left (f 0) + 1"] show False by simp
    qed
    obtain t where "(\<lambda>s t. ending s \<and> ring_step s t)\<^sup>*\<^sup>* s t" "all_gone t"
      using last_rounds.final_reachable [OF reach_init, OF e] by blast
    then show "\<exists>t. ring_step\<^sup>*\<^sup>* s t \<and> all_gone t"
      using rtranclp_mono [of "\<lambda>s t. ending s \<and> ring_step s t" ring_step] by blast
  qed
  with w show ?thesis by blast
qed

section \<open>Witnesses\<close>

definition one_step :: "nat \<times> nat \<Rightarrow> ring \<Rightarrow> ring option" where
  "one_step = (\<lambda>(i, r) s. if i < length (nodes s) then work i r s else None)"

lemma one_step_ring: "one_step x s = Some t \<Longrightarrow> ring_step s t"
  by (cases x) (auto simp: one_step_def intro: ring_step.works split: if_splits)

lemma run_ring: "reach I ring_step s \<Longrightarrow> run_steps one_step xs s = Some t \<Longrightarrow> reach I ring_step t"
  by (rule run_steps_reach [where f = one_step]) (rule one_step_ring)

lemma texts: "buffer_text 1 = ''1''" "buffer_text 0 = ''0''" "atoi ''1'' = 1" "atoi ''0'' = 0"
  by code_simp+

definition at_two :: ring where
  "at_two = \<lparr>nodes = [\<lparr>at = Test, last_signal = False\<rparr>, \<lparr>at = Test, last_signal = False\<rparr>, \<lparr>at = Gone, last_signal = False\<rparr>],
     pipes = [[], [], []], heard = [(1, 1)]\<rparr>"

text \<open>Process 1 makes a 0 of the 1, process 2 reads it and ends.\<close>

lemma run_to_two: "run_steps one_step [(0, 0), (1, 0), (1, 9), (1, 0), (2, 0), (2, 0)] (ring_start 3) = Some at_two"
  by (simp add: one_step_def ring_start_def work_def send_initial_message_def put_message_def set_node_def take_number_def
      gone_def readid_def reader_of_def texts in_int_def at_two_def upt_rec Let_def replicate_numeral_Cons)

lemma reach_two: "reach (\<lambda>s. s = ring_start 3 \<and> (0::nat) < 3) ring_step at_two"
  by (rule run_ring [OF _ run_to_two]) (rule reach_init, simp)

theorem ring_numbers_witness:
  "reach (\<lambda>s. s = ring_start 3 \<and> (0::nat) < 3) ring_step at_two \<and> fst (heard at_two ! 0) = 1 \<and> snd (heard at_two ! 0) = 1 \<and>
    length (concat (pipes at_two)) \<le> 1"
  using ring_numbers [OF reach_two] reach_two by (simp add: at_two_def)

theorem ring_stops_witness:
  "can_work at_two \<and> (\<exists>t. ring_step\<^sup>*\<^sup>* at_two t \<and> all_gone t)"
proof -
  have "length (heard at_two) + length (nodes at_two) \<le> 200000000" by (simp add: at_two_def)
  from ring_stops [OF reach_two this] have
    "(can_work at_two \<longleftrightarrow> \<not> all_gone at_two) \<and> (some_gone at_two \<longrightarrow> (\<exists>t. ring_step\<^sup>*\<^sup>* at_two t \<and> all_gone t))" by blast
  moreover have "\<not> all_gone at_two" "some_gone at_two"
    by (auto simp: all_gone_def some_gone_def gone_def at_two_def intro: exI [of _ 0] exI [of _ 2])
  ultimately show ?thesis by blast
qed

end
