(* ===== verification/Fifo.thy ===== *)
theory Fifo
  imports Prelude Ctext
begin

text \<open>
  \<^verbatim>\<open>lab05/prog21a_s.c\<close>, \<^verbatim>\<open>prog21b_s.c\<close> and
  \<^verbatim>\<open>prog21_c.c\<close>: clients write a file in blocks of \<^verbatim>\<open>PIPE_BUF\<close> bytes, headed by
  their process id, into a FIFO; a server prints the letters and digits it reads, the first one byte by byte,
  the second block by block under a heading.  Bytes are characters; \<^verbatim>\<open>pid_t\<close> has four bytes,
  the lowest first.  Answers of the kernel are the arguments \<open>rs\<close> (reads) and \<open>ws\<close> (writes); a list that
  has ended stands for the end of the stream, or for calls that succeed.
\<close>

abbreviation PIPE_BUF :: nat where "PIPE_BUF \<equiv> 4096"
abbreviation PID_SIZE :: nat where "PID_SIZE \<equiv> 4"
abbreviation MSG_SIZE :: nat where "MSG_SIZE \<equiv> 4092"

abbreviation NUL :: char where "NUL \<equiv> CHR 0x00"

datatype shown = Heading nat | Chars string

section \<open>The programs\<close>

text \<open>The way the programs open their FIFO: that it exists already is no error.\<close>

definition make_fifo :: "unit sysret \<Rightarrow> unit run" where
  "make_fifo a = (case a of Ok _ \<Rightarrow> Inr () | Fail e \<Rightarrow> if e = EEXIST then Inr () else Inl (ERR ''create fifo''))"

definition must :: "string \<Rightarrow> unit sysret \<Rightarrow> unit run" where
  "must msg a = (case a of Ok _ \<Rightarrow> Inr () | Fail e \<Rightarrow> Inl (ERR msg))"

definition step_io :: "unit run \<Rightarrow> ('e, 'a) io \<Rightarrow> ('e, 'a) io" where
  "step_io r m = (case r of Inl e \<Rightarrow> die e | Inr _ \<Rightarrow> m)"

text \<open>\<^verbatim>\<open>prog21a_s\<close>: one byte at a time.\<close>

fun read_bytes :: "char option sysret list \<Rightarrow> (char, unit) io" where
  "read_bytes [] = ret ()"
| "read_bytes (Fail e # rs) = die (ERR ''read'')"
| "read_bytes (Ok None # rs) = ret ()"
| "read_bytes (Ok (Some c) # rs) = seq (emit (if isalnum c then [c] else [])) (\<lambda>_. read_bytes rs)"

definition prog21a :: "nat \<Rightarrow> unit sysret \<Rightarrow> unit sysret \<Rightarrow> char option sysret list \<Rightarrow> unit sysret \<Rightarrow> (char, unit) io" where
  "prog21a argc mk op rs cl =
     (if argc \<noteq> 2 then die Usage
      else step_io (make_fifo mk) (step_io (must ''open'' op)
        (seq (read_bytes rs) (\<lambda>_. step_io (must ''close fifo:'' cl) (ret ())))))"

text \<open>The number in the first bytes of a buffer.\<close>

definition pid_bytes :: "nat \<Rightarrow> string" where
  "pid_bytes p = map (\<lambda>k. char_of (p div 256 ^ k mod 256)) [0..<PID_SIZE]"

definition pid_of :: "string \<Rightarrow> nat" where
  "pid_of b = (\<Sum>k\<leftarrow>[0..<PID_SIZE]. of_char (b ! k) * 256 ^ k)"

text \<open>
  \<^verbatim>\<open>prog21b_s\<close>: \<open>b\<close> is the buffer, which keeps what a shorter read does not overwrite; it is
  printed to its end.
\<close>

fun read_blocks :: "string \<Rightarrow> string sysret list \<Rightarrow> (shown, unit) io" where
  "read_blocks b [] = ret ()"
| "read_blocks b (Fail e # rs) = die (ERR ''read'')"
| "read_blocks b (Ok d # rs) =
     (if d = [] then ret ()
      else let b' = d @ drop (length d) b in
        seq (emit [Heading (pid_of b'), Chars (filter isalnum (drop PID_SIZE b'))]) (\<lambda>_. read_blocks b' rs))"

definition prog21b :: "nat \<Rightarrow> unit sysret \<Rightarrow> unit sysret \<Rightarrow> string \<Rightarrow> string sysret list \<Rightarrow> unit sysret \<Rightarrow> unit sysret \<Rightarrow> (shown, unit) io" where
  "prog21b argc mk op b rs cl ul =
     (if argc \<noteq> 2 then die Usage
      else step_io (make_fifo mk) (step_io (must ''open'' op)
        (seq (read_blocks b rs) (\<lambda>_. step_io (must ''close fifo:'' cl) (step_io (must ''remove fifo:'' ul) (ret ()))))))"

text \<open>\<^verbatim>\<open>prog21_c\<close>: the effects are the blocks written.\<close>

fun write_to_fifo :: "nat \<Rightarrow> string sysret list \<Rightarrow> unit sysret list \<Rightarrow> (string, unit) io" where
  "write_to_fifo pid [] ws = ret ()"
| "write_to_fifo pid (Fail e # rs) ws = die (ERR ''Read:'')"
| "write_to_fifo pid (Ok d # rs) ws =
     (if d = [] then ret ()
      else case ws of
        Fail e # ws' \<Rightarrow> die (ERR ''Write:'')
      | _ \<Rightarrow> seq (emit [pid_bytes pid @ d @ replicate (MSG_SIZE - length d) NUL])
               (\<lambda>_. if length d = MSG_SIZE then write_to_fifo pid rs (tl ws) else ret ()))"

definition prog21c :: "nat \<Rightarrow> unit sysret \<Rightarrow> unit sysret \<Rightarrow> unit sysret \<Rightarrow> nat \<Rightarrow> string sysret list \<Rightarrow> unit sysret list \<Rightarrow> (string, unit) io" where
  "prog21c argc mk op fop pid rs ws =
     (if argc \<noteq> 3 then die Usage
      else step_io (make_fifo mk) (step_io (must ''open'' op) (step_io (must ''file open'' fop) (write_to_fifo pid rs ws))))"

text \<open>The reads of a regular file: as much as is asked for, until its end.\<close>

function file_reads :: "string \<Rightarrow> string sysret list" where
  "file_reads s = (if length s < MSG_SIZE then [Ok s] else Ok (take MSG_SIZE s) # file_reads (drop MSG_SIZE s))"
  by auto
termination by (relation "measure length") auto

declare file_reads.simps [simp del]

text \<open>The blocks a client makes of a file, and what a server shows of process \<open>p\<close>.\<close>

definition blocks_of :: "nat \<Rightarrow> string \<Rightarrow> string list" where
  "blocks_of pid s = fst (prog21c 3 (Ok ()) (Ok ()) (Ok ()) pid (file_reads s) [])"

fun shown_of :: "nat \<Rightarrow> shown list \<Rightarrow> string" where
  "shown_of p (Heading q # Chars s # es) = (if q = p then s @ shown_of p es else shown_of p es)"
| "shown_of p es = []"

section \<open>What is printed\<close>

lemma read_bytes_alnum:
  "read_bytes (map (Ok \<circ> Some) s @ [Ok None]) = (filter isalnum s, Inr ())"
  by (induction s) (auto simp: ret_def)

lemma isalnum_NUL: "\<not> isalnum NUL"
  by (simp add: isalnum_def isdigit_def)

lemma length_pid_bytes [simp]: "length (pid_bytes p) = PID_SIZE"
  by (simp add: pid_bytes_def)

lemma pid_round_trip:
  assumes "p < 256 ^ PID_SIZE"
  shows "pid_of (pid_bytes p @ d) = p"
proof -
  define q1 q2 q3 where "q1 = p div 256" and "q2 = q1 div 256" and "q3 = q2 div 256"
  have d: "p div 65536 = q2" "p div 16777216 = q3"
    by (simp_all add: q1_def q2_def q3_def div_mult2_eq [symmetric])
  have m: "256 * q1 + p mod 256 = p" "256 * q2 + q1 mod 256 = q1" "256 * q3 + q2 mod 256 = q2"
    by (simp_all add: q1_def q2_def q3_def)
  have "q3 < 256" using assms by (simp add: d(2) [symmetric] less_mult_imp_div_less)
  then have "p mod 256 + (q1 mod 256) * 256 + (q2 mod 256) * 65536 + (q3 mod 256) * 16777216 = p"
    using m by simp
  then show ?thesis
    by (simp add: pid_of_def pid_bytes_def upt_rec nth_append d q1_def [symmetric])
qed

text \<open>A block of a client.\<close>

definition block :: "nat \<Rightarrow> string \<Rightarrow> string" where
  "block pid d = pid_bytes pid @ d @ replicate (MSG_SIZE - length d) NUL"

lemma blocks_of_prog: "blocks_of pid s = fst (write_to_fifo pid (file_reads s) [])"
  by (simp add: blocks_of_def prog21c_def step_io_def make_fifo_def must_def)

lemma blocks_short: "length s < MSG_SIZE \<Longrightarrow> blocks_of pid s = (if s = [] then [] else [block pid s])"
  by (simp add: blocks_of_prog file_reads.simps block_def ret_def)

lemma blocks_long: "MSG_SIZE \<le> length s \<Longrightarrow> blocks_of pid s = block pid (take MSG_SIZE s) # blocks_of pid (drop MSG_SIZE s)"
  by (subst blocks_of_prog, subst file_reads.simps) (auto simp: blocks_of_prog block_def)

lemma length_block: "length d \<le> MSG_SIZE \<Longrightarrow> length (block pid d) = PIPE_BUF"
  by (simp add: block_def)

lemma block_alnum: "filter isalnum (drop PID_SIZE (block pid d)) = filter isalnum d"
  by (simp add: block_def isalnum_NUL)

lemma in_blocks: "b \<in> set (blocks_of pid s) \<Longrightarrow> \<exists>d. b = block pid d \<and> length d \<le> MSG_SIZE"
proof (induction "length s" arbitrary: s rule: less_induct)
  case less
  show ?case
  proof (cases "length s < MSG_SIZE")
    case True
    with less.prems show ?thesis by (auto simp: blocks_short split: if_splits)
  next
    case False
    then have "b = block pid (take MSG_SIZE s) \<or> b \<in> set (blocks_of pid (drop MSG_SIZE s))"
      using less.prems by (simp add: blocks_long)
    moreover have "length (drop MSG_SIZE s) < length s" using False by simp
    ultimately show ?thesis using less.hyps by fastforce
  qed
qed

lemma blocks_alnum: "concat (map (\<lambda>b. filter isalnum (drop PID_SIZE b)) (blocks_of pid s)) = filter isalnum s"
proof (induction "length s" arbitrary: s rule: less_induct)
  case less
  show ?case
  proof (cases "length s < MSG_SIZE")
    case True
    then show ?thesis by (simp add: blocks_short block_alnum)
  next
    case False
    then have "concat (map (\<lambda>b. filter isalnum (drop PID_SIZE b)) (blocks_of pid s)) =
        filter isalnum (take MSG_SIZE s) @ filter isalnum (drop MSG_SIZE s)"
      using less.hyps [of "drop MSG_SIZE s"] by (simp add: blocks_long block_alnum)
    then show ?thesis by (simp flip: filter_append)
  qed
qed

text \<open>The server on whole blocks.\<close>

definition shows_block :: "string \<Rightarrow> shown list" where
  "shows_block b = [Heading (pid_of b), Chars (filter isalnum (drop PID_SIZE b))]"

lemma read_whole_blocks:
  assumes "length buf = PIPE_BUF" and "\<forall>b \<in> set bs. length b = PIPE_BUF"
  shows "read_blocks buf (map Ok bs) = (concat (map shows_block bs), Inr ())"
  using assms
proof (induction bs arbitrary: buf)
  case (Cons b bs)
  then have b: "length b = PIPE_BUF" "b \<noteq> []" by auto
  then have "b @ drop (length b) buf = b" using Cons.prems(1) by simp
  with Cons b show ?case by (simp add: shows_block_def Let_def)
qed (simp add: ret_def)

lemma shown_of_blocks:
  "shown_of p (concat (map shows_block bs)) =
     concat (map (\<lambda>b. filter isalnum (drop PID_SIZE b)) (filter (\<lambda>b. pid_of b = p) bs))"
  by (induction bs) (auto simp: shows_block_def)

text \<open>
  C38: Clients and server.  When clients with different process ids write their files into the FIFO, whose
  blocks are written whole and may be mixed in any way that keeps the order of each client, the second server shows
  under the headings of each process exactly the letters and digits of its file, in order, and ends without
  an error; whatever was in its buffer at the start.
\<close>

theorem fifo_clients_shown:
  assumes "length buf = PIPE_BUF" and "\<forall>p \<in> P. p < 256 ^ PID_SIZE" and "fst ` set tbs \<subseteq> P"
    and "\<forall>p \<in> P. map snd (filter (\<lambda>x. fst x = p) tbs) = blocks_of p (txt p)"
  shows "\<exists>es. prog21b 2 (Fail EEXIST) (Ok ()) buf (map (Ok \<circ> snd) tbs) (Ok ()) (Ok ()) = (es, Inr ()) \<and>
    (\<forall>p \<in> P. shown_of p es = filter isalnum (txt p))"
proof -
  let ?bs = "map snd tbs" and ?es = "concat (map shows_block (map snd tbs))"
  have B: "length (snd x) = PIPE_BUF \<and> pid_of (snd x) = fst x" if x: "x \<in> set tbs" for x
  proof -
    have p: "fst x \<in> P" using assms(3) x by auto
    have "snd x \<in> set (map snd (filter (\<lambda>y. fst y = fst x) tbs))" using x by auto
    also have "\<dots> = set (blocks_of (fst x) (txt (fst x)))" using assms(4) p by simp
    finally have "snd x \<in> set (blocks_of (fst x) (txt (fst x)))" .
    then obtain d where "snd x = block (fst x) d" "length d \<le> MSG_SIZE" using in_blocks by blast
    with p assms(2) show ?thesis using length_block pid_round_trip by (simp add: block_def)
  qed
  then have "read_blocks buf (map Ok ?bs) = (?es, Inr ())" by (intro read_whole_blocks [OF assms(1)]) auto
  then have "prog21b 2 (Fail EEXIST) (Ok ()) buf (map (Ok \<circ> snd) tbs) (Ok ()) (Ok ()) = (?es, Inr ())"
    by (simp add: prog21b_def step_io_def make_fifo_def must_def ret_def)
  moreover have "shown_of p ?es = filter isalnum (txt p)" if "p \<in> P" for p
  proof -
    have "filter (\<lambda>b. pid_of b = p) ?bs = map snd (filter (\<lambda>x. fst x = p) tbs)"
      using B by (simp add: filter_map comp_def cong: filter_cong)
    also have "\<dots> = blocks_of p (txt p)" using assms(4) that by blast
    finally show ?thesis by (simp only: shown_of_blocks blocks_alnum)
  qed
  ultimately show ?thesis by blast
qed

theorem fifo_clients_shown_witness:
  "\<exists>es. prog21b 2 (Fail EEXIST) (Ok ()) (replicate PIPE_BUF NUL) [Ok (block 2 ''c!''), Ok (block 1 ''ab'')] (Ok ()) (Ok ()) = (es, Inr ())
    \<and> shown_of 1 es = ''ab'' \<and> shown_of 2 es = ''c''"
proof -
  let ?txt = "\<lambda>p::nat. if p = 1 then ''ab'' else ''c!''"
  have a: "filter isalnum ''ab'' = ''ab''" "filter isalnum ''c!'' = ''c''" by (simp_all add: isalnum_def isdigit_def)
  have "\<forall>p \<in> {1, 2}. map snd (filter (\<lambda>x. fst x = p) [(2, block 2 ''c!''), (1, block 1 ''ab'')]) = blocks_of p (?txt p)"
    by (simp add: blocks_short)
  with fifo_clients_shown [of "replicate PIPE_BUF NUL" "{1, 2}" "[(2, block 2 ''c!''), (1, block 1 ''ab'')]" ?txt]
  show ?thesis using a by fastforce
qed

end
