(* ===== verification/Children.thy ===== *)
theory Children
  imports Pipes
begin

text \<open>
  \<^verbatim>\<open>lab05/prog22a.c\<close> and \<^verbatim>\<open>prog22b.c\<close>: a parent with a pipe to every child
  and a common pipe \<open>R\<close> from all of them.  In the first program every child sends one letter; in the second
  the parent sends a letter to some child at every SIGINT, and the child answers with a message of one byte for the
  length and that many copies of the letter.  Messages are shorter than \<^verbatim>\<open>PIPE_BUF\<close>, so they arrive
  whole and the stream in \<open>R\<close> is their concatenation.
\<close>

abbreviation MAX_BUFF :: nat where "MAX_BUFF \<equiv> 200"

section \<open>Starting the children\<close>

text \<open>
  The loop over the pipes \<open>ks\<close>; \<open>ws\<close> are the entries of \<^verbatim>\<open>fds\<close> that are set, all of them not 0
  because standard input is open.  The result: what each child has open when it starts to work, what the
  parent has, and the array.
\<close>

fun create_children_and_pipes :: "int set \<Rightarrow> pipe list \<Rightarrow> int list \<Rightarrow> (int set list \<times> int set \<times> int list) run" where
  "create_children_and_pipes fds [] ws = Inr ([], fds, ws)"
| "create_children_and_pipes fds ((r, w) # ks) ws =
     (let f = insert r (insert w fds) in
      bindr (bindr (close_pipes_all ws f) (close_pipe w)) (\<lambda>child.
      bindr (close_pipe r f) (\<lambda>g.
      bindr (create_children_and_pipes g ks (w # ws)) (\<lambda>(cs, h, v). Inr (child # cs, h, v)))))"

text \<open>The answers of \<^verbatim>\<open>waitpid\<close> in the handler of SIGCHLD.\<close>

fun sigchld_handler :: "nat sysret list \<Rightarrow> unit run" where
  "sigchld_handler [] = Inr ()"
| "sigchld_handler (Ok pid # as) = (if pid = 0 then Inr () else sigchld_handler as)"
| "sigchld_handler (Fail e # as) = (if e = ECHILD then Inr () else Inl (ERR ''waitpid:''))"

definition args_ok :: "nat \<Rightarrow> int \<Rightarrow> bool" where
  "args_ok argc n \<longleftrightarrow> argc = 2 \<and> \<not> (n \<le> 0 \<or> n > 10)"

section \<open>The first program\<close>

text \<open>\<open>r\<close> is what \<^verbatim>\<open>rand\<close> returns.\<close>

definition some_letter :: "nat \<Rightarrow> char" where
  "some_letter r = char_of (97 + r mod 25)"

definition child_work_a :: "nat \<Rightarrow> nat sysret \<Rightarrow> (char, unit) io" where
  "child_work_a r a = (case a of Ok _ \<Rightarrow> emit [some_letter r] | Fail e \<Rightarrow> die (ERR ''write to R''))"

text \<open>The parent prints what it reads; a read interrupted by a SIGCHLD is an error like any other.\<close>

fun parent_work_a :: "char option sysret list \<Rightarrow> (char, unit) io" where
  "parent_work_a [] = ret ()"
| "parent_work_a (Ok (Some c) # rs) = seq (emit [c]) (\<lambda>_. parent_work_a rs)"
| "parent_work_a (Ok None # rs) = emit [CHR 0x0A]"
| "parent_work_a (Fail e # rs) = die (ERR ''read from R'')"

section \<open>The second program\<close>

definition sig_killme :: "nat \<Rightarrow> bool" where
  "sig_killme r \<longleftrightarrow> r mod 5 = 0"

definition child_message :: "char \<Rightarrow> nat \<Rightarrow> string" where
  "child_message c r = (let s = 1 + r mod MAX_BUFF in char_of s # replicate s c)"

text \<open>A child: the letters it reads with the answers of \<^verbatim>\<open>rand\<close>; at the end of the pipe it leaves by ERR.\<close>

fun child_work_b :: "(char \<times> nat) list \<Rightarrow> (string, unit) io" where
  "child_work_b [] = die (ERR ''read'')"
| "child_work_b ((c, r) # ls) = seq (emit [child_message c r]) (\<lambda>_. child_work_b ls)"

text \<open>The search for a child that is still there.\<close>

function seek :: "nat \<Rightarrow> int list \<Rightarrow> nat \<Rightarrow> nat" where
  "seek n fds i = (if fds ! (i mod n) = 0 \<and> i < 2 * n then seek n fds (i + 1) else i)"
  by auto
termination by (relation "measure (\<lambda>(n, fds, i). 2 * n - i)") auto

declare seek.simps [simp del]

datatype event = Sent int char | Closed int | Shown string

text \<open>\<open>(ri, rc, wr, cl)\<close>: the answers of \<^verbatim>\<open>rand\<close>, of the write and of the close.\<close>

type_synonym poke = "nat \<times> nat \<times> nat sysret \<times> unit sysret"

definition poke_child :: "poke \<Rightarrow> int list \<Rightarrow> (event, int list) io" where
  "poke_child k fds =
     (case k of (ri, rc, wr, cl) \<Rightarrow>
      let n = length fds; i = seek n fds (ri mod n) mod n in
      if fds ! i = 0 then ret fds
      else seq (emit [Sent (fds ! i) (some_letter rc)]) (\<lambda>_.
        if wr = Ok 1 then ret fds
        else case cl of
          Fail e \<Rightarrow> die (ERR ''close'')
        | Ok _ \<Rightarrow> seq (emit [Closed (fds ! i)]) (\<lambda>_. ret (fds[i := 0]))))"

text \<open>
  The rounds of the parent: whether a SIGINT was noted before the read, and whether the read is interrupted.
  \<open>st\<close> is what is in the pipe, until all children have closed it.
\<close>

function parent_work_b :: "int list \<Rightarrow> (poke option \<times> bool) list \<Rightarrow> string \<Rightarrow> (event, int list) io" where
  "parent_work_b fds rs st =
     seq (case rs of (Some k, b) # _ \<Rightarrow> poke_child k fds | _ \<Rightarrow> ret fds) (\<lambda>fds'.
       if rs \<noteq> [] \<and> snd (hd rs) then parent_work_b fds' (tl rs) st
       else case st of
         [] \<Rightarrow> ret fds'
       | h # st' \<Rightarrow>
           let c = of_char h in
           if length st' < c then die (ERR ''read data from R'')
           else if MAX_BUFF \<le> c then die (Undefined ''behind the buffer'')
           else seq (emit [Shown (takeWhile (\<lambda>x. x \<noteq> CHR 0x00) (take c st'))])
                  (\<lambda>_. parent_work_b fds' (tl rs) (drop c st')))"
  by auto
termination by (relation "measure (\<lambda>(fds, rs, st). length rs + length st)") (auto simp: neq_Nil_conv)

declare parent_work_b.simps [simp del]

section \<open>Descriptors\<close>

lemma close_all_open:
  "distinct ws \<Longrightarrow> set ws \<subseteq> fds \<Longrightarrow> close_pipes_all ws fds = Inr (fds - set ws)"
proof (induction ws arbitrary: fds)
  case (Cons w ws)
  then have w: "w \<in> fds" "distinct ws" "set ws \<subseteq> fds - {w}" by auto
  have "fds - {w} - set ws = fds - set (w # ws)" by auto
  with Cons.IH [OF w(2,3)] w(1) show ?case by simp
qed simp

text \<open>
  All closes succeed; a child keeps what was open before and the end it reads, the parent the ends it writes,
  in the order of the array.
\<close>

lemma children_descriptors:
  assumes "fresh ks" and "ends ks \<inter> (std \<union> set ws) = {}" and "std \<inter> set ws = {}" and "distinct ws"
  shows "create_children_and_pipes (std \<union> set ws) ks ws =
    Inr (map (\<lambda>(r, w). insert r std) ks, std \<union> set ws \<union> set (map snd ks), rev (map snd ks) @ ws)"
  using assms
proof (induction ks arbitrary: ws)
  case (Cons k ks)
  obtain r w where k: "k = (r, w)" by (cases k)
  let ?f = "insert r (insert w (std \<union> set ws))"
  have n: "r \<noteq> w" "r \<notin> std \<union> set ws" "w \<notin> std \<union> set ws" "r \<notin> ends ks" "w \<notin> ends ks" using Cons.prems k by auto
  have "?f - set ws = insert r (insert w std)" using Cons.prems(3) n by auto
  moreover have "set ws \<subseteq> ?f" by auto
  ultimately have c: "close_pipes_all ws ?f = Inr (insert r (insert w std))"
    using close_all_open [of ws ?f] Cons.prems(4) by simp
  have "?f - {r} = std \<union> set (w # ws)" using n by auto
  moreover have "create_children_and_pipes (std \<union> set (w # ws)) ks (w # ws) =
      Inr (map (\<lambda>(r, w). insert r std) ks, std \<union> set (w # ws) \<union> set (map snd ks), rev (map snd ks) @ w # ws)"
    by (rule Cons.IH) (use Cons.prems k n in auto)
  moreover have "insert r (insert w std) - {w} = insert r std" using n by auto
  ultimately show ?case using c k by (simp add: Let_def)
qed simp

section \<open>The messages\<close>

lemma some_letter_range: "97 \<le> (of_char (some_letter r) :: nat) \<and> (of_char (some_letter r) :: nat) \<le> 121"
proof -
  have "r mod 25 < 25" by simp
  then have "(97 + r mod 25) mod 256 = 97 + r mod 25" by (intro mod_less) linarith
  then have "(of_char (some_letter r) :: nat) = 97 + r mod 25" by (simp add: some_letter_def)
  with \<open>r mod 25 < 25\<close> show ?thesis by linarith
qed

text \<open>The search ends at a child that is there, if there is one.\<close>

lemma seek_finds:
  assumes "j < n" and "fds ! j \<noteq> 0" and "i \<le> j + n"
  shows "fds ! (seek n fds i mod n) \<noteq> 0"
  using assms(3)
proof (induction "2 * n - i" arbitrary: i rule: less_induct)
  case less
  show ?case
  proof (cases "fds ! (i mod n) = 0 \<and> i < 2 * n")
    case True
    then have "i \<noteq> j + n" using assms(1,2) by auto
    then have "i + 1 \<le> j + n" using less.prems by simp
    moreover have "2 * n - (i + 1) < 2 * n - i" using True by linarith
    ultimately have "fds ! (seek n fds (i + 1) mod n) \<noteq> 0" by (intro less.hyps)
    then show ?thesis using True by (subst seek.simps) simp
  next
    case False
    then have "fds ! (i mod n) \<noteq> 0" using less.prems assms(1) by auto
    then show ?thesis by (subst seek.simps) simp
  qed
qed

text \<open>
  A signal reaches a child if one is left; the descriptor is given up only when the write fails.
\<close>

lemma poke_reaches:
  assumes "j < length fds" and "fds ! j \<noteq> 0" and "cl = Ok ()"
  shows "\<exists>i < length fds. fds ! i \<noteq> 0 \<and> poke_child (ri, rc, wr, cl) fds =
    (if wr = Ok 1 then ([Sent (fds ! i) (some_letter rc)], Inr fds)
     else ([Sent (fds ! i) (some_letter rc), Closed (fds ! i)], Inr (fds[i := 0])))"
proof -
  let ?n = "length fds" and ?i = "seek (length fds) fds (ri mod length fds) mod length fds"
  have n: "0 < ?n" by (rule le_less_trans [OF _ assms(1)]) simp
  have "ri mod ?n \<le> j + ?n" using mod_less_divisor [OF n, of ri] by linarith
  then have "fds ! ?i \<noteq> 0" by (rule seek_finds [OF assms(1,2)])
  moreover have "?i < ?n" using n by simp
  ultimately show ?thesis using assms(3) by (intro exI [of _ ?i]) (simp add: poke_child_def Let_def ret_def)
qed

definition texts_shown :: "event list \<Rightarrow> string list" where
  "texts_shown es = concat (map (\<lambda>e. case e of Shown s \<Rightarrow> [s] | _ \<Rightarrow> []) es)"

lemma texts_shown_simps [simp]:
  "texts_shown [] = []" "texts_shown (Shown s # es) = s # texts_shown es" "texts_shown (Sent f c # es) = texts_shown es"
  "texts_shown (Closed f # es) = texts_shown es" "texts_shown (es @ es') = texts_shown es @ texts_shown es'"
  by (simp_all add: texts_shown_def)

definition closes_succeed :: "(poke option \<times> bool) list \<Rightarrow> bool" where
  "closes_succeed rs \<longleftrightarrow> (\<forall>x \<in> set rs. case fst x of None \<Rightarrow> True | Some (ri, rc, wr, cl) \<Rightarrow> cl = Ok ())"

lemma poke_quiet:
  assumes "closes_succeed rs"
  shows "\<exists>es fds'. (case rs of (Some k, b) # _ \<Rightarrow> poke_child k fds | _ \<Rightarrow> ret fds) = (es, Inr fds') \<and> texts_shown es = []"
  using assms by (cases rs) (auto simp: closes_succeed_def poke_child_def Let_def ret_def split: option.splits prod.splits)

lemma closes_tl: "closes_succeed rs \<Longrightarrow> closes_succeed (tl rs)"
  by (cases rs) (auto simp: closes_succeed_def)

text \<open>The message fits into the buffer with its terminating zero.\<close>

definition fits :: "char \<times> nat \<Rightarrow> bool" where
  "fits m \<longleftrightarrow> snd m mod MAX_BUFF \<noteq> 199"

lemma header: "(of_char (char_of (1 + r mod MAX_BUFF) :: char) :: nat) = 1 + r mod MAX_BUFF"
proof -
  have "r mod 200 < 200" by simp
  then show ?thesis by simp
qed

lemma takeWhile_replicate_other: "c \<noteq> d \<Longrightarrow> takeWhile (\<lambda>x. x \<noteq> d) (replicate k c) = replicate k c"
  by (induction k) auto

text \<open>
  C39: The messages of the second program.  However signals are noted and reads interrupted in between, the parent
  shows exactly the messages of the children, in the order of the pipe, until all children have
  closed it; up to the first message of the greatest length, 200 letters, which makes it write the terminating zero
  behind its buffer.
\<close>

theorem messages_shown:
  assumes "closes_succeed rs" and "\<forall>m \<in> set ms. fst m \<noteq> CHR 0x00"
  shows "texts_shown (fst (parent_work_b fds rs (concat (map (\<lambda>(c, r). child_message c r) ms)))) =
      map (\<lambda>(c, r). replicate (1 + r mod MAX_BUFF) c) (takeWhile fits ms) \<and>
    (if \<forall>m \<in> set ms. fits m
     then \<exists>fds'. snd (parent_work_b fds rs (concat (map (\<lambda>(c, r). child_message c r) ms))) = Inr fds'
     else snd (parent_work_b fds rs (concat (map (\<lambda>(c, r). child_message c r) ms))) = Inl (Undefined ''behind the buffer''))"
  using assms
proof (induction "length rs + length ms" arbitrary: fds rs ms rule: less_induct)
  case less
  obtain es g where p: "(case rs of (Some k, b) # _ \<Rightarrow> poke_child k fds | _ \<Rightarrow> ret fds) = (es, Inr g)" "texts_shown es = []"
    using poke_quiet [OF less.prems(1)] by blast
  show ?case
  proof (cases "rs \<noteq> [] \<and> snd (hd rs)")
    case True
    then have "length (tl rs) + length ms < length rs + length ms" by (cases rs) auto
    from less.hyps [OF this closes_tl [OF less.prems(1)] less.prems(2), of g] True p show ?thesis
      by (subst (1 2 3) parent_work_b.simps) simp
  next
    case go: False
    show ?thesis
    proof (cases ms)
      case Nil
      have "parent_work_b fds rs [] = (es, Inr g)" using go p(1) by (subst parent_work_b.simps) (auto simp: ret_def)
      with Nil p(2) show ?thesis by simp
    next
      case (Cons m ms')
      obtain c r where m: "m = (c, r)" by (cases m)
      let ?s = "1 + r mod MAX_BUFF" and ?st = "concat (map (\<lambda>(c, r). child_message c r) ms')"
      have c: "c \<noteq> CHR 0x00" using less.prems(2) Cons m by simp
      have st: "concat (map (\<lambda>(c, r). child_message c r) ms) = char_of ?s # replicate ?s c @ ?st"
        using Cons m by (simp add: child_message_def Let_def)
      have l: "length (tl rs) + length ms' < length rs + length ms" using Cons by (cases rs) auto
      have prems: "closes_succeed (tl rs)" "\<forall>m \<in> set ms'. fst m \<noteq> CHR 0x00"
        using closes_tl [OF less.prems(1)] less.prems(2) Cons by auto
      have f: "fits m \<longleftrightarrow> ?s < MAX_BUFF" using m mod_less_divisor [of MAX_BUFF r] by (auto simp: fits_def)
      have u: "parent_work_b fds rs (char_of ?s # replicate ?s c @ ?st) =
          seq (es, Inr g) (\<lambda>fds'. if MAX_BUFF \<le> ?s then die (Undefined ''behind the buffer'')
            else seq (emit [Shown (replicate ?s c)]) (\<lambda>_. parent_work_b fds' (tl rs) ?st))"
        using go c by (subst parent_work_b.simps) (simp only: p(1) header Let_def list.case if_False
            length_append length_replicate not_add_less1 take_append diff_self_eq_0 take_0 append_Nil2 drop_append
            drop_replicate take_replicate min.idem takeWhile_replicate_other drop_0 replicate_0 append_Nil simp_thms)
      show ?thesis
        using less.hyps [OF l prems, of g] p(2) f Cons m unfolding st u by (auto simp del: One_nat_def)
    qed
  qed
qed

theorem messages_shown_witness:
  "texts_shown (fst (parent_work_b [7, 9] [(Some (0, 3, Fail EPIPE, Ok ()), True)] (child_message CHR ''d'' 1 @ child_message CHR ''x'' 399))) = [''dd'']"
proof -
  have "closes_succeed [(Some (0, 3, Fail EPIPE, Ok ()), True)]" by (simp add: closes_succeed_def)
  from messages_shown [OF this, of "[(CHR ''d'', 1), (CHR ''x'', 399)]" "[7, 9]"] show ?thesis
    by (simp add: fits_def numeral_2_eq_2)
qed

text \<open>The first parent shows what it reads and ends with a line feed; the letters it can get are a to y.\<close>

lemma parent_a_shows: "parent_work_a (map (Ok \<circ> Some) cs @ [Ok None]) = (cs @ [CHR 0x0A], Inr ())"
  by (induction cs) (auto simp: emit_def)

text \<open>The end of a child interrupts its read, and it leaves by ERR, which kills the group.\<close>

lemma parent_a_interrupted: "parent_work_a (map (Ok \<circ> Some) cs @ [Fail EINTR]) = (cs, Inl (ERR ''read from R''))"
  by (induction cs) (auto simp: die_def)

end
