(* ===== verification/Electors.thy ===== *)
theory Electors
  imports Io Ctext
begin

text \<open>
  \<^verbatim>\<open>lab07/prelab/sop-hre.c\<close>: seven electors vote over TCP connections; a connection becomes an
  elector's by sending its number.  The handlers of the event loop run one at a time; the broadcast thread
  only reads the votes.  A character is the value of the \<^verbatim>\<open>char\<close>.
\<close>

abbreviation ELECTORS_NUM :: nat where "ELECTORS_NUM \<equiv> 7"

record client_state =
  connected :: bool
  vote :: int
  fd :: int

record elections =
  electors :: "client_state list"
  conns :: "int set"

datatype elect_eff = Disconnected | VotedLine nat int | Welcome int

definition elections_start :: elections where
  "elections_start =
     \<lparr>electors = replicate ELECTORS_NUM \<lparr>connected = False, vote = -1, fd = -1\<rparr>, conns = {}\<rparr>"

text \<open>\<open>conns\<close> are the accepted connections that are open.\<close>

definition accept_client :: "int sysret list \<Rightarrow> bool \<Rightarrow> elections \<Rightarrow> (elect_eff, elections) io" where
  "accept_client answers added s =
     (case add_new_client answers of
        Inl e \<Rightarrow> die e
      | Inr client_fd \<Rightarrow>
          if client_fd < 0 \<or> \<not> added then die (ERR ''epoll_ctl'') else ret (s\<lparr>conns := insert client_fd (conns s)\<rparr>))"

definition drop_client :: "int \<Rightarrow> elections \<Rightarrow> elections" where
  "drop_client c s =
     s\<lparr>electors := map (\<lambda>e. if fd e = c then e\<lparr>connected := False, fd := -1\<rparr> else e) (electors s),
       conns := conns s - {c}\<rparr>"

text \<open>The search for the elector of the connection, and its vote.\<close>

definition cast_vote :: "int \<Rightarrow> int \<Rightarrow> elections \<Rightarrow> (elect_eff, bool \<times> elections) io" where
  "cast_vote c msg s =
     (case find_idx (\<lambda>e. fd e = c) (electors s) of
        None \<Rightarrow> ret (False, s)
      | Some j \<Rightarrow>
          if 48 \<le> msg \<and> msg \<le> 50
          then let s' = s\<lparr>electors := (electors s)[j := (electors s ! j)\<lparr>vote := msg - 48\<rparr>]\<rparr>
               in seq (emit [VotedLine j (msg - 48)]) (\<lambda>_. ret (True, s'))
          else ret (True, s))"

text \<open>\<open>sent\<close> is the kernel's answer to the write to an open connection; to a closed one it is \<open>EBADF\<close>.
  \<^verbatim>\<open>SIGPIPE\<close> is not ignored, so a broken connection ends the server there as well.\<close>

definition register_elector :: "int \<Rightarrow> int \<Rightarrow> unit sysret \<Rightarrow> elections \<Rightarrow> (elect_eff, elections) io" where
  "register_elector c msg sent s =
     (if 49 \<le> msg \<and> msg \<le> 55
      then let index = nat (msg - 49) in
        if \<not> connected (electors s ! index)
        then let s' = s\<lparr>electors := (electors s)[index := (electors s ! index)\<lparr>connected := True, fd := c\<rparr>]\<rparr>;
                 a = (if c \<in> conns s then sent else Fail EBADF)
             in (case a of Fail _ \<Rightarrow> die (ERR ''write'') | Ok _ \<Rightarrow> seq (emit [Welcome c]) (\<lambda>_. ret s'))
        else ret (s\<lparr>conns := conns s - {c}\<rparr>)
      else ret s)"

text \<open>
  A message from connection \<open>c\<close>: \<open>a\<close> is what \<^verbatim>\<open>read\<close> gives.  At the end of file the variable
  \<^verbatim>\<open>msg\<close> has not been written; \<open>stale\<close> is what is in its place.
\<close>

definition on_message :: "int \<Rightarrow> int option sysret \<Rightarrow> int \<Rightarrow> unit sysret \<Rightarrow> elections \<Rightarrow> (elect_eff, elections) io" where
  "on_message c a stale sent s =
     (case a of
        Fail _ \<Rightarrow> die (ERR ''read'')
      | Ok got \<Rightarrow>
          seq (case got of None \<Rightarrow> seq (emit [Disconnected]) (\<lambda>_. ret (drop_client c s)) | Some _ \<Rightarrow> ret s) (\<lambda>s1.
          let msg = (case got of None \<Rightarrow> stale | Some x \<Rightarrow> x) in
          seq (cast_vote c msg s1) (\<lambda>(registered, s2).
          if registered then ret s2 else register_elector c msg sent s2)))"

datatype elect_event =
    Incoming "int sysret list" bool
  | Message int "int option sysret" int "unit sysret"

definition on_event :: "elections \<Rightarrow> elect_event \<Rightarrow> (elect_eff, elections) io" where
  "on_event s ev =
     (case ev of Incoming answers added \<Rightarrow> accept_client answers added s
               | Message c a stale sent \<Rightarrow> on_message c a stale sent s)"

text \<open>\<^verbatim>\<open>epoll_pwait\<close>: an interrupted call reports nothing.\<close>

definition on_wait :: "elect_event list sysret \<Rightarrow> elections \<Rightarrow> elections run" where
  "on_wait a s =
     (case a of Fail e \<Rightarrow> if e \<noteq> EINTR then Inl (ERR ''epoll_wait'') else Inr s
              | Ok evs \<Rightarrow> run_events (\<lambda>s ev. snd (on_event s ev)) s evs)"

definition do_server_end :: "elections \<Rightarrow> elections" where
  "do_server_end s = s\<lparr>conns := conns s - fd ` set (filter connected (electors s))\<rparr>"

text \<open>
  One round of the broadcast thread: the messages it sends; \<open>a i\<close> answers the \<^verbatim>\<open>sendto\<close>
  for elector \<open>i\<close>.  The same lines are printed when the server has ended.
\<close>

definition vote_line :: "nat \<Rightarrow> client_state \<Rightarrow> string" where
  "vote_line i e = ''Elector '' @ show_int (int i) @ '' voted '' @ show_int (vote e) @ [CHR 0x0A]"

definition broadcast :: "(nat \<Rightarrow> unit sysret) \<Rightarrow> elections \<Rightarrow> (string, unit) io" where
  "broadcast a s =
     foldr (\<lambda>(i, e) m. if vote e \<ge> 0
              then (case a i of Fail _ \<Rightarrow> die (ERR ''sendto'')
                              | Ok _ \<Rightarrow> seq (emit [vote_line i e]) (\<lambda>_. m))
              else m)
       (enumerate 0 (electors s)) (ret ())"

definition final_votes :: "elections \<Rightarrow> string list" where
  "final_votes s = map (\<lambda>(i, e). vote_line i e) (filter (\<lambda>(i, e). vote e \<ge> 0) (enumerate 0 (electors s)))"

section \<open>The table of electors\<close>

definition elections_ok :: "elections \<Rightarrow> bool" where
  "elections_ok s \<longleftrightarrow> length (electors s) = ELECTORS_NUM \<and> (\<forall>c \<in> conns s. 0 \<le> c) \<and>
     (\<forall>e \<in> set (electors s). - 1 \<le> vote e \<and> vote e \<le> 2 \<and> (connected e \<longleftrightarrow> fd e \<noteq> -1) \<and> (connected e \<longrightarrow> fd e \<in> conns s)) \<and>
     (\<forall>i < ELECTORS_NUM. \<forall>j < ELECTORS_NUM. fd (electors s ! i) = fd (electors s ! j) \<longrightarrow> fd (electors s ! i) \<noteq> -1 \<longrightarrow> i = j)"

text \<open>
  What is asked of the environment: descriptors are new when accepted, messages come from open
  connections, and the byte left in \<^verbatim>\<open>msg\<close> at an end of file is not the number of an elector.
\<close>

definition elect_env :: "elections \<Rightarrow> elect_event \<Rightarrow> bool" where
  "elect_env s ev = (case ev of
      Incoming answers added \<Rightarrow> (\<forall>c. temp_failure_retry answers = Ok c \<longrightarrow> 0 \<le> c \<and> c \<notin> conns s)
    | Message c a stale sent \<Rightarrow> c \<in> conns s \<and> (a = Ok None \<longrightarrow> \<not> (49 \<le> stale \<and> stale \<le> 55)))"

abbreviation elect_handle :: "elections \<Rightarrow> elect_event \<Rightarrow> elections run" where
  "elect_handle s ev \<equiv> snd (on_event s ev)"

lemma in_electors: "elections_ok s \<Longrightarrow> i < ELECTORS_NUM \<Longrightarrow> electors s ! i \<in> set (electors s)"
  by (simp add: elections_ok_def)

lemma drop_client_ok: "elections_ok s \<Longrightarrow> elections_ok (drop_client c s)"
  unfolding elections_ok_def drop_client_def by (auto split: if_splits)

lemma set_vote_ok:
  assumes "elections_ok s" "j < ELECTORS_NUM" "0 \<le> v" "v \<le> 2"
  shows "elections_ok (s\<lparr>electors := (electors s)[j := (electors s ! j)\<lparr>vote := v\<rparr>]\<rparr>)"
proof -
  let ?e = "(electors s ! j)\<lparr>vote := v\<rparr>" and ?es = "(electors s)[j := (electors s ! j)\<lparr>vote := v\<rparr>]"
  have l: "length (electors s) = ELECTORS_NUM" using assms(1) by (simp add: elections_ok_def)
  have f: "fd (?es ! i) = fd (electors s ! i)" for i
    using assms(2) l by (cases "i = j") simp_all
  have "set ?es \<subseteq> insert ?e (set (electors s))" by (rule set_update_subset_insert)
  then show ?thesis
    using assms in_electors [OF assms(1,2)] f l unfolding elections_ok_def by auto
qed

lemma register_ok:
  assumes I: "elections_ok s" and "\<forall>e \<in> set (electors s). fd e \<noteq> c" "c \<in> conns s" "k < ELECTORS_NUM"
  shows "elections_ok (s\<lparr>electors := (electors s)[k := (electors s ! k)\<lparr>connected := True, fd := c\<rparr>]\<rparr>)"
proof -
  let ?e = "(electors s ! k)\<lparr>connected := True, fd := c\<rparr>"
  let ?es = "(electors s)[k := ?e]"
  have l: "length (electors s) = ELECTORS_NUM" using I by (simp add: elections_ok_def)
  have c: "0 \<le> c" using I assms(3) by (simp add: elections_ok_def)
  have f: "fd (?es ! i) = (if i = k then c else fd (electors s ! i))" for i
    using assms(4) l by (cases "i = k") simp_all
  have n: "fd (electors s ! i) \<noteq> c" if "i < ELECTORS_NUM" for i using assms(2) in_electors [OF I that] by auto
  have "fd (electors s ! i) = fd (electors s ! j) \<longrightarrow> fd (electors s ! i) \<noteq> -1 \<longrightarrow> i = j"
    if "i < ELECTORS_NUM" "j < ELECTORS_NUM" for i j using I that by (simp add: elections_ok_def)
  then have d: "fd (?es ! i) = fd (?es ! j) \<longrightarrow> fd (?es ! i) \<noteq> -1 \<longrightarrow> i = j" if "i < ELECTORS_NUM" "j < ELECTORS_NUM" for i j
    using that f n by auto
  have v: "- 1 \<le> vote ?e \<and> vote ?e \<le> 2" using I in_electors [OF I assms(4)] by (auto simp: elections_ok_def)
  have "- 1 \<le> vote e \<and> vote e \<le> 2 \<and> (connected e \<longleftrightarrow> fd e \<noteq> -1) \<and> (connected e \<longrightarrow> fd e \<in> conns s)"
    if "e \<in> set ?es" for e
  proof -
    from that set_update_subset_insert have "e = ?e \<or> e \<in> set (electors s)" by fast
    then show ?thesis
    proof
      assume "e = ?e"
      then show ?thesis using v c assms(3) by simp
    next
      assume "e \<in> set (electors s)"
      then show ?thesis using I by (simp add: elections_ok_def)
    qed
  qed
  with I d l show ?thesis by (auto simp: elections_ok_def)
qed

lemma close_unregistered_ok:
  "elections_ok s \<Longrightarrow> \<forall>e \<in> set (electors s). fd e \<noteq> c \<Longrightarrow> elections_ok (s\<lparr>conns := conns s - {c}\<rparr>)"
  unfolding elections_ok_def by auto

lemma cast_vote_ok:
  assumes "elections_ok s" and "snd (cast_vote c msg s) = Inr (reg, s')"
  shows "elections_ok s' \<and> conns s' = conns s \<and> (\<not> reg \<longrightarrow> s' = s \<and> (\<forall>e \<in> set (electors s). fd e \<noteq> c)) \<and>
         (reg \<longrightarrow> (\<exists>e \<in> set (electors s). fd e = c))"
proof (cases "find_idx (\<lambda>e. fd e = c) (electors s)")
  case None
  with assms show ?thesis by (simp add: cast_vote_def find_idx_None_iff)
next
  case (Some j)
  then have j: "j < ELECTORS_NUM" "fd (electors s ! j) = c"
    using find_idx_SomeD [OF Some] assms(1) by (auto simp: elections_ok_def)
  have "\<exists>e \<in> set (electors s). fd e = c" using j in_electors [OF assms(1) j(1)] by auto
  with Some assms set_vote_ok [OF assms(1) j(1), of "msg - 48"] show ?thesis
    by (auto simp: cast_vote_def Let_def split: if_splits)
qed

lemma on_message_ok:
  assumes I: "elections_ok s" and E: "elect_env s (Message c a stale sent)"
    and s': "snd (on_message c a stale sent s) = Inr s'"
  shows "elections_ok s'"
proof -
  obtain got where a: "a = Ok got" using s' by (cases a) (auto simp: on_message_def)
  let ?s1 = "case got of None \<Rightarrow> drop_client c s | Some _ \<Rightarrow> s"
  let ?msg = "case got of None \<Rightarrow> stale | Some x \<Rightarrow> x"
  have c: "c \<in> conns s" "0 \<le> c" using I E by (auto simp: elect_env_def elections_ok_def)
  have I1: "elections_ok ?s1" using I drop_client_ok by (auto split: option.split)
  have "\<exists>r. snd (cast_vote c ?msg ?s1) = Inr r \<and>
      snd (case r of (reg, s2) \<Rightarrow> if reg then ret s2 else register_elector c ?msg sent s2) = Inr s'"
    using s' a by (cases got; auto simp: on_message_def Let_def snd_seq_Inr case_prod_beta split: if_splits simp del: split_paired_Ex; blast)
  then obtain reg s2 where s2: "snd (cast_vote c ?msg ?s1) = Inr (reg, s2)"
    "snd (if reg then ret s2 else register_elector c ?msg sent s2) = Inr s'" by force
  note V = cast_vote_ok [OF I1 s2(1)]
  show ?thesis
  proof (cases reg)
    case True
    with V s2(2) show ?thesis by simp
  next
    case False
    with V have e: "s2 = ?s1" "\<forall>e \<in> set (electors s2). fd e \<noteq> c" "elections_ok s2" by metis+
    have r: "snd (register_elector c ?msg sent s2) = Inr s'" using s2(2) False by simp
    show ?thesis
    proof (cases "49 \<le> ?msg \<and> ?msg \<le> 55")
      case no: False
      with r e(3) show ?thesis by (simp add: register_elector_def)
    next
      case True
      then have "got \<noteq> None" using E a by (cases got) (auto simp: elect_env_def)
      then have "c \<in> conns s2" using e(1) c by auto
      moreover have "nat (?msg - 49) < ELECTORS_NUM" using True by auto
      ultimately show ?thesis
        using r True register_ok [OF e(3,2)] close_unregistered_ok [OF e(3,2)]
        by (auto simp: register_elector_def Let_def split: if_splits sysret.splits)
    qed
  qed
qed

lemma on_event_ok:
  assumes "elections_ok s" and "elect_env s ev" and "elect_handle s ev = Inr s'"
  shows "elections_ok s'"
proof (cases ev)
  case (Message c a stale sent)
  with assms on_message_ok show ?thesis by (simp add: on_event_def)
next
  case (Incoming answers added)
  with assms obtain c where "add_new_client answers = Inr c" "0 \<le> c" "s' = s\<lparr>conns := insert c (conns s)\<rparr>"
    by (auto simp: on_event_def accept_client_def split: sum.splits if_splits)
  with assms(1) show ?thesis by (auto simp: elections_ok_def)
qed

interpretation elect: inv_handler elect_handle elections_ok elect_env
  by unfold_locales (rule on_event_ok)

lemma elections_start_ok: "elections_ok elections_start"
  by (auto simp: elections_ok_def elections_start_def nth_Cons split: nat.splits)

section \<open>Whose vote it is\<close>

lemma distinct_filter_nth:
  assumes "\<And>i j. i < length xs \<Longrightarrow> j < length xs \<Longrightarrow> P (xs ! i) \<Longrightarrow> xs ! i = xs ! j \<Longrightarrow> i = j"
  shows "distinct (filter P xs)"
  using assms
proof (induction xs)
  case (Cons x xs)
  have "distinct (filter P xs)" using Cons.prems [of "Suc _" "Suc _"] by (intro Cons.IH) auto
  moreover have "x \<notin> set xs" if "P x"
    using Cons.prems [of 0 "Suc _"] that by (auto simp: in_set_conv_nth)
  ultimately show ?case by simp
qed simp

lemma cast_vote_changes:
  assumes "snd (cast_vote c msg s) = Inr (reg, s')" and "electors s' ! j \<noteq> electors s ! j"
  shows "fd (electors s ! j) = c \<and> 48 \<le> msg \<and> msg \<le> 50 \<and> electors s' ! j = (electors s ! j)\<lparr>vote := msg - 48\<rparr>"
proof -
  from assms obtain i where i: "find_idx (\<lambda>e. fd e = c) (electors s) = Some i"
    by (auto simp: cast_vote_def split: option.splits)
  with assms have m: "48 \<le> msg" "msg \<le> 50"
    and s': "electors s' = (electors s)[i := (electors s ! i)\<lparr>vote := msg - 48\<rparr>]"
    by (auto simp: cast_vote_def Let_def split: if_splits)
  with assms(2) have "i = j" by (metis nth_list_update_neq)
  with i m s' show ?thesis using find_idx_SomeD [OF i] by simp
qed

lemma register_keeps_votes:
  assumes "snd (register_elector c msg sent s) = Inr s'"
  shows "map vote (electors s') = map vote (electors s)"
proof -
  have "map vote ((electors s)[k := (electors s ! k)\<lparr>connected := True, fd := c\<rparr>]) = map vote (electors s)" for k
    using map_update [of vote "electors s" k "electors s ! k"] by (simp add: map_update)
  then show ?thesis
    using assms by (auto simp: register_elector_def Let_def split: if_splits sysret.splits)
qed

lemma drop_keeps_votes: "map vote (electors (drop_client c s)) = map vote (electors s)"
  by (simp add: drop_client_def)

lemma on_message_votes:
  assumes I: "elections_ok s" and E: "elect_env s (Message c a stale sent)"
    and s': "snd (on_message c a stale sent s) = Inr s'"
    and j: "j < ELECTORS_NUM" "vote (electors s' ! j) \<noteq> vote (electors s ! j)"
  shows "fd (electors s ! j) = c \<and> 0 \<le> vote (electors s' ! j) \<and> vote (electors s' ! j) \<le> 2 \<and>
         a = Ok (Some (48 + vote (electors s' ! j)))"
proof -
  have l: "length (electors s) = ELECTORS_NUM" using I by (simp add: elections_ok_def)
  have c0: "0 \<le> c" using I E by (auto simp: elections_ok_def elect_env_def)
  obtain got where a: "a = Ok got" using s' by (cases a) (auto simp: on_message_def)
  define s1 msg where "s1 = (case got of None \<Rightarrow> drop_client c s | Some _ \<Rightarrow> s)"
    and "msg = (case got of None \<Rightarrow> stale | Some x \<Rightarrow> x)"
  have "\<exists>r. snd (cast_vote c msg s1) = Inr r \<and>
      snd (case r of (reg, s2) \<Rightarrow> if reg then ret s2 else register_elector c msg sent s2) = Inr s'"
    using s' a unfolding s1_def msg_def
    by (cases got; auto simp: on_message_def Let_def snd_seq_Inr case_prod_beta split: if_splits simp del: split_paired_Ex; blast)
  then obtain reg s2 where s2: "snd (cast_vote c msg s1) = Inr (reg, s2)"
    "snd (if reg then ret s2 else register_elector c msg sent s2) = Inr s'" by force
  have v1: "map vote (electors s1) = map vote (electors s)"
    by (simp add: s1_def drop_keeps_votes split: option.split)
  have v2: "map vote (electors s') = map vote (electors s2)"
    using s2(2) register_keeps_votes by (auto split: if_splits)
  have ll: "length (electors s1) = ELECTORS_NUM" "length (electors s') = length (electors s2)"
    using arg_cong [OF v1, of length] arg_cong [OF v2, of length] l by simp_all
  have "elections_ok s1" unfolding s1_def using I drop_client_ok by (cases got) simp_all
  then have l2: "length (electors s2) = ELECTORS_NUM"
    using cast_vote_ok [OF _ s2(1)] unfolding elections_ok_def by blast
  have e1: "vote (electors s1 ! j) = vote (electors s ! j)"
    using arg_cong [OF v1, of "\<lambda>xs. xs ! j"] j(1) l ll by simp
  have e2: "vote (electors s' ! j) = vote (electors s2 ! j)"
    using arg_cong [OF v2, of "\<lambda>xs. xs ! j"] j(1) l2 ll by simp
  have "electors s2 ! j \<noteq> electors s1 ! j" using e1 e2 j(2) by auto
  note V = cast_vote_changes [OF s2(1) this]
  have "got \<noteq> None"
  proof
    assume "got = None"
    then have "fd (electors s1 ! j) \<noteq> c" using j(1) l c0 by (simp add: s1_def drop_client_def)
    with V show False by simp
  qed
  then show ?thesis using V a e2 by (auto simp: s1_def msg_def)
qed

text \<open>
  C28: whatever connections come, go and say, a vote of an elector's record changes only by a byte
  \<open>'0'\<close>, \<open>'1'\<close> or \<open>'2'\<close> read from the connection that registered as that elector, and becomes that digit;
  the seven records stay well formed: a vote between -1 and 2, a descriptor exactly when connected,
  and no connection that is two electors.
\<close>

theorem elector_votes_alone:
  assumes "ok_run elect_handle elect_env elections_start evs"
    and "run_events elect_handle elections_start evs = Inr s"
    and "elect_env s (Message c a stale sent)" and "snd (on_message c a stale sent s) = Inr s'"
  shows "(\<forall>e \<in> set (electors s'). - 1 \<le> vote e \<and> vote e \<le> 2 \<and> (connected e \<longleftrightarrow> fd e \<noteq> -1))
    \<and> length (electors s') = ELECTORS_NUM \<and> distinct (filter (\<lambda>d. d \<noteq> -1) (map fd (electors s')))
    \<and> (\<forall>j < ELECTORS_NUM. vote (electors s' ! j) \<noteq> vote (electors s ! j) \<longrightarrow>
         fd (electors s ! j) = c \<and> a = Ok (Some (48 + vote (electors s' ! j))) \<and> vote (electors s' ! j) \<in> {0..2})"
proof -
  have I: "elections_ok s" using elect.run_inv [OF elections_start_ok assms(1,2)] .
  have I': "elections_ok s'" using on_message_ok [OF I assms(3,4)] .
  have "distinct (filter (\<lambda>d. d \<noteq> -1) (map fd (electors s')))"
    using I' by (intro distinct_filter_nth) (auto simp: elections_ok_def)
  then show ?thesis using I' on_message_votes [OF I assms(3,4)] by (auto simp: elections_ok_def)
qed

text \<open>
  When an elector leaves while the byte left in \<^verbatim>\<open>msg\<close> is the number of an elector who
  is not connected (the leaving one, for the byte that registered them), the server takes the closed
  connection for a new one of that elector and ends: the welcome is written to a closed descriptor.
\<close>

theorem leaving_elector_stops_server:
  assumes "elections_ok s" and "c \<in> conns s" and "49 \<le> stale" and "stale \<le> 55"
    and "fd (electors s ! nat (stale - 49)) = c \<or> \<not> connected (electors s ! nat (stale - 49))"
  shows "on_message c (Ok None) stale sent s = ([Disconnected], Inl (ERR ''write''))"
proof -
  let ?k = "nat (stale - 49)" and ?s = "drop_client c s"
  have k: "?k < length (electors s)" using assms(1,3,4) by (auto simp: elections_ok_def)
  have c: "c \<noteq> -1" using assms(1,2) by (auto simp: elections_ok_def)
  then have "find_idx (\<lambda>e. fd e = c) (electors ?s) = None"
    by (auto simp: find_idx_None_iff drop_client_def)
  moreover have "\<not> connected (electors ?s ! ?k)" using assms(5) k by (auto simp: drop_client_def)
  moreover have "c \<notin> conns ?s" by (simp add: drop_client_def)
  ultimately show ?thesis
    using assms(3,4)
    by (simp add: on_message_def cast_vote_def register_elector_def seq_def emit_def ret_def die_def)
qed

section \<open>Witnesses\<close>

definition demo_evs :: "elect_event list" where
  "demo_evs = [Incoming [Ok 5] True, Message 5 (Ok (Some 51)) 0 (Ok ())]"

lemma demo_elections:
  "run_events elect_handle elections_start demo_evs =
     Inr \<lparr>electors = (electors elections_start)[2 := \<lparr>connected = True, vote = -1, fd = 5\<rparr>], conns = {5}\<rparr>"
  "ok_run elect_handle elect_env elections_start demo_evs"
  by (simp_all add: demo_evs_def elections_start_def on_event_def accept_client_def add_new_client_def
      on_message_def cast_vote_def register_elector_def elect_env_def numeral_eq_Suc)

theorem elector_votes_alone_witness:
  "\<exists>s s'. run_events elect_handle elections_start demo_evs = Inr s \<and>
     snd (on_message 5 (Ok (Some 50)) 51 (Ok ()) s) = Inr s' \<and> vote (electors s' ! 2) = 2 \<and>
     vote (electors s' ! 2) \<noteq> vote (electors s ! 2) \<and> fd (electors s ! 2) = 5"
proof -
  let ?s = "\<lparr>electors = (electors elections_start)[2 := \<lparr>connected = True, vote = -1, fd = 5\<rparr>], conns = {5}\<rparr>"
  have "\<exists>s'. snd (on_message 5 (Ok (Some 50)) 51 (Ok ()) ?s) = Inr s' \<and> vote (electors s' ! 2) = 2"
    by (simp add: on_message_def cast_vote_def elections_start_def numeral_eq_Suc)
  then obtain s' where s': "snd (on_message 5 (Ok (Some 50)) 51 (Ok ()) ?s) = Inr s'" "vote (electors s' ! 2) = 2"
    by blast
  have "elect_env ?s (Message 5 (Ok (Some 50)) 51 (Ok ()))" by (simp add: elect_env_def)
  note elector_votes_alone [OF demo_elections(2,1) this s'(1)]
  moreover have "vote (electors ?s ! 2) = -1" by (simp add: elections_start_def)
  ultimately show ?thesis using demo_elections(1) s' by force
qed

theorem leaving_elector_stops_server_witness:
  "run_events elect_handle elections_start (demo_evs @ [Message 5 (Ok None) 51 (Ok ())]) = Inl (ERR ''write'')"
proof -
  let ?s = "\<lparr>electors = (electors elections_start)[2 := \<lparr>connected = True, vote = -1, fd = 5\<rparr>], conns = {5}\<rparr>"
  have I: "elections_ok ?s" using elect.run_inv [OF elections_start_ok demo_elections(2,1)] .
  have "on_message 5 (Ok None) 51 (Ok ()) ?s = ([Disconnected], Inl (ERR ''write''))"
    by (rule leaving_elector_stops_server [OF I]) (simp_all add: elections_start_def)
  then show ?thesis using demo_elections(1) by (simp add: run_events_append on_event_def)
qed

end
