(* ===== verification/Signs.thy ===== *)
theory Signs
  imports Pipes
begin

text \<open>
  \<^verbatim>\<open>lab06/sop-1/sop-1.c\<close>: N child processes count the bytes of a file, each in its own part of
  it and its own table in shared memory; the parent adds the tables up.  A table is a list of 256
  counters, a byte the unsigned value.  A child is the list of its updates of the shared memory, and
  a run is an interleaving of the children's updates.
\<close>

abbreviation MAX_PROC :: nat where "MAX_PROC \<equiv> 10"

type_synonym signs = "int list"

record shared_signs =
  signs :: "signs list"
  failed :: int

datatype sign_act = CountByte nat | SetFailed

definition shared_start :: shared_signs where
  "shared_start = \<lparr>signs = replicate MAX_PROC (replicate 256 0), failed = 0\<rparr>"

text \<open>
  \<^verbatim>\<open>program\<close>: the counter of every byte between the two offsets, one after the other.  An
  offset outside the mapping is undefined.
\<close>

definition program :: "nat list \<Rightarrow> int \<Rightarrow> int \<Rightarrow> sign_act list run" where
  "program log start stop =
     (if stop \<le> start then Inr []
      else if start < 0 \<or> stop > int (length log) then Inl (Undefined ''read outside the mapping'')
      else Inr (map CountByte (take (nat (stop - start)) (drop (nat start) log))))"

text \<open>
  The child with number \<open>k\<close> of \<open>m\<close>; \<open>r\<close> is what its \<^verbatim>\<open>rand\<close> returns.
  The size is an \<^verbatim>\<open>off_t\<close> of 64 bits; a conversion to \<^verbatim>\<open>int\<close> keeps
  the low 32 bits.
\<close>

definition to_int :: "int \<Rightarrow> int" where
  "to_int x = signed_take_bit 31 x"

definition child_part :: "nat \<Rightarrow> nat \<Rightarrow> nat \<Rightarrow> (int \<times> int) run" where
  "child_part sz m k =
     (let part = to_int (int (sz div m)) in
      bindr (c_int (part * int k)) (\<lambda>start.
      bindr (if k = m - 1 then Inr (to_int (int sz)) else c_int (part * (int k + 1))) (\<lambda>stop.
      Inr (start, stop))))"

definition child :: "nat list \<Rightarrow> nat \<Rightarrow> nat \<Rightarrow> rng \<Rightarrow> sign_act list run" where
  "child log m k r =
     bindr (child_part (length log) m k) (\<lambda>(start, stop).
     bindr (program log start stop) (\<lambda>cs.
     Inr (cs @ (if fst (rand r) mod 100 < 3 then [SetFailed] else []))))"

text \<open>
  \<^verbatim>\<open>create_children\<close>: children \<open>N - 1\<close> down to 0; a failed \<^verbatim>\<open>fork\<close> ends the parent.
\<close>

fun create_children :: "(nat \<Rightarrow> bool) \<Rightarrow> nat \<Rightarrow> nat list run" where
  "create_children forks 0 = Inr []"
| "create_children forks (Suc k) =
     (if forks k then bindr (create_children forks k) (\<lambda>ks. Inr (k # ks)) else Inl (ERR ''fork''))"

text \<open>One update by child \<open>k\<close>; there are tables for \<open>MAX_PROC\<close> children only.\<close>

definition update :: "nat \<times> sign_act \<Rightarrow> shared_signs \<Rightarrow> shared_signs run" where
  "update u s =
     (case u of
        (k, SetFailed) \<Rightarrow> Inr (s\<lparr>failed := 1\<rparr>)
      | (k, CountByte c) \<Rightarrow>
          if length (signs s) \<le> k then Inl (Undefined ''table of child'')
          else bindr (c_int (signs s ! k ! c + 1)) (\<lambda>v.
               Inr (s\<lparr>signs := (signs s)[k := (signs s ! k)[c := v]]\<rparr>)))"

definition updates :: "(nat \<times> sign_act) list \<Rightarrow> shared_signs \<Rightarrow> shared_signs run" where
  "updates tr s = run_events (\<lambda>s u. update u s) s tr"

text \<open>\<open>tr\<close> is an interleaving of the scripts of the children \<open>0 \<dots> n - 1\<close>.\<close>

definition interleaves :: "nat \<Rightarrow> (nat \<Rightarrow> sign_act list) \<Rightarrow> (nat \<times> sign_act) list \<Rightarrow> bool" where
  "interleaves n scr tr \<longleftrightarrow>
     (\<forall>u \<in> set tr. fst u < n) \<and> (\<forall>k < n. map snd (filter (\<lambda>u. fst u = k) tr) = scr k)"

text \<open>The sums of the parent, over the tables of the \<open>n\<close> children.\<close>

definition add_tables :: "signs \<Rightarrow> signs \<Rightarrow> signs run" where
  "add_tables tot t =
     (if \<forall>i < 256. in_int (tot ! i + t ! i) then Inr (map (\<lambda>i. tot ! i + t ! i) [0..<256])
      else Inl (Undefined ''signed overflow''))"

definition total_counts :: "nat \<Rightarrow> shared_signs \<Rightarrow> signs run" where
  "total_counts n s =
     (if failed s = 1 then Inr (replicate 256 0)
      else if length (signs s) < n then Inl (Undefined ''table of child'')
      else run_events add_tables (replicate 256 0) (take n (signs s)))"

definition printed :: "signs \<Rightarrow> (nat \<times> int) list" where
  "printed tot = filter (\<lambda>(i, n). n > 0) (enumerate 0 tot)"

text \<open>The parent maps the file, which must be there, and which \<^verbatim>\<open>mmap\<close> refuses when it is empty.\<close>

definition map_log :: "nat list option \<Rightarrow> nat list run" where
  "map_log file =
     (case file of
        None \<Rightarrow> Inl (ERR ''open'')
      | Some log \<Rightarrow> if log = [] then Inl (ERR ''mmap'') else Inr log)"

text \<open>It prints the file; the index is an \<^verbatim>\<open>int\<close>.\<close>

definition show_log :: "nat list \<Rightarrow> nat list run" where
  "show_log log = (if 2147483648 \<le> length log then Inl (Undefined ''i++'') else Inr log)"

text \<open>
  The parent: when it has printed the file the children are created and their updates run in the order \<open>tr\<close>; the result
  is the printed file, whether the failure was announced, and the printed counters.
\<close>

definition signs_main ::
  "nat list option \<Rightarrow> (nat \<Rightarrow> bool) \<Rightarrow> nat \<Rightarrow> (nat \<times> sign_act) list \<Rightarrow> (nat list \<times> bool \<times> (nat \<times> int) list) run" where
  "signs_main file forks n tr =
     bindr (map_log file) (\<lambda>log.
     bindr (show_log log) (\<lambda>shown.
     bindr (create_children forks n) (\<lambda>_.
     bindr (updates tr shared_start) (\<lambda>s.
     bindr (total_counts n s) (\<lambda>tot. Inr (shown, failed s = 1, printed tot))))))"

section \<open>The parts of the file\<close>

lemma to_int_id: "in_int x \<Longrightarrow> to_int x = x"
  by (simp add: to_int_def in_int_def signed_take_bit_int_eq_self)

abbreviation part_of :: "'a list \<Rightarrow> nat \<Rightarrow> nat \<Rightarrow> 'a list" where
  "part_of log n k \<equiv>
     (let p = length log div n in if k = n - 1 then drop (p * k) log else take p (drop (p * k) log))"

lemma parts_take:
  "m * p \<le> length log \<Longrightarrow> concat (map (\<lambda>k. take p (drop (p * k) log)) [0..<m]) = take (p * m) log"
proof (induction m)
  case (Suc m)
  have "take (p * m) log @ take p (drop (p * m) log) = take (p * m + p) log"
    by (simp add: take_add)
  with Suc show ?case by (simp add: add.commute)
qed simp

lemma parts_concat:
  assumes "0 < n"
  shows "concat (map (part_of log n) [0..<n]) = log"
proof -
  let ?p = "length log div n"
  obtain m where n: "n = Suc m" using assms by (cases n) auto
  have "m * ?p \<le> n * ?p" using n by simp
  also have "n * ?p \<le> length log" by simp
  finally have m: "m * ?p \<le> length log" .
  have "map (part_of log n) [0..<m] = map (\<lambda>k. take ?p (drop (?p * k) log)) [0..<m]"
    by (rule map_cong) (auto simp: n Let_def)
  then have a: "concat (map (part_of log n) [0..<m]) = take (?p * m) log"
    using parts_take [OF m] by (simp only:)
  have b: "concat (map (part_of log n) [m]) = drop (?p * m) log" by (simp add: n Let_def)
  have "[0..<n] = [0..<m] @ [m]" by (simp add: n)
  then have "concat (map (part_of log n) [0..<n]) = take (?p * m) log @ drop (?p * m) log"
    using a b by (simp only: map_append concat_append)
  then show ?thesis by simp
qed

lemma part_subset: "set (part_of log n k) \<subseteq> set log"
  by (auto simp: Let_def dest!: in_set_takeD in_set_dropD)

lemma part_bounds:
  assumes "k < n"
  shows "length log div n * k + length log div n \<le> length (log :: 'a list)"
proof -
  have "length log div n * Suc k \<le> length log div n * n" using assms by (intro mult_le_mono) simp_all
  also have "\<dots> \<le> length log" by simp
  finally show ?thesis by simp
qed

lemma child_actions:
  assumes k: "k < n" and sz: "length log < 2147483648"
  shows "child log n k r =
    Inr (map CountByte (part_of log n k) @ (if unat (r 0) mod 100 < 3 then [SetFailed] else []))"
proof -
  let ?p = "length log div n"
  have b: "?p * k + ?p \<le> length log" using part_bounds [OF k] .
  have i: "in_int (int ?p)" "in_int (int (length log))" "in_int (int ?p * int k)" "in_int (int ?p * (int k + 1))"
    using b sz unfolding in_int_def by (auto simp flip: of_nat_mult simp: algebra_simps)
  let ?stop = "if k = n - 1 then int (length log) else int ?p * (int k + 1)"
  have c: "child_part (length log) n k = Inr (int ?p * int k, ?stop)"
    using i by (simp add: child_part_def to_int_id Let_def c_int_def)
  have s: "int (?p * k) \<le> ?stop" "?stop \<le> int (length log)"
    using b by (auto simp: algebra_simps simp flip: of_nat_mult of_nat_add)
  have l: "nat (?stop - int ?p * int k) = (if k = n - 1 then length log - ?p * k else ?p)"
    by (auto simp: algebra_simps simp flip: of_nat_mult)
  have "program log (int ?p * int k) ?stop = Inr (map CountByte (part_of log n k))"
  proof (cases "?stop \<le> int (?p * k)")
    case True
    with s have "?stop = int (?p * k)" by simp
    then have "part_of log n k = []"
      using l by (auto simp: Let_def simp flip: of_nat_mult split: if_splits)
    with True show ?thesis by (simp add: program_def)
  next
    case False
    with s l show ?thesis
      by (auto simp: program_def Let_def simp flip: of_nat_mult)
  qed
  with c show ?thesis by (simp add: child_def)
qed

section \<open>The tables after the updates\<close>

definition tally :: "(nat \<times> sign_act) list \<Rightarrow> shared_signs" where
  "tally tr =
     \<lparr>signs = map (\<lambda>k. map (\<lambda>c. int (count_list tr (k, CountByte c))) [0..<256]) [0..<MAX_PROC],
      failed = (if \<exists>k. (k, SetFailed) \<in> set tr then 1 else 0)\<rparr>"

lemma tally_Nil: "tally [] = shared_start"
  by (simp add: tally_def shared_start_def map_replicate_trivial)

lemma tally_step:
  assumes "k < MAX_PROC" and "\<forall>c. a = CountByte c \<longrightarrow> c < 256"
    and "\<forall>c. count_list (tr @ [(k, a)]) (k, CountByte c) < 2147483648"
  shows "update (k, a) (tally tr) = Inr (tally (tr @ [(k, a)]))"
proof (cases a)
  case SetFailed
  then have "signs (tally (tr @ [(k, a)])) = signs (tally tr)"
    by (simp add: tally_def count_list_append)
  with SetFailed show ?thesis by (auto simp: update_def tally_def count_list_append)
next
  case (CountByte c)
  with assms(2,3) have c: "c < 256" "in_int (int (count_list tr (k, CountByte c)) + 1)"
    by (auto simp: count_list_append in_int_def dest!: spec [where x = c])
  have f: "failed (tally (tr @ [(k, a)])) = failed (tally tr)" by (auto simp: tally_def CountByte)
  have "signs (tally (tr @ [(k, a)])) =
      (signs (tally tr))[k := (signs (tally tr) ! k)[c := int (count_list tr (k, CountByte c)) + 1]]"
    using assms(1) c(1)
    by (intro nth_equalityI) (auto simp: tally_def CountByte nth_list_update count_list_append intro!: nth_equalityI)
  with f assms(1) c CountByte show ?thesis
    by (simp add: update_def) (simp add: tally_def c_int_def)
qed

lemma updates_tally:
  assumes "\<forall>(k, a) \<in> set tr. k < MAX_PROC \<and> (\<forall>c. a = CountByte c \<longrightarrow> c < 256)"
    and "\<forall>k c. count_list tr (k, CountByte c) < 2147483648"
  shows "updates tr shared_start = Inr (tally tr)"
  using assms
proof (induction tr rule: rev_induct)
  case Nil
  then show ?case by (simp add: updates_def tally_Nil)
next
  case (snoc u tr)
  obtain k a where u: "u = (k, a)" by (cases u)
  have "\<forall>k c. count_list tr (k, CountByte c) < 2147483648"
    using snoc.prems(2) by (auto simp: count_list_append dest: add_lessD1)
  with snoc have "updates tr shared_start = Inr (tally tr)" by simp
  moreover have "update (k, a) (tally tr) = Inr (tally (tr @ [(k, a)]))"
  proof (rule tally_step)
    show "\<forall>c. count_list (tr @ [(k, a)]) (k, CountByte c) < 2147483648"
      using snoc.prems(2) unfolding u by blast
  qed (use snoc.prems(1) u in auto)
  ultimately show ?case by (simp add: updates_def run_events_append u)
qed

section \<open>The sums\<close>

lemma sum_tables:
  assumes "\<forall>m \<le> n. \<forall>c < 256. in_int (\<Sum>k < m. f k c)"
  shows "run_events add_tables (replicate 256 0) (map (\<lambda>k. map (f k) [0..<256]) [0..<n]) =
         Inr (map (\<lambda>c. \<Sum>k < n. f k c) [0..<256])"
  using assms
proof (induction n)
  case 0
  then show ?case by (simp add: map_replicate_trivial)
next
  case (Suc n)
  then have "\<forall>c < 256. in_int ((\<Sum>k < n. f k c) + f n c)" by (metis lessThan_Suc sum.lessThan_Suc order_refl)
  then have "add_tables (map (\<lambda>c. \<Sum>k < n. f k c) [0..<256]) (map (f n) [0..<256]) =
      Inr (map (\<lambda>c. \<Sum>k < Suc n. f k c) [0..<256])"
    by (auto simp: add_tables_def)
  with Suc show ?case by (simp add: run_events_append)
qed

lemma count_child: "count_list tr (k, a) = count_list (map snd (filter (\<lambda>u. fst u = k) tr)) a"
  by (induction tr) auto

lemma count_concat: "count_list (concat xss) x = sum_list (map (\<lambda>xs. count_list xs x) xss)"
  by (induction xss) (simp_all add: count_list_append)

lemma count_parts:
  assumes "0 < n"
  shows "(\<Sum>k < n. count_list (part_of log n k) x) = count_list log x"
proof -
  have "count_list log x = count_list (concat (map (part_of log n) [0..<n])) x"
    by (simp only: parts_concat [OF assms])
  also have "\<dots> = sum_list (map (\<lambda>k. count_list (part_of log n k) x) [0..<n])"
    by (simp only: count_concat map_map o_def)
  finally show ?thesis by (simp add: interv_sum_list_conv_sum_set_nat atLeast0LessThan)
qed

lemma count_bytes: "count_list (map CountByte xs @ (if P then [SetFailed] else [])) (CountByte c) = count_list xs c"
  by (induction xs) (auto simp: count_list_append)

lemma create_children_all: "\<forall>k < n. forks k \<Longrightarrow> \<exists>ks. create_children forks n = Inr ks"
  by (induction n) auto

abbreviation script :: "nat list \<Rightarrow> nat \<Rightarrow> (nat \<Rightarrow> rng) \<Rightarrow> nat \<Rightarrow> sign_act list" where
  "script log n r k \<equiv> (case child log n k (r k) of Inr cs \<Rightarrow> cs | Inl _ \<Rightarrow> [])"

lemma total_counts_tally:
  assumes "0 < n" "n \<le> MAX_PROC" "length log < 2147483648"
    and cnt: "\<forall>k < n. \<forall>c. count_list tr (k, CountByte c) = count_list (part_of log n k) c"
    and f: "failed (tally tr) = 0"
  shows "total_counts n (tally tr) = Inr (map (\<lambda>c. int (count_list log c)) [0..<256])"
proof -
  let ?f = "\<lambda>k c. int (count_list tr (k, CountByte c))"
  have s: "(\<Sum>k < n. ?f k c) = int (count_list log c)" for c
    using cnt count_parts [OF assms(1), of log c] by (simp flip: of_nat_sum)
  have "in_int (\<Sum>k < m. ?f k c)" if "m \<le> n" for m c
  proof -
    have "(\<Sum>k < m. ?f k c) \<le> (\<Sum>k < n. ?f k c)" using that by (intro sum_mono2) auto
    moreover have "0 \<le> (\<Sum>k < m. ?f k c)" by (simp add: sum_nonneg)
    ultimately show ?thesis using s [of c] count_le_length [of log c] assms(3) by (simp add: in_int_def)
  qed
  then have "run_events add_tables (replicate 256 0) (map (\<lambda>k. map (?f k) [0..<256]) [0..<n]) =
      Inr (map (\<lambda>c. \<Sum>k < n. ?f k c) [0..<256])"
    by (intro sum_tables) blast
  moreover have "take n (signs (tally tr)) = map (\<lambda>k. map (?f k) [0..<256]) [0..<n]"
    using assms(2) by (simp add: tally_def take_map)
  ultimately show ?thesis using f assms(2) by (simp add: total_counts_def s) (simp add: tally_def)
qed

text \<open>Any interleaving leaves the tables of the children's parts, and the flag when a child failed.\<close>

lemma interleaved_tables:
  assumes n: "n \<le> MAX_PROC" and sz: "length log < 2147483648" and bytes: "set log \<subseteq> {0..<256}"
    and tr: "interleaves n (script log n r) tr"
  shows "updates tr shared_start = Inr (tally tr)"
    and "\<And>k c. k < n \<Longrightarrow> count_list tr (k, CountByte c) = count_list (part_of log n k) c"
    and "failed (tally tr) = (if \<exists>k < n. unat (r k 0) mod 100 < 3 then 1 else 0)"
proof -
  let ?fails = "\<lambda>k. unat (r k 0) mod 100 < 3"
  have ch: "child log n k (r k) = Inr (map CountByte (part_of log n k) @ (if ?fails k then [SetFailed] else []))"
    if "k < n" for k by (rule child_actions [OF that sz])
  have sc: "map snd (filter (\<lambda>u. fst u = k) tr) = map CountByte (part_of log n k) @ (if ?fails k then [SetFailed] else [])"
    if "k < n" for k using tr ch [OF that] that by (simp add: interleaves_def)
  show cnt: "count_list tr (k, CountByte c) = count_list (part_of log n k) c" if "k < n" for k c
    using sc [OF that] by (simp only: count_child count_bytes)
  have lt: "k < n" if "(k, a) \<in> set tr" for k a using tr that by (auto simp: interleaves_def)
  have "a \<in> set (map CountByte (part_of log n k) @ (if ?fails k then [SetFailed] else []))"
    if "(k, a) \<in> set tr" for k a
  proof -
    have "a \<in> set (map snd (filter (\<lambda>u. fst u = k) tr))" using that by force
    then show ?thesis by (simp only: sc [OF lt [OF that]])
  qed
  note act = this
  have c256: "c < 256" if "(k, CountByte c) \<in> set tr" for k c
  proof -
    have "c \<in> set (part_of log n k)" using act [OF that] by (simp add: image_iff split: if_splits)
    then have "c \<in> set log" by (rule subsetD [OF part_subset])
    then show ?thesis using bytes by auto
  qed
  have cl: "count_list tr (k, CountByte c) < 2147483648" for k c
  proof (cases "k < n")
    case True
    have "length (part_of log n k) \<le> length log" by (simp add: Let_def min_def)
    then show ?thesis using cnt [OF True, of c] count_le_length [of "part_of log n k" c] sz by linarith
  next
    case False
    then have "(k, CountByte c) \<notin> set tr" using lt by blast
    then show ?thesis by (simp add: count_list_0_iff [THEN iffD2])
  qed
  show "updates tr shared_start = Inr (tally tr)"
    using lt c256 cl n by (intro updates_tally) fastforce+
  have sf: "(k, SetFailed) \<in> set tr \<longleftrightarrow> k < n \<and> ?fails k" for k
  proof (cases "k < n")
    case True
    have "(k, SetFailed) \<in> set tr \<longleftrightarrow> SetFailed \<in> set (map snd (filter (\<lambda>u. fst u = k) tr))" by force
    then show ?thesis unfolding sc [OF True] using True by auto
  qed (use lt in blast)
  then show "failed (tally tr) = (if \<exists>k < n. ?fails k then 1 else 0)" by (simp add: tally_def)
qed

text \<open>
  C10: for at most ten processes and any interleaving of their updates, the program is equivalent to
  one pass over the file: it prints the file and, for every byte that occurs, the number of its occurrences in the
  whole file (no byte is lost or counted twice at the borders of the parts), unless some child
  aborted, when it announces the failure and prints no counter.  For an empty file it ends in \<^verbatim>\<open>ERR\<close>
  before the children are created.
\<close>

theorem signs_histogram:
  assumes "1 \<le> n" and "n \<le> MAX_PROC" and "length log < 2147483648" and "set log \<subseteq> {0..<256}"
    and "\<forall>k < n. forks k" and "interleaves n (script log n r) tr"
  shows "(\<forall>k < n. \<exists>cs. child log n k (r k) = Inr cs) \<and>
    signs_main (Some log) forks n tr = (if log = [] then Inl (ERR ''mmap'')
      else Inr (log, if \<exists>k < n. unat (r k 0) mod 100 < 3 then (True, [])
        else (False, printed (map (\<lambda>c. int (count_list log c)) [0..<256]))))"
proof -
  let ?fails = "\<lambda>k. unat (r k 0) mod 100 < 3"
  note T = interleaved_tables [OF assms(2-4,6)]
  have ch: "\<forall>k < n. \<exists>cs. child log n k (r k) = Inr cs" using child_actions [OF _ assms(3)] by blast
  obtain ks where "create_children forks n = Inr ks" using create_children_all [OF assms(5)] by blast
  moreover have "total_counts n (tally tr) = Inr (map (\<lambda>c. int (count_list log c)) [0..<256])"
    if "\<not> (\<exists>k < n. ?fails k)"
    using total_counts_tally [of n log tr] assms(1-3) T(2,3) that by simp
  moreover have "printed (replicate 256 0) = []"
    by (auto simp: printed_def filter_empty_conv in_set_enumerate_eq)
  moreover have "map_log (Some log) = (if log = [] then Inl (ERR ''mmap'') else Inr log)" "show_log log = Inr log"
    using assms(3) by (simp_all add: map_log_def show_log_def)
  moreover have "total_counts n (tally tr) = Inr (replicate 256 0)" if "\<exists>k < n. ?fails k"
    using T(3) that by (simp add: total_counts_def)
  ultimately show ?thesis
    using T(1,3) ch by (cases "\<exists>k < n. ?fails k"; cases "log = []") (simp_all add: signs_main_def)
qed

section \<open>Witness\<close>

definition demo_bytes :: "nat list" where
  "demo_bytes = [97, 98, 97]"

theorem signs_histogram_witness:
  "signs_main (Some demo_bytes) (\<lambda>_. True) 2 [(1, CountByte 98), (0, CountByte 97), (1, CountByte 97)] =
     Inr (demo_bytes, False, printed (map (\<lambda>c. int (count_list demo_bytes c)) [0..<256]))"
proof -
  let ?r = "\<lambda>k::nat. (\<lambda>i. 50) :: rng"
  let ?tr = "[(1, CountByte 98), (0, CountByte 97), (1, CountByte 97)]"
  have c: "child demo_bytes 2 k (?r k) = Inr (map CountByte (part_of demo_bytes 2 k))" if "k < 2" for k
    using child_actions [of k 2 demo_bytes "?r k"] that by (simp add: demo_bytes_def)
  have "interleaves 2 (script demo_bytes 2 ?r) ?tr"
    unfolding interleaves_def
  proof (intro conjI allI impI)
    fix k :: nat
    assume "k < 2"
    then have "k = 0 \<or> k = 1" by auto
    with c [OF \<open>k < 2\<close>] show "map snd (filter (\<lambda>u. fst u = k) ?tr) = script demo_bytes 2 ?r k"
      by (auto simp: demo_bytes_def)
  qed simp
  from signs_histogram [OF _ _ _ _ _ this, of "\<lambda>_. True"] show ?thesis
    by (simp add: demo_bytes_def)
qed

end
