(* ===== verification/Cards6.thy ===== *)
theory Cards6
  imports Pipes
begin

text \<open>
  \<^verbatim>\<open>lab06/sop-cards/sop-cards.c\<close>: players draw cards from decks of their own, the server scores
  them over shared memory.  The two barriers make the processes take turns: all players that play draw,
  the server scores, the players decide to resign, the server counts those who are left.  A phase of the
  players is written over the players in order; they touch only their own records.
\<close>

definition PLAYING :: int where "PLAYING = 0"
definition RESIGNED :: int where "RESIGNED = 1"

record player_data =
  card :: int
  score :: int
  active :: int

record player =
  deck :: "int list"
  last_idx :: int
  last_score :: int
  gen :: rng

record table =
  data :: "player_data list"
  players :: "player list"

datatype cards_eff =
    Drawing nat int
  | Winner int int
  | Scoring nat int
  | Leaving nat

definition should_resign :: "nat \<Rightarrow> rng \<Rightarrow> int \<times> rng" where
  "should_resign probability r = (if fst (rand r) mod probability = 0 then 1 else 0, snd (rand r))"

definition create_cards :: "nat \<Rightarrow> int list" where
  "create_cards m = map (\<lambda>i. int i + 1) [0..<m]"

text \<open>The card drawn is kept behind the cards that are left.\<close>

definition draw_card :: "int list \<Rightarrow> int \<Rightarrow> rng \<Rightarrow> (int \<times> int list \<times> int \<times> rng) run" where
  "draw_card cards lst r =
     (if lst < 0 then Inl (ERR ''draw_card'')
      else let card_idx = fst (rand r) mod nat (lst + 1);
               drawn = cards ! card_idx;
               cards' = foldl (\<lambda>cs i. cs[i := cs ! (i + 1)]) cards [card_idx..<nat lst];
               cards'' = cards'[nat lst := drawn]
           in Inr (drawn, cards'', lst - 1, snd (rand r)))"

section \<open>The players\<close>

definition draw_phase :: "nat \<Rightarrow> table \<Rightarrow> (cards_eff, table) io" where
  "draw_phase pl s =
     (if active (data s ! pl) = RESIGNED then ret s
      else let p = players s ! pl in
        seq (quiet (draw_card (deck p) (last_idx p) (gen p))) (\<lambda>(drawn, cards, lst, r).
        seq (emit [Drawing pl drawn]) (\<lambda>_.
        ret (s\<lparr>data := (data s)[pl := (data s ! pl)\<lparr>card := drawn\<rparr>],
               players := (players s)[pl := p\<lparr>deck := cards, last_idx := lst, gen := r\<rparr>]\<rparr>))))"

definition resign_phase :: "nat \<Rightarrow> table \<Rightarrow> (cards_eff, table) io" where
  "resign_phase pl s =
     (if active (data s ! pl) = RESIGNED then ret s
      else let p = players s ! pl; d = data s ! pl; (a, r) = should_resign 5 (gen p) in
        seq (emit (Scoring pl (score d - last_score p) # (if a = RESIGNED then [Leaving pl] else []))) (\<lambda>_.
        ret (s\<lparr>data := (data s)[pl := d\<lparr>active := a\<rparr>],
               players := (players s)[pl := p\<lparr>last_score := score d, gen := r\<rparr>]\<rparr>)))"

section \<open>The server\<close>

definition best :: "player_data \<Rightarrow> int \<times> int \<Rightarrow> int \<times> int" where
  "best d w =
     (if active d = RESIGNED then w
      else if card d > fst w then (card d, 1)
      else if card d = fst w then (fst w, snd w + 1)
      else w)"

definition winners :: "player_data list \<Rightarrow> int \<times> int" where
  "winners ds = foldl (\<lambda>w d. best d w) (-1, 0) ds"

definition server_score :: "table \<Rightarrow> (cards_eff, table) io" where
  "server_score s =
     (case winners (data s) of (winning_card, winning_count) \<Rightarrow>
        seq (emit [Winner winning_card winning_count]) (\<lambda>_.
        if winning_count = 0 then die (Undefined ''division by zero'')
        else let winning_score = int (length (data s)) div winning_count in
          ret (s\<lparr>data := map (\<lambda>d. if card d = winning_card then d\<lparr>score := score d + winning_score\<rparr> else d) (data s)\<rparr>)))"

definition still_active :: "table \<Rightarrow> nat" where
  "still_active s = length (filter (\<lambda>d. active d = PLAYING) (data s))"

definition round :: "table \<Rightarrow> (cards_eff, table) io" where
  "round s =
     seq (io_for 0 (length (data s)) draw_phase s) (\<lambda>s1.
     seq (server_score s1) (\<lambda>s2.
     io_for 0 (length (data s2)) resign_phase s2))"

fun game_server_work :: "nat \<Rightarrow> table \<Rightarrow> (cards_eff, table) io" where
  "game_server_work 0 s = ret s"
| "game_server_work (Suc m) s =
     seq (round s) (\<lambda>s'. if still_active s' = 0 then ret s' else game_server_work m s')"

definition new_table :: "nat \<Rightarrow> nat \<Rightarrow> (nat \<Rightarrow> rng) \<Rightarrow> table" where
  "new_table n m rs =
     \<lparr>data = replicate n \<lparr>card = 0, score = 0, active = PLAYING\<rparr>,
      players = map (\<lambda>pl. \<lparr>deck = create_cards m, last_idx = int m - 1, last_score = 0, gen = rs pl\<rparr>) [0..<n]\<rparr>"

definition cards_game :: "int \<Rightarrow> int \<Rightarrow> (nat \<Rightarrow> rng) \<Rightarrow> (cards_eff, table) io" where
  "cards_game n m rs =
     (if n < 2 \<or> n > 5 \<or> m < 5 \<or> m > 10 then die Usage
      else game_server_work (nat m) (new_table (nat n) (nat m) rs))"

section \<open>Drawing\<close>

lemma shift_nth:
  "l < length cs \<Longrightarrow> length (foldl (\<lambda>cs i. cs[i := cs ! (i + 1)]) cs [i..<l]) = length cs \<and>
   (\<forall>j < length cs. foldl (\<lambda>cs i. cs[i := cs ! (i + 1)]) cs [i..<l] ! j =
      (if i \<le> j \<and> j < l then cs ! (j + 1) else cs ! j))"
proof (induction l)
  case (Suc l)
  then show ?case by (auto simp: nth_list_update less_Suc_eq)
qed simp

lemma shift_eq:
  assumes "i \<le> l" "l < length cs"
  shows "(foldl (\<lambda>cs i. cs[i := cs ! (i + 1)]) cs [i..<l])[l := x] =
         take i cs @ take (l - i) (drop (i + 1) cs) @ x # drop (l + 1) cs" (is "?A[l := x] = ?B")
proof (rule nth_equalityI)
  show "length (?A[l := x]) = length ?B" using assms shift_nth [OF assms(2), of i] by simp
next
  fix j
  assume "j < length (?A[l := x])"
  then have j: "j < length cs" using shift_nth [OF assms(2), of i] by simp
  let ?L = "take i cs @ take (l - i) (drop (i + 1) cs)"
  have L: "length ?L = l" using assms by (auto simp: min_def)
  have A: "?A ! j = (if i \<le> j \<and> j < l then cs ! (j + 1) else cs ! j)" "length ?A = length cs"
    using shift_nth [OF assms(2), of i] j by simp_all
  show "?A[l := x] ! j = ?B ! j"
  proof (cases "j < l")
    case True
    have "?B ! j = ?L ! j" using True L by (metis append.assoc nth_append)
    with True A(1) assms show ?thesis by (auto simp: nth_append min_def)
  next
    case False
    then have "?B ! j = (x # drop (l + 1) cs) ! (j - l)" using L by (metis append.assoc nth_append)
    with False A assms j show ?thesis by (cases "j = l") (auto simp: nth_Cons')
  qed
qed

text \<open>
  \<open>deck_ok m ds p\<close>: of the \<open>m\<close> cards of the player, \<open>ds\<close> have been drawn, in this order; they
  stand behind the others, the newest first.
\<close>

definition deck_ok :: "nat \<Rightarrow> int list \<Rightarrow> player \<Rightarrow> bool" where
  "deck_ok m ds p \<longleftrightarrow> mset (deck p) = mset (create_cards m) \<and> length ds \<le> m \<and>
     last_idx p = int m - 1 - int (length ds) \<and> drop (m - length ds) (deck p) = rev ds"

lemma deck_length:
  assumes "deck_ok m ds p"
  shows "length (deck p) = m"
proof -
  have "mset (deck p) = mset (create_cards m)" using assms by (simp add: deck_ok_def)
  then have "length (deck p) = length (create_cards m)" by (rule mset_eq_length)
  then show ?thesis by (simp add: create_cards_def)
qed

lemma create_cards_set: "set (create_cards m) = {1..int m}" "distinct (create_cards m)"
proof -
  show "set (create_cards m) = {1..int m}"
  proof (rule set_eqI)
    fix x
    show "x \<in> set (create_cards m) \<longleftrightarrow> x \<in> {1..int m}"
      by (auto simp: create_cards_def image_iff intro!: bexI [where x = "nat (x - 1)"])
  qed
  show "distinct (create_cards m)" by (auto simp: create_cards_def distinct_map inj_on_def)
qed

lemma deck_drawn:
  assumes "deck_ok m ds p"
  shows "distinct ds" "set ds \<subseteq> {1..int m}" "length ds = m \<Longrightarrow> set ds = {1..int m}"
proof -
  have s: "set (deck p) = {1..int m}" "distinct (deck p)"
    using assms create_cards_set [of m] by (metis deck_ok_def mset_eq_setD, metis deck_ok_def mset_eq_imp_distinct_iff)
  have d: "rev ds = drop (m - length ds) (deck p)" using assms by (simp add: deck_ok_def)
  show "distinct ds" using s(2) d distinct_drop by (metis distinct_rev)
  show "set ds \<subseteq> {1..int m}" using s(1) d set_drop_subset by (metis set_rev)
  show "set ds = {1..int m}" if "length ds = m" using s(1) d that by (metis diff_self_eq_0 drop_0 set_rev)
qed

lemma draw_card_ok:
  assumes ok: "deck_ok m ds p" and less: "length ds < m"
  obtains c cards lst where
    "draw_card (deck p) (last_idx p) r = Inr (c, cards, lst, snd (rand r))"
    "deck_ok m (ds @ [c]) (p\<lparr>deck := cards, last_idx := lst, gen := g\<rparr>)" "1 \<le> c"
proof -
  let ?l = "m - 1 - length ds" and ?d = "deck p"
  have L: "length ?d = m" using deck_length [OF ok] .
  have li: "last_idx p = int ?l" using ok less by (simp add: deck_ok_def)
  define i where "i = fst (rand r) mod nat (int ?l + 1)"
  have "nat (int ?l + 1) = Suc ?l" by simp
  then have "i < Suc ?l" unfolding i_def by simp
  then have il: "i \<le> ?l" "?l < length ?d" using L less by simp_all
  let ?ds = "take i ?d @ take (?l - i) (drop (i + 1) ?d) @ ?d ! i # drop (?l + 1) ?d"
  have r: "draw_card ?d (last_idx p) r = Inr (?d ! i, ?ds, int ?l - 1, snd (rand r))"
    using shift_eq [OF il] by (simp add: draw_card_def li Let_def i_def)
  have "?d = take i ?d @ ?d ! i # take (?l - i) (drop (i + 1) ?d) @ drop (?l + 1) ?d"
  proof -
    have "drop (i + 1) ?d = take (?l - i) (drop (i + 1) ?d) @ drop (?l - i) (drop (i + 1) ?d)"
      by (rule append_take_drop_id [symmetric])
    moreover have "?l - i + (i + 1) = ?l + 1" using il(1) by linarith
    then have "drop (?l - i) (drop (i + 1) ?d) = drop (?l + 1) ?d" by (simp only: drop_drop)
    ultimately have "drop (i + 1) ?d = take (?l - i) (drop (i + 1) ?d) @ drop (?l + 1) ?d" by (simp only:)
    moreover have "?d = take i ?d @ ?d ! i # drop (i + 1) ?d" using il id_take_nth_drop [of i ?d] by simp
    ultimately show ?thesis by metis
  qed
  then have "mset ?d = mset (take i ?d @ ?d ! i # take (?l - i) (drop (i + 1) ?d) @ drop (?l + 1) ?d)" by simp
  then have ms: "mset ?ds = mset ?d" by simp
  have "drop (m - length ds) ?d = rev ds" using ok by (simp add: deck_ok_def)
  moreover have "?l + 1 = m - length ds" "m - length (ds @ [?d ! i]) = ?l" using less by auto
  moreover have "drop ?l ?ds = ?d ! i # drop (?l + 1) ?d"
  proof -
    have "length (take i ?d @ take (?l - i) (drop (i + 1) ?d)) = ?l" using il by (auto simp: min_def)
    then show ?thesis by (metis append.assoc append_eq_conv_conj)
  qed
  ultimately have dr: "drop (m - length (ds @ [?d ! i])) ?ds = rev (ds @ [?d ! i])" by simp
  have "?d ! i \<in> set ?d" using il by simp
  then have c: "1 \<le> ?d ! i" using ok create_cards_set(1) [of m] by (metis atLeastAtMost_iff deck_ok_def mset_eq_setD)
  have "deck_ok m (ds @ [?d ! i]) (p\<lparr>deck := ?ds, last_idx := int ?l - 1, gen := g\<rparr>)"
    using ok less ms dr by (auto simp: deck_ok_def)
  from that [OF r this c] show ?thesis .
qed

section \<open>The score of a round\<close>

abbreviation plays :: "player_data \<Rightarrow> bool" where
  "plays d \<equiv> active d \<noteq> RESIGNED"

lemma winners_best:
  assumes "\<forall>d \<in> set ds. 0 \<le> card d" and "\<exists>d \<in> set ds. plays d"
  shows "winners ds = (Max (card ` {d \<in> set ds. plays d}),
           int (length (filter (\<lambda>d. plays d \<and> card d = Max (card ` {d \<in> set ds. plays d})) ds)))"
  using assms
proof (induction ds rule: rev_induct)
  case (snoc d ds)
  let ?P = "{d \<in> set ds. plays d}"
  have w: "winners (ds @ [d]) = best d (winners ds)" by (simp add: winners_def)
  show ?case
  proof (cases "?P = {}")
    case True
    then have n: "\<forall>x \<in> set ds. \<not> plays x" by auto
    then have "winners ds = (-1, 0)"
      unfolding winners_def by (induction ds rule: rev_induct) (auto simp: best_def)
    moreover have "plays d" using snoc.prems(2) n by auto
    moreover have "{x \<in> set (ds @ [d]). plays x} = {d}" using n \<open>plays d\<close> by auto
    ultimately show ?thesis using w snoc.prems(1) n by (auto simp: best_def filter_empty_conv)
  next
    case False
    then have IH: "winners ds = (Max (card ` ?P), int (length (filter (\<lambda>d. plays d \<and> card d = Max (card ` ?P)) ds)))"
      using snoc by auto
    show ?thesis
    proof (cases "plays d")
      case p: True
      have e: "{x \<in> set (ds @ [d]). plays x} = insert d ?P" using p by auto
      have m: "Max (card ` insert d ?P) = max (card d) (Max (card ` ?P))" using False by simp
      have none: "filter (\<lambda>x. plays x \<and> card x = card d) ds = []" if "card d > Max (card ` ?P)"
      proof -
        have "card x < card d" if "x \<in> ?P" for x
        proof -
          have "card x \<le> Max (card ` ?P)" using that by (intro Max_ge) auto
          then show ?thesis using \<open>card d > Max (card ` ?P)\<close> by simp
        qed
        then show ?thesis by (fastforce simp: filter_empty_conv)
      qed
      show ?thesis
        unfolding e m w IH using p none by (auto simp: best_def max_def)
    next
      case np: False
      then have "{x \<in> set (ds @ [d]). plays x} = ?P" by auto
      with np show ?thesis unfolding w IH by (simp add: best_def)
    qed
  qed
qed simp

lemma winners_positive:
  assumes "\<forall>d \<in> set ds. 0 \<le> card d" and "\<exists>d \<in> set ds. plays d"
  shows "1 \<le> snd (winners ds)"
proof -
  let ?P = "{d \<in> set ds. plays d}"
  have "Max (card ` ?P) \<in> card ` ?P" using assms(2) by (intro Max_in) auto
  then obtain d where "d \<in> set ds" "plays d" "card d = Max (card ` ?P)" by auto
  then have "filter (\<lambda>d. plays d \<and> card d = Max (card ` ?P)) ds \<noteq> []" by (auto simp: filter_empty_conv)
  then show ?thesis using winners_best [OF assms] by (cases "filter (\<lambda>d. plays d \<and> card d = Max (card ` ?P)) ds") auto
qed

text \<open>
  A round is won by the highest card among the players still in the game, and the pot of one
  point per seat is shared, rounded down, by the number of its holders; the division is never by zero.
  The share goes to every record that shows that card, which includes players who have resigned
  (their last card stays in shared memory), so a round can hand out more points than there are seats.
\<close>

theorem cards_round_score:
  assumes "\<forall>d \<in> set (data s). 0 \<le> card d" and "\<exists>d \<in> set (data s). active d \<noteq> RESIGNED"
  defines "b \<equiv> Max (card ` {d \<in> set (data s). active d \<noteq> RESIGNED})"
  defines "w \<equiv> length (filter (\<lambda>d. active d \<noteq> RESIGNED \<and> card d = b) (data s))"
  shows "1 \<le> w \<and> server_score s = ([Winner b (int w)],
    Inr (s\<lparr>data := map (\<lambda>d. if card d = b then d\<lparr>score := score d + int (length (data s) div w)\<rparr> else d) (data s)\<rparr>))"
proof -
  have "winners (data s) = (b, int w)" unfolding w_def b_def by (rule winners_best [OF assms(1,2)])
  then show ?thesis
    using winners_positive [OF assms(1,2)] by (simp add: server_score_def Let_def zdiv_int ret_def emit_def seq_def)
qed

section \<open>The game\<close>

definition draws :: "nat \<Rightarrow> cards_eff list \<Rightarrow> int list" where
  "draws pl h = concat (map (\<lambda>e. case e of Drawing p c \<Rightarrow> if p = pl then [c] else [] | _ \<Rightarrow> []) h)"

lemma draws_simps [simp]:
  "draws pl [] = []" "draws pl (h @ h') = draws pl h @ draws pl h'"
  "draws pl [Drawing p c] = (if p = pl then [c] else [])"
  "draws pl [Winner b w] = []" "draws pl (Scoring p x # h) = draws pl h" "draws pl (Leaving p # h) = draws pl h"
  by (simp_all add: draws_def)

text \<open>
  \<open>game_inv n m h s f\<close>: the records and decks of the players agree with the cards drawn in \<open>h\<close>; a
  player still in the game has drawn \<open>f\<close> of its number many.
\<close>

definition game_inv :: "nat \<Rightarrow> nat \<Rightarrow> (nat \<Rightarrow> nat) \<Rightarrow> cards_eff list \<Rightarrow> table \<Rightarrow> bool" where
  "game_inv n m f h s \<longleftrightarrow> length (data s) = n \<and> length (players s) = n \<and>
     (\<forall>pl < n. deck_ok m (draws pl h) (players s ! pl) \<and> 0 \<le> card (data s ! pl) \<and>
        (active (data s ! pl) = PLAYING \<or> active (data s ! pl) = RESIGNED) \<and>
        (plays (data s ! pl) \<longrightarrow> length (draws pl h) = f pl))"

lemma draw_phase_inv:
  assumes I: "game_inv n m (\<lambda>p. if p < pl then Suc k else k) h s" and pl: "pl < n" and k: "k < m"
  shows "tells (\<lambda>_. False) (game_inv n m (\<lambda>p. if p < Suc pl then Suc k else k)) h (draw_phase pl s)"
proof (cases "plays (data s ! pl)")
  case False
  then have "game_inv n m (\<lambda>p. if p < Suc pl then Suc k else k) h s"
    using I by (auto simp: game_inv_def less_Suc_eq)
  with False show ?thesis by (simp add: draw_phase_def)
next
  case True
  let ?p = "players s ! pl"
  have d: "deck_ok m (draws pl h) ?p" "length (draws pl h) < m"
    using I pl k True by (auto simp: game_inv_def)
  obtain c cards lst where r: "draw_card (deck ?p) (last_idx ?p) (gen ?p) = Inr (c, cards, lst, snd (rand (gen ?p)))"
    "deck_ok m (draws pl h @ [c]) (?p\<lparr>deck := cards, last_idx := lst, gen := snd (rand (gen ?p))\<rparr>)" "1 \<le> c"
    using draw_card_ok [OF d] .
  let ?s = "s\<lparr>data := (data s)[pl := (data s ! pl)\<lparr>card := c\<rparr>],
              players := (players s)[pl := ?p\<lparr>deck := cards, last_idx := lst, gen := snd (rand (gen ?p))\<rparr>]\<rparr>"
  have "game_inv n m (\<lambda>p. if p < Suc pl then Suc k else k) (h @ [Drawing pl c]) ?s"
    using I r(2,3) True pl by (auto simp: game_inv_def nth_list_update less_Suc_eq)
  with r(1) True show ?thesis
    by (simp add: draw_phase_def Let_def tells_emit)
qed

lemma resign_phase_inv:
  assumes I: "game_inv n m f h s" and pl: "pl < n"
  shows "tells (\<lambda>_. False) (game_inv n m f) h (resign_phase pl s)"
proof (cases "plays (data s ! pl)")
  case False
  with I show ?thesis by (simp add: resign_phase_def)
next
  case True
  let ?p = "players s ! pl" and ?d = "data s ! pl"
  obtain a r where a: "should_resign 5 (gen ?p) = (a, r)" "a = PLAYING \<or> a = RESIGNED"
    by (auto simp: should_resign_def PLAYING_def RESIGNED_def)
  have deck: "deck_ok m ds (?p\<lparr>last_score := x, gen := r\<rparr>) = deck_ok m ds ?p" for ds x
    by (simp add: deck_ok_def)
  let ?s = "s\<lparr>data := (data s)[pl := ?d\<lparr>active := a\<rparr>], players := (players s)[pl := ?p\<lparr>last_score := score ?d, gen := r\<rparr>]\<rparr>"
  have "game_inv n m f (h @ Scoring pl (score ?d - last_score ?p) # (if a = RESIGNED then [Leaving pl] else [])) ?s"
    using I a(2) True pl deck by (auto simp: game_inv_def nth_list_update)
  with a(1) True show ?thesis by (simp add: resign_phase_def Let_def tells_def split: if_splits)
qed

lemma server_score_inv:
  assumes I: "game_inv n m f h s" and "\<exists>pl < n. plays (data s ! pl)"
  shows "tells (\<lambda>_. False) (game_inv n m f) h (server_score s)"
proof -
  have c: "\<forall>d \<in> set (data s). 0 \<le> card d" using I by (auto simp: game_inv_def in_set_conv_nth)
  have "\<exists>d \<in> set (data s). plays d" using assms by (metis game_inv_def nth_mem)
  with winners_positive [OF c this] obtain b w where w: "winners (data s) = (b, w)" "w \<noteq> 0"
    by (cases "winners (data s)") auto
  have "game_inv n m f (h @ [Winner b w])
      (s\<lparr>data := map (\<lambda>d. if card d = b then d\<lparr>score := score d + int (length (data s)) div w\<rparr> else d) (data s)\<rparr>)"
    using I by (auto simp: game_inv_def)
  with w show ?thesis by (simp add: server_score_def tells_emit Let_def)
qed

lemma draw_phase_active:
  assumes "snd (draw_phase i t) = Inr t'"
  shows "map active (data t') = map active (data t)"
proof (cases "plays (data t ! i)")
  case True
  have "map active ((data t)[i := (data t ! i)\<lparr>card := c\<rparr>]) = map active (data t)" for c
    using map_update [of active "data t" i "data t ! i"] by (simp add: map_update)
  with assms True show ?thesis
    by (cases "draw_card (deck (players t ! i)) (last_idx (players t ! i)) (gen (players t ! i))")
      (auto simp: draw_phase_def Let_def)
qed (use assms in \<open>simp add: draw_phase_def\<close>)

lemma round_inv:
  assumes I: "game_inv n m (\<lambda>_. k) h s" and p: "\<exists>pl < n. plays (data s ! pl)" and k: "k < m"
  shows "tells (\<lambda>_. False) (game_inv n m (\<lambda>_. Suc k)) h (round s)"
proof -
  let ?f = "\<lambda>i p. if p < i then Suc k else k"
  let ?I = "\<lambda>i h' t. game_inv n m (?f i) h' t \<and> map active (data t) = map active (data s)"
  have n: "length (data s) = n" using I by (simp add: game_inv_def)
  have draw: "tells (\<lambda>_. False) (?I (0 + n)) h (io_for 0 n draw_phase s)"
  proof (rule tells_io_for)
    fix i h' t
    assume "0 \<le> i" "i < 0 + n" "?I i h' t"
    then show "tells (\<lambda>_. False) (?I (Suc i)) h' (draw_phase i t)"
      using draw_phase_inv [OF _ _ k, of n i h' t] draw_phase_active [of i t]
      by (auto simp: tells_def yields_def split: sum.splits)
  qed (use I in simp)
  have eq: "game_inv n m (?f n) h' t \<Longrightarrow> game_inv n m (\<lambda>_. Suc k) h' t" for h' t
    by (auto simp: game_inv_def)
  have pt: "\<exists>pl < n. plays (data t ! pl)" if "map active (data t) = map active (data s)" for t
  proof -
    obtain pl where pl: "pl < n" "plays (data s ! pl)" using p by blast
    have "length (data t) = n" using arg_cong [OF that, of length] n by simp
    then have "active (data t ! pl) = active (data s ! pl)"
      using arg_cong [OF that, of "\<lambda>xs. xs ! pl"] pl n by simp
    with pl show ?thesis by auto
  qed
  show ?thesis
    unfolding round_def n
  proof (rule tells_seq [OF draw], rule tells_seq [of _ "game_inv n m (\<lambda>_. Suc k)"])
    fix h' t
    assume "?I (0 + n) h' t"
    then show "tells (\<lambda>_. False) (game_inv n m (\<lambda>_. Suc k)) h' (server_score t)"
      using server_score_inv [OF eq pt] by simp
  next
    fix h' t h'' t'
    assume "game_inv n m (\<lambda>_. Suc k) h'' t'"
    moreover from this have "length (data t') = n" by (simp add: game_inv_def)
    ultimately show "tells (\<lambda>_. False) (game_inv n m (\<lambda>_. Suc k)) h'' (io_for 0 (length (data t')) resign_phase t')"
      using tells_io_for [of 0 n "\<lambda>_. game_inv n m (\<lambda>_. Suc k)" "\<lambda>_. False" resign_phase h'' t'] resign_phase_inv
      by simp
  qed
qed

lemma still_active_iff:
  "game_inv n m f h s \<Longrightarrow> still_active s = 0 \<longleftrightarrow> \<not> (\<exists>pl < n. plays (data s ! pl))"
  by (auto simp: still_active_def filter_empty_conv in_set_conv_nth game_inv_def PLAYING_def RESIGNED_def) (metis nth_mem)+

lemma game_rounds:
  "game_inv n m (\<lambda>_. m - k) h s \<Longrightarrow> \<exists>pl < n. plays (data s ! pl) \<Longrightarrow> k \<le> m \<Longrightarrow>
   tells (\<lambda>_. False) (game_inv n m (\<lambda>_. m)) h (game_server_work k s)"
proof (induction k arbitrary: h s)
  case 0
  then show ?case by simp
next
  case (Suc k)
  have r: "tells (\<lambda>_. False) (game_inv n m (\<lambda>_. Suc (m - Suc k))) h (round s)"
    by (rule round_inv [OF Suc.prems(1,2)]) (use Suc.prems(3) in simp)
  have e: "Suc (m - Suc k) = m - k" using Suc.prems(3) by simp
  show ?case
    unfolding game_server_work.simps
  proof (rule tells_seq [OF r])
    fix h' t
    assume t: "game_inv n m (\<lambda>_. Suc (m - Suc k)) h' t"
    show "tells (\<lambda>_. False) (game_inv n m (\<lambda>_. m)) h' (if still_active t = 0 then ret t else game_server_work k t)"
    proof (cases "still_active t = 0")
      case True
      with t still_active_iff [OF t] show ?thesis by (auto simp: game_inv_def)
    next
      case False
      with t still_active_iff [OF t] e Suc.IH [of h' t] Suc.prems(3) show ?thesis by simp
    qed
  qed
qed

lemma new_table_inv: "game_inv n m (\<lambda>_. 0) [] (new_table n m rs)"
  by (auto simp: game_inv_def new_table_def deck_ok_def PLAYING_def create_cards_def)

text \<open>
  C31: for any number of players and cards the program admits and whatever the random generators
  return, the game comes to its end (no player draws from an empty deck, no division by zero); no
  player ever draws a card twice, the cards drawn are among \<open>1 \<dots> m\<close>, and a player who never
  resigned has drawn all of them.
\<close>

theorem cards_game_draws:
  assumes "2 \<le> n" and "n \<le> 5" and "5 \<le> m" and "m \<le> 10"
  shows "\<exists>es s. cards_game n m rs = (es, Inr s) \<and>
    (\<forall>pl < nat n. distinct (draws pl es) \<and> set (draws pl es) \<subseteq> {1..m} \<and>
       (active (data s ! pl) = PLAYING \<longrightarrow> set (draws pl es) = {1..m}))"
proof -
  let ?n = "nat n" and ?m = "nat m"
  have "\<exists>pl < ?n. plays (data (new_table ?n ?m rs) ! pl)"
    using assms by (intro exI [where x = 0]) (simp add: new_table_def PLAYING_def RESIGNED_def)
  then have "tells (\<lambda>_. False) (game_inv ?n ?m (\<lambda>_. ?m)) [] (game_server_work ?m (new_table ?n ?m rs))"
    using game_rounds [of ?n ?m ?m "[]" "new_table ?n ?m rs"] new_table_inv by simp
  moreover have "cards_game n m rs = game_server_work ?m (new_table ?n ?m rs)"
    using assms by (simp add: cards_game_def)
  ultimately obtain es s where s: "cards_game n m rs = (es, Inr s)" "game_inv ?n ?m (\<lambda>_. ?m) es s"
    using tells_total [of "game_inv ?n ?m (\<lambda>_. ?m)" "[]" "game_server_work ?m (new_table ?n ?m rs)"] by fastforce
  have "distinct (draws pl es) \<and> set (draws pl es) \<subseteq> {1..m} \<and>
       (active (data s ! pl) = PLAYING \<longrightarrow> set (draws pl es) = {1..m})" if "pl < ?n" for pl
  proof -
    have d: "deck_ok ?m (draws pl es) (players s ! pl)" using s(2) that by (simp add: game_inv_def)
    have "active (data s ! pl) = PLAYING \<longrightarrow> length (draws pl es) = ?m"
      using s(2) that by (auto simp: game_inv_def PLAYING_def RESIGNED_def)
    then show ?thesis using deck_drawn [OF d] assms(3) by auto
  qed
  with s(1) show ?thesis by blast
qed

section \<open>Witnesses\<close>

definition stale_table :: table where
  "stale_table =
     \<lparr>data = [\<lparr>card = 4, score = 0, active = RESIGNED\<rparr>, \<lparr>card = 4, score = 0, active = PLAYING\<rparr>], players = []\<rparr>"

theorem cards_round_score_witness:
  "server_score stale_table = ([Winner 4 1],
     Inr (stale_table\<lparr>data := [\<lparr>card = 4, score = 2, active = RESIGNED\<rparr>, \<lparr>card = 4, score = 2, active = PLAYING\<rparr>]\<rparr>))"
proof -
  have "{d \<in> set (data stale_table). active d \<noteq> RESIGNED} = {\<lparr>card = 4, score = 0, active = PLAYING\<rparr>}"
    by (auto simp: stale_table_def PLAYING_def RESIGNED_def)
  then show ?thesis
    using cards_round_score [of stale_table]
    by (simp add: stale_table_def PLAYING_def RESIGNED_def)
qed

theorem cards_game_draws_witness:
  "\<exists>es s. cards_game 2 5 (\<lambda>_ _. 1) = (es, Inr s) \<and> distinct (draws 0 es)"
  using cards_game_draws [of 2 5 "\<lambda>_ _. 1"] by fastforce

end
