(* ===== verification/Aigen.thy ===== *)
theory Aigen
  imports Io
begin

text \<open>
  \<^verbatim>\<open>lab07/aigen/aigen.c\<close>: a match-making server.  A client sends its name, whose first letter
  is its family (\<open>M\<close> or \<open>C\<close>); it is matched with the first waiting client of the other family, or
  waits.  A free place of the table has descriptor -1 and family 0.  A name is copied with
  \<^verbatim>\<open>strncpy(name, buf, 15)\<close>, which leaves the sixteenth byte as it was: \<open>ended\<close> says that it is a null
  character, as it is once \<^verbatim>\<open>remove_client\<close> has cleared the place; at the start it is not initialised.
\<close>

abbreviation MAX_CLIENTS :: nat where "MAX_CLIENTS \<equiv> 10"

record client_state =
  fd :: int
  family :: char
  name :: string
  ended :: bool

record verona =
  clients :: "client_state list"
  conns :: "int set"

datatype aigen_eff =
    Msg int string
  | Closed int
  | Summary nat nat

definition no_client :: client_state where
  "no_client = \<lparr>fd = -1, family = CHR 0x00, name = [], ended = True\<rparr>"

definition verona_start :: verona where
  "verona_start = \<lparr>clients = replicate MAX_CLIENTS (no_client\<lparr>ended := False\<rparr>), conns = {}\<rparr>"

text \<open>\<open>conns\<close> are the open connections; \<^verbatim>\<open>close\<close> of any other descriptor does nothing.\<close>

definition remove_client :: "int \<Rightarrow> verona \<Rightarrow> (aigen_eff, verona) io" where
  "remove_client c s =
     seq (emit [Closed c]) (\<lambda>_.
     ret \<lparr>clients = (case find_idx (\<lambda>x. fd x = c) (clients s) of
                       Some i \<Rightarrow> (clients s)[i := no_client] | None \<Rightarrow> clients s),
          conns = conns s - {c}\<rparr>)"

text \<open>
  \<^verbatim>\<open>write\<close>: to a closed descriptor it fails with \<open>EBADF\<close>, to an open one the kernel answers
  \<open>a\<close>; \<open>EPIPE\<close> is passed over.
\<close>

definition send :: "int \<Rightarrow> string \<Rightarrow> unit sysret \<Rightarrow> verona \<Rightarrow> (aigen_eff, unit) io" where
  "send c msg a s =
     (case (if c \<in> conns s then a else Fail EBADF) of
        Ok _ \<Rightarrow> emit [Msg c msg]
      | Fail e \<Rightarrow> if e = EPIPE then ret () else die (ERR ''write''))"

definition opposite :: "string \<Rightarrow> client_state \<Rightarrow> bool" where
  "opposite buf x \<longleftrightarrow> fd x \<noteq> -1 \<and> family x \<noteq> CHR 0x00 \<and> family x \<noteq> hd buf"

text \<open>The name is read with \<^verbatim>\<open>%s\<close>: 15 characters without an end are not a string.\<close>

definition terminated :: "client_state \<Rightarrow> bool" where
  "terminated x \<longleftrightarrow> length (name x) < 15 \<or> ended x"

definition match_client ::
  "int \<Rightarrow> string \<Rightarrow> unit sysret \<Rightarrow> unit sysret \<Rightarrow> client_state \<Rightarrow> verona \<Rightarrow> (aigen_eff, verona) io" where
  "match_client c buf a1 a2 x s =
     seq (if terminated x then ret () else die (Undefined ''name'')) (\<lambda>_.
     seq (send c (''MATCH: '' @ name x) a1 s) (\<lambda>_.
     seq (send (fd x) (''MATCH: '' @ buf) a2 s) (\<lambda>_.
     seq (remove_client (fd x) s) (\<lambda>s1.
     seq (emit [Closed c]) (\<lambda>_.
     ret (s1\<lparr>conns := conns s1 - {c}\<rparr>))))))"

text \<open>A client for whom there is no place stays connected and is forgotten.\<close>

definition store_client :: "int \<Rightarrow> string \<Rightarrow> verona \<Rightarrow> verona" where
  "store_client c buf s =
     (case find_idx (\<lambda>x. fd x = -1) (clients s) of
        None \<Rightarrow> s
      | Some j \<Rightarrow> s\<lparr>clients := (clients s)[j := \<lparr>fd = c, family = hd buf, name = buf, ended = ended (clients s ! j)\<rparr>]\<rparr>)"

text \<open>
  A message: \<open>a\<close> is what \<^verbatim>\<open>read\<close> returns (at most 15 characters, no more are asked for),
  cut at its first null character as the string functions see it.
\<close>

definition on_message ::
  "int \<Rightarrow> string sysret \<Rightarrow> unit sysret \<Rightarrow> unit sysret \<Rightarrow> verona \<Rightarrow> (aigen_eff, verona) io" where
  "on_message c a a1 a2 s =
     (case a of
        Fail _ \<Rightarrow> remove_client c s
      | Ok got \<Rightarrow>
          let buf = takeWhile (\<lambda>x. x \<noteq> CHR 0x00) (take 15 got) in
          if buf = [] \<or> (hd buf \<noteq> CHR ''M'' \<and> hd buf \<noteq> CHR ''C'') then remove_client c s
          else (case find_idx (opposite buf) (clients s) of
                  Some j \<Rightarrow> match_client c buf a1 a2 (clients s ! j) s
                | None \<Rightarrow> ret (store_client c buf s)))"

definition on_connection :: "int sysret list \<Rightarrow> unit sysret \<Rightarrow> verona \<Rightarrow> (aigen_eff, verona) io" where
  "on_connection answers added s =
     (case add_new_client answers of
        Inl e \<Rightarrow> die e
      | Inr c \<Rightarrow> if c < 0 then ret s
                else (case added of Fail _ \<Rightarrow> die (ERR ''epoll_ctl'')
                                  | Ok _ \<Rightarrow> ret (s\<lparr>conns := insert c (conns s)\<rparr>)))"

datatype aigen_event =
    Connection "int sysret list" "unit sysret"
  | Message int "string sysret" "unit sysret" "unit sysret"

definition on_event :: "verona \<Rightarrow> aigen_event \<Rightarrow> (aigen_eff, verona) io" where
  "on_event s ev =
     (case ev of Connection answers added \<Rightarrow> on_connection answers added s
               | Message c a a1 a2 \<Rightarrow> on_message c a a1 a2 s)"

fun on_events :: "aigen_event list \<Rightarrow> verona \<Rightarrow> (aigen_eff, verona) io" where
  "on_events [] s = ret s"
| "on_events (ev # evs) s = seq (on_event s ev) (on_events evs)"

definition family_count :: "char \<Rightarrow> verona \<Rightarrow> nat" where
  "family_count f s = length (filter (\<lambda>x. fd x \<noteq> -1 \<and> family x = f) (clients s))"

definition finish :: "verona \<Rightarrow> aigen_eff list" where
  "finish s =
     map (\<lambda>x. Closed (fd x)) (filter (\<lambda>x. fd x \<noteq> -1) (clients s)) @
     [Summary (family_count CHR ''M'' s) (family_count CHR ''C'' s)]"

text \<open>
  The server over the events the kernel reports until the interrupt; a failing
  \<^verbatim>\<open>epoll_pwait\<close> that was not interrupted ends it.
\<close>

definition aigen_server :: "aigen_event list sysret list \<Rightarrow> (aigen_eff, unit) io" where
  "aigen_server polls =
     seq (foldr (\<lambda>p m s. (case p of
              Fail e \<Rightarrow> if e \<noteq> EINTR then die (ERR ''epoll_pwait'') else m s
            | Ok evs \<Rightarrow> seq (on_events evs s) m)) polls ret verona_start)
       (\<lambda>s. emit (finish s))"

section \<open>One family waits\<close>

definition other :: "char \<Rightarrow> char" where
  "other f = (if f = CHR ''M'' then CHR ''C'' else CHR ''M'')"

definition one_family :: "char \<Rightarrow> verona \<Rightarrow> bool" where
  "one_family f s \<longleftrightarrow> (f = CHR ''M'' \<or> f = CHR ''C'') \<and> (\<forall>x \<in> set (clients s). fd x \<noteq> -1 \<longrightarrow> family x = f)"

lemma one_family_update:
  "one_family f s \<Longrightarrow> fd x = -1 \<or> family x = f \<Longrightarrow> one_family f (s\<lparr>clients := (clients s)[i := x]\<rparr>)"
  using set_update_subset_insert [of "clients s" i x] by (auto simp: one_family_def)

lemma remove_client_family: "one_family f s \<Longrightarrow> snd (remove_client c s) = Inr s' \<Longrightarrow> one_family f s'"
  using one_family_update [of f s no_client]
  by (auto simp: remove_client_def one_family_def no_client_def split: option.splits)

lemma match_client_family:
  assumes "one_family f s" and "snd (match_client c buf a1 a2 x s) = Inr s'"
  shows "one_family f s'"
proof -
  from assms(2) obtain s1 where "snd (remove_client (fd x) s) = Inr s1" "clients s' = clients s1"
    by (auto simp: match_client_def snd_seq_Inr)
  with remove_client_family [OF assms(1)] show ?thesis by (auto simp: one_family_def)
qed

lemma store_client_family:
  assumes "one_family f s" and "find_idx (opposite buf) (clients s) = None" and "hd buf = CHR ''M'' \<or> hd buf = CHR ''C''"
  shows "one_family (hd buf) (store_client c buf s)"
proof -
  have "one_family (hd buf) s"
    using assms by (auto simp: one_family_def find_idx_None_iff opposite_def)
  with one_family_update [of "hd buf" s] show ?thesis by (auto simp: store_client_def split: option.splits)
qed

lemma on_event_family:
  assumes "one_family f s" and "snd (on_event s ev) = Inr s'"
  shows "\<exists>f'. one_family f' s'"
proof (cases ev)
  case (Connection answers added)
  with assms(2) have "clients s' = clients s"
    by (auto simp: on_event_def on_connection_def split: sum.splits if_splits sysret.splits)
  with assms(1) show ?thesis by (intro exI [of _ f]) (simp add: one_family_def)
next
  case (Message c a a1 a2)
  with assms(2) have m: "snd (on_message c a a1 a2 s) = Inr s'" by (simp add: on_event_def)
  show ?thesis
  proof (cases a)
    case (Fail e)
    with m remove_client_family [OF assms(1)] show ?thesis by (auto simp: on_message_def)
  next
    case (Ok got)
    let ?buf = "takeWhile (\<lambda>x. x \<noteq> CHR 0x00) (take 15 got)"
    show ?thesis
    proof (cases "?buf = [] \<or> (hd ?buf \<noteq> CHR ''M'' \<and> hd ?buf \<noteq> CHR ''C'')")
      case True
      with m Ok remove_client_family [OF assms(1)] show ?thesis by (auto simp: on_message_def Let_def)
    next
      case ok: False
      show ?thesis
      proof (cases "find_idx (opposite ?buf) (clients s)")
        case None
        with m Ok ok have "s' = store_client c ?buf s" by (simp add: on_message_def Let_def)
        moreover have "hd ?buf = CHR ''M'' \<or> hd ?buf = CHR ''C''" using ok by blast
        ultimately show ?thesis using store_client_family [OF assms(1) None] by blast
      next
        case (Some j)
        with m Ok ok have "snd (match_client c ?buf a1 a2 (clients s ! j) s) = Inr s'"
          by (simp add: on_message_def Let_def)
        with match_client_family [OF assms(1)] show ?thesis by blast
      qed
    qed
  qed
qed

interpretation aigen: inv_handler "\<lambda>s ev. snd (on_event s ev)" "\<lambda>s. \<exists>f. one_family f s" "\<lambda>_ _. True"
  by unfold_locales (use on_event_family in blast)

lemma ok_run_True: "ok_run h (\<lambda>_ _. True) s es"
  by (induction es arbitrary: s) (auto split: sum.splits)

lemma on_events_run: "snd (on_events evs s) = run_events (\<lambda>s ev. snd (on_event s ev)) s evs"
proof (induction evs arbitrary: s)
  case (Cons ev evs)
  then show ?case
    by (cases "on_event s ev"; cases "snd (on_event s ev)") (auto simp: bindr_def)
qed simp

lemma start_family: "one_family CHR ''M'' verona_start"
  by (simp add: one_family_def verona_start_def no_client_def)

lemma run_one_family:
  assumes "on_events evs verona_start = (es, Inr s)"
  obtains f where "one_family f s"
  using aigen.run_inv [OF _ ok_run_True, of verona_start evs s] start_family assms
  by (metis on_events_run snd_conv)

lemma family_count_zero: "family_count f s = 0 \<longleftrightarrow> (\<forall>x \<in> set (clients s). fd x \<noteq> -1 \<longrightarrow> family x \<noteq> f)"
  by (auto simp: family_count_def filter_empty_conv)

lemma opposite_other:
  assumes "one_family f s" and "hd buf = CHR ''M'' \<or> hd buf = CHR ''C''" and "x \<in> set (clients s)"
  shows "opposite buf x \<longleftrightarrow> fd x \<noteq> -1 \<and> family x = other (hd buf)"
  using assms by (auto simp: one_family_def opposite_def other_def)

lemma first_waiting:
  assumes f: "one_family f s" and b: "hd buf = CHR ''M'' \<or> hd buf = CHR ''C''"
    and i: "find_idx (opposite buf) (clients s) = Some i"
  shows "i < length (clients s)" "family (clients s ! i) = other (hd buf)" "fd (clients s ! i) \<noteq> -1"
    "\<forall>k < i. fd (clients s ! k) = -1" "find_idx (\<lambda>y. fd y = fd (clients s ! i)) (clients s) = Some i"
proof -
  note I = find_idx_SomeD [OF i]
  let ?x = "clients s ! i"
  show "i < length (clients s)" using I by simp
  show x: "family ?x = other (hd buf)" "fd ?x \<noteq> -1"
    using I opposite_other [OF f b, of ?x] by auto
  show free: "\<forall>k < i. fd (clients s ! k) = -1"
  proof (intro allI impI, rule ccontr)
    fix k
    assume "k < i" and n: "fd (clients s ! k) \<noteq> -1"
    then have k: "clients s ! k \<in> set (clients s)" using I by simp
    then have "family (clients s ! k) = f" using f n by (simp add: one_family_def)
    moreover have "family ?x = f" using f x(2) I by (simp add: one_family_def)
    ultimately have "opposite buf (clients s ! k)" using opposite_other [OF f b k] n x(1) by simp
    with I \<open>k < i\<close> show False by blast
  qed
  show "find_idx (\<lambda>y. fd y = fd ?x) (clients s) = Some i"
  proof (cases "find_idx (\<lambda>y. fd y = fd ?x) (clients s)")
    case None
    with I show ?thesis by (auto simp: find_idx_None_iff)
  next
    case (Some j)
    from find_idx_SomeD [OF Some] have "j < length (clients s)" "fd (clients s ! j) = fd ?x" "\<forall>k < j. fd (clients s ! k) \<noteq> fd ?x"
      by auto
    with free x(2) have "\<not> j < i" "\<not> i < j" by auto
    with Some show ?thesis by simp
  qed
qed

lemma on_proper_message:
  assumes "length buf \<le> 15" and "CHR 0x00 \<notin> set buf" and "buf \<noteq> []" and "hd buf = CHR ''M'' \<or> hd buf = CHR ''C''"
  shows "on_message c (Ok buf) a1 a2 s = (case find_idx (opposite buf) (clients s) of
      Some j \<Rightarrow> match_client c buf a1 a2 (clients s ! j) s | None \<Rightarrow> ret (store_client c buf s))"
proof -
  have "takeWhile (\<lambda>x. x \<noteq> CHR 0x00) (take 15 buf) = buf" using assms(1,2) by (auto simp: takeWhile_eq_all_conv)
  then show ?thesis unfolding on_message_def using assms(3,4) by (auto simp: Let_def)
qed

text \<open>
  C24: whatever clients connect, send and drop, the members of only one family wait at any time.  A
  client of the other family is matched at once with the first who waits.  If the name of that one is a string
  (a name of 15 characters in a place used for the first time is not, and the behaviour is undefined), both descriptors are
  still open and both writes succeed, it is sent that name and that one is sent its name, both are disconnected,
  and exactly that place is free again; a client of the same family waits in the first free place, if there is one.
\<close>

theorem aigen_feud:
  assumes "on_events evs verona_start = (es, Inr s)"
    and "length buf \<le> 15" and "CHR 0x00 \<notin> set buf" and "buf \<noteq> []" and "hd buf = CHR ''M'' \<or> hd buf = CHR ''C''"
  shows "(family_count CHR ''M'' s = 0 \<or> family_count CHR ''C'' s = 0) \<and>
    (family_count (other (hd buf)) s = 0 \<longrightarrow> on_message c (Ok buf) a1 a2 s = ([], Inr (store_client c buf s))) \<and>
    (family_count (other (hd buf)) s > 0 \<longrightarrow> (\<exists>i < length (clients s). let x = clients s ! i in
       family x = other (hd buf) \<and> fd x \<noteq> -1 \<and> (\<forall>k < i. fd (clients s ! k) = -1) \<and>
       (\<not> terminated x \<longrightarrow> on_message c (Ok buf) a1 a2 s = ([], Inl (Undefined ''name''))) \<and>
       (terminated x \<longrightarrow> fd x \<in> conns s \<longrightarrow> c \<in> conns s \<longrightarrow>
        on_message c (Ok buf) (Ok ()) (Ok ()) s =
          ([Msg c (''MATCH: '' @ name x), Msg (fd x) (''MATCH: '' @ buf), Closed (fd x), Closed c],
           Inr \<lparr>clients = (clients s)[i := no_client], conns = conns s - {fd x} - {c}\<rparr>))))"
proof -
  obtain f where f: "one_family f s" using run_one_family [OF assms(1)] .
  note m = on_proper_message [OF assms(2-5)]
  show ?thesis
  proof (intro conjI impI)
    show "family_count CHR ''M'' s = 0 \<or> family_count CHR ''C'' s = 0"
      using f by (auto simp: one_family_def family_count_zero)
  next
    assume "family_count (other (hd buf)) s = 0"
    then have "find_idx (opposite buf) (clients s) = None"
      using opposite_other [OF f assms(5)] by (auto simp: family_count_zero find_idx_None_iff)
    then show "on_message c (Ok buf) a1 a2 s = ([], Inr (store_client c buf s))"
      by (simp add: m ret_def)
  next
    assume "family_count (other (hd buf)) s > 0"
    then have "find_idx (opposite buf) (clients s) \<noteq> None"
      using opposite_other [OF f assms(5)] family_count_zero [of "other (hd buf)" s] by (auto simp: find_idx_None_iff)
    then obtain i where i: "find_idx (opposite buf) (clients s) = Some i" by blast
    let ?x = "clients s ! i"
    note F = first_waiting [OF f assms(5) i]
    have "on_message c (Ok buf) (Ok ()) (Ok ()) s =
          ([Msg c (''MATCH: '' @ name ?x), Msg (fd ?x) (''MATCH: '' @ buf), Closed (fd ?x), Closed c],
           Inr \<lparr>clients = (clients s)[i := no_client], conns = conns s - {fd ?x} - {c}\<rparr>)"
      if "terminated ?x" "fd ?x \<in> conns s" "c \<in> conns s"
      using that F(5) by (simp add: m i match_client_def send_def remove_client_def)
    moreover have "on_message c (Ok buf) a1 a2 s = ([], Inl (Undefined ''name''))" if "\<not> terminated ?x"
      using that by (simp add: m i match_client_def die_def)
    ultimately show "\<exists>i < length (clients s). let x = clients s ! i in
       family x = other (hd buf) \<and> fd x \<noteq> -1 \<and> (\<forall>k < i. fd (clients s ! k) = -1) \<and>
       (\<not> terminated x \<longrightarrow> on_message c (Ok buf) a1 a2 s = ([], Inl (Undefined ''name''))) \<and>
       (terminated x \<longrightarrow> fd x \<in> conns s \<longrightarrow> c \<in> conns s \<longrightarrow>
        on_message c (Ok buf) (Ok ()) (Ok ()) s =
          ([Msg c (''MATCH: '' @ name x), Msg (fd x) (''MATCH: '' @ buf), Closed (fd x), Closed c],
           Inr \<lparr>clients = (clients s)[i := no_client], conns = conns s - {fd x} - {c}\<rparr>))"
      using F(1-4) unfolding Let_def by blast
  qed
qed

section \<open>A client that speaks twice\<close>

definition twice :: "aigen_event list" where
  "twice = [Connection [Ok 5] (Ok ()), Message 5 (Ok ''Mercutio'') (Ok ()) (Ok ()),
     Message 5 (Ok ''Mercutio'') (Ok ()) (Ok ()),
     Connection [Ok 6] (Ok ()), Message 6 (Ok ''Camilla'') (Ok ()) (Ok ()),
     Connection [Ok 7] (Ok ()), Message 7 (Ok ''Cara'') (Ok ()) (Ok ())]"

lemmas aigen_defs = on_event_def on_connection_def on_message_def add_new_client_def store_client_def
  match_client_def terminated_def send_def remove_client_def opposite_def verona_start_def no_client_def

text \<open>
  A client that sends two messages while it waits takes two places; the second one outlives its
  connection, and the server ends when the next client of the other family is matched with it.
\<close>

theorem waiting_twice_stops_server:
  "snd (on_events twice verona_start) = Inl (ERR ''write'')"
  by (simp add: twice_def aigen_defs Let_def numeral_eq_Suc ret_def emit_def die_def)

text \<open>A name of 15 characters in a place used for the first time: the match reads past it.\<close>

theorem long_name_undefined:
  "snd (on_events [Connection [Ok 5] (Ok ()), Message 5 (Ok ''Montecchi-Romeo'') (Ok ()) (Ok ()),
      Connection [Ok 6] (Ok ()), Message 6 (Ok ''Capuleti'') (Ok ()) (Ok ())] verona_start) = Inl (Undefined ''name'')"
  by (simp add: aigen_defs Let_def numeral_eq_Suc ret_def die_def)

section \<open>Witness\<close>

theorem aigen_feud_witness:
  "\<exists>s. on_events [Connection [Ok 5] (Ok ()), Message 5 (Ok ''Mercutio'') (Ok ()) (Ok ()), Connection [Ok 6] (Ok ())] verona_start = ([], Inr s) \<and>
     family_count CHR ''C'' s = 0 \<and> family_count CHR ''M'' s = 1 \<and>
     on_message 6 (Ok ''Cara'') (Ok ()) (Ok ()) s =
       ([Msg 6 ''MATCH: Mercutio'', Msg 5 ''MATCH: Cara'', Closed 5, Closed 6],
        Inr \<lparr>clients = (clients s)[0 := no_client], conns = {}\<rparr>)"
proof -
  let ?s = "\<lparr>clients = \<lparr>fd = 5, family = CHR ''M'', name = ''Mercutio'', ended = False\<rparr> # replicate 9 (no_client\<lparr>ended := False\<rparr>), conns = {5, 6}\<rparr>"
  have r: "on_events [Connection [Ok 5] (Ok ()), Message 5 (Ok ''Mercutio'') (Ok ()) (Ok ()), Connection [Ok 6] (Ok ())] verona_start = ([], Inr ?s)"
    by (simp add: aigen_defs Let_def numeral_eq_Suc ret_def insert_commute)
  have n: "family_count CHR ''M'' ?s = 1" "family_count CHR ''C'' ?s = 0" by (simp_all add: family_count_def no_client_def)
  have o: "other (hd ''Cara'') = CHR ''M''" by (simp add: other_def)
  have P: "length ''Cara'' \<le> 15" "CHR 0x00 \<notin> set ''Cara''" "''Cara'' \<noteq> []" "hd ''Cara'' = CHR ''M'' \<or> hd ''Cara'' = CHR ''C''"
    by simp_all
  have "family_count (other (hd ''Cara'')) ?s > 0" unfolding o using n by simp
  from aigen_feud [OF r P, where c = 6 and ?a1.0 = "Ok ()" and ?a2.0 = "Ok ()", THEN conjunct2, THEN conjunct2, THEN mp, OF this]
  obtain i where i: "i < length (clients ?s)"
    "fd (clients ?s ! i) \<noteq> -1" "\<forall>k < i. fd (clients ?s ! k) = -1"
    "terminated (clients ?s ! i) \<longrightarrow> fd (clients ?s ! i) \<in> conns ?s \<longrightarrow> 6 \<in> conns ?s \<longrightarrow>
      on_message 6 (Ok ''Cara'') (Ok ()) (Ok ()) ?s =
       ([Msg 6 (''MATCH: '' @ name (clients ?s ! i)), Msg (fd (clients ?s ! i)) (''MATCH: '' @ ''Cara''), Closed (fd (clients ?s ! i)), Closed 6],
        Inr \<lparr>clients = (clients ?s)[i := no_client], conns = conns ?s - {fd (clients ?s ! i)} - {6}\<rparr>)"
    unfolding Let_def by blast
  have "i = 0" using i(3) by (cases i) auto
  then show ?thesis using r n i(4) by (intro exI [of _ ?s]) (simp add: terminated_def)
qed

end
