(* ===== verification/Pidsum.thy ===== *)
theory Pidsum
  imports Bulk Ctext
begin

text \<open>
  \<^verbatim>\<open>lab07/pidsumming\<close>: clients send their process number as text, the server answers with the sum
  of its digits and remembers the greatest.  Both sides use the loops of the shared header.
\<close>

abbreviation PID_LENGTH :: nat where "PID_LENGTH \<equiv> 11"

datatype pid_eff = Received "byte list" | Answer int "byte list" | Closed int

text \<open>An \<^verbatim>\<open>int16_t\<close> in memory, and back.\<close>

definition bytes16 :: "16 word \<Rightarrow> byte list" where
  "bytes16 w = [ucast w, ucast (drop_bit 8 w)]"

definition word16 :: "byte list \<Rightarrow> 16 word" where
  "word16 bs = or (ucast (bs ! 0)) (push_bit 8 (ucast (bs ! 1)))"

definition digit_of :: "byte \<Rightarrow> int" where
  "digit_of b = (if 48 \<le> uint b \<and> uint b \<le> 57 then uint b - 48 else 0)"

text \<open>The loop over \<^verbatim>\<open>buf\<close> ends at its first null character.\<close>

definition digit_sum :: "byte list \<Rightarrow> int" where
  "digit_sum buf = sum_list (map digit_of (takeWhile (\<lambda>b. b \<noteq> 0) buf))"

text \<open>Eleven bytes have arrived.  A text without end makes \<^verbatim>\<open>printf\<close> read behind the buffer.\<close>

definition serve_pid :: "int \<Rightarrow> byte list \<Rightarrow> wans list \<Rightarrow> int sysret list \<Rightarrow> int \<Rightarrow> (pid_eff, int) io" where
  "serve_pid fd buf w closes highest_sum =
     (if 0 \<notin> set buf then die (Undefined ''text without end'')
      else let s = digit_sum buf in
        seq (emit [Received (takeWhile (\<lambda>b. b \<noteq> 0) buf)]) (\<lambda>_.
        seq (case bulk_write w (bytes16 (htons (word_of_int s))) of
               (Ok _, sent, _) \<Rightarrow> emit [Answer fd sent]
             | (Fail e, sent, _) \<Rightarrow> ([Answer fd sent], if e \<noteq> EPIPE then Inl (ERR ''write'') else Inr ())) (\<lambda>_.
        case temp_failure_retry closes of
          Fail _ \<Rightarrow> die (ERR ''close'')
        | Ok _ \<Rightarrow> seq (emit [Closed fd]) (\<lambda>_. ret (max s highest_sum)))))"

definition on_message :: "int \<Rightarrow> seg list \<Rightarrow> wans list \<Rightarrow> int sysret list \<Rightarrow> int \<Rightarrow> (pid_eff, int) io" where
  "on_message fd segs w closes highest_sum =
     (case bulk_read segs PID_LENGTH of
        (Fail e, _, _) \<Rightarrow>
          if e = ECONNRESET then seq (emit [Closed fd]) (\<lambda>_. ret highest_sum) else die (ERR ''read'')
      | (Ok sz, buf, _) \<Rightarrow>
          if sz = 0 then seq (emit [Closed fd]) (\<lambda>_. ret highest_sum)
          else if sz = PID_LENGTH then serve_pid fd buf w closes highest_sum
          else ret highest_sum)"

definition on_connection :: "int sysret list \<Rightarrow> unit sysret \<Rightarrow> int \<Rightarrow> (pid_eff, int) io" where
  "on_connection answers added highest_sum =
     seq (([], add_new_client answers)) (\<lambda>client_socket.
     if client_socket \<ge> 0 \<and> added \<noteq> Ok () then die (ERR ''epoll_ctl'') else ret highest_sum)"

datatype pid_event =
    Connection "int sysret list" "unit sysret"
  | Message int "seg list" "wans list" "int sysret list"

definition on_event :: "pid_event \<Rightarrow> int \<Rightarrow> (pid_eff, int) io" where
  "on_event ev highest_sum =
     (case ev of Connection answers added \<Rightarrow> on_connection answers added highest_sum
               | Message fd segs w closes \<Rightarrow> on_message fd segs w closes highest_sum)"

fun serve :: "pid_event list \<Rightarrow> int \<Rightarrow> (pid_eff, int) io" where
  "serve [] highest_sum = ret highest_sum"
| "serve (ev # evs) highest_sum = seq (on_event ev highest_sum) (serve evs)"

definition closing_line :: "int \<Rightarrow> string" where
  "closing_line highest_sum =
     (if highest_sum \<ge> 0 then ''HIGHEST SUM='' @ show_int highest_sum else ''Brak obsluzonych klientow'') @ [CHR 0x0A]"

text \<open>The server over what \<^verbatim>\<open>epoll_pwait\<close> reports until the interrupt: its last line.\<close>

fun server_loop :: "pid_event list sysret list \<Rightarrow> int \<Rightarrow> (pid_eff, int) io" where
  "server_loop [] highest_sum = ret highest_sum"
| "server_loop (Fail e # ps) highest_sum =
     (if e \<noteq> EINTR then die (ERR ''epoll_wait'') else server_loop ps highest_sum)"
| "server_loop (Ok evs # ps) highest_sum = seq (serve evs highest_sum) (server_loop ps)"

definition pid_server :: "pid_event list sysret list \<Rightarrow> (pid_eff, string) io" where
  "pid_server polls = seq (server_loop polls (-1)) (\<lambda>h. ret (closing_line h))"

section \<open>The client\<close>

text \<open>
  The text of the process number in a buffer of eleven bytes, which otherwise holds \<open>junk\<close>;
  \<^verbatim>\<open>snprintf\<close> cuts the text if it must.
\<close>

definition pid_buffer :: "int \<Rightarrow> byte list \<Rightarrow> byte list" where
  "pid_buffer pid junk =
     (let t = map (\<lambda>c. word_of_nat (of_char c)) (take (PID_LENGTH - 1) (show_int pid)) @ [0]
      in t @ drop (length t) junk)"

datatype pid_client_eff = Sends "byte list" | Prints string

definition client :: "int \<Rightarrow> byte list \<Rightarrow> wans list \<Rightarrow> seg list \<Rightarrow> int sysret list \<Rightarrow> (pid_client_eff, unit) io" where
  "client pid junk w segs closes =
     (case bulk_write w (pid_buffer pid junk) of
        (Fail _, sent, _) \<Rightarrow> ([Sends sent], Inl (ERR ''write:''))
      | (Ok _, sent, _) \<Rightarrow>
          seq (emit [Sends sent]) (\<lambda>_.
          case bulk_read segs 2 of
            (Fail _, _, _) \<Rightarrow> die (ERR ''bulk_read'')
          | (Ok n, buf, _) \<Rightarrow>
              if n < 2 then die (ERR ''bulk_read'')
              else seq (emit [Prints (''['' @ show_int pid @ '']: SUM = '' @ show_int (uint (ntohs (word16 buf))) @ [CHR 0x0A])]) (\<lambda>_.
                case temp_failure_retry closes of Fail _ \<Rightarrow> die (ERR ''close'') | Ok _ \<Rightarrow> ret ())))"

section \<open>The digits of a process number\<close>

fun dsum :: "nat \<Rightarrow> nat" where
  "dsum n = (if n < 10 then n else dsum (n div 10) + n mod 10)"

declare dsum.simps [simp del]

abbreviation byte_of :: "char \<Rightarrow> byte" where
  "byte_of c \<equiv> word_of_nat (of_char c)"

lemma unat_byte_of: "unat (byte_of c) = of_char c"
proof -
  have "(of_char c :: nat) < 2 ^ 8" by simp
  then show ?thesis by (simp add: unsigned_of_nat take_bit_nat_eq_self)
qed

lemma digit_of_digit_char: "d < 10 \<Longrightarrow> digit_of (byte_of (digit_char d)) = int d"
  using unat_byte_of [of "digit_char d"] by (simp add: digit_of_def of_digit_char uint_nat)

lemma digits_dsum: "sum_list (map (\<lambda>c. digit_of (byte_of c)) (show_nat n)) = int (dsum n)"
proof (induction n rule: show_nat.induct)
  case (1 n)
  show ?case
  proof (cases "n < 10")
    case True
    then show ?thesis by (simp add: show_nat.simps [of n] dsum.simps [of n] digit_of_digit_char)
  next
    case False
    with 1 show ?thesis
      by (simp add: show_nat.simps [of n] dsum.simps [of n] digit_of_digit_char)
  qed
qed

lemma show_nat_short: "n < 10 ^ Suc k \<Longrightarrow> length (show_nat n) \<le> Suc k"
proof (induction k arbitrary: n)
  case 0
  then show ?case by (simp add: show_nat.simps [of n])
next
  case (Suc k)
  show ?case
  proof (cases "n < 10")
    case False
    have "n div 10 < 10 ^ Suc k" using Suc.prems by (simp add: less_mult_imp_div_less mult.commute)
    from Suc.IH [OF this] False show ?thesis by (simp add: show_nat.simps [of n])
  qed (simp add: show_nat.simps [of n])
qed

lemma dsum_bound: "n < 10 ^ Suc k \<Longrightarrow> dsum n \<le> 9 * Suc k"
proof (induction k arbitrary: n)
  case 0
  then show ?case by (simp add: dsum.simps [of n])
next
  case (Suc k)
  show ?case
  proof (cases "n < 10")
    case False
    have "n div 10 < 10 ^ Suc k" using Suc.prems by (simp add: less_mult_imp_div_less mult.commute)
    from Suc.IH [OF this] False show ?thesis by (simp add: dsum.simps [of n])
  qed (simp add: dsum.simps [of n])
qed

lemma word16_bytes16 [simp]: "word16 (bytes16 w) = w"
proof (rule bit_word_eqI)
  fix n
  assume "n < LENGTH(16)"
  then show "bit (word16 (bytes16 w)) n \<longleftrightarrow> bit w n"
    by (cases "n < 8") (auto simp: word16_def bytes16_def bit_simps)
qed

lemma length_bytes16 [simp]: "length (bytes16 w) = 2"
  by (simp add: bytes16_def)

lemma show_int_pid: "0 \<le> pid \<Longrightarrow> pid < 2147483648 \<Longrightarrow> take 10 (show_int pid) = show_nat (nat pid)"
  using show_nat_short [of "nat pid" 9] by (simp add: show_int_def)

lemma digit_nonzero: "isdigit c \<Longrightarrow> byte_of c \<noteq> 0"
  using unat_byte_of [of c] by (auto simp: isdigit_def)

lemma pid_buffer_text:
  assumes "0 \<le> pid" and "pid < 2147483648" and "length junk = PID_LENGTH"
  shows "length (pid_buffer pid junk) = PID_LENGTH" and "0 \<in> set (pid_buffer pid junk)"
    and "takeWhile (\<lambda>b. b \<noteq> 0) (pid_buffer pid junk) = map byte_of (show_nat (nat pid))"
proof -
  let ?t = "map byte_of (show_nat (nat pid))"
  have b: "pid_buffer pid junk = ?t @ 0 # drop (Suc (length ?t)) junk"
    using show_int_pid [OF assms(1,2)] by (simp add: pid_buffer_def)
  show "length (pid_buffer pid junk) = PID_LENGTH"
    using b assms(3) show_nat_short [of "nat pid" 9] assms(1,2) by simp
  show "0 \<in> set (pid_buffer pid junk)" using b by simp
  have "\<forall>x \<in> set ?t. x \<noteq> 0" using show_nat_digits digit_nonzero by auto
  then show "takeWhile (\<lambda>b. b \<noteq> 0) (pid_buffer pid junk) = ?t"
    unfolding b by (subst takeWhile_append2) auto
qed

lemma digit_sum_pid:
  assumes "0 \<le> pid" and "pid < 2147483648" and "length junk = PID_LENGTH"
  shows "digit_sum (pid_buffer pid junk) = int (dsum (nat pid))"
  using pid_buffer_text(3) [OF assms] digits_dsum [of "nat pid"] by (simp add: digit_sum_def o_def)

section \<open>A session\<close>

lemma on_message_pid:
  assumes "0 \<le> pid" and "pid < 2147483648" and "length junk = PID_LENGTH"
    and "clean segs" and "pending segs = pid_buffer pid junk" and "willing w" and "temp_failure_retry closes = Ok z"
  shows "on_message fd segs w closes h =
    ([Received (map byte_of (show_nat (nat pid))), Answer fd (bytes16 (htons (word_of_nat (dsum (nat pid))))), Closed fd],
     Inr (max (int (dsum (nat pid))) h))"
proof -
  note B = pid_buffer_text [OF assms(1-3)] and D = digit_sum_pid [OF assms(1-3)]
  obtain s' where rd: "bulk_read segs PID_LENGTH = (Ok PID_LENGTH, pid_buffer pid junk, s')"
    using br.rd_message [OF assms(4), of "pid_buffer pid junk" "[]"] assms(5) B(1) by auto
  obtain w' where wr: "bulk_write w (bytes16 (htons (word_of_nat (dsum (nat pid))))) =
      (Ok 2, bytes16 (htons (word_of_nat (dsum (nat pid)))), w')"
    using bw.wr_message [OF assms(6), of "bytes16 (htons (word_of_nat (dsum (nat pid))))"] by auto
  show ?thesis
    using rd wr B(2,3) D assms(7)
    by (simp add: on_message_def serve_pid_def Let_def)
qed

text \<open>
  C33: a client's process number is answered with the sum of its decimal digits, when all eleven bytes
  are there by the time the server reads them (its sockets do not block, and it does not survive a message whose
  rest is still on the way, see \<open>split_message_stops_server\<close>) and the answer finds room: whatever is left in the client's
  buffer behind the text, in however many calls the bytes are written and read and however often these are
  interrupted, the server answers exactly once and closes the connection, its maximum becomes the greater of the old
  one and the sum, and the client prints exactly that sum, which is at most 90.
\<close>

theorem pid_session:
  assumes "0 \<le> pid" and "pid < 2147483648" and "length junk = PID_LENGTH"
    and "clean segs" and "pending segs = fst (snd (bulk_write wc (pid_buffer pid junk)))"
    and "willing w" and "temp_failure_retry closes = Ok z"
    and "willing wc" and "clean segs'" and "pending segs' = concat [bs. Answer _ bs \<leftarrow> fst (on_message fd segs w closes h)]"
    and "temp_failure_retry closes' = Ok z'"
  shows "on_message fd segs w closes h =
      ([Received (map byte_of (show_nat (nat pid))), Answer fd (bytes16 (htons (word_of_nat (dsum (nat pid))))), Closed fd],
       Inr (max (int (dsum (nat pid))) h)) \<and>
    client pid junk wc segs' closes' =
      ([Sends (pid_buffer pid junk),
        Prints (''['' @ show_int pid @ '']: SUM = '' @ show_int (int (dsum (nat pid))) @ [CHR 0x0A])], Inr ()) \<and>
    dsum (nat pid) \<le> 90"
proof -
  obtain wc' where wc: "bulk_write wc (pid_buffer pid junk) = (Ok (length (pid_buffer pid junk)), pid_buffer pid junk, wc')"
    using bw.wr_message [OF assms(8)] by blast
  then have "pending segs = pid_buffer pid junk" using assms(5) by simp
  note srv = on_message_pid [OF assms(1-4) this assms(6,7)]
  let ?w = "htons (word_of_nat (dsum (nat pid)))"
  have d: "dsum (nat pid) \<le> 90" using dsum_bound [of "nat pid" 9] assms(1,2) by simp
  have "pending segs' = bytes16 ?w" using assms(10) srv by simp
  then obtain s' where rd: "bulk_read segs' 2 = (Ok 2, bytes16 ?w, s')"
    using br.rd_message [OF assms(9), of "bytes16 ?w" "[]"] by auto
  have "uint (ntohs (word16 (bytes16 ?w))) = int (dsum (nat pid))"
    using d by (simp add: unsigned_of_nat take_bit_nat_eq_self)
  then show ?thesis
    using srv wc rd assms(11) d by (simp add: client_def)
qed

text \<open>
  A client whose bytes come in two pieces: the rest is not there yet when the server asks for it, the
  non-blocking read fails with \<open>EAGAIN\<close>, and the server ends.
\<close>

theorem split_message_stops_server:
  assumes "0 < length bs" and "length bs < PID_LENGTH"
  shows "on_message fd [Data bs, RErr EAGAIN, Data rest] w closes h = ([], Inl (ERR ''read''))"
proof -
  have "bulk_read [Data bs, RErr EAGAIN, Data rest] PID_LENGTH = (Fail EAGAIN, bs, [Data rest])"
    using assms by (simp add: bulk_read_def bulk_read_loop.simps)
  then show ?thesis by (simp add: on_message_def die_def)
qed

section \<open>Witnesses\<close>

theorem pid_session_witness:
  "\<exists>segs'. fst (on_message 5 [Data (pid_buffer 907 (replicate 11 7))] [] [Ok 0] (-1)) =
      [Received (map byte_of ''907''), Answer 5 (bytes16 (htons 16)), Closed 5] \<and> client 907 (replicate 11 7) [Accept 3] segs' [Ok 0] =
      ([Sends (pid_buffer 907 (replicate 11 7)), Prints (''[907]: SUM = 16'' @ [CHR 0x0A])], Inr ())"
proof -
  let ?b = "pid_buffer 907 (replicate 11 7)"
  define ans where "ans = concat [bs. Answer _ bs \<leftarrow> fst (on_message 5 [Data ?b] [] [Ok (0::int)] (-1))]"
  have sent: "fst (snd (bulk_write [Accept 3] ?b)) = ?b"
    using bw.wr_message [of "[Accept 3]" ?b] by auto
  have l: "length ?b = PID_LENGTH" by (rule pid_buffer_text) simp_all
  have ne: "?b \<noteq> []" using l by auto
  have a: "length ans = 2"
    using on_message_pid [of 907 "replicate 11 7" "[Data ?b]" "[]" "[Ok (0::int)]" 0 5 "-1"] ne
    by (simp add: ans_def)
  have t: "show_int 907 = ''907''" "show_int (int (dsum (nat 907))) = ''16''"
    by (simp_all add: show_int_def show_nat.simps dsum.simps digit_char_def char_of_def bit_iff_odd)
  have "clean [Data ?b]" using l by auto
  moreover have "clean [Data ans]" using a by auto
  moreover have "pending [Data ans] = ans" "pending [Data ?b] = ?b" by simp_all
  ultimately have "on_message 5 [Data ?b] [] [Ok 0] (-1) =
      ([Received (map byte_of (show_nat (nat 907))), Answer 5 (bytes16 (htons (word_of_nat (dsum (nat 907))))), Closed 5],
       Inr (max (int (dsum (nat 907))) (-1))) \<and>
    client 907 (replicate 11 7) [Accept 3] [Data ans] [Ok 0] =
      ([Sends ?b, Prints (''['' @ show_int 907 @ '']: SUM = '' @ show_int (int (dsum (nat 907))) @ [CHR 0x0A])], Inr ()) \<and> dsum (nat 907) \<le> 90"
    by (intro pid_session [where z = 0 and z' = 0]) (use sent in \<open>simp_all only: ans_def\<close>, simp_all)
  moreover have "show_nat (nat 907) = ''907''" "dsum (nat 907) = 16"
    by (simp_all add: show_nat.simps dsum.simps digit_char_def char_of_def bit_iff_odd)
  ultimately show ?thesis using t by auto
qed

end
