(* ===== verification/Board.thy ===== *)
theory Board
  imports Mutex
begin

text \<open>
  \<^verbatim>\<open>lab06/l6-2\<close>: a server puts a board of points into shared memory behind a robust mutex;
  clients search fields, take the points they find, and may be killed anywhere, also while they hold the mutex.  Process 0
  is the server, \<open>Suc i\<close> client \<open>i\<close>; every step is one call or one access under the mutex.
  After \<^verbatim>\<open>SIGINT\<close> the server destroys the mutex and ends, whatever the clients do; from
  then on a client has no call on the mutex that is defined.
\<close>

abbreviation SHM_SIZE :: nat where "SHM_SIZE \<equiv> 1024"

text \<open>\<^verbatim>\<open>sizeof(pthread_mutex_t)\<close>, and the byte that holds the size of the board.\<close>

abbreviation BOARD_OFFSET :: nat where "BOARD_OFFSET \<equiv> 40 + 1"

text \<open>
  Where a client is: \<open>CScore k p\<close> and \<open>CClear k p\<close> when it has read \<open>p\<close> points in field \<open>k\<close> and is about to add them to
  its score, and then to take them off the board.  A killed client stays where it was.
\<close>

datatype cpc = CLock | CRepair | CSearch | CScore nat int | CClear nat int | CFound | COver | CGone | CErr
datatype spc = SCheck | SLock | SRepair | SPrint | SErr | SGone

record client =
  cpos :: cpc
  score :: int
  killed :: bool

record bstate =
  side :: nat
  board :: "int list"
  mtx :: mutex
  clients :: "client list"
  spos :: spc
  screen :: "int list"
  running :: bool

definition set_client :: "nat \<Rightarrow> client \<Rightarrow> bstate \<Rightarrow> bstate" where
  "set_client i c s = s\<lparr>clients := (clients s)[i := c]\<rparr>"

text \<open>
  The next step of client \<open>i\<close>; \<open>d\<close>, \<open>x\<close> and \<open>y\<close> are what \<^verbatim>\<open>rand\<close> returns for the
  accident and the field.  \<open>None\<close>: it waits, or it has ended.
\<close>

definition client_next :: "nat \<Rightarrow> 31 word \<times> 31 word \<times> 31 word \<Rightarrow> bstate \<Rightarrow> bstate option" where
  "client_next i r s =
     (let c = clients s ! i; p = Suc i in
      if killed c then None else
      case cpos c of
        CLock \<Rightarrow>
          (case mx_lock p (mtx s) of
             Blocks \<Rightarrow> None
           | Acquired m \<Rightarrow> Some (set_client i (c\<lparr>cpos := CSearch\<rparr>) (s\<lparr>mtx := m\<rparr>))
           | AcquiredDead m \<Rightarrow> Some (set_client i (c\<lparr>cpos := CRepair\<rparr>) (s\<lparr>mtx := m\<rparr>))
           | LockFailed \<Rightarrow> Some (set_client i (c\<lparr>cpos := CErr\<rparr>) s))
      | CRepair \<Rightarrow> Some (set_client i (c\<lparr>cpos := CSearch\<rparr>) (s\<lparr>mtx := mx_consistent p (mtx s)\<rparr>))
      | CSearch \<Rightarrow>
          (case r of (d, x, y) \<Rightarrow>
           if 1 + unat d mod 9 = 1
           then Some (set_client i (c\<lparr>cpos := CGone\<rparr>) (s\<lparr>mtx := mx_die p (mtx s)\<rparr>))
           else let k = side s * (unat y mod side s) + unat x mod side s; pts = board s ! k in
             if pts = 0 then Some (set_client i (c\<lparr>cpos := COver\<rparr>) s)
             else Some (set_client i (c\<lparr>cpos := CScore k pts\<rparr>) s))
      | CScore k pts \<Rightarrow> Some (set_client i (c\<lparr>cpos := CClear k pts, score := score c + pts\<rparr>) s)
      | CClear k pts \<Rightarrow> Some (set_client i (c\<lparr>cpos := CFound\<rparr>) (s\<lparr>board := (board s)[k := 0]\<rparr>))
      | CFound \<Rightarrow> Some (set_client i (c\<lparr>cpos := CLock\<rparr>) (s\<lparr>mtx := mx_unlock p (mtx s)\<rparr>))
      | COver \<Rightarrow> Some (set_client i (c\<lparr>cpos := CGone\<rparr>) (s\<lparr>mtx := mx_unlock p (mtx s)\<rparr>))
      | CGone \<Rightarrow> None
      | CErr \<Rightarrow> None)"

definition client_killed :: "nat \<Rightarrow> bstate \<Rightarrow> bstate" where
  "client_killed i s = set_client i ((clients s ! i)\<lparr>killed := True\<rparr>) (s\<lparr>mtx := mx_die (Suc i) (mtx s)\<rparr>)"

text \<open>The server prints the board again and again until its thread has seen the signal.\<close>

definition server_next :: "bstate \<Rightarrow> bstate option" where
  "server_next s =
     (case spos s of
        SCheck \<Rightarrow> Some (s\<lparr>spos := (if running s then SLock else SGone)\<rparr>)
      | SLock \<Rightarrow>
          (case mx_lock 0 (mtx s) of
             Blocks \<Rightarrow> None
           | Acquired m \<Rightarrow> Some (s\<lparr>mtx := m, spos := SPrint\<rparr>)
           | AcquiredDead m \<Rightarrow> Some (s\<lparr>mtx := m, spos := SRepair\<rparr>)
           | LockFailed \<Rightarrow> Some (s\<lparr>spos := SErr\<rparr>))
      | SRepair \<Rightarrow> Some (s\<lparr>mtx := mx_consistent 0 (mtx s), spos := SPrint\<rparr>)
      | SPrint \<Rightarrow> Some (s\<lparr>mtx := mx_unlock 0 (mtx s), spos := SCheck, screen := board s\<rparr>)
      | SErr \<Rightarrow> None
      | SGone \<Rightarrow> None)"

text \<open>The thread that waits for the signal.\<close>

definition sighandling :: "bstate \<Rightarrow> bstate" where
  "sighandling s = s\<lparr>running := False\<rparr>"

text \<open>The start of the server for \<open>n\<close> on the command line.\<close>

definition server_start :: "int \<Rightarrow> rng \<Rightarrow> nat \<Rightarrow> bstate run" where
  "server_start n r ncl =
     (if n < 3 \<or> n \<ge> 100 then Inl Usage
      else let m = nat n in
        if BOARD_OFFSET + m * m > SHM_SIZE then Inl (Undefined ''outside the shared memory'')
        else Inr \<lparr>side = m, board = map (\<lambda>k. 1 + int (unat (r k) mod 9)) [0..<m * m],
                  mtx = Unlocked, clients = replicate ncl \<lparr>cpos = CLock, score = 0, killed = False\<rparr>,
                  spos = SCheck, screen = [], running = True\<rparr>)"

text \<open>Once the server has destroyed the mutex, a client can still search and take points, but not use the mutex.\<close>

definition may_move :: "nat \<Rightarrow> bstate \<Rightarrow> bool" where
  "may_move i s \<longleftrightarrow> spos s \<noteq> SGone \<or>
     (case cpos (clients s ! i) of CSearch \<Rightarrow> True | CScore _ _ \<Rightarrow> True | CClear _ _ \<Rightarrow> True | _ \<Rightarrow> False)"

inductive board_step :: "bstate \<Rightarrow> bstate \<Rightarrow> bool" where
  client_moves: "i < length (clients s) \<Longrightarrow> may_move i s \<Longrightarrow> client_next i r s = Some t \<Longrightarrow> board_step s t"
| client_dies: "i < length (clients s) \<Longrightarrow> cpos (clients s ! i) \<noteq> CGone \<Longrightarrow> \<not> killed (clients s ! i) \<Longrightarrow>
     board_step s (client_killed i s)"
| server_moves: "server_next s = Some t \<Longrightarrow> board_step s t"
| server_signalled: "board_step s (sighandling s)"

section \<open>Who holds the mutex\<close>

fun choldings :: "cpc \<Rightarrow> bool option" where
  "choldings CRepair = Some True"
| "choldings CSearch = Some False"
| "choldings (CScore k p) = Some False"
| "choldings (CClear k p) = Some False"
| "choldings CFound = Some False"
| "choldings COver = Some False"
| "choldings _ = None"

definition holds :: "client \<Rightarrow> bool option" where
  "holds c = (if killed c then None else choldings (cpos c))"

lemma holds_simps [simp]:
  "killed c \<Longrightarrow> holds c = None" "\<not> killed c \<Longrightarrow> holds c = choldings (cpos c)"
  by (simp_all add: holds_def)

fun sholdings :: "spc \<Rightarrow> bool option" where
  "sholdings SRepair = Some True"
| "sholdings SPrint = Some False"
| "sholdings _ = None"

definition bview :: "bstate \<Rightarrow> unit view" where
  "bview s q _ =
     (if q = 0 then sholdings (spos s)
      else if q - 1 < length (clients s) then holds (clients s ! (q - 1)) else None)"

definition mutex_ok :: "bstate \<Rightarrow> bool" where
  "mutex_ok s \<longleftrightarrow> agrees (\<lambda>_. mtx s) (bview s) \<and> spos s \<noteq> SErr \<and> (\<forall>c \<in> set (clients s). cpos c \<noteq> CErr)"

text \<open>What a client has in its score and has not taken off the board; it never does if it is killed there.\<close>

definition doubled :: "client \<Rightarrow> int" where
  "doubled c = (case cpos c of CClear k p \<Rightarrow> p | _ \<Rightarrow> 0)"

text \<open>A living client that has read points will find them where it read them.\<close>

definition aims :: "int list \<Rightarrow> client \<Rightarrow> bool" where
  "aims bs c \<longleftrightarrow> (case cpos c of
      CScore k p \<Rightarrow> \<not> killed c \<longrightarrow> k < length bs \<and> bs ! k = p
    | CClear k p \<Rightarrow> \<not> killed c \<longrightarrow> k < length bs \<and> bs ! k = p
    | _ \<Rightarrow> True)"

text \<open>Points that were read are points of the board of the start.\<close>

definition read_from :: "int list \<Rightarrow> client \<Rightarrow> bool" where
  "read_from b c \<longleftrightarrow> (case cpos c of CScore k p \<Rightarrow> p \<in> set b | CClear k p \<Rightarrow> p \<in> set b | _ \<Rightarrow> True)"

lemma idle_simps [simp]:
  "cpos c = CLock \<Longrightarrow> aims bs c" "cpos c = CLock \<Longrightarrow> read_from bs c" "cpos c = CLock \<Longrightarrow> doubled c = 0"
  "cpos c = CRepair \<Longrightarrow> aims bs c" "cpos c = CRepair \<Longrightarrow> read_from bs c" "cpos c = CRepair \<Longrightarrow> doubled c = 0"
  "cpos c = CSearch \<Longrightarrow> aims bs c" "cpos c = CSearch \<Longrightarrow> read_from bs c" "cpos c = CSearch \<Longrightarrow> doubled c = 0"
  "cpos c = CFound \<Longrightarrow> aims bs c" "cpos c = CFound \<Longrightarrow> read_from bs c" "cpos c = CFound \<Longrightarrow> doubled c = 0"
  "cpos c = COver \<Longrightarrow> aims bs c" "cpos c = COver \<Longrightarrow> read_from bs c" "cpos c = COver \<Longrightarrow> doubled c = 0"
  "cpos c = CGone \<Longrightarrow> aims bs c" "cpos c = CGone \<Longrightarrow> read_from bs c" "cpos c = CGone \<Longrightarrow> doubled c = 0"
  "cpos c = CErr \<Longrightarrow> aims bs c" "cpos c = CErr \<Longrightarrow> read_from bs c" "cpos c = CErr \<Longrightarrow> doubled c = 0"
  "cpos c = CScore k p \<Longrightarrow> aims bs c \<longleftrightarrow> (\<not> killed c \<longrightarrow> k < length bs \<and> bs ! k = p)"
  "cpos c = CScore k p \<Longrightarrow> read_from bs c \<longleftrightarrow> p \<in> set bs" "cpos c = CScore k p \<Longrightarrow> doubled c = 0"
  "cpos c = CClear k p \<Longrightarrow> aims bs c \<longleftrightarrow> (\<not> killed c \<longrightarrow> k < length bs \<and> bs ! k = p)"
  "cpos c = CClear k p \<Longrightarrow> read_from bs c \<longleftrightarrow> p \<in> set bs" "cpos c = CClear k p \<Longrightarrow> doubled c = p"
  by (simp_all add: aims_def read_from_def doubled_def)

lemma killed_simps [simp]:
  "aims bs (c\<lparr>killed := True\<rparr>)" "read_from bs (c\<lparr>killed := x\<rparr>) = read_from bs c" "doubled (c\<lparr>killed := x\<rparr>) = doubled c"
  by (simp_all add: aims_def read_from_def doubled_def split: cpc.split)

text \<open>What the board and the scores say of the board of the start.\<close>

definition points_ok :: "int list \<Rightarrow> bstate \<Rightarrow> bool" where
  "points_ok b s \<longleftrightarrow> length (board s) = length b \<and> 0 < side s \<and> length b = side s * side s \<and>
     (\<forall>k < length b. board s ! k = 0 \<or> board s ! k = b ! k) \<and> (\<forall>x \<in> set b. 1 \<le> x) \<and>
     (\<forall>c \<in> set (clients s). 0 \<le> score c) \<and>
     (\<forall>c \<in> set (clients s). read_from b c \<and> aims (board s) c) \<and>
     sum_list (map score (clients s)) + sum_list (board s) = sum_list b + sum_list (map doubled (clients s))"

lemma view_client:
  assumes "i < length (clients s)" and "mtx s' = m" and "clients s' = (clients s)[i := c]" and "spos s' = spos s"
  shows "bview s' = (bview s)(Suc i := (\<lambda>_. holds c))"
  using assms by (intro ext) (auto simp: bview_def nth_list_update)

lemma view_server:
  "clients s' = clients s \<Longrightarrow> bview s' = (bview s)(0 := (\<lambda>_. sholdings (spos s')))"
  by (intro ext) (auto simp: bview_def)

text \<open>The lemmas on mutexes, for a single one.\<close>

lemma unit_upd: "(f :: unit \<Rightarrow> 'a)(u := y) = (\<lambda>_. y)"
  by (auto simp: fun_eq_iff)

lemma single:
  fixes v :: "unit view"
  assumes A: "agrees (\<lambda>_. m) v"
  shows "mx_lock q m = Acquired m' \<Longrightarrow> agrees (\<lambda>_. m') (v(q := \<lambda>_. Some False))"
    and "mx_lock q m = AcquiredDead m' \<Longrightarrow> agrees (\<lambda>_. m') (v(q := \<lambda>_. Some True))"
    and "v q () = Some True \<Longrightarrow> agrees (\<lambda>_. mx_consistent q m) (v(q := \<lambda>_. Some False))"
    and "v q () = Some False \<Longrightarrow> agrees (\<lambda>_. mx_unlock q m) (v(q := \<lambda>_. None))"
    and "agrees (\<lambda>_. mx_die q m) (v(q := \<lambda>_. None))"
    and "mx_lock q m \<noteq> LockFailed"
  subgoal using agrees_lock(1) [OF A, where q = q and m = "()" and m' = m'] by (simp only: unit_upd)
  subgoal using agrees_lock_dead(1) [OF A, where q = q and m = "()" and m' = m'] by (simp only: unit_upd)
  subgoal using agrees_consistent(1) [OF A, where q = q and m = "()"] by (simp only: unit_upd)
  subgoal using agrees_unlock(1) [OF A, where q = q and m = "()"] by (simp only: unit_upd)
  subgoal by (rule agrees_die [OF A])
  subgoal by (rule agrees_never_fails [OF A])
  done

lemma view_of_client: "i < length (clients s) \<Longrightarrow> bview s (Suc i) () = holds (clients s ! i)"
  by (simp add: bview_def)

lemma mutex_client:
  assumes "mutex_ok s" and "i < length (clients s)"
    and "agrees (\<lambda>_. m) ((bview s)(Suc i := \<lambda>_. holds c))" and "cpos c \<noteq> CErr"
    and "mtx s' = m" "clients s' = (clients s)[i := c]" "spos s' = spos s"
  shows "mutex_ok s'"
  using assms(1,3-7) view_client [OF assms(2,5-7)] set_update_subset_insert [of "clients s" i c]
  by (auto simp: mutex_ok_def)

lemma client_next_mutex:
  assumes ok: "mutex_ok s" and i: "i < length (clients s)" and t: "client_next i r s = Some t"
  shows "mutex_ok t"
proof -
  let ?c = "clients s ! i" and ?v = "bview s"
  have a: "agrees (\<lambda>_. mtx s) ?v" using ok by (simp add: mutex_ok_def)
  have nk: "\<not> killed ?c" using t by (auto simp: client_next_def Let_def split: if_splits)
  then have v: "?v (Suc i) () = choldings (cpos ?c)" using view_of_client [OF i] by simp
  note S = single [OF a, where q = "Suc i"]
  have same: "agrees (\<lambda>_. mtx s) (?v(Suc i := \<lambda>_. x))" if "?v (Suc i) () = x" for x
  proof -
    have "?v (Suc i) = (\<lambda>_. x)" using that by (intro ext) simp
    then have "?v(Suc i := \<lambda>_. x) = ?v" by (rule fun_upd_idem)
    with a show ?thesis by simp
  qed
  note rules = client_next_def set_client_def Let_def nk holds_def
  show ?thesis
  proof (cases "cpos ?c")
    case CLock
    then show ?thesis
      using t S(1,2,6) by (auto simp: rules split: lock_result.splits intro!: mutex_client [OF ok i])
  next
    case CRepair
    then show ?thesis using t S(3) v by (auto simp: rules intro!: mutex_client [OF ok i])
  next
    case CSearch
    then show ?thesis
      using t S(5) v same [of "Some False"] by (auto simp: rules split: prod.splits if_splits intro!: mutex_client [OF ok i])
  next
    case CScore
    then show ?thesis using t v same [of "Some False"] by (auto simp: rules intro!: mutex_client [OF ok i])
  next
    case CClear
    then show ?thesis using t v same [of "Some False"] by (auto simp: rules intro!: mutex_client [OF ok i])
  next
    case CFound
    then show ?thesis using t S(4) v by (auto simp: rules intro!: mutex_client [OF ok i])
  next
    case COver
    then show ?thesis using t S(4) v by (auto simp: rules intro!: mutex_client [OF ok i])
  qed (use t nk in \<open>simp_all add: client_next_def Let_def\<close>)
qed

lemma client_killed_mutex:
  assumes ok: "mutex_ok s" and i: "i < length (clients s)"
  shows "mutex_ok (client_killed i s)"
proof -
  have "agrees (\<lambda>_. mtx s) (bview s)" using ok by (simp add: mutex_ok_def)
  note dead = single(5) [OF this, of "Suc i"]
  have "cpos (clients s ! i) \<noteq> CErr" using ok i by (simp add: mutex_ok_def)
  then show ?thesis
    by (intro mutex_client [OF ok i, of "mx_die (Suc i) (mtx s)" "(clients s ! i)\<lparr>killed := True\<rparr>"])
      (use dead in \<open>simp_all add: client_killed_def set_client_def\<close>)
qed

lemma server_next_mutex:
  assumes ok: "mutex_ok s" and t: "server_next s = Some t"
  shows "mutex_ok t"
proof -
  have a: "agrees (\<lambda>_. mtx s) (bview s)" using ok by (simp add: mutex_ok_def)
  note S = single [OF a, where q = 0]
  have v: "bview s 0 () = sholdings (spos s)" by (simp add: bview_def)
  have c: "clients t = clients s" using t by (auto simp: server_next_def split: spc.splits lock_result.splits)
  have "agrees (\<lambda>_. mtx t) ((bview s)(0 := \<lambda>_. sholdings (spos t))) \<and> spos t \<noteq> SErr"
  proof (cases "spos s")
    case SCheck
    have "bview s 0 = (\<lambda>_. None)" using v SCheck by (intro ext) simp
    then have "(bview s)(0 := \<lambda>_. None) = bview s" by (rule fun_upd_idem)
    with SCheck t a show ?thesis by (auto simp: server_next_def split: if_splits)
  qed (use t S(1-4,6) v in \<open>auto simp: server_next_def split: lock_result.splits\<close>)
  with ok c view_server [OF c] show ?thesis by (simp add: mutex_ok_def)
qed

section \<open>The points\<close>

lemma sum_list_update_int:
  fixes xs :: "int list"
  shows "k < length xs \<Longrightarrow> sum_list (xs[k := x]) = sum_list xs + x - xs ! k"
  by (induction xs arbitrary: k) (auto split: nat.splits)

lemma map_score_update: "f c = f (cs ! i) \<Longrightarrow> map f (cs[i := c]) = map f cs"
  by (metis list_update_id map_update)

lemma points_frame:
  assumes "points_ok b s" and "board t = board s" "side t = side s" "clients t = clients s"
  shows "points_ok b t"
  using assms by (simp add: points_ok_def)

text \<open>A client goes on to \<open>c\<close>; the board changes at most in a field nobody else aims at.\<close>

lemma client_points:
  assumes ok: "points_ok b s" and i: "i < length (clients s)" and t: "clients t = (clients s)[i := c]" "side t = side s"
    and k: "length (board t) = length (board s)" "\<And>k. k < length b \<Longrightarrow> board t ! k = 0 \<or> board t ! k = board s ! k"
    and others: "\<And>j. j < length (clients s) \<Longrightarrow> j \<noteq> i \<Longrightarrow> aims (board t) (clients s ! j)"
    and c: "aims (board t) c" "0 \<le> score c" "read_from b c"
    and sums: "score c - score (clients s ! i) + sum_list (board t) - sum_list (board s) = doubled c - doubled (clients s ! i)"
  shows "points_ok b t"
proof -
  have "aims (board t) d" if d: "d \<in> set (clients t)" for d
  proof -
    from d obtain j where "j < length (clients s)" "d = (if j = i then c else clients s ! j)"
      unfolding t in_set_conv_nth by (auto simp: nth_list_update)
    then show ?thesis using others c(1) by (cases "j = i") auto
  qed
  moreover have "P d" if "d \<in> set (clients t)" "P c" "\<And>e. e \<in> set (clients s) \<Longrightarrow> P e" for d P
    using that set_update_subset_insert [of "clients s" i c] unfolding t by blast
  note all = this
  have "0 \<le> score d" if "d \<in> set (clients t)" for d by (rule all [OF that]) (use c ok in \<open>auto simp: points_ok_def\<close>)
  moreover have "read_from b d" if "d \<in> set (clients t)" for d
    by (rule all [OF that]) (use c ok in \<open>auto simp: points_ok_def\<close>)
  moreover have "board t ! k = 0 \<or> board t ! k = b ! k" if "k < length b" for k
    using k(2) [OF that] ok that by (auto simp: points_ok_def)
  moreover have "sum_list (map score (clients t)) = sum_list (map score (clients s)) + score c - score (clients s ! i)"
    "sum_list (map doubled (clients t)) = sum_list (map doubled (clients s)) + doubled c - doubled (clients s ! i)"
    using i by (simp_all add: t map_update sum_list_update_int)
  ultimately show ?thesis using ok sums t(2) k(1) unfolding points_ok_def by auto
qed

lemma field_in_range:
  assumes "0 < (n :: nat)" shows "n * (y mod n) + x mod n < n * n"
proof -
  have "n * (y mod n) + x mod n < n * (y mod n) + n" using assms by simp
  also have "\<dots> = n * Suc (y mod n)" by simp
  also have "\<dots> \<le> n * n" using assms by (intro mult_le_mono) (simp_all add: Suc_leI)
  finally show ?thesis .
qed

lemma points_okD:
  assumes "points_ok b s"
  shows "length (board s) = length b" "length b = side s * side s" "0 < side s"
    "k < length b \<Longrightarrow> board s ! k = 0 \<or> board s ! k = b ! k" "x \<in> set b \<Longrightarrow> 1 \<le> x"
    "c \<in> set (clients s) \<Longrightarrow> 0 \<le> score c" "c \<in> set (clients s) \<Longrightarrow> aims (board s) c"
    "c \<in> set (clients s) \<Longrightarrow> read_from b c"
  using assms unfolding points_ok_def by blast+

lemma client_next_points:
  assumes ok: "points_ok b s" and mx: "mutex_ok s" and i: "i < length (clients s)" and t: "client_next i r s = Some t"
  shows "points_ok b t"
proof -
  obtain d x y where r: "r = (d, x, y)" by (cases r) auto
  let ?k = "side s * (unat y mod side s) + unat x mod side s" and ?c = "clients s ! i"
  note P = points_okD [OF ok]
  have nk: "\<not> killed ?c" using t by (auto simp: client_next_def Let_def split: if_splits)
  have ci: "?c \<in> set (clients s)" using i by simp
  show ?thesis
  proof (cases "cpos ?c")
    case CSearch
    have k: "?k < length (board s)" using P(1-3) field_in_range [of "side s" "unat y" "unat x"] by simp
    then have b: "board s ! ?k \<noteq> 0 \<Longrightarrow> board s ! ?k \<in> set b" using P(1,4) by (metis nth_mem)
    have T: "clients t = (clients s)[i := clients t ! i]" "side t = side s" "board t = board s"
      "score (clients t ! i) = score ?c" "doubled (clients t ! i) = 0" "aims (board s) (clients t ! i)" "read_from b (clients t ! i)"
      using t r CSearch nk i k b by (auto simp: client_next_def set_client_def Let_def split: if_splits)
    show ?thesis by (rule client_points [OF ok i T(1,2)]) (use T CSearch P(6) [OF ci] P(7) in simp_all)
  next
    case (CScore k p)
    then have kp: "k < length (board s)" "board s ! k = p" "p \<in> set b" using P(7,8) [OF ci] nk by simp_all
    have T: "t = set_client i (?c\<lparr>cpos := CClear k p, score := score ?c + p\<rparr>) s"
      using t CScore nk by (simp add: client_next_def Let_def)
    show ?thesis
      by (rule client_points [OF ok i, of t "?c\<lparr>cpos := CClear k p, score := score ?c + p\<rparr>"])
        (use T CScore kp P(5) [OF kp(3)] P(6) [OF ci] P(7) in \<open>simp_all add: set_client_def\<close>)
  next
    case (CClear k p)
    then have kp: "k < length (board s)" "board s ! k = p" "p \<in> set b" using P(7,8) [OF ci] nk by simp_all
    have T: "t = set_client i (?c\<lparr>cpos := CFound\<rparr>) (s\<lparr>board := (board s)[k := 0]\<rparr>)"
      using t CClear nk by (simp add: client_next_def Let_def)
    have o: "aims bs (clients s ! j)" if "j < length (clients s)" "j \<noteq> i" for j bs
    proof -
      have "agrees (\<lambda>_. mtx s) (bview s)" using mx by (simp add: mutex_ok_def)
      moreover have "bview s (Suc i) () = Some False" using view_of_client [OF i] nk CClear by simp
      ultimately have "bview s (Suc j) () = None"
        using agrees_exclusive [of "\<lambda>_. mtx s" "bview s" "Suc i" "()" _ "Suc j"] that(2) by (cases "bview s (Suc j) ()") auto
      then have "holds (clients s ! j) = None" using view_of_client [OF that(1)] by simp
      then show ?thesis by (auto simp: aims_def holds_def split: cpc.split if_splits)
    qed
    show ?thesis
      by (rule client_points [OF ok i, of t "?c\<lparr>cpos := CFound\<rparr>"])
        (use o CClear P(6) [OF ci] kp in \<open>auto simp: T set_client_def nth_list_update sum_list_update_int\<close>)
  next
    case CLock
    have T: "clients t = (clients s)[i := clients t ! i]" "side t = side s" "board t = board s"
      "score (clients t ! i) = score ?c" "doubled (clients t ! i) = 0" "aims (board s) (clients t ! i)" "read_from b (clients t ! i)"
      using t CLock nk i by (auto simp: client_next_def set_client_def Let_def split: lock_result.splits)
    show ?thesis by (rule client_points [OF ok i T(1,2)]) (use T CLock P(6) [OF ci] P(7) in simp_all)
  next
    case CRepair
    then have T: "t = set_client i (?c\<lparr>cpos := CSearch\<rparr>) (s\<lparr>mtx := mx_consistent (Suc i) (mtx s)\<rparr>)" using t nk by (simp add: client_next_def Let_def)
    show ?thesis by (rule client_points [OF ok i, of t "?c\<lparr>cpos := CSearch\<rparr>"])
        (use T CRepair P(6) [OF ci] P(7) in \<open>simp_all add: set_client_def\<close>)
  next
    case CFound
    then have T: "t = set_client i (?c\<lparr>cpos := CLock\<rparr>) (s\<lparr>mtx := mx_unlock (Suc i) (mtx s)\<rparr>)" using t nk by (simp add: client_next_def Let_def)
    show ?thesis by (rule client_points [OF ok i, of t "?c\<lparr>cpos := CLock\<rparr>"])
        (use T CFound P(6) [OF ci] P(7) in \<open>simp_all add: set_client_def\<close>)
  next
    case COver
    then have T: "t = set_client i (?c\<lparr>cpos := CGone\<rparr>) (s\<lparr>mtx := mx_unlock (Suc i) (mtx s)\<rparr>)" using t nk by (simp add: client_next_def Let_def)
    show ?thesis by (rule client_points [OF ok i, of t "?c\<lparr>cpos := CGone\<rparr>"])
        (use T COver P(6) [OF ci] P(7) in \<open>simp_all add: set_client_def\<close>)
  qed (use t nk in \<open>simp_all add: client_next_def Let_def\<close>)
qed

lemma client_killed_points:
  assumes ok: "points_ok b s" and i: "i < length (clients s)"
  shows "points_ok b (client_killed i s)"
proof -
  have ci: "clients s ! i \<in> set (clients s)" using i by simp
  note P = points_okD [OF ok]
  show ?thesis
    by (rule client_points [OF ok i, of _ "(clients s ! i)\<lparr>killed := True\<rparr>"])
      (use P(6,8) [OF ci] P(7) in \<open>simp_all add: client_killed_def set_client_def\<close>)
qed

lemma server_next_points:
  assumes "points_ok b s" and "server_next s = Some t"
  shows "points_ok b t"
  by (rule points_frame [OF assms(1)]) (use assms(2) in \<open>auto simp: server_next_def split: spc.splits lock_result.splits\<close>)

definition board_inv :: "int list \<Rightarrow> bstate \<Rightarrow> bool" where
  "board_inv b s \<longleftrightarrow> mutex_ok s \<and> points_ok b s"

lemma board_step_inv:
  assumes "board_step s t" and "board_inv b s"
  shows "board_inv b t"
  using assms
proof cases
  case (client_moves i r)
  with assms(2) client_next_mutex client_next_points show ?thesis unfolding board_inv_def by blast
next
  case (client_dies i)
  with assms(2) client_killed_mutex client_killed_points show ?thesis unfolding board_inv_def by blast
next
  case server_moves
  with assms(2) server_next_mutex server_next_points show ?thesis unfolding board_inv_def by blast
next
  case server_signalled
  moreover have "bview (sighandling s) = bview s" by (intro ext) (simp add: bview_def sighandling_def)
  ultimately show ?thesis using assms(2) by (simp add: board_inv_def mutex_ok_def points_ok_def sighandling_def)
qed

lemma server_start_inv:
  assumes "server_start n r ncl = Inr s"
  shows "board_inv (board s) s"
proof -
  let ?b = "map (\<lambda>k. 1 + int (unat (r k) mod 9)) [0..<nat n * nat n]"
  have s: "s = \<lparr>side = nat n, board = ?b, mtx = Unlocked, clients = replicate ncl \<lparr>cpos = CLock, score = 0, killed = False\<rparr>,
      spos = SCheck, screen = [], running = True\<rparr>" and n: "3 \<le> n"
    using assms by (auto simp: server_start_def Let_def split: if_splits)
  have "mutex_ok s" by (auto simp: s mutex_ok_def agrees_def bview_def shape_def)
  moreover have "points_ok (board s) s" using n by (auto simp: s points_ok_def sum_list_replicate)
  ultimately show ?thesis by (simp add: board_inv_def)
qed

interpretation game: inv_system "\<lambda>s. \<exists>n r ncl. server_start n r ncl = Inr s" board_step "\<lambda>s. \<exists>b. board_inv b s"
  by unfold_locales (use server_start_inv board_step_inv in blast)+

text \<open>\<open>in_section s q\<close>: process \<open>q\<close> is between its lock and its unlock.\<close>

definition in_section :: "bstate \<Rightarrow> nat \<Rightarrow> bool" where
  "in_section s q \<longleftrightarrow> bview s q () \<noteq> None"

lemma reach_board_inv:
  assumes "server_start n r ncl = Inr s0" and "reach (\<lambda>s. s = s0) board_step s"
  shows "board_inv (board s0) s"
  using assms(2)
proof (induction rule: reach.induct)
  case (reach_init s)
  then show ?case using server_start_inv [OF assms(1)] by simp
next
  case (reach_step s t)
  then show ?case using board_step_inv by blast
qed

lemma filter_one:
  assumes "\<And>i j. i < length xs \<Longrightarrow> P (xs ! i) \<Longrightarrow> j < length xs \<Longrightarrow> P (xs ! j) \<Longrightarrow> i = j"
  shows "length (filter P xs) \<le> 1"
proof -
  have "card {i. i < length xs \<and> P (xs ! i)} \<le> Suc 0" using assms by (subst card_le_Suc0_iff_eq) auto
  then show ?thesis by (simp add: length_filter_conv_card)
qed

text \<open>
  C18: Whatever clients come to the board, in whatever order they run and wherever they are killed, no point is
  lost, and points are found twice only through one window: the scores and the points left on the board make the points of
  the start and those which clients have added to their score and not yet taken off the board.  At most one living client
  is in this window, between the two statements under the mutex, and finds its points still there; one that is
  killed in it leaves them to be found again.  A field holds its points or none, at most one process is inside the critical
  section, and until the server destroys it the mutex never becomes unusable (no process ends in \<^verbatim>\<open>ERR\<close>).
\<close>

theorem board_points:
  assumes "server_start n r ncl = Inr s0" and "reach (\<lambda>s. s = s0) board_step s"
  shows "sum_list (map score (clients s)) + sum_list (board s) = sum_list (board s0) + sum_list (map doubled (clients s))
    \<and> (\<forall>c \<in> set (clients s). 0 \<le> doubled c \<and> 0 \<le> score c \<and> aims (board s) c)
    \<and> length [c \<leftarrow> clients s. \<not> killed c \<and> doubled c \<noteq> 0] \<le> 1
    \<and> (\<forall>k < length (board s0). board s ! k \<in> {0, board s0 ! k})
    \<and> (\<forall>q q'. in_section s q \<longrightarrow> in_section s q' \<longrightarrow> q = q')
    \<and> spos s \<noteq> SErr \<and> (\<forall>c \<in> set (clients s). cpos c \<noteq> CErr)"
proof -
  have I: "board_inv (board s0) s" by (rule reach_board_inv [OF assms])
  then have a: "agrees (\<lambda>_. mtx s) (bview s)" and P: "points_ok (board s0) s" by (simp_all add: board_inv_def mutex_ok_def)
  have X: "q = q'" if "in_section s q" "in_section s q'" for q q'
    using that agrees_exclusive [OF a, of q "()" _ q'] by (auto simp: in_section_def)
  have "i = j" if "i < length (clients s)" "\<not> killed (clients s ! i) \<and> doubled (clients s ! i) \<noteq> 0"
    "j < length (clients s)" "\<not> killed (clients s ! j) \<and> doubled (clients s ! j) \<noteq> 0" for i j
  proof -
    have "in_section s (Suc i)" "in_section s (Suc j)"
      using that view_of_client by (auto simp: in_section_def doubled_def split: cpc.splits)
    then show ?thesis using X by blast
  qed
  then have "length [c \<leftarrow> clients s. \<not> killed c \<and> doubled c \<noteq> 0] \<le> 1" by (rule filter_one)
  moreover have "0 \<le> doubled c" if "c \<in> set (clients s)" for c
    using points_okD(8) [OF P that] points_okD(5) [OF P] by (force simp: doubled_def read_from_def split: cpc.split)
  ultimately show ?thesis using I X points_okD(6,7) [OF P] points_okD(1,4) [OF P]
    by (auto simp: board_inv_def mutex_ok_def points_ok_def)
qed

section \<open>Witness\<close>

text \<open>Moves one after another: client \<open>i\<close> with what \<^verbatim>\<open>rand\<close> returns, or (\<open>None\<close>) killed.\<close>

fun play :: "(nat \<times> (31 word \<times> 31 word \<times> 31 word) option) list \<Rightarrow> bstate \<Rightarrow> bstate option" where
  "play [] s = Some s"
| "play ((i, Some r) # ms) s =
     (if i < length (clients s) \<and> may_move i s then Option.bind (client_next i r s) (play ms) else None)"
| "play ((i, None) # ms) s =
     (if i < length (clients s) \<and> cpos (clients s ! i) \<noteq> CGone \<and> \<not> killed (clients s ! i)
      then play ms (client_killed i s) else None)"

lemma play_reach:
  "play ms s = Some t \<Longrightarrow> reach I board_step s \<Longrightarrow> reach I board_step t"
  by (induction ms s rule: play.induct)
    (auto split: if_splits Option.bind_splits intro: reach_step client_moves client_dies)

definition board9 :: bstate where
  "board9 = \<lparr>side = 3, board = replicate 9 1, mtx = Unlocked,
     clients = replicate 2 \<lparr>cpos = CLock, score = 0, killed = False\<rparr>, spos = SCheck, screen = [], running = True\<rparr>"

lemma board9_start: "server_start 3 (\<lambda>_. 0) 2 = Inr board9"
  by (simp add: server_start_def board9_def Let_def map_replicate_const)

lemma board9_play: "play ms board9 = Some t \<Longrightarrow> reach (\<lambda>s. s = board9) board_step t"
  by (rule play_reach) (auto intro: reach_init)

text \<open>A client finds the points of the first field and is killed before it takes them off the board.\<close>

definition killed_in_window :: "(nat \<times> (31 word \<times> 31 word \<times> 31 word) option) list" where
  "killed_in_window = [(0, Some (0, 0, 0)), (0, Some (1, 0, 0)), (0, Some (1, 0, 0)), (0, None)]"

text \<open>The next one repairs the mutex and finds the same points.\<close>

definition finds_them_again :: "(nat \<times> (31 word \<times> 31 word \<times> 31 word) option) list" where
  "finds_them_again = replicate 2 (1, Some (0, 0, 0)) @ replicate 3 (1, Some (1, 0, 0))"

definition board_twice :: bstate where
  "board_twice = board9\<lparr>board := 0 # replicate 8 1, mtx := Locked 2,
     clients := [\<lparr>cpos = CClear 0 1, score = 1, killed = True\<rparr>, \<lparr>cpos = CFound, score = 1, killed = False\<rparr>]\<rparr>"

lemma play_twice: "play (killed_in_window @ finds_them_again) board9 = Some board_twice"
  by code_simp

theorem board_points_witness:
  "reach (\<lambda>s. s = board9) board_step board_twice \<and> sum_list (map score (clients board_twice)) + sum_list (board board_twice)
     = sum_list (board board9) + sum_list (map doubled (clients board_twice)) \<and> map doubled (clients board_twice) = [1, 0]"
proof -
  have r: "reach (\<lambda>s. s = board9) board_step board_twice" by (rule board9_play [OF play_twice])
  have "map doubled (clients board_twice) = [1, 0]" by code_simp
  with r board_points [OF board9_start r] show ?thesis by blast
qed

text \<open>The nine points of the start have become ten.\<close>

lemma found_twice:
  "\<exists>s. reach (\<lambda>s. s = board9) board_step s \<and> sum_list (board board9) = 9 \<and> map score (clients s) = [1, 1] \<and> sum_list (board s) = 8"
  using board9_play [OF play_twice]
  by (intro exI [of _ board_twice] conjI) (simp_all add: board_twice_def board9_def sum_list_replicate)

section \<open>The end of the server\<close>

text \<open>The mutex is destroyed while a client holds it, who can then neither release it nor come back.\<close>

lemma destroyed_in_use:
  "\<exists>s. reach (\<lambda>s. s = board9) board_step s \<and> spos s = SGone \<and> in_section s 1 \<and> cpos (clients s ! 0) = CFound \<and> \<not> may_move 0 s"
proof -
  define ms where "ms = (0 :: nat, Some (0 :: 31 word, 0 :: 31 word, 0 :: 31 word)) # replicate 3 (0, Some (1, 0, 0))"
  let ?u = "board9\<lparr>mtx := Locked 1, board := 0 # replicate 8 1,
    clients := [\<lparr>cpos = CFound, score = 1, killed = False\<rparr>, \<lparr>cpos = CLock, score = 0, killed = False\<rparr>]\<rparr>"
  let ?v = "?u\<lparr>running := False, spos := SGone\<rparr>"
  have "play ms board9 = Some ?u" unfolding ms_def by code_simp
  then have "reach (\<lambda>s. s = board9) board_step (sighandling ?u)" by (blast intro: board9_play reach_step server_signalled)
  moreover have "server_next (sighandling ?u) = Some ?v" by (simp add: server_next_def sighandling_def board9_def)
  ultimately have "reach (\<lambda>s. s = board9) board_step ?v" by (blast intro: reach_step server_moves)
  then show ?thesis by (intro exI [of _ ?v] conjI) (simp_all add: in_section_def bview_def may_move_def)
qed

end
