(* ===== verification/Calka.thy ===== *)
theory Calka
  imports Pipes Mutex Complex_Main
begin

text \<open>
  \<^verbatim>\<open>lab06/calka/calka.c\<close>: processes that join and leave a computation of an integral.  The first
  one makes a shared region with two robust mutexes, others attach to it; each adds at most three batches
  of points to the common counters, and the one that finds nobody left prints the result and removes
  the region.  A process may abort right after it got a mutex (\<^verbatim>\<open>random_death_lock\<close>), and the next
  owner counts the dead one off.  The model is one region with all the processes that ever come to it
  (\<open>Fresh\<close> before that); what is done under a mutex between its lock and its unlock is one step, since only
  its owner touches what it protects.  Floating-point numbers are reals, their rounding is left out.
\<close>

datatype which = Count | Res

text \<open>
  Positions are named by what comes next; the flag says that the mutex was got with
  \<^verbatim>\<open>EOWNERDEAD\<close>, \<open>h\<close> is the number of hits of the batch.
\<close>

datatype cpos =
    Fresh real real | Joining | Joined bool | Printing | Printed bool | Loop | Results int | Repair int
  | Recount int | Recounted int bool | Adding int | Ending | Leaving bool | Final
  | Gone | Refused | Died bool | Broken

text \<open>\<open>found\<close>: the hits this process has added so far.\<close>

record proc =
  pos :: cpos
  points :: int
  batch :: nat
  keep_running :: bool
  found :: int

record region =
  procCount :: int
  total_randomized_points :: int
  hit_points :: int
  lower :: real
  upper :: real
  mtx :: "which \<Rightarrow> mutex"
  linked :: bool
  destroyed :: bool
  procs :: "proc list"
  results :: "real option list"

section \<open>The operations\<close>

text \<open>\<open>hit i\<close>: the comparison of the \<open>i\<close>-th random point with the function.\<close>

definition randomize_points :: "int \<Rightarrow> (nat \<Rightarrow> bool) \<Rightarrow> int" where
  "randomize_points N hit = int (length (filter hit [0..<nat N]))"

text \<open>\<open>None\<close> is a result that is not a number.\<close>

definition summarize_calculations :: "64 word \<Rightarrow> 64 word \<Rightarrow> real \<Rightarrow> real \<Rightarrow> real option" where
  "summarize_calculations tot hits a b =
     (if tot = 0 then None else Some ((b - a) * (real (unat hits) / real (unat tot))))"

datatype outcome = Waits | Aborts mutex | Holds bool mutex | Fails

definition random_death_lock :: "nat \<Rightarrow> 31 word \<Rightarrow> mutex \<Rightarrow> outcome" where
  "random_death_lock p r m =
     (case mx_lock p m of
        Blocks \<Rightarrow> Waits
      | Acquired m' \<Rightarrow> if unat r mod 20 = 0 then Aborts m' else Holds False m'
      | AcquiredDead m' \<Rightarrow> Holds True m'
      | LockFailed \<Rightarrow> Fails)"

definition move :: "nat \<Rightarrow> cpos \<Rightarrow> region \<Rightarrow> region" where
  "move i c s = s\<lparr>procs := (procs s)[i := (procs s ! i)\<lparr>pos := c\<rparr>]\<rparr>"

text \<open>
  Process \<open>i\<close> locks \<open>m\<close> and goes on at \<open>k\<close>.  When it aborts, all it holds is left without an owner; \<open>j\<close>
  tells that it was still joining.  A destroyed mutex, or one that cannot be locked, breaks it.
\<close>

definition enter :: "bool \<Rightarrow> nat \<Rightarrow> which \<Rightarrow> 31 word \<Rightarrow> (bool \<Rightarrow> cpos) \<Rightarrow> region \<Rightarrow> region option" where
  "enter j i m r k s =
     (if destroyed s then Some (move i Broken s)
      else case random_death_lock i r (mtx s m) of
        Waits \<Rightarrow> None
      | Aborts m' \<Rightarrow> Some (move i (Died j) (s\<lparr>mtx := \<lambda>x. mx_die i (((mtx s)(m := m')) x)\<rparr>))
      | Holds d m' \<Rightarrow> Some (move i (k d) (s\<lparr>mtx := (mtx s)(m := m')\<rparr>))
      | Fails \<Rightarrow> Some (move i Broken s))"

text \<open>The owner of the counter's mutex repairs it and counts the dead owner off.\<close>

definition take_over :: "nat \<Rightarrow> bool \<Rightarrow> region \<Rightarrow> region" where
  "take_over i d s =
     (if d then s\<lparr>mtx := (mtx s)(Count := mx_consistent i (mtx s Count)), procCount := procCount s - 1\<rparr> else s)"

definition release :: "nat \<Rightarrow> which \<Rightarrow> region \<Rightarrow> region" where
  "release i m s = s\<lparr>mtx := (mtx s)(m := mx_unlock i (mtx s m))\<rparr>"

text \<open>Between lock and unlock of the counter: \<open>n\<close> is added to it.\<close>

definition recount :: "nat \<Rightarrow> bool \<Rightarrow> int \<Rightarrow> region \<Rightarrow> region" where
  "recount i d n s = (let t = take_over i d s in release i Count (t\<lparr>procCount := procCount t + n\<rparr>))"

definition add_batch :: "nat \<Rightarrow> int \<Rightarrow> region \<Rightarrow> region" where
  "add_batch i h s =
     (let p = procs s ! i; tot = total_randomized_points s + points p; hits = hit_points s + h in
      if in_int tot \<and> in_int hits
      then release i Res (s\<lparr>total_randomized_points := tot, hit_points := hits,
             procs := (procs s)[i := p\<lparr>pos := Loop, batch := batch p + 1, found := found p + h\<rparr>]\<rparr>)
      else move i Broken s)"

text \<open>The last process prints the result, destroys the mutexes and unlinks the region.\<close>

definition close_region :: "nat \<Rightarrow> region \<Rightarrow> region" where
  "close_region i s =
     move i Gone (s\<lparr>results := results s @ [summarize_calculations (word_of_int (total_randomized_points s))
                                              (word_of_int (hit_points s)) (lower s) (upper s)],
                    destroyed := True, linked := False\<rparr>)"

text \<open>
  One step of process \<open>i\<close>, with the answers \<open>r\<close> of \<^verbatim>\<open>rand\<close> and \<open>hit\<close> of the points.
  A process that comes when the region is unlinked works on a new one: it is gone from this.
\<close>

definition process_step :: "nat \<Rightarrow> 31 word \<Rightarrow> (nat \<Rightarrow> bool) \<Rightarrow> region \<Rightarrow> region option" where
  "process_step i r hit s =
     (let p = procs s ! i in
      case pos p of
        Fresh a b \<Rightarrow>
          Some (move i (if \<not> linked s then Gone else if lower s \<noteq> a \<or> upper s \<noteq> b then Refused else Joining) s)
      | Joining \<Rightarrow> enter True i Count r Joined s
      | Joined d \<Rightarrow> Some (move i Printing (recount i d 1 s))
      | Printing \<Rightarrow> enter False i Count r Printed s
      | Printed d \<Rightarrow> Some (move i Loop (recount i d 0 s))
      | Loop \<Rightarrow>
          Some (move i (if batch p < 3 \<and> keep_running p then Results (randomize_points (points p) hit) else Ending) s)
      | Results h \<Rightarrow> enter False i Res r (\<lambda>d. if d then Repair h else Adding h) s
      | Repair h \<Rightarrow> Some (move i (Recount h) (s\<lparr>mtx := (mtx s)(Res := mx_consistent i (mtx s Res))\<rparr>))
      | Recount h \<Rightarrow> enter False i Count r (Recounted h) s
      | Recounted h d \<Rightarrow> Some (move i (Adding h) (recount i d (- 1) s))
      | Adding h \<Rightarrow> Some (add_batch i h s)
      | Ending \<Rightarrow> enter False i Count r Leaving s
      | Leaving d \<Rightarrow>
          (let t = recount i d (- 1) s in Some (move i (if procCount t = 0 then Final else Gone) t))
      | Final \<Rightarrow> Some (close_region i s)
      | _ \<Rightarrow> None)"

definition ended :: "proc \<Rightarrow> bool" where
  "ended p = (case pos p of Gone \<Rightarrow> True | Refused \<Rightarrow> True | Died b \<Rightarrow> True | Broken \<Rightarrow> True | _ \<Rightarrow> False)"

inductive calka_step :: "region \<Rightarrow> region \<Rightarrow> bool" where
  process: "i < length (procs s) \<Longrightarrow> process_step i r hit s = Some t \<Longrightarrow> calka_step s t"
| sigint: "i < length (procs s) \<Longrightarrow> keep_running (procs s ! i) \<Longrightarrow> \<not> ended (procs s ! i) \<Longrightarrow>
     calka_step s (s\<lparr>procs := (procs s)[i := (procs s ! i)\<lparr>keep_running := False\<rparr>]\<rparr>)"

text \<open>
  The first process, of \<open>N\<close> points a batch, has made the region; the others come with bounds and numbers
  of points of their own.
\<close>

definition new_proc :: "cpos \<Rightarrow> int \<Rightarrow> proc" where
  "new_proc c n = \<lparr>pos = c, points = n, batch = 0, keep_running = True, found = 0\<rparr>"

definition calka_start :: "real \<Rightarrow> real \<Rightarrow> int \<Rightarrow> (real \<times> real \<times> int) list \<Rightarrow> region" where
  "calka_start a b N others =
     \<lparr>procCount = 1, total_randomized_points = 0, hit_points = 0, lower = a, upper = b, mtx = (\<lambda>_. Unlocked),
      linked = True, destroyed = False,
      procs = new_proc Printing N # map (\<lambda>(x, y, n). new_proc (Fresh x y) n) others, results = []\<rparr>"

section \<open>Who holds the mutexes\<close>

fun held :: "cpos \<Rightarrow> which \<Rightarrow> bool option" where
  "held (Joined d) m = (if m = Count then Some d else None)"
| "held (Printed d) m = (if m = Count then Some d else None)"
| "held (Leaving d) m = (if m = Count then Some d else None)"
| "held (Repair h) m = (if m = Res then Some True else None)"
| "held (Recount h) m = (if m = Res then Some False else None)"
| "held (Recounted h d) m = (if m = Count then Some d else Some False)"
| "held (Adding h) m = (if m = Res then Some False else None)"
| "held _ m = None"

definition cview :: "region \<Rightarrow> which view" where
  "cview s q m = (if q < length (procs s) then held (pos (procs s ! q)) m else None)"

definition mutexes_ok :: "region \<Rightarrow> bool" where
  "mutexes_ok s \<longleftrightarrow> agrees (mtx s) (cview s) \<and> (\<forall>p \<in> set (procs s). pos p \<noteq> Broken)"

lemma not_Res: "m \<noteq> Res \<longleftrightarrow> m = Count"
  by (cases m) auto

text \<open>\<open>became i c s t\<close>: from \<open>s\<close> to \<open>t\<close> process \<open>i\<close> has gone to \<open>c\<close> and no other has changed.\<close>

definition became :: "nat \<Rightarrow> cpos \<Rightarrow> region \<Rightarrow> region \<Rightarrow> bool" where
  "became i c s t \<longleftrightarrow> (\<exists>p. procs t = (procs s)[i := p] \<and> pos p = c)"

lemma became_view: "i < length (procs s) \<Longrightarrow> became i c s t \<Longrightarrow> cview t = (cview s)(i := held c)"
  by (intro ext) (auto simp: cview_def became_def nth_list_update)

lemma became_ok:
  assumes "i < length (procs s)" and "became i c s t" and "mutexes_ok s" and "c \<noteq> Broken"
    and "agrees (mtx t) ((cview s)(i := held c))"
  shows "mutexes_ok t"
proof -
  obtain p where "procs t = (procs s)[i := p]" "pos p = c" using assms(2) by (auto simp: became_def)
  then have "\<forall>p \<in> set (procs t). pos p \<noteq> Broken"
    using assms(3,4) set_update_subset_insert [of "procs s" i p] by (auto simp: mutexes_ok_def)
  with assms(5) became_view [OF assms(1,2)] show ?thesis by (simp add: mutexes_ok_def)
qed

lemma became_move: "procs u = procs s \<Longrightarrow> became i c s (move i c u)"
  by (auto simp: became_def move_def)

lemma ok_move:
  "i < length (procs s) \<Longrightarrow> mutexes_ok s \<Longrightarrow> procs u = procs s \<Longrightarrow> c \<noteq> Broken \<Longrightarrow>
     agrees (mtx u) ((cview s)(i := held c)) \<Longrightarrow> mutexes_ok (move i c u)"
  by (rule became_ok [where c = c, OF _ became_move]) (simp_all add: move_def)

lemma held_died: "held (Died j) = (\<lambda>_. None)"
  by (intro ext) simp

lemma move_fields [simp]:
  "mtx (move i c s) = mtx s" "procCount (move i c s) = procCount s" "destroyed (move i c s) = destroyed s"
  "total_randomized_points (move i c s) = total_randomized_points s" "hit_points (move i c s) = hit_points s"
  by (simp_all add: move_def)

lemma recount_fields [simp]:
  "procs (recount i d n s) = procs s" "destroyed (recount i d n s) = destroyed s"
  "total_randomized_points (recount i d n s) = total_randomized_points s"
  "hit_points (recount i d n s) = hit_points s"
  "procCount (recount i d n s) = procCount s + n - (if d then 1 else 0)"
  "mtx (recount i d n s) =
     (mtx s)(Count := mx_unlock i (if d then mx_consistent i (mtx s Count) else mtx s Count))"
  by (simp_all add: recount_def take_over_def release_def Let_def)

lemma cview_own: "i < length (procs s) \<Longrightarrow> cview s i = held (pos (procs s ! i))"
  by (intro ext) (simp add: cview_def)

text \<open>The outcomes of a lock.\<close>

lemma enter_ok:
  assumes i: "i < length (procs s)" and ok: "mutexes_ok s" "\<not> destroyed s" and t: "enter j i m r k s = Some t"
    and k: "\<And>d. held (k d) = (held (pos (procs s ! i)))(m \<mapsto> d)" "\<And>d. k d \<noteq> Broken"
  shows "mutexes_ok t"
proof -
  have a: "agrees (mtx s) (cview s)" using ok(1) by (simp add: mutexes_ok_def)
  note v = cview_own [OF i]
  show ?thesis
  proof (cases "mx_lock i (mtx s m)")
    case (Acquired m')
    note L = agrees_lock(1) [OF a Acquired]
    from agrees_die [OF L, of i] L Acquired show ?thesis
      using t ok v k ok_move [OF i ok(1)]
      by (auto simp: enter_def random_death_lock_def held_died split: if_splits)
  next
    case (AcquiredDead m')
    from agrees_lock_dead(1) [OF a this] AcquiredDead show ?thesis
      using t ok v k ok_move [OF i ok(1)] by (auto simp: enter_def random_death_lock_def)
  qed (use t ok agrees_never_fails [OF a] in \<open>auto simp: enter_def random_death_lock_def\<close>)
qed

lemma recount_ok:
  assumes i: "i < length (procs s)" and ok: "mutexes_ok s" and h: "held (pos (procs s ! i)) Count = Some d"
    and c: "held c = (held (pos (procs s ! i)))(Count := None)" "c \<noteq> Broken"
  shows "mutexes_ok (move i c (recount i d n s))"
proof -
  have a: "agrees (mtx s) (cview s)" using ok by (simp add: mutexes_ok_def)
  have v: "cview s i Count = Some d" using h cview_own [OF i] by simp
  let ?m = "if d then mx_consistent i (mtx s Count) else mtx s Count"
  have "agrees ((mtx s)(Count := ?m)) ((cview s)(i := (cview s i)(Count \<mapsto> False)))"
    using agrees_consistent(1) [OF a, of i Count] a v
    by (cases d) (auto simp: fun_upd_idem)
  from agrees_unlock(1) [OF this, of i Count] show ?thesis
    using c cview_own [OF i] ok_move [OF i ok] by simp
qed

section \<open>The totals\<close>

fun pending_hits :: "cpos \<Rightarrow> int option" where
  "pending_hits (Results h) = Some h"
| "pending_hits (Repair h) = Some h"
| "pending_hits (Recount h) = Some h"
| "pending_hits (Recounted h d) = Some h"
| "pending_hits (Adding h) = Some h"
| "pending_hits _ = None"

definition proc_ok :: "proc \<Rightarrow> bool" where
  "proc_ok p \<longleftrightarrow> batch p \<le> 3 \<and> 0 \<le> found p \<and> found p \<le> max 0 (points p) * int (batch p) \<and>
     (\<forall>h. pending_hits (pos p) = Some h \<longrightarrow> batch p < 3 \<and> 0 \<le> h \<and> h \<le> max 0 (points p))"

definition drawn :: "proc \<Rightarrow> int" where
  "drawn p = points p * int (batch p)"

definition totals_ok :: "region \<Rightarrow> bool" where
  "totals_ok s \<longleftrightarrow> (\<forall>p \<in> set (procs s). proc_ok p) \<and>
     total_randomized_points s = sum_list (map drawn (procs s)) \<and> hit_points s = sum_list (map found (procs s))"

text \<open>The most that the counters can come to.\<close>

definition capacity :: "region \<Rightarrow> int" where
  "capacity s = sum_list (map (\<lambda>p. 3 * \<bar>points p\<bar>) (procs s))"

lemma randomize_bounds: "0 \<le> randomize_points n hit \<and> randomize_points n hit \<le> max 0 n"
proof -
  have "length (filter hit [0..<nat n]) \<le> nat n" using length_filter_le [of hit "[0..<nat n]"] by simp
  then show ?thesis by (simp add: randomize_points_def)
qed

text \<open>A batch that is added keeps the totals, and fits.\<close>

lemma added_proc_ok:
  assumes "proc_ok p" and "pos p = Adding h"
  shows "proc_ok (p\<lparr>pos := Loop, batch := batch p + 1, found := found p + h\<rparr>)"
  using assms by (auto simp: proc_ok_def distrib_left)

lemma sums_within:
  assumes "\<forall>p \<in> set ps. proc_ok p"
  shows "\<bar>sum_list (map drawn ps)\<bar> \<le> sum_list (map (\<lambda>p. 3 * \<bar>points p\<bar>) ps)"
    and "0 \<le> sum_list (map found ps)" and "sum_list (map found ps) \<le> sum_list (map (\<lambda>p. 3 * \<bar>points p\<bar>) ps)"
proof -
  have "\<bar>drawn p\<bar> \<le> 3 * \<bar>points p\<bar> \<and> 0 \<le> found p \<and> found p \<le> 3 * \<bar>points p\<bar>" if "proc_ok p" for p
  proof -
    have b: "int (batch p) \<le> 3" using that by (simp add: proc_ok_def)
    have "\<bar>drawn p\<bar> = \<bar>points p\<bar> * int (batch p)" by (simp add: drawn_def abs_mult)
    also have "\<dots> \<le> \<bar>points p\<bar> * 3" using b by (rule mult_left_mono) simp
    finally have d: "\<bar>drawn p\<bar> \<le> 3 * \<bar>points p\<bar>" by simp
    have "found p \<le> max 0 (points p) * int (batch p)" using that by (simp add: proc_ok_def)
    also have "\<dots> \<le> \<bar>points p\<bar> * 3" using b by (intro mult_mono) auto
    finally show ?thesis using d that by (simp add: proc_ok_def)
  qed
  with assms show "\<bar>sum_list (map drawn ps)\<bar> \<le> sum_list (map (\<lambda>p. 3 * \<bar>points p\<bar>) ps)"
    "0 \<le> sum_list (map found ps)" "sum_list (map found ps) \<le> sum_list (map (\<lambda>p. 3 * \<bar>points p\<bar>) ps)"
    by (induction ps) fastforce+
qed

lemma add_batch_totals:
  assumes ok: "totals_ok s" and i: "i < length (procs s)" and a: "pos (procs s ! i) = Adding h"
    and c: "capacity s \<le> 2147483647"
  shows "in_int (total_randomized_points s + points (procs s ! i)) \<and> in_int (hit_points s + h)"
    and "totals_ok (add_batch i h s)"
proof -
  let ?p = "procs s ! i"
  let ?q = "?p\<lparr>pos := Loop, batch := batch ?p + 1, found := found ?p + h\<rparr>"
  let ?ps = "(procs s)[i := ?q]"
  have "proc_ok ?p" using ok i by (simp add: totals_ok_def)
  then have q: "proc_ok ?q" using a by (rule added_proc_ok)
  then have ps: "\<forall>p \<in> set ?ps. proc_ok p" using ok all_replace [of "procs s" proc_ok ?q i] by (simp add: totals_ok_def)
  have d: "drawn ?q = drawn ?p + points ?p" by (simp add: drawn_def distrib_left)
  have t: "total_randomized_points s + points ?p = sum_list (map drawn ?ps)" "hit_points s + h = sum_list (map found ?ps)"
    using ok i d by (simp_all add: totals_ok_def sum_list_replace_int)
  have "sum_list (map (\<lambda>p. 3 * \<bar>points p\<bar>) ?ps) = capacity s" using i by (simp add: capacity_def sum_list_replace_int)
  with sums_within [OF ps] c
  show f: "in_int (total_randomized_points s + points ?p) \<and> in_int (hit_points s + h)"
    unfolding t in_int_def by linarith
  then show "totals_ok (add_batch i h s)"
    using ps t by (simp add: add_batch_def Let_def release_def totals_ok_def)
qed

lemma totals_frame:
  assumes "totals_ok s" and "i < length (procs s)" and "procs t = (procs s)[i := p]"
    and "points p = points (procs s ! i)" "batch p = batch (procs s ! i)" "found p = found (procs s ! i)" "proc_ok p"
    and "total_randomized_points t = total_randomized_points s" "hit_points t = hit_points s"
  shows "totals_ok t"
  using assms all_replace [of "procs s" proc_ok p i]
  by (simp add: totals_ok_def sum_list_replace_int drawn_def)

lemma totals_move:
  assumes "totals_ok s" and "i < length (procs s)" and "procs u = procs s"
    and "total_randomized_points u = total_randomized_points s" "hit_points u = hit_points s"
    and "pending_hits c = None \<or> pending_hits c = pending_hits (pos (procs s ! i)) \<or>
      batch (procs s ! i) < 3 \<and> (\<exists>hit. c = Results (randomize_points (points (procs s ! i)) hit))"
  shows "totals_ok (move i c u)"
proof -
  have "proc_ok (procs s ! i)" using assms(1,2) by (simp add: totals_ok_def)
  then have "proc_ok ((procs s ! i)\<lparr>pos := c\<rparr>)"
    using assms(6) randomize_bounds by (auto simp: proc_ok_def)
  with assms(1-5) show ?thesis
    by (intro totals_frame [of s i "move i c u" "(procs s ! i)\<lparr>pos := c\<rparr>"]) (simp_all add: move_def)
qed

lemma enter_totals:
  assumes "totals_ok s" and "i < length (procs s)" and "enter j i m r k s = Some t"
    and "\<And>d. pending_hits (k d) = None \<or> pending_hits (k d) = pending_hits (pos (procs s ! i))"
  shows "totals_ok t"
proof -
  note M = totals_move [OF assms(1,2)]
  have "totals_ok (move i (k d) (s\<lparr>mtx := x\<rparr>))" for d x
    by (rule M) (use assms(4) [of d] in auto)
  moreover have "totals_ok (move i (Died j) (s\<lparr>mtx := x\<rparr>))" "totals_ok (move i Broken s)" for x
    by (rule M; simp)+
  ultimately show ?thesis
    using assms(3) by (auto simp: enter_def split: if_splits outcome.splits)
qed

lemma process_totals:
  assumes ok: "totals_ok s" and i: "i < length (procs s)" and t: "process_step i r hit s = Some t"
    and c: "capacity s \<le> 2147483647"
  shows "totals_ok t"
proof -
  note M = totals_move [OF ok i] and E = enter_totals [OF ok i]
  have l: "batch (procs s ! i) < 3 \<Longrightarrow> totals_ok (move i (Results (randomize_points (points (procs s ! i)) hit)) s)"
    by (rule M) auto
  show ?thesis
    using t add_batch_totals(2) [OF ok i _ c] l
    by (cases "pos (procs s ! i)")
      (auto simp: process_step_def Let_def close_region_def split: if_splits intro!: M elim!: E)
qed

section \<open>The counter\<close>

text \<open>What a process adds to the counter: itself once it is counted, and the dead it has still to count off.\<close>

fun worth :: "cpos \<Rightarrow> int" where
  "worth (Joined d) = of_bool d"
| "worth Printing = 1" | "worth (Printed d) = 1 + of_bool d" | "worth Loop = 1" | "worth (Results h) = 1"
| "worth (Repair h) = 2" | "worth (Recount h) = 2" | "worth (Recounted h d) = 2 + of_bool d"
| "worth (Adding h) = 1" | "worth Ending = 1" | "worth (Leaving d) = 1 + of_bool d"
| "worth (Died j) = - of_bool j" | "worth _ = 0"

definition orphan :: "mutex \<Rightarrow> int" where
  "orphan m = of_bool (m = OwnerDied)"

definition counter_ok :: "region \<Rightarrow> bool" where
  "counter_ok s \<longleftrightarrow> procCount s =
     sum_list (map (\<lambda>p. worth (pos p)) (procs s)) + orphan (mtx s Count) + orphan (mtx s Res)"

lemma counter_move:
  assumes "counter_ok s" and "i < length (procs s)" and "procs u = procs s"
    and "procCount u + orphan (mtx s Count) + orphan (mtx s Res) + worth (pos (procs s ! i)) =
      procCount s + orphan (mtx u Count) + orphan (mtx u Res) + worth c"
  shows "counter_ok (move i c u)"
  using assms by (simp add: counter_ok_def sum_list_replace_int move_def)

lemma orphan_simps [simp]:
  "orphan OwnerDied = 1" "orphan Unlocked = 0" "orphan (Locked q) = 0" "orphan (Recovering q) = 0"
  by (simp_all add: orphan_def)

lemma orphan_shape [simp]: "orphan (shape q b) = 0"
  by (simp add: shape_def)

lemma die_shape [simp]: "mx_die q (shape q b) = OwnerDied"
  by (simp add: mx_die_def shape_def)

lemma die_other: "agrees mt view \<Longrightarrow> view q m = None \<Longrightarrow> mx_die q (mt m) = mt m"
  using agrees_view_None [of mt view q m True] agrees_view_None [of mt view q m False]
  by (simp add: mx_die_def shape_def)

lemma enter_counter:
  assumes ok: "mutexes_ok s" "counter_ok s" and i: "i < length (procs s)" and d: "\<not> destroyed s"
    and t: "enter j i m r k s = Some t"
    and h: "held (pos (procs s ! i)) m = None" "held (pos (procs s ! i)) Count = None"
    and k: "\<And>d. worth (k d) = worth (pos (procs s ! i)) + of_bool d"
    and w: "worth (Died j) = worth (pos (procs s ! i)) - 1 - of_bool (held (pos (procs s ! i)) Res \<noteq> None)"
  shows "counter_ok t"
proof -
  have a: "agrees (mtx s) (cview s)" using ok(1) by (simp add: mutexes_ok_def)
  note v = cview_own [OF i] and M = counter_move [OF ok(2) i]
  show ?thesis
  proof (cases "mx_lock i (mtx s m)")
    case (Acquired m')
    note L = agrees_lock(2,3) [OF a Acquired]
    have r: "mx_die i (mtx s Res) = mtx s Res \<and> held (pos (procs s ! i)) Res = None \<or>
        mx_die i (mtx s Res) = OwnerDied \<and> orphan (mtx s Res) = 0 \<and> held (pos (procs s ! i)) Res \<noteq> None"
      using die_other [OF a, of i Res] agrees_viewD [OF a, of i Res] v
      by (cases "held (pos (procs s ! i)) Res") auto
    have c: "mx_die i (mtx s Count) = mtx s Count" using die_other [OF a, of i Count] v h by simp
    have l: "mx_die i (Locked i) = OwnerDied" by (simp add: mx_die_def)
    show ?thesis
      using t d k w h L Acquired r c l
      by (cases m) (auto simp: enter_def random_death_lock_def split: if_splits intro!: M)
  next
    case (AcquiredDead m')
    note L = agrees_lock_dead(2,3) [OF a AcquiredDead]
    show ?thesis
      using t d k h L AcquiredDead by (cases m) (auto simp: enter_def random_death_lock_def intro!: M)
  qed (use t d agrees_never_fails [OF a] in \<open>auto simp: enter_def random_death_lock_def\<close>)
qed

lemma recount_counter:
  assumes ok: "mutexes_ok s" "counter_ok s" and i: "i < length (procs s)"
    and h: "held (pos (procs s ! i)) Count = Some d" and c: "worth c = worth (pos (procs s ! i)) + n - of_bool d"
  shows "counter_ok (move i c (recount i d n s))"
proof -
  have a: "agrees (mtx s) (cview s)" using ok(1) by (simp add: mutexes_ok_def)
  have m: "mtx s Count = shape i d" using agrees_viewD [OF a] h cview_own [OF i] by simp
  show ?thesis
    by (rule counter_move [OF ok(2) i])
      (use c m in \<open>cases d; simp add: shape_def mx_unlock_def mx_consistent_def\<close>)+
qed

lemma held_repaired: "(held (Repair h))(Res \<mapsto> False) = held (Recount h)"
  by (intro ext) auto

lemma held_added: "(held (Adding h))(Res := None) = held Loop"
  by (intro ext) auto

text \<open>One step keeps the mutexes and the counter in order until the region is closed.\<close>

lemma process_mutexes:
  assumes ok: "mutexes_ok s" "\<not> destroyed s" and i: "i < length (procs s)" and t: "process_step i r hit s = Some t"
    and f: "\<And>h. pos (procs s ! i) = Adding h \<Longrightarrow> in_int (total_randomized_points s + points (procs s ! i)) \<and> in_int (hit_points s + h)"
  shows "mutexes_ok t"
proof -
  have a: "agrees (mtx s) (cview s)" using ok(1) by (simp add: mutexes_ok_def)
  note v = cview_own [OF i] and M = ok_move [OF i ok(1)] and E = enter_ok [OF i ok] and R = recount_ok [OF i ok(1)]
  have same: "held c = held (pos (procs s ! i)) \<Longrightarrow> agrees (mtx s) ((cview s)(i := held c))" for c
    using a v by (simp add: fun_upd_idem)
  show ?thesis
  proof (cases "pos (procs s ! i)")
    case (Repair h)
    then have "cview s i Res = Some True" using v by simp
    moreover have "(cview s i)(Res \<mapsto> False) = held (Recount h)" using Repair v held_repaired by metis
    ultimately have "agrees ((mtx s)(Res := mx_consistent i (mtx s Res))) ((cview s)(i := held (Recount h)))"
      using agrees_consistent(1) [OF a, of i Res] by simp
    with Repair t show ?thesis by (auto simp: process_step_def Let_def intro!: M)
  next
    case (Adding h)
    then have "cview s i Res = Some False" using v by simp
    moreover have "(cview s i)(Res := None) = held Loop" using Adding v held_added by metis
    ultimately have u: "agrees ((mtx s)(Res := mx_unlock i (mtx s Res))) ((cview s)(i := held Loop))"
      using agrees_unlock(1) [OF a, of i Res] by simp
    have "became i Loop s t" "mtx t = (mtx s)(Res := mx_unlock i (mtx s Res))"
      using t Adding f by (auto simp: process_step_def add_batch_def Let_def release_def became_def)
    with became_ok [OF i _ ok(1), of Loop t] u show ?thesis by simp
  qed (use t in \<open>auto simp: process_step_def Let_def close_region_def fun_eq_iff not_Res split: if_splits intro!: M same R elim!: E\<close>)
qed

lemma process_counter:
  assumes ok: "mutexes_ok s" "counter_ok s" "\<not> destroyed s" and i: "i < length (procs s)"
    and t: "process_step i r hit s = Some t"
    and f: "\<And>h. pos (procs s ! i) = Adding h \<Longrightarrow> in_int (total_randomized_points s + points (procs s ! i)) \<and> in_int (hit_points s + h)"
  shows "counter_ok t"
proof -
  have a: "agrees (mtx s) (cview s)" using ok(1) by (simp add: mutexes_ok_def)
  note v = cview_own [OF i] and M = counter_move [OF ok(2) i] and E = enter_counter [OF ok(1,2) i ok(3)]
    and R = recount_counter [OF ok(1,2) i]
  show ?thesis
  proof (cases "pos (procs s ! i)")
    case (Repair h)
    then have "mtx s Res = shape i True" using agrees_viewD [OF a, of i Res True] v by simp
    with Repair t show ?thesis by (auto simp: process_step_def Let_def mx_consistent_def shape_def intro!: M)
  next
    case (Adding h)
    then have "mtx s Res = shape i False" using agrees_viewD [OF a, of i Res False] v by simp
    moreover have "procs t = (procs s)[i := (procs s ! i)\<lparr>pos := Loop, batch := batch (procs s ! i) + 1,
        found := found (procs s ! i) + h\<rparr>]" "procCount t = procCount s"
      "mtx t = (mtx s)(Res := mx_unlock i (mtx s Res))"
      using t Adding f by (auto simp: process_step_def add_batch_def Let_def release_def)
    ultimately show ?thesis
      using ok(2) Adding i by (simp add: counter_ok_def sum_list_replace_int mx_unlock_def shape_def)
  qed (use t in \<open>auto simp: process_step_def Let_def close_region_def split: if_splits intro!: M R elim!: E\<close>)
qed

section \<open>The invariant\<close>

definition calka_inv :: "region \<Rightarrow> bool" where
  "calka_inv s \<longleftrightarrow> capacity s \<le> 2147483647 \<and> totals_ok s \<and> (\<not> destroyed s \<longrightarrow> mutexes_ok s \<and> counter_ok s)"

lemma enter_procs: "enter j i m r k s = Some t \<Longrightarrow> \<exists>c. procs t = (procs s)[i := (procs s ! i)\<lparr>pos := c\<rparr>] \<and> destroyed t = destroyed s"
  by (auto simp: enter_def move_def split: if_splits outcome.splits)

lemma process_procs:
  assumes "process_step i r hit s = Some t"
  shows "\<exists>p. procs t = (procs s)[i := p] \<and> points p = points (procs s ! i) \<and> (destroyed s \<longrightarrow> destroyed t)"
proof (cases "pos (procs s ! i)")
  case (Adding h)
  with assms show ?thesis
    by (auto simp: process_step_def add_batch_def Let_def release_def move_def split: if_splits intro: exI [of _ "procs s ! i"])
qed (use assms in \<open>auto simp: process_step_def Let_def close_region_def move_def dest!: enter_procs split: if_splits\<close>)

lemma capacity_same:
  "procs t = (procs s)[i := p] \<Longrightarrow> i < length (procs s) \<Longrightarrow> points p = points (procs s ! i) \<Longrightarrow> capacity t = capacity s"
  by (simp add: capacity_def sum_list_replace_int)

lemma process_inv:
  assumes inv: "calka_inv s" and i: "i < length (procs s)" and t: "process_step i r hit s = Some t"
  shows "calka_inv t"
proof -
  have c: "capacity s \<le> 2147483647" and tot: "totals_ok s" using inv by (simp_all add: calka_inv_def)
  obtain p where p: "procs t = (procs s)[i := p]" "points p = points (procs s ! i)" "destroyed s \<longrightarrow> destroyed t"
    using process_procs [OF t] by blast
  have "mutexes_ok t \<and> counter_ok t" if "\<not> destroyed t"
  proof -
    from that p(3) have d: "\<not> destroyed s" by blast
    with inv have "mutexes_ok s" "counter_ok s" by (simp_all add: calka_inv_def)
    with process_mutexes process_counter d i t add_batch_totals(1) [OF tot i _ c] show ?thesis by blast
  qed
  with process_totals [OF tot i t c] capacity_same [OF p(1) i p(2)] c show ?thesis by (simp add: calka_inv_def)
qed

lemma sigint_inv:
  assumes inv: "calka_inv s" and i: "i < length (procs s)"
  shows "calka_inv (s\<lparr>procs := (procs s)[i := (procs s ! i)\<lparr>keep_running := False\<rparr>]\<rparr>)" (is "calka_inv ?t")
proof -
  let ?p = "(procs s ! i)\<lparr>keep_running := False\<rparr>"
  have tot: "totals_ok s" using inv by (simp add: calka_inv_def)
  then have "proc_ok ?p" using i by (auto simp: totals_ok_def proc_ok_def)
  then have "totals_ok ?t" by (intro totals_frame [OF tot i, of ?t ?p]) simp_all
  moreover have "mutexes_ok ?t \<and> counter_ok ?t" if "\<not> destroyed s"
  proof
    have m: "mutexes_ok s" "counter_ok s" using inv that by (simp_all add: calka_inv_def)
    have "became i (pos (procs s ! i)) s ?t" by (auto simp: became_def)
    moreover have "pos (procs s ! i) \<noteq> Broken" using m(1) i by (simp add: mutexes_ok_def)
    moreover have "(cview s)(i := held (pos (procs s ! i))) = cview s" using cview_own [OF i] by (simp add: fun_upd_idem)
    then have "agrees (mtx ?t) ((cview s)(i := held (pos (procs s ! i))))" using m(1) by (simp only: mutexes_ok_def) simp
    ultimately show "mutexes_ok ?t" by (intro became_ok [OF i _ m(1)])
    show "counter_ok ?t" using m(2) i by (simp add: counter_ok_def sum_list_replace_int)
  qed
  ultimately show ?thesis using inv i by (simp add: calka_inv_def capacity_def sum_list_replace_int)
qed

lemma step_inv: "calka_inv s \<Longrightarrow> calka_step s t \<Longrightarrow> calka_inv t"
  by (erule calka_step.cases) (auto intro: process_inv sigint_inv)

lemma sums_zero:
  fixes f :: "'a \<Rightarrow> int"
  shows "(\<And>x. x \<in> set xs \<Longrightarrow> f x = 0) \<Longrightarrow> sum_list (map f xs) = 0"
  by (induction xs) auto

lemma start_inv:
  assumes "3 * (\<bar>N\<bar> + (\<Sum>x\<leftarrow>others. \<bar>snd (snd x)\<bar>)) \<le> 2147483647"
  shows "calka_inv (calka_start a b N others)"
proof -
  let ?s = "calka_start a b N others"
  have p: "pos p = Printing \<or> (\<exists>x y. pos p = Fresh x y)" "batch p = 0" "found p = 0" if "p \<in> set (procs ?s)" for p
    using that by (auto simp: calka_start_def new_proc_def)
  have c: "capacity ?s = 3 * (\<bar>N\<bar> + (\<Sum>x\<leftarrow>others. \<bar>snd (snd x)\<bar>))"
    by (simp add: capacity_def calka_start_def new_proc_def comp_def split_beta sum_list_const_mult distrib_left)
  have z: "drawn p = 0" "found p = 0" if "p \<in> set (procs ?s)" for p using p that by (simp_all add: drawn_def)
  have "sum_list (map drawn (procs ?s)) = 0" "sum_list (map found (procs ?s)) = 0"
    using z sums_zero by blast+
  moreover have "proc_ok q" if "q \<in> set (procs ?s)" for q using p [OF that] by (auto simp: proc_ok_def)
  ultimately have tot: "totals_ok ?s" by (simp add: totals_ok_def) (simp add: calka_start_def)
  have "held (pos q) m = None" if "q \<in> set (procs ?s)" for q m using p [OF that] by auto
  then have "cview ?s q m = None" for q m by (simp add: cview_def)
  then have v: "cview ?s q m = None" for q m by simp
  have "mtx ?s = (\<lambda>_. Unlocked)" by (simp add: calka_start_def)
  with v have "agrees (mtx ?s) (cview ?s)" by (simp add: agrees_def)
  moreover have "pos q \<noteq> Broken" if "q \<in> set (procs ?s)" for q using p [OF that] by auto
  ultimately have "mutexes_ok ?s" by (simp add: mutexes_ok_def)
  moreover have "counter_ok ?s"
    by (simp add: counter_ok_def calka_start_def new_proc_def comp_def split_beta)
  moreover note tot
  ultimately show ?thesis using assms c by (simp add: calka_inv_def)
qed

section \<open>The computation ends\<close>

fun weight :: "nat \<Rightarrow> cpos \<Rightarrow> nat" where
  "weight b (Fresh x y) = 27" | "weight b Joining = 26" | "weight b (Joined d) = 25" | "weight b Printing = 24"
| "weight b (Printed d) = 23" | "weight b Loop = 4 + 6 * (3 - b)" | "weight b (Results h) = 9 + 6 * (2 - b)"
| "weight b (Repair h) = 8 + 6 * (2 - b)" | "weight b (Recount h) = 7 + 6 * (2 - b)"
| "weight b (Recounted h d) = 6 + 6 * (2 - b)" | "weight b (Adding h) = 5 + 6 * (2 - b)"
| "weight b Ending = 3" | "weight b (Leaving d) = 2" | "weight b Final = 1" | "weight b c = 0"

definition work_of :: "proc \<Rightarrow> nat" where
  "work_of p = weight (batch p) (pos p) + of_bool (keep_running p)"

definition work_left :: "region \<Rightarrow> nat" where
  "work_left s = sum_list (map work_of (procs s))"

lemma work_less:
  assumes "i < length (procs s)" and "procs t = (procs s)[i := p]" and "work_of p < work_of (procs s ! i)"
  shows "work_left t < work_left s"
proof -
  have "sum_list (map work_of (xs[i := p])) < sum_list (map work_of xs)"
    if "i < length xs" "work_of p < work_of (xs ! i)" for xs
    using that by (induction xs arbitrary: i) (auto split: nat.splits)
  with assms show ?thesis by (simp add: work_left_def)
qed

lemma move_less:
  assumes "i < length (procs s)" and "procs u = procs s" and "weight (batch (procs s ! i)) c < weight (batch (procs s ! i)) (pos (procs s ! i))"
  shows "work_left (move i c u) < work_left s"
  by (rule work_less [OF assms(1), of _ "(procs s ! i)\<lparr>pos := c\<rparr>"]) (use assms in \<open>simp_all add: move_def work_of_def\<close>)

lemma enter_less:
  assumes "enter j i m r k s = Some t" and "i < length (procs s)"
    and "\<And>d. weight (batch (procs s ! i)) (k d) < weight (batch (procs s ! i)) (pos (procs s ! i))"
    and "0 < weight (batch (procs s ! i)) (pos (procs s ! i))"
  shows "work_left t < work_left s"
  using assms move_less [OF assms(2)] by (auto simp: enter_def split: if_splits outcome.splits)

lemma process_less:
  assumes i: "i < length (procs s)" and t: "process_step i r hit s = Some t"
  shows "work_left t < work_left s"
proof (cases "pos (procs s ! i)")
  case (Adding h)
  have "procs t = (procs s)[i := (procs s ! i)\<lparr>pos := Loop, batch := batch (procs s ! i) + 1, found := found (procs s ! i) + h\<rparr>]
      \<or> procs t = (procs s)[i := (procs s ! i)\<lparr>pos := Broken\<rparr>]"
    using t Adding by (auto simp: process_step_def add_batch_def Let_def release_def move_def split: if_splits)
  then show ?thesis
    by (elim disjE) (erule work_less [OF i], simp add: work_of_def Adding)+
next
  case Loop
  have "3 - b = Suc (2 - b)" if "b < 3" for b :: nat using that by simp
  with t Loop move_less [OF i refl] show ?thesis by (auto simp: process_step_def Let_def split: if_splits)
qed (use t move_less [OF i] in \<open>auto simp: process_step_def Let_def close_region_def split: if_splits elim!: enter_less [OF _ i]\<close>)

lemma calka_step_less: "calka_step s t \<Longrightarrow> work_left t < work_left s"
proof (induction rule: calka_step.induct)
  case (process i s r hit t)
  then show ?case by (rule process_less)
next
  case (sigint i s)
  then show ?case by (intro work_less [of i _ _ "(procs s ! i)\<lparr>keep_running := False\<rparr>"]) (simp_all add: work_of_def)
qed

definition all_ended :: "region \<Rightarrow> bool" where
  "all_ended s \<longleftrightarrow> (\<forall>p \<in> set (procs s). ended p)"

lemma ended_stuck: "all_ended s \<Longrightarrow> \<not> calka_step s t"
  by (auto simp: all_ended_def ended_def process_step_def Let_def elim!: calka_step.cases split: cpos.splits)

text \<open>Only a process that holds the mutex of the results waits for that of the counter.\<close>

fun waits_at :: "cpos \<Rightarrow> which option" where
  "waits_at Joining = Some Count" | "waits_at Printing = Some Count" | "waits_at (Results h) = Some Res"
| "waits_at (Recount h) = Some Count" | "waits_at Ending = Some Count" | "waits_at _ = None"

definition waits :: "region \<Rightarrow> nat \<Rightarrow> which option" where
  "waits s q = (if q < length (procs s) then waits_at (pos (procs s ! q)) else None)"

definition holds :: "region \<Rightarrow> nat \<Rightarrow> which \<Rightarrow> bool" where
  "holds s q m \<longleftrightarrow> cview s q m \<noteq> None"

definition rank :: "which \<Rightarrow> nat" where
  "rank m = (case m of Res \<Rightarrow> 0 | Count \<Rightarrow> 1)"

definition running :: "region \<Rightarrow> nat set" where
  "running s = {q. q < length (procs s) \<and> \<not> ended (procs s ! q)}"

lemma ordered_at: "waits_at c = Some m \<Longrightarrow> held c m' \<noteq> None \<Longrightarrow> rank m' < rank m"
  by (cases c) (auto simp: rank_def split: if_splits)

interpretation order: lock_order "waits s" "holds s" rank "running s" for s
proof
  show "finite (running s)" by (simp add: running_def)
  show "rank m' < rank m" if "waits s q = Some m" "holds s q m'" for q m m'
    using that ordered_at by (auto simp: waits_def holds_def cview_def split: if_splits)
  show "q \<in> running s" if "holds s q m" for q m
    using that by (cases "pos (procs s ! q)") (auto simp: holds_def cview_def running_def ended_def split: if_splits)
qed

lemma enter_can: "destroyed s \<or> mx_lock i (mtx s m) \<noteq> Blocks \<Longrightarrow> \<exists>t. enter j i m r k s = Some t"
  by (auto simp: enter_def random_death_lock_def split: lock_result.splits)

lemma process_can:
  assumes "\<not> ended (procs s ! i)"
    and "\<And>m. waits_at (pos (procs s ! i)) = Some m \<Longrightarrow> destroyed s \<or> mx_lock i (mtx s m) \<noteq> Blocks"
  shows "\<exists>t. process_step i r hit s = Some t"
  using assms enter_can [of s i] by (cases "pos (procs s ! i)") (auto simp: process_step_def Let_def ended_def)

lemma somebody_can:
  assumes inv: "calka_inv s" and "\<not> all_ended s"
  shows "\<exists>t. calka_step s t"
proof -
  have ne: "running s \<noteq> {}" using assms(2) by (auto simp: all_ended_def running_def in_set_conv_nth)
  from order.not_all_blocked [OF ne] obtain q where
    q: "q < length (procs s)" "\<not> ended (procs s ! q)" and free: "\<forall>m. waits s q = Some m \<longrightarrow> \<not> (\<exists>q'. holds s q' m)"
    by (auto simp: running_def)
  have "destroyed s \<or> mx_lock q (mtx s m) \<noteq> Blocks" if "waits_at (pos (procs s ! q)) = Some m" for m
  proof (cases "destroyed s")
    case False
    with inv have "agrees (mtx s) (cview s)" by (simp add: calka_inv_def mutexes_ok_def)
    from agrees_blocks [OF this, of q m] free that q(1) show ?thesis by (auto simp: waits_def holds_def)
  qed simp
  with process_can [OF q(2)] obtain t where "process_step q 0 (\<lambda>_. True) s = Some t" by blast
  with q(1) show ?thesis by (blast intro: process)
qed

text \<open>Starts whose points all fit in an \<^verbatim>\<open>int\<close>.\<close>

definition calka_init :: "region \<Rightarrow> bool" where
  "calka_init s \<longleftrightarrow> (\<exists>a b N others. s = calka_start a b N others \<and>
     3 * (\<bar>N\<bar> + (\<Sum>x\<leftarrow>others. \<bar>snd (snd x)\<bar>)) \<le> 2147483647)"

interpretation calka: stopping_system calka_init calka_step calka_inv all_ended work_left
proof
  show "calka_inv s" if "calka_init s" for s using that start_inv by (auto simp: calka_init_def)
  show "calka_inv t" if "calka_inv s" "calka_step s t" for s t using that by (rule step_inv)
  show "work_left t < work_left s" if "calka_step s t" for s t using that by (rule calka_step_less)
  show "\<exists>t. calka_step s t" if "calka_inv s" "\<not> all_ended s" for s using that by (rule somebody_can)
  show "\<not> calka_step s t" if "all_ended s" for s t using that by (rule ended_stuck)
qed

section \<open>What the counter is worth\<close>

definition counted :: "proc \<Rightarrow> bool" where
  "counted p \<longleftrightarrow> (case pos p of Printing \<Rightarrow> True | Printed d \<Rightarrow> True | Loop \<Rightarrow> True | Results h \<Rightarrow> True
     | Repair h \<Rightarrow> True | Recount h \<Rightarrow> True | Recounted h d \<Rightarrow> True | Adding h \<Rightarrow> True | Ending \<Rightarrow> True
     | Leaving d \<Rightarrow> True | _ \<Rightarrow> False)"

text \<open>Nobody has aborted in the lock with which it joins.\<close>

definition no_dead_joiner :: "region \<Rightarrow> bool" where
  "no_dead_joiner s \<longleftrightarrow> (\<forall>p \<in> set (procs s). pos p \<noteq> Died True)"

lemma worth_counted: "pos p \<noteq> Died True \<Longrightarrow> of_bool (counted p) \<le> worth (pos p)"
  by (cases "pos p") (auto simp: counted_def)

lemma counted_le:
  fixes ps :: "proc list"
  shows "\<forall>p \<in> set ps. pos p \<noteq> Died True \<Longrightarrow> int (length (filter counted ps)) \<le> sum_list (map (\<lambda>p. worth (pos p)) ps)"
proof (induction ps)
  case (Cons p ps)
  then show ?case using worth_counted [of p] by (auto simp: of_bool_def split: if_splits)
qed simp

lemma worth_nonneg:
  fixes p :: proc
  shows "pos p \<noteq> Died True \<Longrightarrow> 0 \<le> worth (pos p)"
  using worth_counted [of p] by (auto simp: of_bool_def split: if_splits)

lemma orphan_nonneg: "0 \<le> orphan m"
  by (simp add: orphan_def)

lemma worth_zero:
  fixes ps :: "proc list"
  assumes "\<forall>p \<in> set ps. pos p \<noteq> Died True" and "(\<Sum>p\<leftarrow>ps. worth (pos p)) \<le> 0"
  shows "\<forall>p \<in> set ps. worth (pos p) = 0"
proof -
  have n: "\<forall>x \<in> set (map (\<lambda>p. worth (pos p)) ps). 0 \<le> x" using assms(1) worth_nonneg by auto
  with assms(2) have "(\<Sum>p\<leftarrow>ps. worth (pos p)) = 0" by (intro antisym sum_list_nonneg) auto
  with sum_list_nonneg_eq_0_iff [of "map (\<lambda>p. worth (pos p)) ps"] n show ?thesis by auto
qed

text \<open>Who holds the mutex of the results is counted.\<close>

lemma res_counted: "held (pos p) Res \<noteq> None \<Longrightarrow> counted p"
  by (cases "pos p") (auto simp: counted_def split: if_splits)

text \<open>
  C29: The counters of the integral.  Whoever joins, leaves, is interrupted or aborts at a lock, in any order,
  the counters of points and of hits hold exactly the batches that were added, at most three of each process
  and never more hits than points; and as long as the region is open a mutex has one owner, no lock fails,
  and the counter of processes is at least the number of counted processes alive, if nobody aborted while
  it was joining.
\<close>

theorem calka_counters:
  assumes "reach calka_init calka_step s"
  shows "total_randomized_points s = (\<Sum>p\<leftarrow>procs s. points p * int (batch p)) \<and>
    hit_points s = (\<Sum>p\<leftarrow>procs s. found p) \<and>
    (\<forall>p \<in> set (procs s). batch p \<le> 3 \<and> 0 \<le> found p \<and> found p \<le> max 0 (points p) * int (batch p)) \<and>
    (\<not> destroyed s \<longrightarrow> (\<forall>q q' m. holds s q m \<longrightarrow> holds s q' m \<longrightarrow> q = q') \<and> (\<forall>p \<in> set (procs s). pos p \<noteq> Broken) \<and>
      (no_dead_joiner s \<longrightarrow> int (length (filter counted (procs s))) \<le> procCount s))"
proof -
  have I: "calka_inv s" using calka.reach_inv [OF assms] .
  then have t: "totals_ok s" by (simp add: calka_inv_def)
  have dr: "drawn = (\<lambda>p. points p * int (batch p))" by (simp add: fun_eq_iff drawn_def)
  have "q = q'" if "\<not> destroyed s" "holds s q m" "holds s q' m" for q q' m
  proof -
    from I that(1) have "agrees (mtx s) (cview s)" by (simp add: calka_inv_def mutexes_ok_def)
    with that(2,3) agrees_exclusive [of "mtx s" "cview s" q m _ q'] show ?thesis by (auto simp: holds_def)
  qed
  moreover have "int (length (filter counted (procs s))) \<le> procCount s" if "\<not> destroyed s" "no_dead_joiner s"
    using I that counted_le [of "procs s"] orphan_nonneg [of "mtx s Count"] orphan_nonneg [of "mtx s Res"]
    by (simp add: calka_inv_def counter_ok_def no_dead_joiner_def)
  ultimately show ?thesis
    using t I unfolding totals_ok_def proc_ok_def dr calka_inv_def mutexes_ok_def by blast
qed

text \<open>
  C30: The result is printed at the end.  If nobody aborted while it was joining, the process that finds the
  counter at zero when it leaves is the last: no other process is counted, no dead one is still to be counted off and
  nobody holds a mutex, so the result is computed from all batches and the mutexes are free when they are destroyed.
\<close>

theorem calka_last:
  assumes "reach calka_init calka_step s" and "no_dead_joiner s" and "\<not> destroyed s"
    and "i < length (procs s)" and "process_step i r hit s = Some t" and "pos (procs t ! i) = Final"
  shows "(\<forall>j < length (procs s). j \<noteq> i \<longrightarrow> \<not> counted (procs s ! j)) \<and> procCount t = 0 \<and>
    mtx t Count = Unlocked \<and> mtx t Res = Unlocked"
proof -
  have I: "calka_inv s" using calka.reach_inv [OF assms(1)] .
  have "calka_inv t" using process_inv [OF I assms(4,5)] .
  obtain d where d: "pos (procs s ! i) = Leaving d"
    using assms(4-6) by (cases "pos (procs s ! i)")
      (auto simp: process_step_def Let_def close_region_def add_batch_def release_def move_def enter_def
        split: if_splits outcome.splits)
  then have t: "t = move i Final (recount i d (- 1) s)" "procCount t = 0"
    using assms(4-6) by (auto simp: process_step_def Let_def move_def split: if_splits)
  have nd: "\<not> destroyed t" using assms(3) t(1) by simp
  with \<open>calka_inv t\<close> have c: "counter_ok t" and a: "agrees (mtx t) (cview t)"
    by (simp_all add: calka_inv_def mutexes_ok_def)
  have pt: "procs t = (procs s)[i := (procs s ! i)\<lparr>pos := Final\<rparr>]" using t(1) by (simp add: move_def)
  have dj: "\<forall>p \<in> set (procs t). pos p \<noteq> Died True"
    using assms(2) all_replace [of "procs s" "\<lambda>p. pos p \<noteq> Died True" "(procs s ! i)\<lparr>pos := Final\<rparr>" i] pt
    by (simp add: no_dead_joiner_def)
  have "(\<Sum>p\<leftarrow>procs t. worth (pos p)) + orphan (mtx t Count) + orphan (mtx t Res) = 0"
    using c t(2) by (simp add: counter_ok_def)
  moreover have "0 \<le> (\<Sum>p\<leftarrow>procs t. worth (pos p))" using dj worth_nonneg by (intro sum_list_nonneg) auto
  ultimately have z: "(\<Sum>p\<leftarrow>procs t. worth (pos p)) \<le> 0" "orphan (mtx t Res) = 0"
    using orphan_nonneg [of "mtx t Count"] orphan_nonneg [of "mtx t Res"] by linarith+
  have w: "\<not> counted p" if "p \<in> set (procs t)" for p
    using worth_zero [OF dj z(1)] dj worth_counted [of p] that by force
  have "\<not> counted (procs s ! j)" if "j < length (procs s)" "j \<noteq> i" for j
    using w [OF nth_mem, of j] that pt by simp
  moreover have "cview t q Res = None" for q
    using w res_counted by (force simp: cview_def)
  then have "mtx t Res = Unlocked" using agrees_unheld [OF a, of Res] z(2) by auto
  moreover have "agrees (mtx s) (cview s)" using I assms(3) by (simp add: calka_inv_def mutexes_ok_def)
  then have "mtx s Count = shape i d" using agrees_viewD [of _ "cview s" i Count d] d cview_own [OF assms(4)] by simp
  then have "mtx t Count = Unlocked" using t(1) by (simp add: mx_unlock_def mx_consistent_def shape_def)
  ultimately show ?thesis using t(2) by blast
qed

section \<open>Runs\<close>

text \<open>Process \<open>i\<close> takes a step, \<open>r\<close> the answer of \<^verbatim>\<open>rand\<close>; every point hits.\<close>

definition one_step :: "nat \<times> 31 word \<Rightarrow> region \<Rightarrow> region option" where
  "one_step = (\<lambda>(i, r) s. if i < length (procs s) then process_step i r (\<lambda>_. True) s else None)"

lemma one_step_calka: "one_step x s = Some t \<Longrightarrow> calka_step s t"
  by (cases x) (auto simp: one_step_def intro: calka_step.process split: if_splits)

lemma run_reach: "reach I calka_step s \<Longrightarrow> run_steps one_step xs s = Some t \<Longrightarrow> reach I calka_step t"
  by (rule run_steps_reach [where f = one_step]) (rule one_step_calka)

lemma all_points: "randomize_points 10 (\<lambda>_. True) = 10"
  by (simp add: randomize_points_def)

lemmas calka_eval = one_step_def process_step_def enter_def random_death_lock_def mx_lock_def mx_die_def mx_unlock_def mx_consistent_def
  move_def recount_def take_over_def release_def add_batch_def close_region_def Let_def in_int_def all_points replicate_numeral_Cons
  calka_start_def new_proc_def

definition demo_calka :: region where
  "demo_calka = calka_start (- 1) 1 10 [(- 1, 1, 20), (- 1, 1, 10)]"

lemma demo_init: "reach calka_init calka_step demo_calka"
proof (rule reach_init)
  show "calka_init demo_calka"
    unfolding calka_init_def demo_calka_def by (intro exI conjI, rule refl) simp
qed

text \<open>The first process works alone until it has the mutex for leaving.\<close>

definition alone :: "nat \<Rightarrow> region option" where
  "alone n = run_steps one_step (replicate n (0, 1)) demo_calka"

lemma alone_13: "\<exists>s t. alone 13 = Some s \<and> 0 < length (procs s) \<and> \<not> destroyed s \<and> no_dead_joiner s \<and>
    process_step 0 1 (\<lambda>_. True) s = Some t \<and> pos (procs t ! 0) = Final"
  by (simp add: alone_def demo_calka_def no_dead_joiner_def calka_eval)

text \<open>The result lies between nothing and the whole width, as the function is at most 1.\<close>

lemma summarize_bounds:
  assumes "summarize_calculations tot hits a b = Some x" and "hits \<le> tot" and "a \<le> b"
  shows "0 \<le> x \<and> x \<le> b - a"
proof -
  have "real h / real k \<le> 1" if "h \<le> k" for h k :: nat using that by (auto simp: divide_le_eq_1)
  then have q: "real (unat hits) / real (unat tot) \<le> 1" using assms(2) by (simp only: word_le_nat_alt)
  have "0 \<le> real (unat hits) / real (unat tot)" by (intro divide_nonneg_nonneg of_nat_0_le_iff)
  have "x = (b - a) * (real (unat hits) / real (unat tot))"
    using assms(1) by (simp add: summarize_calculations_def split: if_splits)
  with q \<open>0 \<le> _\<close> assms(3) mult_left_le [of "real (unat hits) / real (unat tot)" "b - a"]
    mult_nonneg_nonneg [of "b - a" "real (unat hits) / real (unat tot)"] show ?thesis by linarith
qed

lemma alone_reached: "alone n = Some s \<Longrightarrow> reach calka_init calka_step s"
  unfolding alone_def by (rule run_reach [OF demo_init])

lemma alone_5: "\<exists>s. alone 5 = Some s \<and> map batch (procs s) = [1, 0, 0] \<and> map points (procs s) = [10, 20, 10]
    \<and> total_randomized_points s = 10 \<and> hit_points s = 10 \<and> \<not> destroyed s \<and> no_dead_joiner s \<and> filter counted (procs s) \<noteq> []"
  by (simp add: alone_def demo_calka_def no_dead_joiner_def counted_def calka_eval)

theorem calka_counters_witness:
  "\<exists>s. reach calka_init calka_step s \<and> map batch (procs s) = [1, 0, 0] \<and> total_randomized_points s = 10 \<and>
    hit_points s = (\<Sum>p\<leftarrow>procs s. found p) \<and> 1 \<le> procCount s"
proof -
  obtain s where s: "alone 5 = Some s" "map batch (procs s) = [1, 0, 0]" "total_randomized_points s = 10"
    "\<not> destroyed s" "no_dead_joiner s" "filter counted (procs s) \<noteq> []" using alone_5 by (elim exE conjE)
  note C = calka_counters [OF alone_reached [OF s(1)]]
  have "hit_points s = (\<Sum>p\<leftarrow>procs s. found p)" by (rule C [THEN conjunct2, THEN conjunct1])
  moreover have "int (length (filter counted (procs s))) \<le> procCount s"
    using C [THEN conjunct2, THEN conjunct2, THEN conjunct2] s(4,5) by blast
  moreover have "0 < length (filter counted (procs s))" using s(6) by (simp only: length_greater_0_conv not_False_eq_True)
  ultimately have "hit_points s = (\<Sum>p\<leftarrow>procs s. found p) \<and> 1 \<le> procCount s" by linarith
  then show ?thesis using s(2,3) alone_reached [OF s(1)] by (intro exI [of _ s] conjI) simp_all
qed

theorem calka_last_witness:
  "\<exists>s t. reach calka_init calka_step s \<and> process_step 0 1 (\<lambda>_. True) s = Some t \<and> pos (procs t ! 0) = Final \<and>
    procCount t = 0 \<and> mtx t Count = Unlocked \<and> mtx t Res = Unlocked"
proof -
  obtain s t where s: "alone 13 = Some s" "0 < length (procs s)" "\<not> destroyed s" "no_dead_joiner s"
    "process_step 0 1 (\<lambda>_. True) s = Some t" "pos (procs t ! 0) = Final" using alone_13 by (elim exE conjE)
  from calka_last [OF alone_reached [OF s(1)] s(4,3,2,5,6)] s alone_reached [OF s(1)] show ?thesis by blast
qed

text \<open>The computation ends: no run is infinite, and it is only stuck when every process has ended.\<close>

theorem calka_ends:
  "reach calka_init calka_step s \<Longrightarrow> wfp (\<lambda>t s. calka_step s t) \<and> ((\<nexists>t. calka_step s t) \<longleftrightarrow> all_ended s)"
  using calka.no_infinite_run calka.stuck_iff_final by blast

text \<open>
  Two ways in which the region is closed too early.  A process that has attached to it but has not counted
  itself yet, and one that aborts in the lock with which it joins and is then counted off all the same.
\<close>

abbreviation survive :: "nat \<Rightarrow> nat \<Rightarrow> (nat \<times> 31 word) list" where
  "survive n i \<equiv> replicate n (i, 1)"

lemma too_late: "\<exists>s. run_steps one_step (survive 1 1 @ survive 15 0 @ survive 1 1) demo_calka = Some s \<and>
    map pos (procs s) = [Gone, Broken, Fresh (- 1) 1]"
  by (simp add: demo_calka_def calka_eval)

lemma dead_joiner: "\<exists>s. run_steps one_step (survive 3 1 @ survive 1 2 @ [(2, 0)] @ survive 15 0) demo_calka = Some s \<and>
    map pos (procs s) = [Gone, Printing, Died True] \<and> destroyed s \<and> counted (procs s ! 1)"
  by (simp add: demo_calka_def calka_eval counted_def)

text \<open>
  The region can be closed while it is in use.  Without any abort or signal, a process that attached to
  the region but had not yet counted itself finds the mutex destroyed; and after one abort in the lock with
  which a process joins, the result is printed and the mutexes are destroyed although a counted process
  still works.
\<close>

theorem calka_closed_in_use:
  "(\<exists>s. reach calka_init calka_step s \<and> map pos (procs s) = [Gone, Broken, Fresh (- 1) 1]) \<and>
   (\<exists>s. reach calka_init calka_step s \<and> map pos (procs s) = [Gone, Printing, Died True] \<and> destroyed s \<and> counted (procs s ! 1))"
  using too_late dead_joiner run_reach [OF demo_init] by meson

end
