(* ===== verification/Pi.thy ===== *)
theory Pi
  imports Ctext Complex_Main
begin

text \<open>
  \<^verbatim>\<open>lab06/l6-1/l6-1.c\<close>: children estimate pi from random points, each writes its share into
  its place of a shared array and a line into its place of a mapped file; the parent, when \<^verbatim>\<open>wait\<close>
  finds no child any more, averages.  Every store, \<^verbatim>\<open>fork\<close> and \<^verbatim>\<open>wait\<close> is a step of
  its own; a \<^verbatim>\<open>fork\<close> that fails ends the parent and is not a step.  The points
  are compared exactly and the shares are reals: the rounding of floating-point numbers is left out (a share has
  five digits, which \<^verbatim>\<open>float\<close> keeps).
\<close>

abbreviation MONTE_CARLO_ITERS :: nat where "MONTE_CARLO_ITERS \<equiv> 100000"
abbreviation LOG_LEN :: nat where "LOG_LEN \<equiv> 8"

record shared =
  data :: "real list"
  log_file :: string

section \<open>The program\<close>

text \<open>\<open>x\<close> and \<open>y\<close> are what \<^verbatim>\<open>rand\<close> returns for a point; \<^verbatim>\<open>RAND_MAX\<close> is 2147483647.\<close>

definition inside :: "nat \<times> nat \<Rightarrow> bool" where
  "inside = (\<lambda>(x, y). x * x + y * y \<le> 2147483647 * 2147483647)"

definition sample_of :: "(nat \<times> nat) list \<Rightarrow> nat" where
  "sample_of ps = length (filter inside ps)"

text \<open>\<^verbatim>\<open>"%7.5f\n"\<close> of four times the share.\<close>

definition log_text :: "nat \<Rightarrow> string" where
  "log_text sample =
     (let k = 4 * sample in
      show_nat (k div 100000) @ CHR ''.'' # map (\<lambda>d. digit_char (k div 10 ^ d mod 10)) [4, 3, 2, 1, 0] @ [CHR 0x0A])"

definition memcpy_at :: "nat \<Rightarrow> string \<Rightarrow> string \<Rightarrow> string" where
  "memcpy_at a b s = take a s @ b @ drop (a + length b) s"

text \<open>The two stores of a child into shared memory: its share, and its line.\<close>

definition store_share :: "nat \<Rightarrow> (nat \<times> nat) list \<Rightarrow> shared \<Rightarrow> shared" where
  "store_share n ps s = s\<lparr>data := (data s)[n := real (sample_of ps) / real MONTE_CARLO_ITERS]\<rparr>"

definition store_line :: "nat \<Rightarrow> (nat \<times> nat) list \<Rightarrow> shared \<Rightarrow> shared" where
  "store_line n ps s = s\<lparr>log_file := memcpy_at (n * LOG_LEN) (take LOG_LEN (log_text (sample_of ps))) (log_file s)\<rparr>"

definition pi_args :: "nat \<Rightarrow> int \<Rightarrow> bool" where
  "pi_args argc n \<longleftrightarrow> argc = 2 \<and> \<not> (n \<le> 0 \<or> n > 30)"

text \<open>
  A child, from before its \<^verbatim>\<open>fork\<close> to the \<^verbatim>\<open>wait\<close> of the parent that finds it.
\<close>

datatype cpos = Unborn | Sampling | Logging | Ended | Reaped

text \<open>
  \<open>to_fork\<close> is the counter of \<^verbatim>\<open>create_children\<close>, which the parent leaves at zero;
  \<open>average\<close> what it prints at its end.
\<close>

record pi_run =
  mem :: shared
  to_fork :: nat
  children :: "cpos list"
  average :: "real option"

definition pi_start :: "nat \<Rightarrow> pi_run" where
  "pi_start n = \<lparr>mem = \<lparr>data = replicate n 0, log_file = replicate (n * LOG_LEN) (CHR 0x00)\<rparr>, to_fork = n,
     children = replicate n Unborn, average = None\<rparr>"

text \<open>The next step of child \<open>i\<close>, whose points are \<open>ps\<close>.\<close>

definition child_work :: "nat \<Rightarrow> (nat \<times> nat) list \<Rightarrow> pi_run \<Rightarrow> pi_run option" where
  "child_work i ps s =
     (case children s ! i of
        Sampling \<Rightarrow> Some (s\<lparr>mem := store_share i ps (mem s), children := (children s)[i := Logging]\<rparr>)
      | Logging \<Rightarrow> Some (s\<lparr>mem := store_line i ps (mem s), children := (children s)[i := Ended]\<rparr>)
      | _ \<Rightarrow> None)"

text \<open>\<^verbatim>\<open>fork\<close> of the next child, the last index first.\<close>

definition create_children :: "pi_run \<Rightarrow> pi_run option" where
  "create_children s =
     (case to_fork s of 0 \<Rightarrow> None | Suc k \<Rightarrow> Some (s\<lparr>to_fork := k, children := (children s)[k := Sampling]\<rparr>))"

text \<open>
  \<^verbatim>\<open>wait\<close> blocks while no child has ended and one is left, returns an ended child, \<open>i\<close>, and fails
  with \<^verbatim>\<open>ECHILD\<close> when none is left; then the parent adds up.
\<close>

definition mean :: "shared \<Rightarrow> nat \<Rightarrow> real" where
  "mean m n = sum_list (map (\<lambda>i. data m ! i) [0..<n]) / real n"

definition parent_work :: "nat \<Rightarrow> pi_run \<Rightarrow> pi_run option" where
  "parent_work i s =
     (if 0 < to_fork s \<or> average s \<noteq> None then None
      else if \<forall>c \<in> set (children s). c = Reaped
      then Some (s\<lparr>average := Some (mean (mem s) (length (children s)) * 4)\<rparr>)
      else if i < length (children s) \<and> children s ! i = Ended then Some (s\<lparr>children := (children s)[i := Reaped]\<rparr>)
      else None)"

inductive pi_step :: "(nat \<Rightarrow> (nat \<times> nat) list) \<Rightarrow> pi_run \<Rightarrow> pi_run \<Rightarrow> bool" for ps where
  forks: "create_children s = Some t \<Longrightarrow> pi_step ps s t"
| works: "i < length (children s) \<Longrightarrow> child_work i (ps i) s = Some t \<Longrightarrow> pi_step ps s t"
| waits: "parent_work i s = Some t \<Longrightarrow> pi_step ps s t"

section \<open>The places of the children\<close>

lemma sample_le: "sample_of ps \<le> length ps"
  by (simp add: sample_of_def)

lemma length_log_text:
  assumes "sample \<le> MONTE_CARLO_ITERS"
  shows "length (log_text sample) = LOG_LEN"
proof -
  have "4 * sample div 100000 < 10" using assms by simp
  then have "length (show_nat (4 * sample div 100000)) = 1" by (simp add: show_nat.simps)
  then show ?thesis by (simp add: log_text_def Let_def)
qed

lemma length_memcpy: "a + length b \<le> length s \<Longrightarrow> length (memcpy_at a b s) = length s"
  by (simp add: memcpy_at_def)

text \<open>Part \<open>j\<close> of a file of lines of the same length.\<close>

definition line :: "nat \<Rightarrow> string \<Rightarrow> string" where
  "line j s = take LOG_LEN (drop (j * LOG_LEN) s)"

lemma nth_memcpy:
  assumes "a + length b \<le> length s" and "m < length s"
  shows "memcpy_at a b s ! m = (if m < a then s ! m else if m < a + length b then b ! (m - a) else s ! m)"
  using assms by (auto simp: memcpy_at_def nth_append min_def)

lemma nth_line: "k < LOG_LEN \<Longrightarrow> (j + 1) * LOG_LEN \<le> length s \<Longrightarrow> line j s ! k = s ! (j * LOG_LEN + k)"
  by (simp add: line_def)

lemma length_line: "(j + 1) * LOG_LEN \<le> length s \<Longrightarrow> length (line j s) = LOG_LEN"
  by (simp add: line_def)

lemma line_memcpy:
  assumes b: "length b = LOG_LEN" and i: "(i + 1) * LOG_LEN \<le> length s" and j: "(j + 1) * LOG_LEN \<le> length s"
  shows "line j (memcpy_at (i * LOG_LEN) b s) = (if j = i then b else line j s)"
proof (rule nth_equalityI)
  have l: "length (memcpy_at (i * LOG_LEN) b s) = length s" using b i by (intro length_memcpy) simp
  then show "length (line j (memcpy_at (i * LOG_LEN) b s)) = length (if j = i then b else line j s)"
    using b length_line [OF j] length_line [of j "memcpy_at (i * LOG_LEN) b s"] j by simp
  fix k assume "k < length (line j (memcpy_at (i * LOG_LEN) b s))"
  then have k: "k < LOG_LEN" using length_line [of j "memcpy_at (i * LOG_LEN) b s"] j l by simp
  have "line j (memcpy_at (i * LOG_LEN) b s) ! k = memcpy_at (i * LOG_LEN) b s ! (j * LOG_LEN + k)"
    using j l k by (intro nth_line) simp_all
  also have "\<dots> = (if j = i then b ! k else s ! (j * LOG_LEN + k))"
  proof -
    consider "j < i" | "j = i" | "i < j" by linarith
    then show ?thesis
    proof cases
      case 1
      then have "(j + 1) * LOG_LEN \<le> i * LOG_LEN" by (intro mult_right_mono) simp_all
      with 1 k b i j show ?thesis by (subst nth_memcpy) simp_all
    next
      case 2
      with k b i j show ?thesis by (subst nth_memcpy) simp_all
    next
      case 3
      then have "(i + 1) * LOG_LEN \<le> j * LOG_LEN" by (intro mult_right_mono) simp_all
      with 3 k b i j show ?thesis by (subst nth_memcpy) simp_all
    qed
  qed
  finally show "line j (memcpy_at (i * LOG_LEN) b s) ! k = (if j = i then b else line j s) ! k"
    using nth_line [OF k j] by simp
qed

lemma lines_concat: "length s = n * LOG_LEN \<Longrightarrow> s = concat (map (\<lambda>j. line j s) [0..<n])"
proof (induction n arbitrary: s)
  case (Suc n)
  let ?t = "take (n * LOG_LEN) s"
  have "line j ?t = line j s" if "j < n" for j
  proof -
    have "(j + 1) * LOG_LEN \<le> n * LOG_LEN" using that by (intro mult_right_mono) simp_all
    then show ?thesis by (simp add: line_def drop_take)
  qed
  then have m: "map (\<lambda>j. line j ?t) [0..<n] = map (\<lambda>j. line j s) [0..<n]" by simp
  have "length ?t = n * LOG_LEN" using Suc.prems by simp
  from Suc.IH [OF this] have "concat (map (\<lambda>j. line j s) [0..<n]) = ?t" unfolding m by simp
  moreover have "line n s = drop (n * LOG_LEN) s" using Suc.prems by (simp add: line_def)
  ultimately show ?case by simp
qed simp

section \<open>What has been written\<close>

definition stored :: "cpos \<Rightarrow> bool" where
  "stored c \<longleftrightarrow> c = Logging \<or> c = Ended \<or> c = Reaped"

definition logged :: "cpos \<Rightarrow> bool" where
  "logged c \<longleftrightarrow> c = Ended \<or> c = Reaped"

definition pi_inv :: "(nat \<Rightarrow> (nat \<times> nat) list) \<Rightarrow> nat \<Rightarrow> pi_run \<Rightarrow> bool" where
  "pi_inv ps n s \<longleftrightarrow> length (children s) = n \<and> to_fork s \<le> n \<and>
     length (data (mem s)) = n \<and> length (log_file (mem s)) = n * LOG_LEN \<and>
     (\<forall>j < n. (children s ! j = Unborn \<longleftrightarrow> j < to_fork s) \<and>
        (stored (children s ! j) \<longrightarrow> data (mem s) ! j = real (sample_of (ps j)) / real MONTE_CARLO_ITERS) \<and>
        (logged (children s ! j) \<longrightarrow> line j (log_file (mem s)) = log_text (sample_of (ps j)))) \<and>
     (\<forall>v. average s = Some v \<longrightarrow> to_fork s = 0 \<and> (\<forall>c \<in> set (children s). c = Reaped) \<and> v = mean (mem s) n * 4)"

lemma pi_invD:
  assumes "pi_inv ps n s"
  shows "length (children s) = n" "to_fork s \<le> n" "length (data (mem s)) = n" "length (log_file (mem s)) = n * LOG_LEN"
    "j < n \<Longrightarrow> children s ! j = Unborn \<longleftrightarrow> j < to_fork s"
    "j < n \<Longrightarrow> stored (children s ! j) \<Longrightarrow> data (mem s) ! j = real (sample_of (ps j)) / real MONTE_CARLO_ITERS"
    "j < n \<Longrightarrow> logged (children s ! j) \<Longrightarrow> line j (log_file (mem s)) = log_text (sample_of (ps j))"
    "average s = Some v \<Longrightarrow> to_fork s = 0 \<and> (\<forall>c \<in> set (children s). c = Reaped) \<and> v = mean (mem s) n * 4"
  using assms unfolding pi_inv_def by blast+

lemma pi_start_inv: "pi_inv ps n (pi_start n)"
  by (simp add: pi_inv_def pi_start_def stored_def logged_def)

lemma forks_inv:
  assumes I: "pi_inv ps n s" and t: "create_children s = Some t"
  shows "pi_inv ps n t"
proof -
  obtain k where k: "to_fork s = Suc k" and t: "t = s\<lparr>to_fork := k, children := (children s)[k := Sampling]\<rparr>"
    using t by (auto simp: create_children_def split: nat.splits)
  show ?thesis
    using pi_invD [OF I] k unfolding pi_inv_def
    by (auto simp: t nth_list_update stored_def logged_def split: if_splits)
qed

lemma works_inv:
  assumes le: "\<And>i. sample_of (ps i) \<le> MONTE_CARLO_ITERS" and I: "pi_inv ps n s"
    and i: "i < length (children s)" and t: "child_work i (ps i) s = Some t"
  shows "pi_inv ps n t"
proof -
  note D = pi_invD [OF I]
  have i: "i < n" using i D(1) by simp
  have fit: "(j + 1) * LOG_LEN \<le> length (log_file (mem s))" if "j < n" for j
    using that D(4) mult_right_mono [of "j + 1" n LOG_LEN] by simp
  have l: "length (log_text (sample_of (ps i))) = LOG_LEN" by (rule length_log_text [OF le])
  have none: "average s = None"
  proof (rule ccontr)
    assume "average s \<noteq> None"
    then have "children s ! i = Reaped" using D(1,8) i by auto
    then show False using t by (simp add: child_work_def)
  qed
  consider (share) "children s ! i = Sampling" "t = s\<lparr>mem := store_share i (ps i) (mem s), children := (children s)[i := Logging]\<rparr>"
    | (line) "children s ! i = Logging" "t = s\<lparr>mem := store_line i (ps i) (mem s), children := (children s)[i := Ended]\<rparr>"
    using t by (auto simp: child_work_def split: cpos.splits)
  then show ?thesis
  proof cases
    case share
    then show ?thesis using D(1-7) i none D(5) [OF i] unfolding pi_inv_def
      by (auto simp: store_share_def nth_list_update stored_def logged_def)
  next
    case line
    have "length (log_file (mem t)) = n * LOG_LEN"
      using D(4) fit [OF i] l by (simp add: line(2) store_line_def length_memcpy)
    moreover have "line j (log_file (mem t)) = (if j = i then log_text (sample_of (ps i)) else line j (log_file (mem s)))"
      if "j < n" for j
      using line_memcpy [OF l fit [OF i] fit [OF that]] l by (simp add: line(2) store_line_def)
    ultimately show ?thesis using D(1-7) i none D(5) [OF i] line unfolding pi_inv_def
      by (auto simp: store_line_def nth_list_update stored_def logged_def)
  qed
qed

lemma waits_inv:
  assumes I: "pi_inv ps n s" and t: "parent_work i s = Some t"
  shows "pi_inv ps n t"
  using t pi_invD [OF I] unfolding pi_inv_def
  by (auto simp: parent_work_def nth_list_update stored_def logged_def split: if_splits)

section \<open>The program ends\<close>

fun steps_left :: "cpos \<Rightarrow> nat" where
  "steps_left Unborn = 0" | "steps_left Sampling = 3" | "steps_left Logging = 2" | "steps_left Ended = 1" | "steps_left Reaped = 0"

definition pi_measure :: "pi_run \<Rightarrow> nat" where
  "pi_measure s = 4 * to_fork s + sum_list (map steps_left (children s)) + (if average s = None then 1 else 0)"

lemma sum_list_update_le:
  fixes f :: "'a \<Rightarrow> nat"
  shows "sum_list (map f (xs[k := y])) \<le> sum_list (map f xs) + f y"
  using sum_list_replace [of k xs f y] by (cases "k < length xs") (simp_all add: list_update_beyond)

lemma pi_step_less:
  assumes "pi_step ps s t"
  shows "pi_measure t < pi_measure s"
  using assms
proof cases
  case forks
  then obtain k where k: "to_fork s = Suc k" and t: "t = s\<lparr>to_fork := k, children := (children s)[k := Sampling]\<rparr>"
    by (auto simp: create_children_def split: nat.splits)
  show ?thesis using sum_list_update_le [of steps_left "children s" k Sampling] k by (simp add: t pi_measure_def)
next
  case (works i)
  then show ?thesis using sum_list_replace [OF works(1), of steps_left Logging] sum_list_replace [OF works(1), of steps_left Ended]
    by (cases "children s ! i") (auto simp: child_work_def pi_measure_def)
next
  case (waits i)
  then show ?thesis using sum_list_replace [of i "children s" steps_left Reaped]
    by (auto simp: parent_work_def pi_measure_def split: if_splits)
qed

lemma pi_goes_on:
  assumes I: "pi_inv ps n s" and a: "average s = None"
  shows "\<exists>t. pi_step ps s t"
proof (cases "to_fork s")
  case (Suc k)
  then have "create_children s = Some (s\<lparr>to_fork := k, children := (children s)[k := Sampling]\<rparr>)"
    by (simp add: create_children_def)
  then show ?thesis by (blast intro: forks)
next
  case 0
  show ?thesis
  proof (cases "\<forall>c \<in> set (children s). c = Reaped")
    case True
    with 0 a have "parent_work 0 s \<noteq> None" by (simp add: parent_work_def)
    then show ?thesis by (auto intro: waits)
  next
    case False
    then obtain i where i: "i < length (children s)" "children s ! i \<noteq> Reaped" by (auto simp: in_set_conv_nth)
    moreover have "children s ! i \<noteq> Unborn" using pi_invD(1,5) [OF I] i(1) 0 by simp
    ultimately consider "child_work i (ps i) s \<noteq> None" | "children s ! i = Ended"
      by (cases "children s ! i") (auto simp: child_work_def)
    then show ?thesis
    proof cases
      case 1
      with i(1) show ?thesis by (auto intro: works)
    next
      case 2
      with 0 a i(1) False have "parent_work i s \<noteq> None" by (simp add: parent_work_def)
      then show ?thesis by (auto intro: waits)
    qed
  qed
qed

definition pi_over :: "pi_run \<Rightarrow> bool" where
  "pi_over s \<longleftrightarrow> average s \<noteq> None \<and> to_fork s = 0 \<and> (\<forall>c \<in> set (children s). c = Reaped)"

lemma pi_over_reaped: "pi_over s \<Longrightarrow> i < length (children s) \<Longrightarrow> children s ! i = Reaped"
  by (simp add: pi_over_def)

lemma pi_over_no_step: "pi_over s \<Longrightarrow> \<not> pi_step ps s t"
  by (auto simp: pi_over_reaped child_work_def elim!: pi_step.cases)
    (auto simp: pi_over_def create_children_def parent_work_def)

text \<open>The points of a child.\<close>

abbreviation points :: "(nat \<Rightarrow> (nat \<times> nat) list) \<Rightarrow> bool" where
  "points ps \<equiv> \<forall>i. length (ps i) = MONTE_CARLO_ITERS"

lemma points_le: "points ps \<Longrightarrow> sample_of (ps i) \<le> MONTE_CARLO_ITERS"
  using sample_le [of "ps i"] by simp

lemma pi_inv_step:
  assumes "pi_inv ps n s" and "points ps" and "pi_step ps s t"
  shows "pi_inv ps n t"
  using assms(3)
proof cases
  case forks
  then show ?thesis by (rule forks_inv [OF assms(1)])
next
  case (works i)
  then show ?thesis by (rule works_inv [OF points_le [OF assms(2)] assms(1)])
next
  case (waits i)
  then show ?thesis by (rule waits_inv [OF assms(1)])
qed

interpretation monte_carlo: stopping_system "\<lambda>s. points ps \<and> s = pi_start n" "pi_step ps"
  "\<lambda>s. points ps \<and> pi_inv ps n s" pi_over pi_measure for ps n
proof
  show "points ps \<and> pi_inv ps n s" if "points ps \<and> s = pi_start n" for s using that pi_start_inv by blast
  show "points ps \<and> pi_inv ps n t" if "points ps \<and> pi_inv ps n s" "pi_step ps s t" for s t using that pi_inv_step by blast
  show "pi_measure t < pi_measure s" if "pi_step ps s t" for s t using that by (rule pi_step_less)
  show "\<exists>t. pi_step ps s t" if "points ps \<and> pi_inv ps n s" "\<not> pi_over s" for s
    using that pi_goes_on pi_invD(8) unfolding pi_over_def by blast
  show "\<not> pi_step ps s t" if "pi_over s" for s t using that by (rule pi_over_no_step)
qed

lemma mean_of_shares:
  assumes "\<And>j. j < n \<Longrightarrow> data m ! j = real (sample_of (ps j)) / real MONTE_CARLO_ITERS"
  shows "mean m n * 4 = 4 * (\<Sum>i\<leftarrow>[0..<n]. real (sample_of (ps i))) / real (n * MONTE_CARLO_ITERS)"
proof -
  have "map (\<lambda>i. data m ! i) [0..<n] = map (\<lambda>i. real (sample_of (ps i)) * (1 / real MONTE_CARLO_ITERS)) [0..<n]"
    using assms by simp
  then have "sum_list (map (\<lambda>i. data m ! i) [0..<n]) = (\<Sum>i\<leftarrow>[0..<n]. real (sample_of (ps i))) * (1 / real MONTE_CARLO_ITERS)"
    by (simp only: sum_list_mult_const)
  then have "mean m n * 4 = (\<Sum>i\<leftarrow>[0..<n]. real (sample_of (ps i))) * (1 / real MONTE_CARLO_ITERS) / real n * 4"
    by (simp only: mean_def)
  then show ?thesis by simp
qed

lemma mean_bounds:
  assumes "\<And>i. sample_of (ps i) \<le> MONTE_CARLO_ITERS" and "0 < n"
  shows "0 \<le> 4 * (\<Sum>i\<leftarrow>[0..<n]. real (sample_of (ps i))) / real (n * MONTE_CARLO_ITERS)"
    and "4 * (\<Sum>i\<leftarrow>[0..<n]. real (sample_of (ps i))) / real (n * MONTE_CARLO_ITERS) \<le> 4"
proof -
  let ?S = "\<Sum>i\<leftarrow>[0..<n]. real (sample_of (ps i))"
  have "?S \<le> (\<Sum>i\<leftarrow>[0..<n]. real MONTE_CARLO_ITERS)" using assms(1) by (intro sum_list_mono) simp
  then have "?S \<le> real (n * MONTE_CARLO_ITERS)" by (simp add: sum_list_triv)
  moreover have "0 \<le> ?S" by (intro sum_list_nonneg) auto
  ultimately show "0 \<le> 4 * ?S / real (n * MONTE_CARLO_ITERS)" "4 * ?S / real (n * MONTE_CARLO_ITERS) \<le> 4"
    using assms(2) by (simp_all add: divide_le_eq)
qed

text \<open>
  C40: The order of the children does not matter.  However the children run, while the parent forks the others and waits,
  the program ends; and when the parent has printed, the file is the sequence of the lines of all children, eight characters
  each and in the order of their indices, and the printed number is four times the share of all their points that lie inside
  the circle, between 0 and 4: all children have ended before the parent reads what they have written.
\<close>

theorem pi_any_order:
  assumes "\<forall>i. length (ps i) = MONTE_CARLO_ITERS" and "0 < n" and "reach (\<lambda>s. s = pi_start n) (pi_step ps) s"
  shows "wfp (\<lambda>t s. pi_step ps s t) \<and> (\<exists>t. (pi_step ps)\<^sup>*\<^sup>* s t \<and> average t \<noteq> None) \<and>
    (\<forall>v. average s = Some v \<longrightarrow>
      log_file (mem s) = concat (map (\<lambda>i. log_text (sample_of (ps i))) [0..<n]) \<and>
      (\<forall>i < n. length (log_text (sample_of (ps i))) = LOG_LEN) \<and>
      v = 4 * (\<Sum>i\<leftarrow>[0..<n]. real (sample_of (ps i))) / real (n * MONTE_CARLO_ITERS) \<and> 0 \<le> v \<and> v \<le> 4)"
proof -
  have r: "reach (\<lambda>s. points ps \<and> s = pi_start n) (pi_step ps) s" using assms(1,3) by simp
  have I: "pi_inv ps n s" using monte_carlo.reach_inv [OF r] by blast
  note D = pi_invD [OF I] and le = points_le [OF assms(1)]
  have "log_file (mem s) = concat (map (\<lambda>i. log_text (sample_of (ps i))) [0..<n]) \<and>
      v = 4 * (\<Sum>i\<leftarrow>[0..<n]. real (sample_of (ps i))) / real (n * MONTE_CARLO_ITERS)" if "average s = Some v" for v
  proof -
    have c: "children s ! j = Reaped" if "j < n" for j using D(8) [OF \<open>average s = Some v\<close>] D(1) that by simp
    then have "map (\<lambda>j. line j (log_file (mem s))) [0..<n] = map (\<lambda>i. log_text (sample_of (ps i))) [0..<n]"
      using D(7) by (simp add: logged_def)
    then have "log_file (mem s) = concat (map (\<lambda>i. log_text (sample_of (ps i))) [0..<n])"
      by (rule trans [OF lines_concat [OF D(4)] arg_cong [of _ _ concat]])
    moreover have "mean (mem s) n * 4 = 4 * (\<Sum>i\<leftarrow>[0..<n]. real (sample_of (ps i))) / real (n * MONTE_CARLO_ITERS)"
      by (rule mean_of_shares) (use D(6) c in \<open>simp add: stored_def\<close>)
    ultimately show ?thesis using D(8) [OF that] by simp
  qed
  then show ?thesis
    using monte_carlo.no_infinite_run monte_carlo.final_reachable [OF r] length_log_text [OF le] mean_bounds [of ps n, OF le assms(2)]
    unfolding pi_over_def by blast
qed

text \<open>Two children with all points in the middle, the one that was forked first ending last.\<close>

definition middle :: "nat \<Rightarrow> (nat \<times> nat) list" where
  "middle i = replicate MONTE_CARLO_ITERS (0, 0)"

theorem pi_any_order_witness:
  "\<exists>t. reach (\<lambda>s. s = pi_start 2) (pi_step middle) t \<and> average t = Some 4"
proof -
  have r: "reach (\<lambda>s. s = pi_start 2) (pi_step middle) (pi_start 2)" by (rule reach_init) simp
  have p: "\<forall>i. length (middle i) = MONTE_CARLO_ITERS" by (simp add: middle_def)
  obtain t v where t: "(pi_step middle)\<^sup>*\<^sup>* (pi_start 2) t" "average t = Some v"
    using pi_any_order [OF p _ r] by auto
  have rt: "reach (\<lambda>s. s = pi_start 2) (pi_step middle) t" using t(1) r by (induction rule: rtranclp_induct) (auto intro: reach_step)
  have "sample_of (middle i) = MONTE_CARLO_ITERS" for i by (simp add: middle_def sample_of_def inside_def)
  then have "v = 4" using pi_any_order [OF p _ rt] t(2) by (auto simp: numeral_2_eq_2)
  with rt t(2) show ?thesis by blast
qed

end
