(* ===== verification/Spec2Isabelle.thy ===== *)
theory Spec2Isabelle
  imports Calc Udp Poslancy Shop Channel Napoleon Lotto Roulette Cards5 Ship Flood_End Route_File Interrupts Battle Factory Cycle Fifo Children Electors Signs
    Cards6 Aigen Pidsum Board Calka Pi
begin

text \<open>
  The repository holds the programs of a course on operating systems: processes that talk through
  pipes and FIFOs (\<^verbatim>\<open>lab05\<close>), through shared memory with mutexes, semaphores and barriers
  (\<^verbatim>\<open>lab06\<close>), over TCP and local sockets (\<^verbatim>\<open>lab07\<close>) and over UDP
  (\<^verbatim>\<open>lab08\<close>).  Each program is a component of its own; what they share are the copied
  headers.  This theory imports the models of all components.

  \<^bold>\<open>How programs are modelled.\<close>  State is a record, an enumeration a datatype, an array a list; an
  index outside it, a signed overflow or another undefined behaviour of C is the result \<open>Undefined\<close>, a
  call of \<^verbatim>\<open>ERR\<close> or \<^verbatim>\<open>usage\<close> the results \<open>ERR s\<close> and \<open>Usage\<close> (\<open>fatal\<close> in
  \<open>Prelude\<close>).  A sequential program maps its state and the answers of the kernel (scripts of reads and
  writes, results of calls, the values of \<^verbatim>\<open>rand\<close>) to the list of its effects and its result
  (\<open>io\<close>, composed by \<open>seq\<close>).  Statements quantify over the answers, so they hold for every behaviour of
  the other side that their hypotheses admit.  A concurrent program is a step relation, its safety an
  invariant of the reachable states (\<open>reach\<close>, \<open>inv_system\<close>); an event loop is a handler run over a list
  of events (\<open>run_events\<close>, \<open>inv_handler\<close>).

  \<^bold>\<open>Theories.\<close>
  \<^item> \<open>Prelude\<close>: results of calls, early exits, the random generator, array idioms, transition systems.
    \<open>Ctext\<close>: decimal text, \<^verbatim>\<open>atoi\<close>, \<^verbatim>\<open>sscanf\<close> numbers.  \<open>Mutex\<close>: robust
    mutexes and deadlock freedom from a lock order.  \<open>Slots\<close>: tables of descriptors.
  \<^item> \<open>Io\<close>, \<open>Bulk\<close>: \<^verbatim>\<open>lab07/l7/l7_common.h\<close> (copied into every directory of labs 07 and
    08): byte order, sockets, \<^verbatim>\<open>add_new_client\<close>, \<^verbatim>\<open>bulk_read\<close>,
    \<^verbatim>\<open>bulk_write\<close>.  \<open>Pipes\<close>: \<^verbatim>\<open>pipe-utils.h\<close> of lab 05 over the set of
    open descriptors, and the rules for running a program (\<open>yields\<close>, \<open>tells\<close>).
  \<^item> Lab 05: \<open>Lotto\<close>, \<open>Roulette\<close>, \<open>Cards5\<close> (\<^verbatim>\<open>sop-cards\<close>), \<open>Ship\<close>, \<open>Flood\<close> and
    \<open>Flood_End\<close> (\<^verbatim>\<open>generated\<close>), \<open>Routing\<close>,
    \<open>Cascade\<close> and \<open>Route_File\<close> (\<^verbatim>\<open>generated_harder\<close>: the packets over a network
    that carries them at once; the whole program, where a province reads a packet and passes it on in two steps through
    pipes that fill up and break, and its end; what a file means, and that the second refines the first while nobody
    has left), \<open>Interrupts\<close> (the same with signals), \<open>Roncevaux\<close>
    (\<^verbatim>\<open>prelab\<close>: one knight against any answers of the kernel) and \<open>Battle\<close> (both armies),
    \<open>Factory\<close> (\<^verbatim>\<open>sop-factory\<close>), \<open>Cycle\<close> (\<^verbatim>\<open>sop-cycle\<close>),
    \<open>Fifo\<close> (\<^verbatim>\<open>prog21a_s\<close>, \<^verbatim>\<open>prog21b_s\<close>, \<^verbatim>\<open>prog21_c\<close>), \<open>Children\<close>
    (\<^verbatim>\<open>prog22a\<close>, \<^verbatim>\<open>prog22b\<close>).
  \<^item> Lab 06: \<open>Shop\<close> (\<^verbatim>\<open>bitronka\<close>), \<open>Channel\<close>, \<open>Signs\<close> (\<^verbatim>\<open>sop-1\<close>),
    \<open>Cards6\<close> (\<^verbatim>\<open>sop-cards\<close>), \<open>Board\<close> (\<^verbatim>\<open>l6-2\<close>), \<open>Calka\<close>, \<open>Pi\<close>
    (\<^verbatim>\<open>l6-1\<close>).
  \<^item> Lab 07: \<open>Calc\<close> (\<^verbatim>\<open>l7\<close>), \<open>Poslancy\<close>, \<open>Electors\<close> (\<^verbatim>\<open>prelab\<close>), \<open>Aigen\<close>,
    \<open>Pidsum\<close> (\<^verbatim>\<open>pidsumming\<close>).
  \<^item> Lab 08: \<open>Udp\<close> (\<^verbatim>\<open>lab\<close>), \<open>Napoleon\<close>.

  \<^bold>\<open>What the lemmas show.\<close>
  \<^item> Transport: \<^verbatim>\<open>bulk_read\<close> and \<^verbatim>\<open>bulk_write\<close> meet the contracts \<open>bulk_reader\<close>
    and \<open>bulk_writer\<close> for every segmentation; sessions of the calculator and of the digit-sum service
    compute the promised answer end to end; the file transfer of lab 08 delivers an uninterrupted prefix
    under loss, duplication and reordering, never runs ahead, and can complete from every start of client and server.
  \<^item> Servers with clients: the tables of the messengers', the electors' and the match-making server keep
    their invariants over all events, a message does what the protocol says, and the points where an event
    breaks a server are theorems of their own.
  \<^item> Shared memory: under every interleaving and with processes dying anywhere the shop keeps its items,
    cannot deadlock and announces only sorted shelves; the board loses no point, and
    gives one twice only to a client killed between its score and the clearing of the field; the double processor
    never overflows a channel and loses nothing but, in a race, the last piece; the parallel byte counter is
    equivalent to one pass over the file, and the estimate of pi does not depend on the order of the children;
    the counters of the integral are exact, and its counter of processes is worth what \<open>worth\<close> says, up to the
    two races in which the region is closed too early.
  \<^item> Pipes: conservation of cards round the ring, at most one action on a directive that floods a
    graph alone, packets on their routes, games that pay what they owe, a battle that only one army survives,
    letters that each come out of a factory one to four times, the very descriptors that a player and the host of the
    lottery use and keep; provinces on a cycle of a graph that never end (\<open>fed\<close>); files
    that come out of a FIFO as they went in.
  \<^item> Termination: the factory, the ring, the integral, the estimate of pi and the routing network without cycles are
    interpretations of \<open>stopping_system\<close>: a
    measure goes down with every step and no reachable state is stuck before its end.  The ring has this from the
    first end of a process on; before that its number may go round for ever.

  \<^bold>\<open>Bounds and fuel.\<close>  Recursions are structural or have a measure.  The two loops of \<open>Roulette\<close> are
  unbounded in the code: the model takes the number of rounds as fuel, \<open>None\<close> says that it did not
  suffice, and the theorem holds for every fuel.  Loops over events, polls and turns consume the list of
  the kernel's answers, which may be of any length.  Messages of lab 05 are below \<^verbatim>\<open>PIPE_BUF\<close>,
  which makes their transfer atomic.  Words are kept at their width where they are sent or read from the
  wire; counters are integers with the overflow written out (\<open>c_int\<close>, \<open>in_int\<close>).  Floating-point numbers
  (\<open>Calka\<close>, \<open>Pi\<close>) are reals, their rounding is left out.  The machine is little-endian, and
  \<^verbatim>\<open>RAND_MAX\<close> is \<open>2\<^sup>31 - 1\<close>.  Tables whose size the code does not check against its input end in
  \<open>Undefined\<close> as well: a file of more than ten provinces (\<open>net_start\<close>, \<open>cascade_start\<close>), a name that fills its
  array (\<open>Aigen\<close>).

  \<^bold>\<open>Not modelled.\<close>  The programs saved at an earlier stage of the same exercise
  (\<^verbatim>\<open>etapN.c\<close>, \<^verbatim>\<open>e1.c\<close> and so on) and the copies of the header; sleeping, seeding the
  generator, waiting for children (but in \<open>Pi\<close>), \<^verbatim>\<open>/proc\<close>, \<^verbatim>\<open>usage\<close> texts and the creation of shared
  memory objects (their calls are taken to succeed where a component says so); signals in the flooding program; the moments in which the processes of a ring, a
  factory or a battle have not yet closed the pipe ends they inherited.
\<close>

end
